(* ===== verification/Nachos_Prelude.thy ===== *)
theory Nachos_Prelude
  imports Main "HOL-Library.Word"
begin

text \<open>
  The vocabulary every component of the NachOS model shares.

  \<^item> The C++ sources stop in three ways that are not a return: an \<^verbatim>\<open>ASSERT\<close> of
    \<^verbatim>\<open>lib/debug.h\<close> fails and the process aborts, memory is used that the program does not own
    (undefined behaviour), or the host CPU traps.  All of them are values of \<open>fault\<close>, and an
    operation that may stop returns a value of \<open>'a res\<close> (\<open>Inl\<close> the fault).
  \<^item> \<open>andThen\<close> sequences two such operations, \<open>ASSERT\<close> is the macro of the source.
  \<^item> Machine integers keep their width: \<open>u8\<close>, \<open>u16\<close>, \<open>u32\<close>.  C's signed
    division truncates towards zero; \<open>cdiv\<close> and \<open>cmod\<close> write that out.
  \<^item> \<open>repeat_alloc\<close> is the loop ``allocate one slot, n times'' that the file header and the
    address space share.
\<close>

section \<open>Faults and results\<close>

datatype fault =
    Assertion_failed
  | Null_dereference
  | Dangling_pointer
  | Out_of_bounds
  | Uninitialised_read
  | Host_trap

type_synonym 'a res = "fault + 'a"

type_synonym u8 = "8 word"
type_synonym u16 = "16 word"
type_synonym u32 = "32 word"

named_theorems res_simps \<open>unfolding the sequencing of fallible operations\<close>
named_theorems wf_intros \<open>every operation keeps its component's invariant\<close>

definition andThen :: "'e + 'a \<Rightarrow> ('a \<Rightarrow> 'e + 'b) \<Rightarrow> 'e + 'b" where
  "andThen m f = (case m of Inl e \<Rightarrow> Inl e | Inr x \<Rightarrow> f x)"

definition ASSERT :: "bool \<Rightarrow> 'a res \<Rightarrow> 'a res" where
  "ASSERT b k = (if b then k else Inl Assertion_failed)"

lemma andThen_Inr [simp]: "andThen (Inr x) f = f x"
  by (simp add: andThen_def)

lemma andThen_Inl [simp]: "andThen (Inl e) f = Inl e"
  by (simp add: andThen_def)

lemma andThen_eq_Inr [res_simps]: "andThen m f = Inr y \<longleftrightarrow> (\<exists>x. m = Inr x \<and> f x = Inr y)"
  by (cases m) auto

lemma andThen_assoc: "andThen (andThen m f) g = andThen m (\<lambda>x. andThen (f x) g)"
  by (cases m) auto

lemma andThen_cong: "m = m' \<Longrightarrow> (\<And>x. m' = Inr x \<Longrightarrow> f x = g x) \<Longrightarrow> andThen m f = andThen m' g"
  by (cases m') auto

lemma andThen_Inr_id [simp]: "andThen m Inr = m"
  by (cases m) auto

lemma ASSERT_True [simp]: "ASSERT True k = k"
  by (simp add: ASSERT_def)

lemma ASSERT_False [simp]: "ASSERT False k = Inl Assertion_failed"
  by (simp add: ASSERT_def)

lemma ASSERT_eq_Inr [res_simps]: "ASSERT b k = Inr y \<longleftrightarrow> b \<and> k = Inr y"
  by (simp add: ASSERT_def)

section \<open>C integer division\<close>

text \<open>\<^verbatim>\<open>divRoundDown\<close> and \<^verbatim>\<open>divRoundUp\<close> of \<^verbatim>\<open>lib/utility.h\<close> expand to C's \<open>/\<close> and \<open>%\<close>.\<close>

definition cdiv :: "int \<Rightarrow> int \<Rightarrow> int" where
  "cdiv a b = sgn a * sgn b * (\<bar>a\<bar> div \<bar>b\<bar>)"

definition cmod :: "int \<Rightarrow> int \<Rightarrow> int" where
  "cmod a b = a - cdiv a b * b"

definition divRoundDown :: "int \<Rightarrow> int \<Rightarrow> int" where
  "divRoundDown n s = cdiv n s"

definition divRoundUp :: "int \<Rightarrow> int \<Rightarrow> int" where
  "divRoundUp n s = cdiv n s + (if cmod n s > 0 then 1 else 0)"

lemma cdiv_nonneg [simp]: "0 \<le> a \<Longrightarrow> 0 < b \<Longrightarrow> cdiv a b = a div b"
  by (cases "a = 0") (simp_all add: cdiv_def)

lemma cmod_nonneg [simp]: "0 \<le> a \<Longrightarrow> 0 < b \<Longrightarrow> cmod a b = a mod b"
  by (simp add: cmod_def minus_div_mult_eq_mod)

lemma divRoundUp_bounds:
  assumes "0 \<le> n" "0 < s"
  shows "n \<le> divRoundUp n s * s" and "divRoundUp n s * s < n + s" and "0 \<le> divRoundUp n s"
proof -
  define q r where "q = n div s" and "r = n mod s"
  have n: "n = q * s + r" by (simp add: q_def r_def)
  have r: "0 \<le> r" "r < s" and q: "0 \<le> q"
    using assms by (auto simp: q_def r_def pos_imp_zdiv_nonneg_iff)
  have up: "divRoundUp n s = q + (if r > 0 then 1 else 0)"
    using assms by (simp add: divRoundUp_def q_def r_def)
  show "n \<le> divRoundUp n s * s" "divRoundUp n s * s < n + s" "0 \<le> divRoundUp n s"
    unfolding up using n r q by (auto simp: distrib_right)
qed

lemma divRoundUp_covers:
  assumes "0 \<le> i" "i < n" "0 < s"
  shows "i div s < divRoundUp n s"
proof -
  have "i div s * s \<le> i" using assms(3) by (simp add: minus_mod_eq_div_mult [symmetric])
  moreover have "n \<le> divRoundUp n s * s" using assms divRoundUp_bounds(1) by simp
  ultimately have "i div s * s < divRoundUp n s * s" using assms by linarith
  with assms(3) show ?thesis by (simp add: mult_less_cancel_right)
qed

section \<open>Bits of machine words\<close>

text \<open>
  The bit operations of \<^verbatim>\<open>lib/bitmap.cc\<close> on one word: setting, clearing and testing a single bit.
\<close>

unbundle bit_operations_syntax

lemma bit_set_mask:
  "n < 32 \<Longrightarrow> bit (w OR (2::u32) ^ n) k \<longleftrightarrow> bit w k \<or> k = n"
  by (auto simp: bit_simps bit_exp_iff)

lemma bit_clear_mask:
  "n < 32 \<Longrightarrow> bit (w AND NOT ((2::u32) ^ n)) k \<longleftrightarrow> bit w k \<and> k \<noteq> n"
  by (auto simp: bit_simps bit_exp_iff dest: bit_imp_le_length)

lemma test_mask:
  "w AND (2::u32) ^ n \<noteq> 0 \<longleftrightarrow> bit w n"
  by (simp add: bit_iff_and_push_bit_not_eq_0 push_bit_of_1)

section \<open>Counted loops\<close>

text \<open>
  \<open>forRes f is s\<close> is the loop \<^verbatim>\<open>for (i = 0; i < n; i++)\<close> over the indices \<open>is\<close>, its body
  \<open>f i\<close> changing the state and possibly stopping with a fault.
\<close>

fun forRes :: "('i \<Rightarrow> 's \<Rightarrow> 's res) \<Rightarrow> 'i list \<Rightarrow> 's \<Rightarrow> 's res" where
  "forRes f [] s = Inr s"
| "forRes f (i # is) s = andThen (f i s) (\<lambda>s'. forRes f is s')"

lemma forRes_append: "forRes f (is @ js) s = andThen (forRes f is s) (forRes f js)"
  by (induction "is" arbitrary: s) (simp_all add: andThen_assoc cong: andThen_cong)

text \<open>Total correctness of a counted loop: an invariant indexed by the part already done.\<close>

lemma forRes_rule:
  assumes "P [] s"
    and step: "\<And>pre i post s. is = pre @ i # post \<Longrightarrow> P pre s \<Longrightarrow> \<exists>s'. f i s = Inr s' \<and> P (pre @ [i]) s'"
  shows "\<exists>s'. forRes f is s = Inr s' \<and> P is s'"
proof -
  have "\<exists>s'. forRes f post s0 = Inr s' \<and> P is s'" if "is = pre @ post" "P pre s0" for pre post s0
    using that
  proof (induction post arbitrary: pre s0)
    case Nil
    then show ?case by simp
  next
    case (Cons i post)
    obtain s1 where "f i s0 = Inr s1" "P (pre @ [i]) s1"
      using step [OF Cons.prems(1,2)] by blast
    with Cons.IH [of "pre @ [i]" s1] Cons.prems(1) show ?case by simp
  qed
  from this [of "[]" "is" s] assms(1) show ?thesis by simp
qed

section \<open>Repeated allocation\<close>

text \<open>
  \<open>repeat_alloc alloc s n\<close> calls the allocator \<open>alloc\<close> n times, threading its state, and
  collects the slot numbers in order: the body of the loops of \<^verbatim>\<open>FileHeader::Allocate\<close> and of
  the \<^verbatim>\<open>AddrSpace\<close> constructor.
\<close>

fun repeat_alloc :: "('s \<Rightarrow> (int \<times> 's) res) \<Rightarrow> 's \<Rightarrow> nat \<Rightarrow> (int list \<times> 's) res" where
  "repeat_alloc alloc s 0 = Inr ([], s)"
| "repeat_alloc alloc s (Suc n) =
     andThen (alloc s) (\<lambda>(i, s').
     andThen (repeat_alloc alloc s' n) (\<lambda>(is, s'').
     Inr (i # is, s'')))"

section \<open>Arrays of records of one size\<close>

lemma length_concat_const: "\<forall>x\<in>set xs. length (f x) = k \<Longrightarrow> length (concat (map f xs)) = k * length xs"
  by (induction xs) auto

lemma drop_concat_const:
  "\<forall>x\<in>set xs. length (f x) = k \<Longrightarrow> drop (k * i) (concat (map f xs)) = concat (map f (drop i xs))"
proof (induction i arbitrary: xs)
  case (Suc i)
  then show ?case by (cases xs) auto
qed simp

end
