(* ===== verification/Machine.thy ===== *)
theory Machine
  imports Nachos_Prelude
begin

text \<open>
  The simulated hardware seen by user programs: registers and main memory
  (\<^verbatim>\<open>machine/machine.h\<close>, \<^verbatim>\<open>machine.cc\<close>) and address translation (\<^verbatim>\<open>machine/translate.cc\<close>).

  The exception path of the source is a call of \<^verbatim>\<open>ExceptionHandler\<close> from inside
  \<^verbatim>\<open>RaiseException\<close>, after which every caller in the simulator returns at once.  The model
  therefore returns the exception to its caller together with the machine as
  \<^verbatim>\<open>RaiseException\<close> leaves it when it enters the handler.
\<close>

section \<open>Constants, registers, translation entries\<close>

abbreviation (input) PageSize :: nat where "PageSize \<equiv> 512"
abbreviation (input) NumPhysPages :: nat where "NumPhysPages \<equiv> 128"
abbreviation (input) TLBSize :: nat where "TLBSize \<equiv> 4"

definition MemorySize :: nat where
  "MemorySize = NumPhysPages * PageSize"

abbreviation (input) StackReg :: nat where "StackReg \<equiv> 29"
abbreviation (input) RetAddrReg :: nat where "RetAddrReg \<equiv> 31"
abbreviation (input) NumGPRegs :: nat where "NumGPRegs \<equiv> 32"
abbreviation (input) HiReg :: nat where "HiReg \<equiv> 32"
abbreviation (input) LoReg :: nat where "LoReg \<equiv> 33"
abbreviation (input) PCReg :: nat where "PCReg \<equiv> 34"
abbreviation (input) NextPCReg :: nat where "NextPCReg \<equiv> 35"
abbreviation (input) PrevPCReg :: nat where "PrevPCReg \<equiv> 36"
abbreviation (input) LoadReg :: nat where "LoadReg \<equiv> 37"
abbreviation (input) LoadValueReg :: nat where "LoadValueReg \<equiv> 38"
abbreviation (input) BadVAddrReg :: nat where "BadVAddrReg \<equiv> 39"
abbreviation (input) NumTotalRegs :: nat where "NumTotalRegs \<equiv> 40"

datatype ExceptionType =
    NoException | SyscallException | PageFaultException | ReadOnlyException
  | BusErrorException | AddressErrorException | OverflowException | IllegalInstrException
  | NumExceptionTypes

record translation_entry =
  virtualPage :: int
  physicalPage :: int
  valid :: bool
  readOnly :: bool
  te_use :: bool
  dirty :: bool

text \<open>
  \<open>hostBigEndian\<close> is the build flag \<^verbatim>\<open>HOST_IS_BIG_ENDIAN\<close>; \<open>None\<close> for \<open>tlb\<close> and
  \<open>pageTable\<close> is the NULL pointer; \<open>pageTableSize\<close> is a field of its own, as in the source.
\<close>

record machine =
  registers :: "nat \<Rightarrow> u32"
  mainMemory :: "nat \<Rightarrow> u8"
  tlb :: "translation_entry list option"
  pageTable :: "translation_entry list option"
  pageTableSize :: nat
  hostBigEndian :: bool

definition new_Machine :: "bool \<Rightarrow> bool \<Rightarrow> machine" where
  "new_Machine useTLB big =
     \<lparr>registers = (\<lambda>_. 0), mainMemory = (\<lambda>_. 0),
      tlb = (if useTLB then Some (replicate TLBSize
               \<lparr>virtualPage = 0, physicalPage = 0, valid = False, readOnly = False,
                te_use = False, dirty = False\<rparr>) else None),
      pageTable = None, pageTableSize = 0, hostBigEndian = big\<rparr>"

definition ReadRegister :: "machine \<Rightarrow> int \<Rightarrow> u32 res" where
  "ReadRegister m num = ASSERT (num \<ge> 0 \<and> num < int NumTotalRegs) (Inr (registers m (nat num)))"

definition WriteRegister :: "machine \<Rightarrow> int \<Rightarrow> u32 \<Rightarrow> machine res" where
  "WriteRegister m num v =
     ASSERT (num \<ge> 0 \<and> num < int NumTotalRegs)
       (Inr (m\<lparr>registers := (registers m)(nat num := v)\<rparr>))"

text \<open>\<^verbatim>\<open>registers[registers[LoadReg]] = ...\<close>: the index is data, so it is checked.\<close>

definition DelayedLoad :: "machine \<Rightarrow> u32 \<Rightarrow> u32 \<Rightarrow> machine res" where
  "DelayedLoad m nextReg nextValue =
     (let r = unat (registers m LoadReg); f = registers m
      in if r < NumTotalRegs
         then Inr (m\<lparr>registers :=
                (((f(r := f LoadValueReg))(LoadReg := nextReg))(LoadValueReg := nextValue))(0 := 0)\<rparr>)
         else Inl Out_of_bounds)"

definition RaiseException :: "machine \<Rightarrow> ExceptionType \<Rightarrow> u32 \<Rightarrow> machine res" where
  "RaiseException m which badVAddr =
     DelayedLoad (m\<lparr>registers := (registers m)(BadVAddrReg := badVAddr)\<rparr>) 0 0"

section \<open>Byte order\<close>

definition WordToHost :: "bool \<Rightarrow> u32 \<Rightarrow> u32" where
  "WordToHost big word =
     (if big then
        (((drop_bit 24 word AND 0x000000ff)
          OR (drop_bit 8 word AND 0x0000ff00))
         OR (push_bit 8 word AND 0x00ff0000))
        OR (push_bit 24 word AND 0xff000000)
      else word)"

definition ShortToHost :: "bool \<Rightarrow> u16 \<Rightarrow> u16" where
  "ShortToHost big shortword =
     (if big then (push_bit 8 shortword AND 0xff00) OR (drop_bit 8 shortword AND 0x00ff)
      else shortword)"

definition WordToMachine :: "bool \<Rightarrow> u32 \<Rightarrow> u32" where
  "WordToMachine big word = WordToHost big word"

definition ShortToMachine :: "bool \<Rightarrow> u16 \<Rightarrow> u16" where
  "ShortToMachine big shortword = ShortToHost big shortword"

text \<open>Reading and writing an integer of the host through a pointer into \<^verbatim>\<open>mainMemory\<close>.\<close>

definition host_load32 :: "bool \<Rightarrow> (nat \<Rightarrow> u8) \<Rightarrow> nat \<Rightarrow> u32" where
  "host_load32 big mem a =
     (let b = (\<lambda>i. ucast (mem (a + i)) :: u32)
      in if big then push_bit 24 (b 0) OR push_bit 16 (b 1) OR push_bit 8 (b 2) OR b 3
         else b 0 OR push_bit 8 (b 1) OR push_bit 16 (b 2) OR push_bit 24 (b 3))"

definition host_load16 :: "bool \<Rightarrow> (nat \<Rightarrow> u8) \<Rightarrow> nat \<Rightarrow> u16" where
  "host_load16 big mem a =
     (let b = (\<lambda>i. ucast (mem (a + i)) :: u16)
      in if big then push_bit 8 (b 0) OR b 1 else b 0 OR push_bit 8 (b 1))"

definition host_store32 :: "bool \<Rightarrow> (nat \<Rightarrow> u8) \<Rightarrow> nat \<Rightarrow> u32 \<Rightarrow> (nat \<Rightarrow> u8)" where
  "host_store32 big mem a v =
     (let b = (\<lambda>i. ucast (drop_bit (8 * i) v) :: u8)
      in if big then mem(a := b 3, a + 1 := b 2, a + 2 := b 1, a + 3 := b 0)
         else mem(a := b 0, a + 1 := b 1, a + 2 := b 2, a + 3 := b 3))"

definition host_store16 :: "bool \<Rightarrow> (nat \<Rightarrow> u8) \<Rightarrow> nat \<Rightarrow> u16 \<Rightarrow> (nat \<Rightarrow> u8)" where
  "host_store16 big mem a v =
     (let b = (\<lambda>i. ucast (drop_bit (8 * i) v) :: u8)
      in if big then mem(a := b 1, a + 1 := b 0) else mem(a := b 0, a + 1 := b 1))"

section \<open>Translation\<close>

text \<open>The part of \<^verbatim>\<open>Machine::Translate\<close> after the entry is found.\<close>

definition use_entry :: "translation_entry \<Rightarrow> nat \<Rightarrow> nat \<Rightarrow> bool \<Rightarrow>
    (ExceptionType \<times> nat \<times> translation_entry) res" where
  "use_entry entry offset sz writing =
     (if readOnly entry \<and> writing then Inr (ReadOnlyException, 0, entry)
      else let pageFrame = unat (word_of_int (physicalPage entry) :: u32)
           in if pageFrame \<ge> NumPhysPages then Inr (BusErrorException, 0, entry)
              else let entry' = entry\<lparr>te_use := True, dirty := (dirty entry \<or> writing)\<rparr>;
                       physAddr = pageFrame * PageSize + offset
                   in ASSERT (physAddr + sz \<le> MemorySize) (Inr (NoException, physAddr, entry')))"

fun tlb_find :: "translation_entry list \<Rightarrow> int \<Rightarrow> nat \<Rightarrow> nat option" where
  "tlb_find [] vpn i = None"
| "tlb_find (e # es) vpn i =
     (if valid e \<and> virtualPage e = vpn then Some i else tlb_find es vpn (Suc i))"

definition Translate :: "machine \<Rightarrow> u32 \<Rightarrow> nat \<Rightarrow> bool \<Rightarrow> (ExceptionType \<times> nat \<times> machine) res" where
  "Translate m virtAddr sz writing =
     (if (sz = 4 \<and> virtAddr AND 3 \<noteq> 0) \<or> (sz = 2 \<and> virtAddr AND 1 \<noteq> 0)
      then Inr (AddressErrorException, 0, m)
      else
        ASSERT (tlb m = None \<or> pageTable m = None)
       (ASSERT (tlb m \<noteq> None \<or> pageTable m \<noteq> None)
       (let vpn = unat virtAddr div PageSize; offset = unat virtAddr mod PageSize
        in case tlb m of
             None \<Rightarrow>
               (if vpn \<ge> pageTableSize m then Inr (AddressErrorException, 0, m)
                else case pageTable m of
                       None \<Rightarrow> Inl Null_dereference
                     | Some pt \<Rightarrow>
                         if vpn \<ge> length pt then Inl Out_of_bounds
                         else if \<not> valid (pt ! vpn) then Inr (PageFaultException, 0, m)
                         else andThen (use_entry (pt ! vpn) offset sz writing) (\<lambda>(exc, pa, e).
                              Inr (exc, pa, m\<lparr>pageTable := Some (pt[vpn := e])\<rparr>)))
           | Some t \<Rightarrow>
               (case tlb_find t (int vpn) 0 of
                  None \<Rightarrow> Inr (PageFaultException, 0, m)
                | Some i \<Rightarrow> andThen (use_entry (t ! i) offset sz writing) (\<lambda>(exc, pa, e).
                              Inr (exc, pa, m\<lparr>tlb := Some (t[i := e])\<rparr>))))))"

text \<open>
  \<^verbatim>\<open>ReadMem\<close> and \<^verbatim>\<open>WriteMem\<close>.  A byte is read through a \<^verbatim>\<open>char\<close>, which is signed on the
  platforms NachOS builds for, hence the sign extension.
\<close>

definition ReadMem :: "machine \<Rightarrow> u32 \<Rightarrow> nat \<Rightarrow> (ExceptionType \<times> u32 \<times> machine) res" where
  "ReadMem m addr sz =
     andThen (Translate m addr sz False) (\<lambda>(exc, pa, m).
     if exc \<noteq> NoException then andThen (RaiseException m exc addr) (\<lambda>m. Inr (exc, 0, m))
     else if sz = 1 then Inr (NoException, scast (mainMemory m pa), m)
     else if sz = 2 then
       Inr (NoException,
            ucast (ShortToHost (hostBigEndian m) (host_load16 (hostBigEndian m) (mainMemory m) pa)), m)
     else if sz = 4 then
       Inr (NoException,
            WordToHost (hostBigEndian m) (host_load32 (hostBigEndian m) (mainMemory m) pa), m)
     else Inl Assertion_failed)"

definition WriteMem :: "machine \<Rightarrow> u32 \<Rightarrow> nat \<Rightarrow> u32 \<Rightarrow> (ExceptionType \<times> machine) res" where
  "WriteMem m addr sz v =
     andThen (Translate m addr sz True) (\<lambda>(exc, pa, m).
     if exc \<noteq> NoException then andThen (RaiseException m exc addr) (\<lambda>m. Inr (exc, m))
     else if sz = 1 then
       Inr (NoException, m\<lparr>mainMemory := (mainMemory m)(pa := ucast (v AND 0xff))\<rparr>)
     else if sz = 2 then
       Inr (NoException, m\<lparr>mainMemory := host_store16 (hostBigEndian m) (mainMemory m) pa
              (ShortToMachine (hostBigEndian m) (ucast (v AND 0xffff)))\<rparr>)
     else if sz = 4 then
       Inr (NoException, m\<lparr>mainMemory := host_store32 (hostBigEndian m) (mainMemory m) pa
              (WordToMachine (hostBigEndian m) v)\<rparr>)
     else Inl Assertion_failed)"

section \<open>Byte order: the guest always sees little endian\<close>

lemma byte_masks:
  "0xff = (mask 8 :: u32)" "0xff00 = (push_bit 8 (mask 8) :: u32)"
  "0xff0000 = (push_bit 16 (mask 8) :: u32)" "0xff000000 = (push_bit 24 (mask 8) :: u32)"
  "0xffff = (mask 16 :: u32)"
  by (simp_all add: mask_eq_exp_minus_1 push_bit_eq_mult)

lemma short_masks: "0xff = (mask 8 :: u16)" "0xff00 = (push_bit 8 (mask 8) :: u16)"
  by (simp_all add: mask_eq_exp_minus_1 push_bit_eq_mult)

lemma bit_WordToHost:
  "n < 32 \<Longrightarrow> bit (WordToHost True w) n =
     bit w (if n < 8 then n + 24 else if n < 16 then n + 8 else if n < 24 then n - 8 else n - 24)"
  unfolding WordToHost_def byte_masks by (auto simp: bit_simps add.commute)

lemma bit_ShortToHost:
  "n < 16 \<Longrightarrow> bit (ShortToHost True w) n = bit w (if n < 8 then n + 8 else n - 8)"
  unfolding ShortToHost_def short_masks by (auto simp: bit_simps add.commute)

lemma WordToHost_involution: "WordToHost big (WordToHost big w) = w"
  by (cases big) (auto intro!: bit_word_eqI simp: bit_WordToHost WordToHost_def [of False]
     split: if_splits)

lemma bit_host_load32:
  "n < 32 \<Longrightarrow> bit (host_load32 False mem a) n =
     (if n < 8 then bit (mem a) n else if n < 16 then bit (mem (a + 1)) (n - 8)
      else if n < 24 then bit (mem (a + 2)) (n - 16) else bit (mem (a + 3)) (n - 24))"
  "n < 32 \<Longrightarrow> bit (host_load32 True mem a) n =
     (if n < 8 then bit (mem (a + 3)) n else if n < 16 then bit (mem (a + 2)) (n - 8)
      else if n < 24 then bit (mem (a + 1)) (n - 16) else bit (mem a) (n - 24))"
  by (auto simp: host_load32_def bit_simps Let_def dest: bit_imp_le_length)

lemma bit_host_load16:
  "n < 16 \<Longrightarrow> bit (host_load16 False mem a) n =
     (if n < 8 then bit (mem a) n else bit (mem (a + 1)) (n - 8))"
  "n < 16 \<Longrightarrow> bit (host_load16 True mem a) n =
     (if n < 8 then bit (mem (a + 1)) n else bit (mem a) (n - 8))"
  by (auto simp: host_load16_def bit_simps Let_def dest: bit_imp_le_length)

lemma guest_load32: "WordToHost big (host_load32 big mem a) = host_load32 False mem a"
  by (cases big)
     (auto intro!: bit_word_eqI simp: bit_WordToHost bit_host_load32 WordToHost_def [of False]
      split: if_splits)

lemma guest_load16: "ShortToHost big (host_load16 big mem a) = host_load16 False mem a"
  by (cases big)
     (auto intro!: bit_word_eqI simp: bit_ShortToHost bit_host_load16 ShortToHost_def [of False]
      split: if_splits)

lemma bytes_WordToHost:
  "(ucast (WordToHost True w) :: u8) = ucast (drop_bit 24 w)"
  "(ucast (drop_bit 8 (WordToHost True w)) :: u8) = ucast (drop_bit 16 w)"
  "(ucast (drop_bit 16 (WordToHost True w)) :: u8) = ucast (drop_bit 8 w)"
  "(ucast (drop_bit 24 (WordToHost True w)) :: u8) = ucast w"
  by (auto intro!: bit_word_eqI simp: bit_simps bit_WordToHost add.commute)

lemma bytes_ShortToHost:
  "(ucast (ShortToHost True w) :: u8) = ucast (drop_bit 8 w)"
  "(ucast (drop_bit 8 (ShortToHost True w)) :: u8) = ucast w"
  by (auto intro!: bit_word_eqI simp: bit_simps bit_ShortToHost add.commute)

lemma guest_store32: "host_store32 big mem a (WordToMachine big v) = host_store32 False mem a v"
  by (cases big)
     (auto simp: host_store32_def WordToMachine_def bytes_WordToHost WordToHost_def [of False]
        Let_def fun_eq_iff)

lemma guest_store16: "host_store16 big mem a (ShortToMachine big v) = host_store16 False mem a v"
  by (cases big)
     (auto simp: host_store16_def ShortToMachine_def bytes_ShortToHost ShortToHost_def [of False]
        Let_def fun_eq_iff)

lemma load_store32: "host_load32 False (host_store32 False mem a v) a = v"
  by (rule bit_word_eqI) (auto simp: bit_host_load32 host_store32_def Let_def bit_simps)

lemma load_store16: "host_load16 False (host_store16 False mem a v) a = v"
  by (rule bit_word_eqI) (auto simp: bit_host_load16 host_store16_def Let_def bit_simps)

lemma store32_frame: "x < a \<or> a + 4 \<le> x \<Longrightarrow> host_store32 big mem a v x = mem x"
  by (auto simp: host_store32_def Let_def)

lemma store16_frame: "x < a \<or> a + 2 \<le> x \<Longrightarrow> host_store16 big mem a v x = mem x"
  by (auto simp: host_store16_def Let_def)

section \<open>Invariant of the machine and of translation\<close>

definition entries :: "machine \<Rightarrow> translation_entry list" where
  "entries m = (case tlb m of Some t \<Rightarrow> t | None \<Rightarrow> (case pageTable m of Some pt \<Rightarrow> pt | None \<Rightarrow> []))"

text \<open>The physical page frame an entry names, as the hardware reads it (unsigned).\<close>

definition frame_of :: "translation_entry \<Rightarrow> nat" where
  "frame_of e = unat (word_of_int (physicalPage e) :: u32)"

text \<open>What an entry lets a user program write: its frame, if it is valid and not read only.\<close>

definition rights_of :: "translation_entry \<Rightarrow> nat \<times> bool" where
  "rights_of e = (frame_of e, valid e \<and> \<not> readOnly e)"

text \<open>The bytes of main memory that the current table lets a user program write.\<close>

definition writable_bytes :: "machine \<Rightarrow> nat set" where
  "writable_bytes m =
     {x. x < MemorySize \<and> (\<exists>e\<in>set (entries m). rights_of e = (x div PageSize, True))}"

definition table_ok :: "machine \<Rightarrow> bool" where
  "table_ok m \<longleftrightarrow>
     (case (tlb m, pageTable m) of
        (None, Some pt) \<Rightarrow> pageTableSize m = length pt
      | (Some t, None) \<Rightarrow> length t = TLBSize
      | _ \<Rightarrow> False)"

definition machine_ok :: "machine \<Rightarrow> bool" where
  "machine_ok m \<longleftrightarrow> table_ok m \<and> registers m 0 = 0 \<and> unat (registers m LoadReg) < NumGPRegs"

lemma aligned_offset:
  fixes va :: u32
  assumes "sz \<in> {1, 2, 4}" "\<not> ((sz = 4 \<and> va AND 3 \<noteq> 0) \<or> (sz = 2 \<and> va AND 1 \<noteq> 0))"
  shows "unat va mod 512 + sz \<le> 512"
proof -
  have "va AND 3 = take_bit 2 va" "va AND 1 = take_bit 1 va"
    by (simp_all add: take_bit_eq_mask mask_eq_exp_minus_1)
  then have "sz = 4 \<Longrightarrow> unat va mod 4 = 0" "sz = 2 \<Longrightarrow> unat va mod 2 = 0"
    using assms(2) by (simp_all add: unat_eq_0 [symmetric] take_bit_eq_mod unat_mod)
  then have "sz = 4 \<Longrightarrow> (unat va mod 512) mod 4 = 0" "sz = 2 \<Longrightarrow> (unat va mod 512) mod 2 = 0"
    by (simp_all add: mod_mod_cancel)
  moreover have "unat va mod 512 < 512" by simp
  moreover have "sz = 1 \<or> sz = 2 \<or> sz = 4" using assms(1) by auto
  ultimately show ?thesis
    by (auto elim!: dvdE simp: mod_eq_0_iff_dvd)
qed

lemma use_entry_spec:
  assumes "offset + sz \<le> PageSize"
  shows "\<exists>exc pa e'. use_entry e offset sz w = Inr (exc, pa, e') \<and>
           frame_of e' = frame_of e \<and> virtualPage e' = virtualPage e \<and> valid e' = valid e \<and>
           readOnly e' = readOnly e \<and>
           (exc = NoException \<longrightarrow> frame_of e < NumPhysPages \<and> pa = frame_of e * PageSize + offset \<and>
              (readOnly e \<longrightarrow> \<not> w))"
proof -
  have "frame_of e < 128 \<Longrightarrow> frame_of e * 512 + offset + sz \<le> MemorySize"
    using assms by (simp add: MemorySize_def)
  then show ?thesis
    by (auto simp: use_entry_def frame_of_def Let_def ASSERT_def)
qed

lemma tlb_find_Some:
  "tlb_find t v i = Some j \<Longrightarrow>
     i \<le> j \<and> j - i < length t \<and> valid (t ! (j - i)) \<and> virtualPage (t ! (j - i)) = v"
proof (induction t v i rule: tlb_find.induct)
  case (2 e es v i)
  show ?case
  proof (cases "valid e \<and> virtualPage e = v")
    case False
    with 2 have "i < j \<and> j - Suc i < length es \<and> valid (es ! (j - Suc i)) \<and>
        virtualPage (es ! (j - Suc i)) = v" by auto
    then show ?thesis by (auto simp: nth_Cons')
  qed (use 2 in auto)
qed simp

lemma tlb_find_update:
  "tlb_find t v i = Some j \<Longrightarrow> virtualPage e = virtualPage (t ! (j - i)) \<Longrightarrow>
     valid e = valid (t ! (j - i)) \<Longrightarrow> tlb_find (t[j - i := e]) v i = Some j"
proof (induction t v i rule: tlb_find.induct)
  case (2 e' es v i)
  then show ?case
  proof (cases "valid e' \<and> virtualPage e' = v")
    case False
    with 2 have j: "tlb_find es v (Suc i) = Some j" by simp
    with tlb_find_Some [OF j] have "j - i = Suc (j - Suc i)" by arith
    with j False 2 show ?thesis by auto
  qed auto
qed simp

text \<open>
  Everything a translation can do on a well-formed table: it never leaves the table or trips an
  assertion, it keeps registers, memory and the frames named by the table, and a success is an
  address inside one frame of the table.
\<close>

lemma Translate_spec:
  assumes ok: "table_ok m" and sz: "sz \<in> {1, 2, 4}"
  obtains exc pa m' where "Translate m va sz w = Inr (exc, pa, m')"
    "registers m' = registers m" "mainMemory m' = mainMemory m" "table_ok m'"
    "hostBigEndian m' = hostBigEndian m"
    "map rights_of (entries m') = map rights_of (entries m)"
    "exc = NoException \<longrightarrow> unat va mod PageSize + sz \<le> PageSize \<and>
       (\<exists>e\<in>set (entries m). frame_of e < NumPhysPages \<and> valid e \<and> (readOnly e \<longrightarrow> \<not> w) \<and>
          pa = frame_of e * PageSize + unat va mod PageSize)"
proof (cases "(sz = 4 \<and> va AND 3 \<noteq> 0) \<or> (sz = 2 \<and> va AND 1 \<noteq> 0)")
  case True
  then have "Translate m va sz w = Inr (AddressErrorException, 0, m)" by (simp add: Translate_def)
  with ok that show thesis by auto
next
  case False
  from aligned_offset [OF sz False] have fit: "unat va mod 512 + sz \<le> 512" .
  note T = Translate_def Let_def False
  show thesis
  proof (cases "tlb m")
    case None
    with ok obtain pt where pt: "pageTable m = Some pt" "pageTableSize m = length pt"
      by (auto simp: table_ok_def split: option.splits)
    let ?v = "unat va div 512"
    show thesis
    proof (cases "?v < length pt \<and> valid (pt ! ?v)")
      case True
      obtain exc pa e' where u: "use_entry (pt ! ?v) (unat va mod 512) sz w = Inr (exc, pa, e')"
         "rights_of e' = rights_of (pt ! ?v)"
         "exc = NoException \<longrightarrow> frame_of (pt ! ?v) < 128 \<and>
            pa = frame_of (pt ! ?v) * 512 + unat va mod 512 \<and> (readOnly (pt ! ?v) \<longrightarrow> \<not> w)"
        using use_entry_spec [OF fit, of "pt ! ?v" w] by (auto simp: rights_of_def)
      let ?m = "m\<lparr>pageTable := Some (pt[?v := e'])\<rparr>"
      have "Translate m va sz w = Inr (exc, pa, ?m)"
        using True None pt u(1) by (simp add: T)
      moreover have "map rights_of (entries ?m) = map rights_of (entries m)"
        using None pt u(2) by (simp add: entries_def map_update list_update_same_conv True)
      moreover have "exc = NoException \<longrightarrow> unat va mod 512 + sz \<le> 512 \<and>
          (\<exists>e\<in>set (entries m). frame_of e < 128 \<and> valid e \<and> (readOnly e \<longrightarrow> \<not> w) \<and>
             pa = frame_of e * 512 + unat va mod 512)"
        using None pt nth_mem [of ?v pt] True u(3) fit by (auto simp: entries_def)
      ultimately show thesis
        using None pt by (intro that [of exc pa ?m]) (simp_all add: table_ok_def)
    next
      case False
      then have "Translate m va sz w =
          Inr (if ?v < length pt then PageFaultException else AddressErrorException, 0, m)"
        using None pt by (auto simp: T)
      with ok show thesis by (intro that) (auto split: if_splits)
    qed
  next
    case (Some t)
    with ok have t: "pageTable m = None" by (auto simp: table_ok_def split: option.splits)
    show thesis
    proof (cases "tlb_find t (int (unat va div 512)) 0")
      case None
      then have "Translate m va sz w = Inr (PageFaultException, 0, m)"
        using Some t by (simp add: T)
      with ok show thesis by (intro that) auto
    next
      case (Some i)
      with tlb_find_Some [OF Some] have i: "i < length t" and v: "valid (t ! i)" by simp_all
      obtain exc pa e' where u: "use_entry (t ! i) (unat va mod 512) sz w = Inr (exc, pa, e')"
         "rights_of e' = rights_of (t ! i)"
         "exc = NoException \<longrightarrow> frame_of (t ! i) < 128 \<and>
            pa = frame_of (t ! i) * 512 + unat va mod 512 \<and> (readOnly (t ! i) \<longrightarrow> \<not> w)"
        using use_entry_spec [OF fit, of "t ! i" w] by (auto simp: rights_of_def)
      let ?m = "m\<lparr>tlb := Some (t[i := e'])\<rparr>"
      have "Translate m va sz w = Inr (exc, pa, ?m)"
        using \<open>tlb m = Some t\<close> Some t u(1) by (simp add: T)
      moreover have "map rights_of (entries ?m) = map rights_of (entries m)"
        using \<open>tlb m = Some t\<close> u(2) i by (simp add: entries_def map_update list_update_same_conv)
      moreover have "exc = NoException \<longrightarrow> unat va mod 512 + sz \<le> 512 \<and>
          (\<exists>e\<in>set (entries m). frame_of e < 128 \<and> valid e \<and> (readOnly e \<longrightarrow> \<not> w) \<and>
             pa = frame_of e * 512 + unat va mod 512)"
        using \<open>tlb m = Some t\<close> nth_mem [OF i] v u(3) fit by (auto simp: entries_def)
      ultimately show thesis
        using \<open>tlb m = Some t\<close> t ok by (intro that [of exc pa ?m]) (simp_all add: table_ok_def)
    qed
  qed
qed

text \<open>\<open>keeps m m'\<close>: what every machine operation keeps of the machine.\<close>

definition keeps :: "machine \<Rightarrow> machine \<Rightarrow> bool" where
  "keeps m m' \<longleftrightarrow> table_ok m' \<and> hostBigEndian m' = hostBigEndian m \<and>
     map rights_of (entries m') = map rights_of (entries m) \<and>
     (\<forall>x. x \<notin> writable_bytes m \<longrightarrow> mainMemory m' x = mainMemory m x)"

lemma writable_bytes_cong:
  assumes "map rights_of (entries m') = map rights_of (entries m)"
  shows "writable_bytes m' = writable_bytes m"
proof -
  have "rights_of ` set (entries m') = rights_of ` set (entries m)"
    using arg_cong [OF assms, of set] by simp
  then have "(\<exists>e\<in>set (entries m'). rights_of e = y) \<longleftrightarrow> (\<exists>e\<in>set (entries m). rights_of e = y)" for y
    by (metis (no_types) imageE imageI)
  then show ?thesis by (simp add: writable_bytes_def)
qed

lemma keeps_refl: "table_ok m \<Longrightarrow> keeps m m"
  by (simp add: keeps_def)

lemma keeps_trans: "keeps m m' \<Longrightarrow> keeps m' m'' \<Longrightarrow> keeps m m''"
  by (auto simp: keeps_def dest: writable_bytes_cong)

lemma entries_registers [simp]: "entries (m\<lparr>registers := f\<rparr>) = entries m"
  by (simp add: entries_def cong: option.case_cong)

lemma entries_memory [simp]: "entries (m\<lparr>mainMemory := f\<rparr>) = entries m"
  by (simp add: entries_def cong: option.case_cong)

lemma table_ok_registers [simp]: "table_ok (m\<lparr>registers := f\<rparr>) = table_ok m"
  by (simp add: table_ok_def cong: option.case_cong)

lemma table_ok_memory [simp]: "table_ok (m\<lparr>mainMemory := f\<rparr>) = table_ok m"
  by (simp add: table_ok_def cong: option.case_cong)

lemma keeps_registers [simp]: "keeps m (m'\<lparr>registers := f\<rparr>) = keeps m m'"
  by (simp add: keeps_def)

lemma keeps_registers_left [simp]: "keeps (m\<lparr>registers := f\<rparr>) m' = keeps m m'"
  by (simp add: keeps_def writable_bytes_def)

lemma DelayedLoad_ok:
  assumes "unat (registers m LoadReg) < NumGPRegs" "table_ok m" "unat nr < NumGPRegs"
  shows "\<exists>m'. DelayedLoad m nr v = Inr m' \<and> machine_ok m' \<and> keeps m m' \<and>
            mainMemory m' = mainMemory m \<and> (\<forall>r\<in>{32..36} \<union> {39}. registers m' r = registers m r)"
  using assms by (auto simp: DelayedLoad_def machine_ok_def Let_def keeps_refl)

lemma RaiseException_ok:
  assumes "unat (registers m LoadReg) < NumGPRegs" "table_ok m"
  shows "\<exists>m'. RaiseException m exc bad = Inr m' \<and> machine_ok m' \<and> keeps m m' \<and>
            mainMemory m' = mainMemory m \<and> (\<forall>r\<in>{32..36}. registers m' r = registers m r)"
  using DelayedLoad_ok [of "m\<lparr>registers := (registers m)(BadVAddrReg := bad)\<rparr>" 0 0] assms
  by (auto simp: RaiseException_def)

text \<open>
  A machine operation that may trap, seen from the simulator: it stops with an exception and a
  well-formed machine, or it goes on with the registers unchanged.
\<close>

lemma ReadMem_ok:
  assumes ok: "machine_ok m" and sz: "sz \<in> {1, 2, 4}"
  obtains exc v m' where "ReadMem m va sz = Inr (exc, v, m')" "machine_ok m'" "keeps m m'"
    "mainMemory m' = mainMemory m" "exc = NoException \<longrightarrow> registers m' = registers m"
    "\<forall>r\<in>{32..36}. registers m' r = registers m r"
proof -
  obtain exc pa m1 where t: "Translate m va sz False = Inr (exc, pa, m1)"
    "registers m1 = registers m" "mainMemory m1 = mainMemory m" "table_ok m1"
    "hostBigEndian m1 = hostBigEndian m" "map rights_of (entries m1) = map rights_of (entries m)"
    using Translate_spec [of m sz va False] ok sz by (metis machine_ok_def)
  have k: "keeps m m1" using t by (simp add: keeps_def)
  show thesis
  proof (cases "exc = NoException")
    case True
    with t sz obtain v where "ReadMem m va sz = Inr (NoException, v, m1)"
      by (auto simp: ReadMem_def)
    with t k ok show thesis by (intro that [of NoException v m1]) (auto simp: machine_ok_def)
  next
    case False
    obtain m2 where "RaiseException m1 exc va = Inr m2" "machine_ok m2" "keeps m1 m2"
        "mainMemory m2 = mainMemory m1" "\<forall>r\<in>{32..36}. registers m2 r = registers m1 r"
      using RaiseException_ok [of m1 exc va] t ok by (auto simp: machine_ok_def)
    with t k False show thesis
      by (intro that [of exc 0 m2]) (auto simp: ReadMem_def intro: keeps_trans)
  qed
qed

lemma store_keeps:
  assumes "table_ok m1" "hostBigEndian m1 = hostBigEndian m"
    "map rights_of (entries m1) = map rights_of (entries m)"
    "\<And>x. x \<notin> writable_bytes m \<Longrightarrow> f x = mainMemory m x"
  shows "keeps m (m1\<lparr>mainMemory := f\<rparr>)"
  using assms by (simp add: keeps_def)

lemma in_frame_writable:
  assumes "e \<in> set (entries m)" "frame_of e < NumPhysPages" "valid e \<and> \<not> readOnly e" "offset + sz \<le> PageSize"
    and "pa = frame_of e * PageSize + offset" "pa \<le> x" "x < pa + sz"
  shows "x \<in> writable_bytes m"
proof -
  have "x div 512 = frame_of e"
    using assms(4-7) by (intro div_nat_eqI) auto
  moreover have "x < MemorySize" using assms(2-7) by (simp add: MemorySize_def)
  ultimately show ?thesis using assms(1,3) by (auto simp: writable_bytes_def rights_of_def)
qed

lemma WriteMem_ok:
  assumes ok: "machine_ok m" and sz: "sz \<in> {1, 2, 4}"
  obtains exc m' where "WriteMem m va sz v = Inr (exc, m')" "machine_ok m'" "keeps m m'"
    "exc = NoException \<longrightarrow> registers m' = registers m"
    "\<forall>r\<in>{32..36}. registers m' r = registers m r"
proof -
  obtain exc pa m1 where t: "Translate m va sz True = Inr (exc, pa, m1)"
    "registers m1 = registers m" "mainMemory m1 = mainMemory m" "table_ok m1"
    "hostBigEndian m1 = hostBigEndian m" "map rights_of (entries m1) = map rights_of (entries m)"
    "exc = NoException \<longrightarrow> unat va mod PageSize + sz \<le> PageSize \<and>
       (\<exists>e\<in>set (entries m). frame_of e < NumPhysPages \<and> valid e \<and> (readOnly e \<longrightarrow> \<not> True) \<and>
          pa = frame_of e * PageSize + unat va mod PageSize)"
    using Translate_spec [of m sz va True] ok sz by (metis machine_ok_def)
  have k: "keeps m m1" using t by (simp add: keeps_def)
  show thesis
  proof (cases "exc = NoException")
    case True
    with t obtain e where e: "e \<in> set (entries m)" "frame_of e < 128"
      "valid e \<and> \<not> readOnly e" "unat va mod 512 + sz \<le> 512" "pa = frame_of e * 512 + unat va mod 512"
      by auto
    have out: "x < pa \<or> pa + sz \<le> x" if "x \<notin> writable_bytes m" for x
      using in_frame_writable [OF e, of x] that by (meson not_le)
    define f where "f = (if sz = 1 then (mainMemory m1)(pa := ucast (v AND 0xff))
        else if sz = 2 then host_store16 (hostBigEndian m1) (mainMemory m1) pa
               (ShortToMachine (hostBigEndian m1) (ucast (v AND 0xffff)))
        else host_store32 (hostBigEndian m1) (mainMemory m1) pa (WordToMachine (hostBigEndian m1) v))"
    from True t(1) sz have w: "WriteMem m va sz v = Inr (NoException, m1\<lparr>mainMemory := f\<rparr>)"
      by (auto simp: WriteMem_def f_def)
    have f: "f x = mainMemory m1 x" if "x < pa \<or> pa + sz \<le> x" for x
      using that sz by (auto simp: f_def store16_frame store32_frame)
    from f out t(3) have "f x = mainMemory m x" if "x \<notin> writable_bytes m" for x
      using that by metis
    then have "keeps m (m1\<lparr>mainMemory := f\<rparr>)" using t by (intro store_keeps) auto
    with w t ok show thesis by (intro that) (auto simp: machine_ok_def)
  next
    case False
    obtain m2 where "RaiseException m1 exc va = Inr m2" "machine_ok m2" "keeps m1 m2"
        "\<forall>r\<in>{32..36}. registers m2 r = registers m1 r"
      using RaiseException_ok [of m1 exc va] t ok by (auto simp: machine_ok_def)
    with t k False show thesis
      by (intro that [of exc m2]) (auto simp: WriteMem_def intro: keeps_trans)
  qed
qed

section \<open>Translation and memory access are safe and faithful\<close>

definition sample_machine :: machine where
  "sample_machine = (new_Machine False False)
     \<lparr>pageTable := Some [\<lparr>virtualPage = 0, physicalPage = 5, valid = True, readOnly = False,
                          te_use = False, dirty = False\<rparr>,
                         \<lparr>virtualPage = 1, physicalPage = 2, valid = True, readOnly = True,
                          te_use = False, dirty = False\<rparr>],
      pageTableSize := 2\<rparr>"

lemma sample_machine_ok: "machine_ok sample_machine"
  by (simp add: sample_machine_def new_Machine_def machine_ok_def table_ok_def)

text \<open>
  Property C16.  On a well-formed table \<^verbatim>\<open>Translate\<close> never leaves the table and never trips an
  assertion; a translation that succeeds for an access of \<open>sz\<close> bytes yields a physical range that
  lies inside main memory and inside a single frame, which a valid entry of the table names, and
  that entry is not read only when the access is a write.
\<close>

theorem Translate_safe:
  assumes "table_ok m" "sz \<in> {1, 2, 4}"
  shows "\<exists>exc pa m'. Translate m va sz w = Inr (exc, pa, m') \<and> table_ok m' \<and>
           (exc = NoException \<longrightarrow>
              pa + sz \<le> MemorySize \<and> pa div PageSize = (pa + sz - 1) div PageSize \<and>
              (\<exists>e\<in>set (entries m). frame_of e = pa div PageSize \<and> valid e \<and> (w \<longrightarrow> \<not> readOnly e)))"
proof -
  obtain exc pa m' where t: "Translate m va sz w = Inr (exc, pa, m')" "table_ok m'"
    "exc = NoException \<longrightarrow> unat va mod PageSize + sz \<le> PageSize \<and>
       (\<exists>e\<in>set (entries m). frame_of e < NumPhysPages \<and> valid e \<and> (readOnly e \<longrightarrow> \<not> w) \<and>
          pa = frame_of e * PageSize + unat va mod PageSize)"
    using Translate_spec [OF assms] by metis
  show ?thesis
  proof (intro exI conjI impI)
    show "Translate m va sz w = Inr (exc, pa, m')" "table_ok m'" by fact+
    assume "exc = NoException"
    with t(3) obtain e where e: "e \<in> set (entries m)" "frame_of e < 128" "valid e"
      "w \<longrightarrow> \<not> readOnly e" "pa = frame_of e * 512 + unat va mod 512" "unat va mod 512 + sz \<le> 512"
      by auto
    then show "pa + sz \<le> MemorySize" by (simp add: MemorySize_def)
    have d: "pa div 512 = frame_of e" "(pa + sz - 1) div 512 = frame_of e"
      using e(5,6) assms(2) by (auto intro!: div_nat_eqI)
    then show "pa div 512 = (pa + sz - 1) div 512" by simp
    show "\<exists>e\<in>set (entries m). frame_of e = pa div 512 \<and> valid e \<and> (w \<longrightarrow> \<not> readOnly e)"
      using e d by auto
  qed
qed

theorem Translate_safe_witness:
  "\<exists>m'. Translate sample_machine 8 4 True = Inr (NoException, 2568, m') \<and> table_ok m' \<and>
     2568 + 4 \<le> MemorySize"
  using Translate_safe [of sample_machine 4 8 True] sample_machine_ok
  by (simp add: machine_ok_def sample_machine_def Translate_def new_Machine_def use_entry_def
      MemorySize_def Let_def)

lemma use_entry_again:
  assumes "use_entry e offset sz True = Inr (NoException, pa, e')"
  shows "\<exists>e''. use_entry e' offset sz False = Inr (NoException, pa, e'')"
    and "virtualPage e' = virtualPage e" "valid e' = valid e"
  using assms by (auto simp: use_entry_def Let_def res_simps split: if_splits)

lemma Translate_again:
  assumes ok: "table_ok m" and sz: "sz \<in> {1, 2, 4}"
    and t: "Translate m va sz True = Inr (NoException, pa, m1)"
  shows "\<exists>m2. Translate (m1\<lparr>mainMemory := f\<rparr>) va sz False = Inr (NoException, pa, m2) \<and>
           mainMemory m2 = f \<and> hostBigEndian m2 = hostBigEndian m1"
proof -
  let ?v = "unat va div 512" and ?o = "unat va mod 512"
  have al: "\<not> ((sz = 4 \<and> va AND 3 \<noteq> 0) \<or> (sz = 2 \<and> va AND 1 \<noteq> 0))"
  proof
    assume "(sz = 4 \<and> va AND 3 \<noteq> 0) \<or> (sz = 2 \<and> va AND 1 \<noteq> 0)"
    then have "Translate m va sz True = Inr (AddressErrorException, 0, m)"
      unfolding Translate_def by (rule if_P)
    with t show False by simp
  qed
  show ?thesis
  proof (cases "tlb m")
    case None
    with ok obtain pt where pt: "pageTable m = Some pt" "pageTableSize m = length pt"
      by (auto simp: table_ok_def split: option.splits)
    with None t al obtain e' where e: "?v < length pt" "valid (pt ! ?v)"
      "use_entry (pt ! ?v) ?o sz True = Inr (NoException, pa, e')"
      "m1 = m\<lparr>pageTable := Some (pt[?v := e'])\<rparr>"
      by (auto simp: Translate_def Let_def res_simps split: if_splits)
    note again = use_entry_again [OF e(3)]
    with None pt al e(1,2,4) show ?thesis by (auto simp: Translate_def Let_def)
  next
    case (Some tt)
    with ok have pt: "pageTable m = None" by (auto simp: table_ok_def split: option.splits)
    with t Some al obtain i e' where i: "tlb_find tt (int ?v) 0 = Some i"
      "use_entry (tt ! i) ?o sz True = Inr (NoException, pa, e')" "m1 = m\<lparr>tlb := Some (tt[i := e'])\<rparr>"
      by (auto simp: Translate_def Let_def res_simps split: option.splits)
    note again = use_entry_again [OF i(2)]
    with tlb_find_update [OF i(1), of e'] have "tlb_find (tt[i := e']) (int ?v) 0 = Some i" by simp
    with tlb_find_Some [OF i(1)] Some pt al i(3) again(1) show ?thesis
      by (auto simp: Translate_def Let_def)
  qed
qed

lemma ucast_low_bits:
  "(ucast (v AND 0xff :: u32) :: u8) = ucast v" "(ucast (ucast (v AND 0xffff :: u32) :: u16) :: u32) = v AND 0xffff"
  unfolding byte_masks by (rule bit_word_eqI; auto simp: bit_simps)+

text \<open>
  Property C9.  A word, half word or byte that \<^verbatim>\<open>WriteMem\<close> stored is what \<^verbatim>\<open>ReadMem\<close> then reads
  at the same virtual address (a byte sign extended), whatever the byte order of the host, through
  the page table or through the TLB.
\<close>

theorem WriteMem_ReadMem:
  assumes ok: "table_ok m" and sz: "sz \<in> {1, 2, 4}"
    and w: "WriteMem m va sz v = Inr (NoException, m')"
  shows "\<exists>m''. ReadMem m' va sz =
           Inr (NoException,
                if sz = 1 then scast (ucast v :: u8) else if sz = 2 then v AND 0xffff else v, m'')"
proof -
  obtain pa m1 where t: "Translate m va sz True = Inr (NoException, pa, m1)"
    using w by (auto simp: WriteMem_def res_simps split: if_splits)
  define f where "f = (if sz = 1 then (mainMemory m1)(pa := ucast v)
      else if sz = 2 then host_store16 False (mainMemory m1) pa (ucast (v AND 0xffff))
      else host_store32 False (mainMemory m1) pa v)"
  have m': "m' = m1\<lparr>mainMemory := f\<rparr>"
    using w t sz by (auto simp: WriteMem_def f_def guest_store16 guest_store32 ucast_low_bits)
  obtain m2 where "Translate m' va sz False = Inr (NoException, pa, m2)" "mainMemory m2 = f"
    using Translate_again [OF ok sz t] unfolding m' by blast
  then show ?thesis
    using sz by (auto simp: ReadMem_def guest_load32 guest_load16 f_def load_store32 load_store16
        ucast_low_bits)
qed

theorem WriteMem_ReadMem_witness:
  "\<exists>m' m''. WriteMem sample_machine 8 4 0x12345678 = Inr (NoException, m') \<and>
     ReadMem m' 8 4 = Inr (NoException, 0x12345678, m'')"
proof -
  obtain m' where w: "WriteMem sample_machine 8 4 0x12345678 = Inr (NoException, m')"
    by (simp add: WriteMem_def sample_machine_def Translate_def new_Machine_def use_entry_def
      MemorySize_def Let_def)
  moreover have "table_ok sample_machine" using sample_machine_ok by (simp add: machine_ok_def)
  ultimately show ?thesis using WriteMem_ReadMem [OF _ _ w] by auto
qed

end
