(* ===== verification/Mips.thy ===== *)
theory Mips
  imports Machine
begin

text \<open>
  The MIPS R2/3000 simulator, \<^verbatim>\<open>machine/mipssim.h\<close> and \<^verbatim>\<open>machine/mipssim.cc\<close>: instruction decoding,
  the multiplier and the execution of one instruction, as built with \<^verbatim>\<open>-DSIM_FIX\<close> (the flag the
  Makefiles set).  Shifts of C's signed \<^verbatim>\<open>int\<close> to the right are arithmetic (\<open>signed_drop_bit\<close>);
  the printing of instructions under the debug flag \<^verbatim>\<open>m\<close> is left out.
\<close>

section \<open>Opcodes and decoding tables\<close>

datatype opcode =
    OP_ADD | OP_ADDI | OP_ADDIU | OP_ADDU | OP_AND | OP_ANDI | OP_BEQ | OP_BGEZ | OP_BGEZAL
  | OP_BGTZ | OP_BLEZ | OP_BLTZ | OP_BLTZAL | OP_BNE | OP_DIV | OP_DIVU | OP_J | OP_JAL | OP_JALR
  | OP_JR | OP_LB | OP_LBU | OP_LH | OP_LHU | OP_LUI | OP_LW | OP_LWL | OP_LWR | OP_MFHI | OP_MFLO
  | OP_MTHI | OP_MTLO | OP_MULT | OP_MULTU | OP_NOR | OP_OR | OP_ORI | OP_RFE | OP_SB | OP_SH
  | OP_SLL | OP_SLLV | OP_SLT | OP_SLTI | OP_SLTIU | OP_SLTU | OP_SRA | OP_SRAV | OP_SRL | OP_SRLV
  | OP_SUB | OP_SUBU | OP_SW | OP_SWL | OP_SWR | OP_XOR | OP_XORI | OP_SYSCALL | OP_UNIMP | OP_RES
  | SPECIAL | BCOND

datatype format = IFMT | JFMT | RFMT

definition opTable :: "(opcode \<times> format) list" where
  "opTable =
    [(SPECIAL, RFMT), (BCOND, IFMT), (OP_J, JFMT), (OP_JAL, JFMT),
     (OP_BEQ, IFMT), (OP_BNE, IFMT), (OP_BLEZ, IFMT), (OP_BGTZ, IFMT),
     (OP_ADDI, IFMT), (OP_ADDIU, IFMT), (OP_SLTI, IFMT), (OP_SLTIU, IFMT),
     (OP_ANDI, IFMT), (OP_ORI, IFMT), (OP_XORI, IFMT), (OP_LUI, IFMT),
     (OP_UNIMP, IFMT), (OP_UNIMP, IFMT), (OP_UNIMP, IFMT), (OP_UNIMP, IFMT),
     (OP_RES, IFMT), (OP_RES, IFMT), (OP_RES, IFMT), (OP_RES, IFMT),
     (OP_RES, IFMT), (OP_RES, IFMT), (OP_RES, IFMT), (OP_RES, IFMT),
     (OP_RES, IFMT), (OP_RES, IFMT), (OP_RES, IFMT), (OP_RES, IFMT),
     (OP_LB, IFMT), (OP_LH, IFMT), (OP_LWL, IFMT), (OP_LW, IFMT),
     (OP_LBU, IFMT), (OP_LHU, IFMT), (OP_LWR, IFMT), (OP_RES, IFMT),
     (OP_SB, IFMT), (OP_SH, IFMT), (OP_SWL, IFMT), (OP_SW, IFMT),
     (OP_RES, IFMT), (OP_RES, IFMT), (OP_SWR, IFMT), (OP_RES, IFMT),
     (OP_UNIMP, IFMT), (OP_UNIMP, IFMT), (OP_UNIMP, IFMT), (OP_UNIMP, IFMT),
     (OP_RES, IFMT), (OP_RES, IFMT), (OP_RES, IFMT), (OP_RES, IFMT),
     (OP_UNIMP, IFMT), (OP_UNIMP, IFMT), (OP_UNIMP, IFMT), (OP_UNIMP, IFMT),
     (OP_RES, IFMT), (OP_RES, IFMT), (OP_RES, IFMT), (OP_RES, IFMT)]"

definition specialTable :: "opcode list" where
  "specialTable =
    [OP_SLL, OP_RES, OP_SRL, OP_SRA, OP_SLLV, OP_RES, OP_SRLV, OP_SRAV,
     OP_JR, OP_JALR, OP_RES, OP_RES, OP_SYSCALL, OP_UNIMP, OP_RES, OP_RES,
     OP_MFHI, OP_MTHI, OP_MFLO, OP_MTLO, OP_RES, OP_RES, OP_RES, OP_RES,
     OP_MULT, OP_MULTU, OP_DIV, OP_DIVU, OP_RES, OP_RES, OP_RES, OP_RES,
     OP_ADD, OP_ADDU, OP_SUB, OP_SUBU, OP_AND, OP_OR, OP_XOR, OP_NOR,
     OP_RES, OP_RES, OP_SLT, OP_SLTU, OP_RES, OP_RES, OP_RES, OP_RES,
     OP_RES, OP_RES, OP_RES, OP_RES, OP_RES, OP_RES, OP_RES, OP_RES,
     OP_RES, OP_RES, OP_RES, OP_RES, OP_RES, OP_RES, OP_RES, OP_RES]"

record instruction =
  opCode :: opcode
  rs :: nat
  rt :: nat
  rd :: nat
  extra :: u32

definition Decode :: "u32 \<Rightarrow> instruction" where
  "Decode v =
     (let (op, fmt) = opTable ! unat (drop_bit 26 v AND 0x3f);
          ext = (case fmt of
                   IFMT \<Rightarrow> (let e = v AND 0xffff
                            in if e AND 0x8000 \<noteq> 0 then e OR 0xffff0000 else e)
                 | RFMT \<Rightarrow> drop_bit 6 v AND 0x1f
                 | JFMT \<Rightarrow> v AND 0x3ffffff);
          i = v AND 0x1f0000;
          op' = (if op = SPECIAL then specialTable ! unat (v AND 0x3f)
                 else if op = BCOND then
                   (if i = 0 then OP_BLTZ
                    else if i = 0x10000 then OP_BGEZ
                    else if i = 0x100000 then OP_BLTZAL
                    else if i = 0x110000 then OP_BGEZAL
                    else OP_UNIMP)
                 else op)
      in \<lparr>opCode = op', rs = unat (drop_bit 21 v AND 0x1f), rt = unat (drop_bit 16 v AND 0x1f),
          rd = unat (drop_bit 11 v AND 0x1f), extra = ext\<rparr>)"

section \<open>Multiplication\<close>

text \<open>
  The loop of \<^verbatim>\<open>Mult\<close>, with \<open>n\<close> iterations left: it adds \<open>b\<close>, shifted left one bit per round,
  for every bit of \<open>a\<close> that is on, in two 32-bit halves, and stops early when no bit is left.
\<close>

fun Mult_loop :: "nat \<Rightarrow> u32 \<Rightarrow> u32 \<Rightarrow> u32 \<Rightarrow> u32 \<Rightarrow> u32 \<Rightarrow> u32 \<times> u32" where
  "Mult_loop 0 a bHi bLo hi lo = (hi, lo)"
| "Mult_loop (Suc n) a bHi bLo hi lo =
     (let (hi', lo') = (if a AND 1 \<noteq> 0
                        then (let lo1 = lo + bLo;
                                  hi1 = (if lo1 < bLo then hi + 1 else hi)
                              in (hi1 + bHi, lo1))
                        else (hi, lo))
      in if a AND 1 \<noteq> 0 \<and> a AND 0xfffffffe = 0 then (hi', lo')
         else let bHi1 = push_bit 1 bHi;
                  bHi2 = (if bLo AND 0x80000000 \<noteq> 0 then bHi1 OR 1 else bHi1)
              in Mult_loop n (signed_drop_bit 1 a) bHi2 (push_bit 1 bLo) hi' lo')"

definition Mult :: "u32 \<Rightarrow> u32 \<Rightarrow> bool \<Rightarrow> u32 \<times> u32" where
  "Mult a b signedArith =
     (if a = 0 \<or> b = 0 then (0, 0)
      else let negA = (signedArith \<and> sint a < 0); negB = (signedArith \<and> sint b < 0);
               negative = (negA \<noteq> negB);
               a' = (if negA then - a else a); b' = (if negB then - b else b);
               (hi, lo) = Mult_loop 32 a' 0 b' 0 0
           in if negative
              then (let hi1 = NOT hi; lo1 = NOT lo + 1
                    in (if lo1 = 0 then hi1 + 1 else hi1, lo1))
              else (hi, lo))"

section \<open>Execution of one instruction\<close>

text \<open>
  An executed instruction either raised an exception (\<open>Trap\<close>, with the machine as it enters the
  handler) or leaves a delayed load and the program counter to install.
\<close>

datatype outcome = Trap ExceptionType machine | Next machine nat u32 u32

abbreviation IndexToAddr :: "u32 \<Rightarrow> u32" where
  "IndexToAddr x \<equiv> push_bit 2 x"

abbreviation SIGN_BIT :: u32 where
  "SIGN_BIT \<equiv> 0x80000000"

definition set_reg :: "machine \<Rightarrow> nat \<Rightarrow> u32 \<Rightarrow> machine" where
  "set_reg m r v = m\<lparr>registers := (registers m)(r := v)\<rparr>"

definition raise_exc :: "machine \<Rightarrow> ExceptionType \<Rightarrow> u32 \<Rightarrow> outcome res" where
  "raise_exc m exc bad = andThen (RaiseException m exc bad) (\<lambda>m. Inr (Trap exc m))"

text \<open>\<^verbatim>\<open>if (!ReadMem(...)) return;\<close> and \<^verbatim>\<open>if (!WriteMem(...)) return;\<close>\<close>

definition load :: "machine \<Rightarrow> u32 \<Rightarrow> nat \<Rightarrow> (machine \<Rightarrow> u32 \<Rightarrow> outcome res) \<Rightarrow> outcome res" where
  "load m addr sz k =
     andThen (ReadMem m addr sz) (\<lambda>(exc, v, m).
     if exc \<noteq> NoException then Inr (Trap exc m) else k m v)"

definition store :: "machine \<Rightarrow> u32 \<Rightarrow> nat \<Rightarrow> u32 \<Rightarrow> (machine \<Rightarrow> outcome res) \<Rightarrow> outcome res" where
  "store m addr sz v k =
     andThen (WriteMem m addr sz v) (\<lambda>(exc, m).
     if exc \<noteq> NoException then Inr (Trap exc m) else k m)"

text \<open>The merges of the unaligned loads and stores, by the position of the byte in its word.\<close>

definition lwl_merge :: "nat \<Rightarrow> u32 \<Rightarrow> u32 \<Rightarrow> u32" where
  "lwl_merge byte old v =
     (if byte = 3 then v
      else if byte = 2 then (old AND 0xff) OR push_bit 8 v
      else if byte = 1 then (old AND 0xffff) OR push_bit 16 v
      else (old AND 0xffffff) OR push_bit 24 v)"

definition lwr_merge :: "nat \<Rightarrow> u32 \<Rightarrow> u32 \<Rightarrow> u32" where
  "lwr_merge byte old v =
     (if byte = 3 then (old AND 0xffffff00) OR (signed_drop_bit 24 v AND 0xff)
      else if byte = 2 then (old AND 0xffff0000) OR (signed_drop_bit 16 v AND 0xffff)
      else if byte = 1 then (old AND 0xff000000) OR (signed_drop_bit 8 v AND 0xffffff)
      else v)"

definition swl_merge :: "nat \<Rightarrow> u32 \<Rightarrow> u32 \<Rightarrow> u32" where
  "swl_merge byte v r =
     (if byte = 3 then r
      else if byte = 2 then (v AND 0xff000000) OR (signed_drop_bit 8 r AND 0xffffff)
      else if byte = 1 then (v AND 0xffff0000) OR (signed_drop_bit 16 r AND 0xffff)
      else (v AND 0xffffff00) OR (signed_drop_bit 24 r AND 0xff))"

definition swr_merge :: "nat \<Rightarrow> u32 \<Rightarrow> u32 \<Rightarrow> u32" where
  "swr_merge byte v r =
     (if byte = 3 then (v AND 0xffffff) OR push_bit 24 r
      else if byte = 2 then (v AND 0xffff) OR push_bit 16 r
      else if byte = 1 then (v AND 0xff) OR push_bit 8 r
      else r)"

text \<open>
  The switch of \<^verbatim>\<open>OneInstruction\<close>, cut in four in the order of the source; each part hands the
  opcodes it does not handle to the next one, and the last part ends with the default case.
\<close>

definition execute_stores :: "machine \<Rightarrow> instruction \<Rightarrow> outcome res" where
  "execute_stores m i =
    (let R = registers m;
         vs = R (rs i);
         vt = R (rt i);
         ext = extra i;
         pcAfter = R NextPCReg + 4;
         ea = vs + ext;
         byte = unat (ea AND 3);
         next = (\<lambda>m. Inr (Next m 0 0 pcAfter));
         put = (\<lambda>r v. Inr (Next (set_reg m r v) 0 0 pcAfter))
     in case opCode i of
       OP_SW \<Rightarrow> store m ea 4 vt next
     | OP_SWL \<Rightarrow> load m (ea - of_nat byte) 4 (\<lambda>m v.
          store m (ea - of_nat byte) 4 (swl_merge byte v vt) next)
     | OP_SWR \<Rightarrow> load m (ea - of_nat byte) 4 (\<lambda>m v.
          store m (ea - of_nat byte) 4 (swr_merge byte v vt) next)
     | OP_SYSCALL \<Rightarrow> raise_exc m SyscallException 0
     | OP_XOR \<Rightarrow> put (rd i) (vs XOR vt)
     | OP_XORI \<Rightarrow> put (rt i) (vs XOR (ext AND 0xffff))
     | OP_RES \<Rightarrow> raise_exc m IllegalInstrException 0
     | OP_UNIMP \<Rightarrow> raise_exc m IllegalInstrException 0
     | _ \<Rightarrow> Inl Assertion_failed)"

definition execute_alu :: "machine \<Rightarrow> instruction \<Rightarrow> outcome res" where
  "execute_alu m i =
    (let R = registers m;
         vs = R (rs i);
         vt = R (rt i);
         ext = extra i;
         pcAfter = R NextPCReg + 4;
         ea = vs + ext;
         next = (\<lambda>m. Inr (Next m 0 0 pcAfter));
         put = (\<lambda>r v. Inr (Next (set_reg m r v) 0 0 pcAfter))
     in case opCode i of
       OP_MFHI \<Rightarrow> put (rd i) (R HiReg)
     | OP_MFLO \<Rightarrow> put (rd i) (R LoReg)
     | OP_MTHI \<Rightarrow> put HiReg vs
     | OP_MTLO \<Rightarrow> put LoReg vs
     | OP_MULT \<Rightarrow> (let (hi, lo) = Mult vs vt True in next (set_reg (set_reg m HiReg hi) LoReg lo))
     | OP_MULTU \<Rightarrow> (let (hi, lo) = Mult vs vt False in next (set_reg (set_reg m HiReg hi) LoReg lo))
     | OP_NOR \<Rightarrow> put (rd i) (NOT (vs OR vt))
     | OP_OR \<Rightarrow> put (rd i) (vs OR vt)
     | OP_ORI \<Rightarrow> put (rt i) (vs OR (ext AND 0xffff))
     | OP_SB \<Rightarrow> store m ea 1 vt next
     | OP_SH \<Rightarrow> store m ea 2 vt next
     | OP_SLL \<Rightarrow> put (rd i) (push_bit (unat ext) vt)
     | OP_SLLV \<Rightarrow> put (rd i) (push_bit (unat (vs AND 0x1f)) vt)
     | OP_SLT \<Rightarrow> put (rd i) (if sint vs < sint vt then 1 else 0)
     | OP_SLTI \<Rightarrow> put (rt i) (if sint vs < sint ext then 1 else 0)
     | OP_SLTIU \<Rightarrow> put (rt i) (if vs < ext then 1 else 0)
     | OP_SLTU \<Rightarrow> put (rd i) (if vs < vt then 1 else 0)
     | OP_SRA \<Rightarrow> put (rd i) (signed_drop_bit (unat ext) vt)
     | OP_SRAV \<Rightarrow> put (rd i) (signed_drop_bit (unat (vs AND 0x1f)) vt)
     | OP_SRL \<Rightarrow> put (rd i) (signed_drop_bit (unat ext) vt)
     | OP_SRLV \<Rightarrow> put (rd i) (signed_drop_bit (unat (vs AND 0x1f)) vt)
     | OP_SUB \<Rightarrow> (let diff = vs - vt in
          if (vs XOR vt) AND SIGN_BIT \<noteq> 0 \<and> (vs XOR diff) AND SIGN_BIT \<noteq> 0
          then raise_exc m OverflowException 0 else put (rd i) diff)
     | OP_SUBU \<Rightarrow> put (rd i) (vs - vt)
     | _ \<Rightarrow> execute_stores m i)"

definition execute_loads :: "machine \<Rightarrow> instruction \<Rightarrow> outcome res" where
  "execute_loads m i =
    (let R = registers m;
         vs = R (rs i);
         vt = R (rt i);
         ext = extra i;
         pcAfter = R NextPCReg + 4;
         ea = vs + ext;
         byte = unat (ea AND 3);
         put = (\<lambda>r v. Inr (Next (set_reg m r v) 0 0 pcAfter));
         oldLoad = (if R LoadReg = of_nat (rt i) then R LoadValueReg else vt)
     in case opCode i of
       OP_LB \<Rightarrow> load m ea 1 (\<lambda>m v.
          Inr (Next m (rt i) (if v AND 0x80 \<noteq> 0 then v OR 0xffffff00 else v AND 0xff) pcAfter))
     | OP_LBU \<Rightarrow> load m ea 1 (\<lambda>m v. Inr (Next m (rt i) (v AND 0xff) pcAfter))
     | OP_LH \<Rightarrow>
          (if ea AND 1 \<noteq> 0 then raise_exc m AddressErrorException ea
           else load m ea 2 (\<lambda>m v.
             Inr (Next m (rt i) (if v AND 0x8000 \<noteq> 0 then v OR 0xffff0000 else v AND 0xffff) pcAfter)))
     | OP_LHU \<Rightarrow>
          (if ea AND 1 \<noteq> 0 then raise_exc m AddressErrorException ea
           else load m ea 2 (\<lambda>m v. Inr (Next m (rt i) (v AND 0xffff) pcAfter)))
     | OP_LUI \<Rightarrow> put (rt i) (push_bit 16 ext)
     | OP_LW \<Rightarrow>
          (if ea AND 3 \<noteq> 0 then raise_exc m AddressErrorException ea
           else load m ea 4 (\<lambda>m v. Inr (Next m (rt i) v pcAfter)))
     | OP_LWL \<Rightarrow> load m (ea - of_nat byte) 4 (\<lambda>m v.
          Inr (Next m (rt i) (lwl_merge byte oldLoad v) pcAfter))
     | OP_LWR \<Rightarrow> load m (ea - of_nat byte) 4 (\<lambda>m v.
          Inr (Next m (rt i) (lwr_merge byte oldLoad v) pcAfter))
     | _ \<Rightarrow> execute_alu m i)"

definition execute :: "machine \<Rightarrow> instruction \<Rightarrow> outcome res" where
  "execute m i =
    (let R = registers m;
         vs = R (rs i);
         vt = R (rt i);
         ext = extra i;
         pcAfter = R NextPCReg + 4;
         target = R NextPCReg + IndexToAddr ext;
         next = (\<lambda>m. Inr (Next m 0 0 pcAfter));
         put = (\<lambda>r v. Inr (Next (set_reg m r v) 0 0 pcAfter));
         branch = (\<lambda>m c. Inr (Next m 0 0 (if c then target else pcAfter)))
     in case opCode i of
       OP_ADD \<Rightarrow> (let sum = vs + vt in
          if (vs XOR vt) AND SIGN_BIT = 0 \<and> (vs XOR sum) AND SIGN_BIT \<noteq> 0
          then raise_exc m OverflowException 0 else put (rd i) sum)
     | OP_ADDI \<Rightarrow> (let sum = vs + ext in
          if (vs XOR ext) AND SIGN_BIT = 0 \<and> (ext XOR sum) AND SIGN_BIT \<noteq> 0
          then raise_exc m OverflowException 0 else put (rt i) sum)
     | OP_ADDIU \<Rightarrow> put (rt i) (vs + ext)
     | OP_ADDU \<Rightarrow> put (rd i) (vs + vt)
     | OP_AND \<Rightarrow> put (rd i) (vs AND vt)
     | OP_ANDI \<Rightarrow> put (rt i) (vs AND (ext AND 0xffff))
     | OP_BEQ \<Rightarrow> branch m (vs = vt)
     | OP_BGEZAL \<Rightarrow> (let m' = set_reg m 31 (R NextPCReg + 4)
                    in branch m' (registers m' (rs i) AND SIGN_BIT = 0))
     | OP_BGEZ \<Rightarrow> branch m (vs AND SIGN_BIT = 0)
     | OP_BGTZ \<Rightarrow> branch m (sint vs > 0)
     | OP_BLEZ \<Rightarrow> branch m (sint vs \<le> 0)
     | OP_BLTZAL \<Rightarrow> (let m' = set_reg m 31 (R NextPCReg + 4)
                    in branch m' (registers m' (rs i) AND SIGN_BIT \<noteq> 0))
     | OP_BLTZ \<Rightarrow> branch m (vs AND SIGN_BIT \<noteq> 0)
     | OP_BNE \<Rightarrow> branch m (vs \<noteq> vt)
     | OP_DIV \<Rightarrow>
          (if vt = 0 then next (set_reg (set_reg m LoReg 0) HiReg 0)
           else if sint vs = - (2 ^ 31) \<and> sint vt = -1 then Inl Host_trap
           else next (set_reg (set_reg m LoReg (word_of_int (cdiv (sint vs) (sint vt))))
                        HiReg (word_of_int (cmod (sint vs) (sint vt)))))
     | OP_DIVU \<Rightarrow>
          (if vt = 0 then next (set_reg (set_reg m LoReg 0) HiReg 0)
           else next (set_reg (set_reg m LoReg (vs div vt)) HiReg (vs mod vt)))
     | OP_JAL \<Rightarrow> Inr (Next (set_reg m 31 (R NextPCReg + 4)) 0 0
                     ((pcAfter AND 0xf0000000) OR IndexToAddr ext))
     | OP_J \<Rightarrow> Inr (Next m 0 0 ((pcAfter AND 0xf0000000) OR IndexToAddr ext))
     | OP_JALR \<Rightarrow> (let m' = set_reg m (rd i) (R NextPCReg + 4)
                  in Inr (Next m' 0 0 (registers m' (rs i))))
     | OP_JR \<Rightarrow> Inr (Next m 0 0 vs)
     | _ \<Rightarrow> execute_loads m i)"

lemmas execute_defs = execute_def execute_loads_def execute_alu_def execute_stores_def

definition OneInstruction :: "machine \<Rightarrow> (ExceptionType \<times> machine) res" where
  "OneInstruction m =
     andThen (ReadMem m (registers m PCReg) 4) (\<lambda>(exc, raw, m).
     if exc \<noteq> NoException then Inr (exc, m)
     else andThen (execute m (Decode raw)) (\<lambda>out.
       case out of
         Trap exc m \<Rightarrow> Inr (exc, m)
       | Next m nextLoadReg nextLoadValue pcAfter \<Rightarrow>
           andThen (DelayedLoad m (of_nat nextLoadReg) nextLoadValue) (\<lambda>m.
           let R = registers m
           in Inr (NoException,
                m\<lparr>registers := ((R(PrevPCReg := R PCReg))(PCReg := R NextPCReg))(NextPCReg := pcAfter)\<rparr>))))"

section \<open>Decoding\<close>

lemma and_mask_less: "unat (x AND 0x1f :: u32) < 32" "unat (x AND 0x3f :: u32) < 64"
proof -
  have "x AND 0x1f = take_bit 5 x" "x AND 0x3f = take_bit 6 x"
    by (simp_all add: take_bit_eq_mask mask_eq_exp_minus_1)
  then show "unat (x AND 0x1f) < 32" "unat (x AND 0x3f) < 64"
    by (simp_all add: take_bit_eq_mod unat_mod)
qed

lemma opTable_entries: "length opTable = 64" "\<forall>p\<in>set opTable. fst p \<noteq> OP_RFE"
  by (simp_all add: opTable_def)

lemma specialTable_entries:
  "length specialTable = 64" "\<forall>op\<in>set specialTable. op \<notin> {OP_RFE, SPECIAL, BCOND}"
  by (simp_all add: specialTable_def)

lemma Decode_fields:
  "rs (Decode v) < 32" "rt (Decode v) < 32" "rd (Decode v) < 32"
  by (simp_all add: Decode_def Let_def and_mask_less split: prod.splits)

lemma Decode_opCode: "opCode (Decode v) \<notin> {OP_RFE, SPECIAL, BCOND}"
proof -
  obtain op fmt where e: "opTable ! unat (drop_bit 26 v AND 0x3f) = (op, fmt)" by fastforce
  have "(op, fmt) \<in> set opTable"
    using nth_mem [of "unat (drop_bit 26 v AND 0x3f)" opTable] and_mask_less(2) [of "drop_bit 26 v"]
      opTable_entries(1) e by simp
  then have op: "op \<noteq> OP_RFE" using opTable_entries(2) by force
  have "specialTable ! unat (v AND 0x3f) \<in> set specialTable"
    using and_mask_less(2) [of v] specialTable_entries(1) by simp
  with specialTable_entries(2) have "specialTable ! unat (v AND 0x3f) \<notin> {OP_RFE, SPECIAL, BCOND}"
    by blast
  with op e show ?thesis by (simp add: Decode_def Let_def)
qed

lemma sign_extend16:
  "(let e = v AND 0xffff in if e AND 0x8000 \<noteq> 0 then e OR 0xffff0000 else e) = (scast (ucast v :: u16) :: u32)"
proof (rule bit_word_eqI)
  fix n assume n: "n < LENGTH(32)"
  have m: "(0xffff :: u32) = mask 16" "(0x8000 :: u32) = 2 ^ 15" "(0xffff0000 :: u32) = push_bit 16 (mask 16)"
    by (simp_all add: mask_eq_exp_minus_1 push_bit_eq_mult)
  have b: "(v AND 0xffff) AND 0x8000 \<noteq> 0 \<longleftrightarrow> bit v 15"
    unfolding m and_exp_eq_0_iff_not_bit by (simp add: bit_simps)
  show "bit (let e = v AND 0xffff in if e AND 0x8000 \<noteq> 0 then e OR 0xffff0000 else e) n = bit (scast (ucast v :: u16) :: u32) n"
    unfolding Let_def b unfolding m using n by (cases "n \<le> 15") (auto simp: bit_simps min_def)
qed

section \<open>Every instruction is executed safely\<close>

definition good_out :: "machine \<Rightarrow> outcome \<Rightarrow> bool" where
  "good_out m out \<longleftrightarrow>
     (case out of
        Trap exc m' \<Rightarrow> exc \<noteq> NoException \<and> machine_ok m' \<and> keeps m m'
      | Next m' r v pc \<Rightarrow> r < NumGPRegs \<and> keeps m m' \<and> unat (registers m' LoadReg) < NumGPRegs)"

definition good_res :: "machine \<Rightarrow> outcome res \<Rightarrow> bool" where
  "good_res m r \<longleftrightarrow> (case r of Inl _ \<Rightarrow> False | Inr out \<Rightarrow> good_out m out)"

lemma keeps_set_reg [simp]: "keeps m (set_reg m' r v) = keeps m m'"
  by (simp add: set_reg_def)

lemma registers_set_reg [simp]: "registers (set_reg m r v) = (registers m)(r := v)"
  by (simp add: set_reg_def)

lemma good_Next:
  "r < 32 \<Longrightarrow> keeps m m' \<Longrightarrow> unat (registers m' LoadReg) < 32 \<Longrightarrow> good_res m (Inr (Next m' r v pc))"
  by (simp add: good_res_def good_out_def)

lemma good_raise:
  assumes "machine_ok m" "exc \<noteq> NoException"
  shows "good_res m (raise_exc m exc bad)"
  using RaiseException_ok [of m exc bad] assms
  by (auto simp: machine_ok_def raise_exc_def good_res_def good_out_def)

lemma good_load:
  assumes "machine_ok m" "sz \<in> {1, 2, 4}"
    and k: "\<And>m' v. machine_ok m' \<Longrightarrow> keeps m m' \<Longrightarrow> registers m' = registers m \<Longrightarrow> good_res m (k m' v)"
  shows "good_res m (load m a sz k)"
proof -
  obtain exc v m' where r: "ReadMem m a sz = Inr (exc, v, m')" "machine_ok m'" "keeps m m'"
    "exc = NoException \<longrightarrow> registers m' = registers m"
    using ReadMem_ok [OF assms(1,2)] by metis
  show ?thesis
  proof (cases "exc = NoException")
    case True
    with r k show ?thesis by (simp add: load_def)
  next
    case False
    with r show ?thesis by (simp add: load_def good_res_def good_out_def)
  qed
qed

lemma good_store:
  assumes "machine_ok m'" "keeps m m'" "sz \<in> {1, 2, 4}"
    and k: "\<And>m''. machine_ok m'' \<Longrightarrow> keeps m m'' \<Longrightarrow> good_res m (k m'')"
  shows "good_res m (store m' a sz v k)"
proof -
  obtain exc m'' where r: "WriteMem m' a sz v = Inr (exc, m'')" "machine_ok m''" "keeps m' m''"
    using WriteMem_ok [OF assms(1,3)] by metis
  with assms(2) have "keeps m m''" by (blast intro: keeps_trans)
  with r k show ?thesis by (auto simp: store_def good_res_def good_out_def)
qed

lemmas good_intros = good_Next good_raise good_load good_store

lemma machine_okD:
  "machine_ok m \<Longrightarrow> keeps m m" "machine_ok m \<Longrightarrow> unat (registers m LoadReg) < 32"
  by (simp_all add: machine_ok_def keeps_refl)

definition div_traps :: "machine \<Rightarrow> instruction \<Rightarrow> bool" where
  "div_traps m i \<longleftrightarrow> opCode i = OP_DIV \<and> sint (registers m (rs i)) = - (2 ^ 31) \<and>
     sint (registers m (rt i)) = -1"

lemma execute_good:
  assumes ok: "machine_ok m" and f: "rs i < 32" "rt i < 32" "rd i < 32"
    and op: "opCode i \<notin> {OP_RFE, SPECIAL, BCOND}" and nt: "\<not> div_traps m i"
  shows "good_res m (execute m i)"
proof -
  note k = machine_okD [OF ok]
  show ?thesis
    using ok f op nt k
    by (cases "opCode i")
       (auto simp: execute_defs Let_def div_traps_def split: prod.splits
         intro!: good_intros dest: machine_okD)
qed

section \<open>The multiplier\<close>

text \<open>The 64-bit value of a pair of halves; the loop is arithmetic on these values.\<close>

definition double_word :: "u32 \<Rightarrow> u32 \<Rightarrow> 64 word" where
  "double_word hi lo = word_of_int (uint hi * 2 ^ 32 + uint lo)"

lemma wrap_high: "(word_of_int ((x mod 2 ^ 32) * 2 ^ 32) :: 64 word) = word_of_int (x * 2 ^ 32)"
proof -
  define q r where "q = x div 2 ^ 32" and "r = x mod 2 ^ 32"
  have "x = q * 2 ^ 32 + r" by (simp add: q_def r_def)
  then have "x * 2 ^ 32 = r * 2 ^ 32 + q * 2 ^ 64" by (simp add: algebra_simps)
  moreover have "(word_of_int (r * 2 ^ 32 + q * 2 ^ 64) :: 64 word) = word_of_int (r * 2 ^ 32)"
    by (simp only: word_of_int_eq_iff) (simp add: take_bit_eq_mod)
  ultimately show ?thesis by (simp add: r_def)
qed

lemma uint_add_mod: "uint (x + y :: u32) = (uint x + uint y) mod 2 ^ 32"
  by (simp add: uint_word_ariths)

lemma double_word_add_hi:
  "double_word (hi + y) lo = double_word hi lo + word_of_int (uint y * 2 ^ 32)"
proof -
  have "double_word (hi + y) lo =
          word_of_int (((uint hi + uint y) mod 2 ^ 32) * 2 ^ 32) + word_of_int (uint lo)"
    by (simp add: double_word_def uint_add_mod wi_hom_add)
  also have "\<dots> = word_of_int ((uint hi + uint y) * 2 ^ 32) + word_of_int (uint lo)"
    by (simp only: wrap_high)
  finally show ?thesis
    by (simp add: double_word_def wi_hom_add algebra_simps)
qed

lemma uint_add_carry:
  "uint (lo + z :: u32) = uint lo + uint z - (if lo + z < z then 2 ^ 32 else 0)"
  using uint_lt2p [of lo] uint_lt2p [of z]
  by (auto simp: word_less_def uint_plus_if')

lemma double_word_add_lo:
  "double_word (if lo + z < z then hi + 1 else hi) (lo + z) = double_word hi lo + word_of_int (uint z)"
  by (auto simp: double_word_add_hi)
     (auto simp: double_word_def uint_add_carry wi_hom_add wi_hom_sub algebra_simps)

lemma top_bit_int: "0 \<le> x \<Longrightarrow> x < 2 ^ 32 \<Longrightarrow> odd (x div 2 ^ 31) \<longleftrightarrow> 2 ^ 31 \<le> (x :: int)"
proof -
  assume x: "0 \<le> x" "x < 2 ^ 32"
  define q where "q = x div 2 ^ 31"
  have r: "0 \<le> x mod 2 ^ 31" "x mod 2 ^ 31 < 2 ^ 31" "x = q * 2 ^ 31 + x mod 2 ^ 31"
    by (simp_all add: q_def)
  with x have "q = 0 \<and> x < 2 ^ 31 \<or> q = 1 \<and> 2 ^ 31 \<le> x"
    by (cases "q \<le> -1"; cases "q = 0"; cases "q = 1") (simp_all; linarith)+
  then show ?thesis unfolding q_def by auto
qed

lemma double_word_shift:
  "double_word (if lo AND 0x80000000 \<noteq> 0 then push_bit 1 hi OR 1 else push_bit 1 hi) (push_bit 1 lo)
     = 2 * double_word hi lo"
proof -
  have top: "lo AND 0x80000000 \<noteq> 0 \<longleftrightarrow> lo + lo < lo"
  proof -
    have "lo AND 0x80000000 \<noteq> 0 \<longleftrightarrow> bit lo 31"
      using test_mask [of lo 31] by simp
    also have "\<dots> \<longleftrightarrow> 2 ^ 31 \<le> uint lo"
      using top_bit_int [of "uint lo"] uint_lt2p [of lo] bit_uint_iff [of lo 31] by (simp add: bit_iff_odd [where 'a = int])
    also have "\<dots> \<longleftrightarrow> lo + lo < lo"
      using uint_lt2p [of lo] uint_plus_if' [of lo lo] by (auto simp: word_less_def split: if_splits)
    finally show ?thesis .
  qed
  have "even (push_bit 1 hi)" by (simp add: push_bit_eq_mult)
  then have "push_bit 1 hi OR 1 = push_bit 1 hi + 1" by (simp add: or_one_eq)
  moreover have dbl: "push_bit 1 x = x + x" for x :: u32
    by (simp add: push_bit_eq_mult)
  ultimately have "(if lo AND 0x80000000 \<noteq> 0 then push_bit 1 hi OR 1 else push_bit 1 hi)
        = (if lo + lo < lo then (hi + hi) + 1 else hi + hi)"
    unfolding top by (simp only: dbl)
  moreover have "push_bit 1 lo = lo + lo" by (rule dbl)
  ultimately show ?thesis
    by (simp only: double_word_add_lo double_word_add_hi)
       (simp add: double_word_def wi_hom_add algebra_simps)
qed

lemma take_bit_shift:
  assumes "n < 32"
  shows "uint (take_bit (Suc n) (a :: u32)) =
           uint (a AND 1) + 2 * uint (take_bit n (signed_drop_bit 1 a))"
proof -
  have "take_bit n (uint (signed_drop_bit 1 a)) = take_bit n (uint a div 2)"
    using assms by (intro bit_eqI) (auto simp: bit_simps bit_uint_iff simp flip: bit_Suc)
  moreover have "uint (a AND 1) = uint a mod 2"
    by (simp add: and_one_eq uint_mod)
  ultimately show ?thesis
    by (simp only: unsigned_take_bit_eq take_bit_Suc [where 'a = int])
qed

lemma Mult_loop_product:
  "n \<le> 32 \<Longrightarrow> Mult_loop n a bHi bLo hi lo = (h, l) \<Longrightarrow>
     double_word h l = double_word hi lo + word_of_int (uint (take_bit n a)) * double_word bHi bLo"
proof (induction n a bHi bLo hi lo rule: Mult_loop.induct)
  case (1 a bHi bLo hi lo)
  then show ?case by simp
next
  case (2 n a bHi bLo hi lo)
  define hi' lo' where "hi' = (if a AND 1 \<noteq> 0 then (if lo + bLo < bLo then hi + 1 else hi) + bHi else hi)"
    and "lo' = (if a AND 1 \<noteq> 0 then lo + bLo else lo)"
  have acc: "double_word hi' lo' = double_word hi lo + word_of_int (uint (a AND 1)) * double_word bHi bLo"
  proof (cases "a AND 1 = 0")
    case True
    then show ?thesis by (simp add: hi'_def lo'_def)
  next
    case False
    then have "a AND 1 = 1" by (simp add: and_one_eq split: if_splits)
    then show ?thesis
      by (simp add: hi'_def lo'_def double_word_add_hi double_word_add_lo)
         (simp add: double_word_def wi_hom_add)
  qed
  show ?case
  proof (cases "a AND 1 \<noteq> 0 \<and> a AND 0xfffffffe = 0")
    case True
    then have "(h, l) = (hi', lo')" using 2(3) by (auto simp: hi'_def lo'_def Let_def)
    moreover have "a = a AND 1"
    proof -
      have "a = (a AND 0xfffffffe) OR (a AND 1)"
      proof -
        have "(0xfffffffe :: u32) = NOT 1" by simp
        then show ?thesis by (simp only:) (rule bit_word_eqI, auto simp: bit_simps)
      qed
      with True show ?thesis by simp
    qed
    moreover have "a AND 1 = 1" using True by (simp add: and_one_eq split: if_splits)
    ultimately show ?thesis using acc by simp
  next
    case False
    let ?b = "if bLo AND 0x80000000 \<noteq> 0 then push_bit 1 bHi OR 1 else push_bit 1 bHi"
    have "Mult_loop n (signed_drop_bit 1 a) ?b (push_bit 1 bLo) hi' lo' = (h, l)"
      using 2(3) False by (simp add: hi'_def lo'_def Let_def split: if_splits)
    from 2(1) [OF refl _ False refl refl _ this] 2(2) have
      "double_word h l = double_word hi' lo'
         + word_of_int (uint (take_bit n (signed_drop_bit 1 a))) * double_word ?b (push_bit 1 bLo)"
      by (simp add: hi'_def lo'_def Let_def)
    then show ?thesis
      using 2(2) by (simp only: double_word_shift acc take_bit_shift [of n a])
       (simp add: wi_hom_add wi_hom_mult algebra_simps)
  qed
qed

lemma len32: "LENGTH(32) = 32" by simp

lemma len64: "LENGTH(64) = 64" by simp

lemma double_word_uint: "uint (double_word hi lo) = uint hi * 2 ^ 32 + uint lo"
proof -
  have "uint hi * 2 ^ 32 + uint lo < 2 ^ 64" "0 \<le> uint hi * 2 ^ 32 + uint lo"
    using uint_lt2p [of hi] uint_lt2p [of lo] by simp_all
  then show ?thesis
    by (simp only: double_word_def uint_word_of_int take_bit_eq_mod len64 mod_pos_pos_trivial)
qed

lemma double_word_negate:
  "double_word (if NOT lo + 1 = 0 then NOT hi + 1 else NOT hi) (NOT lo + 1) = - double_word hi lo"
proof -
  have "NOT lo + 1 = 0 \<longleftrightarrow> NOT lo + 1 < 1" by (metis word_less_1)
  then have "double_word (if NOT lo + 1 = 0 then NOT hi + 1 else NOT hi) (NOT lo + 1)
      = double_word (NOT hi) (NOT lo) + 1"
    using double_word_add_lo [of "NOT lo" 1 "NOT hi"] by simp
  also have "\<dots> = - double_word hi lo"
  proof -
    have n: "uint (NOT x) = 2 ^ 32 - 1 - uint x" for x :: u32
    proof -
      have "NOT x = (-1) - x" by (simp add: not_eq_complement)
      moreover have "uint (-1 :: u32) = 2 ^ 32 - 1" by (simp add: unsigned_minus_1_eq_mask mask_eq_exp_minus_1)
      ultimately show ?thesis
        using uint_sub_if' [of "-1" x] uint_lt2p [of x] by simp
    qed
    have "uint (NOT hi) * 2 ^ 32 + uint (NOT lo) + 1 = - (uint hi * 2 ^ 32 + uint lo) + 1 * 2 ^ 64"
      by (simp add: n)
    then have "(word_of_int (uint (NOT hi) * 2 ^ 32 + uint (NOT lo) + 1) :: 64 word)
        = word_of_int (- (uint hi * 2 ^ 32 + uint lo))"
      by (simp only: word_of_int_eq_iff) (simp add: take_bit_eq_mod del: mult_1)
    then show ?thesis by (simp only: double_word_def wi_hom_add wi_hom_neg word_1_wi)
  qed
  finally show ?thesis .
qed


lemma take32: "take_bit 32 (x :: u32) = x"
  by (metis take_bit_length_eq len32)

lemma double_word_zero: "double_word 0 x = word_of_int (uint x)" "double_word 0 0 = 0"
  by (simp_all add: double_word_def)

lemma double_word_sint:
  "double_word hi lo = word_of_int z \<Longrightarrow> uint hi * 2 ^ 32 + uint lo = z mod 2 ^ 64"
  by (metis double_word_uint uint_word_of_int take_bit_eq_mod len64)

lemma sint_negate:
  "sint (a::u32) < 0 \<Longrightarrow> uint (- a) = - sint a" "0 \<le> sint a \<Longrightarrow> uint a = sint a"
proof -
  show "0 \<le> sint a \<Longrightarrow> uint a = sint a"
    using sint_lt [of a] uint_word_of_int [of "sint a", where 'a = 32]
    by (simp add: take_bit_eq_mod)
  assume "sint a < 0"
  moreover have "- (2 ^ 31) \<le> sint a" using sint_ge [of a] by simp
  ultimately have "uint (word_of_int (- sint a) :: u32) = - sint a"
    by (simp only: uint_word_of_int take_bit_eq_mod) simp
  then show "uint (- a) = - sint a" by (simp add: wi_hom_neg [symmetric])
qed

lemma Mult_product:
  assumes "Mult a b s = (hi, lo)"
  shows "uint hi * 2 ^ 32 + uint lo = (if s then sint a * sint b else uint a * uint b) mod 2 ^ 64"
proof (cases "a = 0 \<or> b = 0")
  case True
  then show ?thesis using assms by (auto simp: Mult_def)
next
  case False
  define nA nB where "nA = (s \<and> sint a < 0)" and "nB = (s \<and> sint b < 0)"
  obtain h l where L: "Mult_loop 32 (if nA then - a else a) 0 (if nB then - b else b) 0 0 = (h, l)"
    by fastforce
  define P where "P = (if s then sint a * sint b else uint a * uint b)"
  have P: "uint (if nA then - a else a) * uint (if nB then - b else b) = (if nA \<noteq> nB then - P else P)"
    using sint_negate [of a] sint_negate [of b] by (auto simp: nA_def nB_def P_def)
  from Mult_loop_product [OF _ L]
  have "double_word h l = word_of_int (uint (if nA then - a else a) * uint (if nB then - b else b))"
    by (simp only: take32 double_word_zero) (simp add: wi_hom_mult)
  then have hl: "double_word h l = (if nA \<noteq> nB then - word_of_int P else word_of_int P)"
    unfolding P if_distrib [of word_of_int] wi_hom_neg .
  have "(hi, lo) = (if nA \<noteq> nB then (if NOT l + 1 = 0 then NOT h + 1 else NOT h, NOT l + 1) else (h, l))"
    using assms False L by (auto simp: Mult_def nA_def nB_def Let_def split: if_splits)
  then have "double_word hi lo = (if nA \<noteq> nB then - double_word h l else double_word h l)"
    using double_word_negate [of l h] by (cases "nA \<noteq> nB") simp_all
  with hl have "double_word hi lo = word_of_int P" by simp
  then show ?thesis unfolding P_def by (rule double_word_sint)
qed

text \<open>
  Property C15.  \<^verbatim>\<open>Mult\<close> leaves in the pair (HI, LO) the 64-bit product of its operands, read as
  signed or as unsigned 32-bit integers as \<^verbatim>\<open>MULT\<close> and \<^verbatim>\<open>MULTU\<close> ask, modulo \<open>2 ^ 64\<close>.
\<close>

theorem Mult_is_product:
  "(let (hi, lo) = Mult a b signedArith
    in uint hi * 2 ^ 32 + uint lo =
         (if signedArith then sint a * sint b else uint a * uint b) mod 2 ^ 64)"
  using Mult_product [of a b signedArith] by (auto split: prod.splits)

section \<open>One instruction\<close>

text \<open>
  Property C32.  Every 32-bit word decodes to a well-typed instruction: the register fields name general
  registers, the operation is one \<^verbatim>\<open>OneInstruction\<close> has a case for (the two escape codes of
  the table are resolved), and the extra field is the sign-extended immediate, the shift amount or the 26-bit
  jump target, by the format of the operation.
\<close>

theorem Decode_typed:
  "rs (Decode v) < NumGPRegs \<and> rt (Decode v) < NumGPRegs \<and> rd (Decode v) < NumGPRegs \<and>
   opCode (Decode v) \<notin> {OP_RFE, SPECIAL, BCOND} \<and>
   (case snd (opTable ! unat (drop_bit 26 v AND 0x3f)) of
      IFMT \<Rightarrow> extra (Decode v) = scast (ucast v :: u16)
    | RFMT \<Rightarrow> unat (extra (Decode v)) < 32
    | JFMT \<Rightarrow> unat (extra (Decode v)) < 2 ^ 26)"
proof -
  have j: "unat (w AND 0x3ffffff :: u32) < 2 ^ 26" for w
    using and_mask_less' [of 26 w] by (simp add: mask_eq_exp_minus_1 word_less_nat_alt)
  show ?thesis
    using Decode_fields Decode_opCode and_mask_less(1) [of "drop_bit 6 v"] j [of v] sign_extend16 [of v]
    by (auto simp: Decode_def Let_def split: prod.splits format.splits)
qed

text \<open>
  Property C2.  From a well-formed machine, \<^verbatim>\<open>OneInstruction\<close> executes whatever word the program
  counter points at without leaving an array and without tripping an assertion of the simulator
  (\<^verbatim>\<open>Decode\<close> never yields an opcode the switch does not handle); the machine it leaves is
  well-formed, and the only bytes of memory it may have changed lie in frames that a valid,
  writable entry of the current table names.  The one exception is \<^verbatim>\<open>DIV\<close> of the most negative
  integer by -1, which the host executes as it stands and traps on.
\<close>

theorem OneInstruction_safe:
  assumes "machine_ok m"
  shows "case OneInstruction m of
           Inl f \<Rightarrow> f = Host_trap \<and>
             (\<exists>raw m1. ReadMem m (registers m PCReg) 4 = Inr (NoException, raw, m1) \<and>
                div_traps m1 (Decode raw))
         | Inr (exc, m') \<Rightarrow> machine_ok m' \<and> keeps m m'"
proof -
  obtain exc raw m1 where r: "ReadMem m (registers m PCReg) 4 = Inr (exc, raw, m1)" "machine_ok m1" "keeps m m1"
    by (rule ReadMem_ok [OF assms, of 4 "registers m PCReg"]) simp
  show ?thesis
  proof (cases "exc = NoException")
    case False
    with r show ?thesis by (simp add: OneInstruction_def)
  next
    case True
    show ?thesis
    proof (cases "div_traps m1 (Decode raw)")
      case True
      then have "execute m1 (Decode raw) = Inl Host_trap"
        by (auto simp: div_traps_def execute_defs Let_def)
      with r True \<open>exc = NoException\<close> show ?thesis by (simp add: OneInstruction_def)
    next
      case False
      from execute_good [OF r(2) Decode_fields Decode_opCode False]
      obtain out where out: "execute m1 (Decode raw) = Inr out" "good_out m1 out"
        by (auto simp: good_res_def split: sum.splits)
      show ?thesis
      proof (cases out)
        case (Trap e m2)
        with out r True show ?thesis
          by (auto simp: OneInstruction_def good_out_def intro: keeps_trans)
      next
        case (Next m2 n v pc)
        with out have g: "n < 32" "keeps m1 m2" "unat (registers m2 LoadReg) < 32" "table_ok m2"
          by (auto simp: good_out_def keeps_def)
        then have "unat (of_nat n :: u32) < 32" by (simp add: unat_of_nat)
        with DelayedLoad_ok [OF g(3,4) this, of v] obtain m3 where
          "DelayedLoad m2 (of_nat n) v = Inr m3" "machine_ok m3" "keeps m2 m3" by auto
        with out r True Next g show ?thesis
          by (auto simp: OneInstruction_def Let_def machine_ok_def intro: keeps_trans)
      qed
    qed
  qed
qed

theorem OneInstruction_safe_witness:
  "\<exists>exc m'. OneInstruction sample_machine = Inr (exc, m') \<and> machine_ok m' \<and> keeps sample_machine m'"
proof -
  have "opCode (Decode 0) = OP_SLL" by (simp add: Decode_def opTable_def specialTable_def)
  moreover have "\<exists>m1. ReadMem sample_machine (registers sample_machine PCReg) 4 = Inr (NoException, 0, m1)"
    by (simp add: ReadMem_def sample_machine_def Translate_def new_Machine_def use_entry_def
        MemorySize_def Let_def host_load32_def WordToHost_def)
  ultimately show ?thesis
    using OneInstruction_safe [OF sample_machine_ok]
    by (auto simp: div_traps_def split: sum.splits)
qed

section \<open>Signed overflow\<close>

lemma bit_beyond: "32 \<le> n \<Longrightarrow> \<not> bit (w :: u32) n"
  using bit_imp_le_length [of w n] by auto

lemma sign_bit: "w AND SIGN_BIT \<noteq> 0 \<longleftrightarrow> sint (w :: u32) < 0"
  using test_mask [of w 31] bit_last_iff [of w] by simp

lemma sign_bit_xor: "(v XOR w) AND SIGN_BIT \<noteq> 0 \<longleftrightarrow> (sint (v :: u32) < 0) \<noteq> (sint w < 0)"
proof -
  have "(v XOR w) AND SIGN_BIT \<noteq> 0 \<longleftrightarrow> bit (v XOR w) 31" using test_mask [of "v XOR w" 31] by simp
  also have "\<dots> \<longleftrightarrow> bit v 31 \<noteq> bit w 31" by (simp add: bit_xor_iff)
  finally show ?thesis using test_mask [of v 31] test_mask [of w 31] sign_bit by simp
qed

lemma sint_range: "- (2 ^ 31) \<le> sint (w :: u32)" "sint (w :: u32) < 2 ^ 31"
  using sint_ge [of w] sint_lt [of w] by simp_all

lemma wrap_signed:
  assumes "- (2 ^ 32) \<le> s" "s < 2 ^ 32"
  shows "(s + 2 ^ 31) mod 2 ^ 32 - 2 ^ 31 =
     (if s < - (2 ^ 31) then s + 2 ^ 32 else if s < 2 ^ 31 then s else s - (2 ^ 32 :: int))"
proof -
  have "(s + 2 ^ 31) mod 2 ^ 32 = (if s < - (2 ^ 31) then s + 2 ^ 31 + 2 ^ 32
      else if s < 2 ^ 31 then s + 2 ^ 31 else s + 2 ^ 31 - 2 ^ 32)"
  proof (cases "s < - (2 ^ 31)")
    case True
    then have "(s + 2 ^ 31 + 2 ^ 32) mod 2 ^ 32 = s + 2 ^ 31 + 2 ^ 32"
      using assms by (intro mod_pos_pos_trivial) auto
    then have "(s + 2 ^ 31) mod 2 ^ 32 = s + 2 ^ 31 + 2 ^ 32" by (simp only: mod_add_self2)
    with True show ?thesis by simp
  next
    case False
    show ?thesis
    proof (cases "s < 2 ^ 31")
      case True
      with False show ?thesis by simp
    next
      case False
      then have "(s + 2 ^ 31 - 2 ^ 32) mod 2 ^ 32 = s + 2 ^ 31 - 2 ^ 32"
        using assms by (intro mod_pos_pos_trivial) auto
      then have "(s + 2 ^ 31) mod 2 ^ 32 = s + 2 ^ 31 - 2 ^ 32" by (simp only: minus_mod_self2)
      with False show ?thesis by simp
    qed
  qed
  then show ?thesis by auto
qed

lemma sint_add:
  "sint (v + w :: u32) = (let s = sint v + sint w in
     if s < - (2 ^ 31) then s + 2 ^ 32 else if s < 2 ^ 31 then s else s - 2 ^ 32)"
  using wrap_signed [of "sint v + sint w"] sint_range [of v] sint_range [of w]
  by (simp add: sint_word_ariths Let_def signed_take_bit_eq_take_bit_shift take_bit_eq_mod)

lemma sint_sub:
  "sint (v - w :: u32) = (let s = sint v - sint w in
     if s < - (2 ^ 31) then s + 2 ^ 32 else if s < 2 ^ 31 then s else s - 2 ^ 32)"
  using wrap_signed [of "sint v - sint w"] sint_range [of v] sint_range [of w]
  by (simp add: sint_word_ariths Let_def signed_take_bit_eq_take_bit_shift take_bit_eq_mod)

definition representable :: "int \<Rightarrow> bool" where
  "representable z \<longleftrightarrow> - (2 ^ 31) \<le> z \<and> z < 2 ^ 31"

lemma add_overflow:
  "(v XOR w) AND SIGN_BIT = 0 \<and> (v XOR (v + w)) AND SIGN_BIT \<noteq> 0 \<longleftrightarrow> \<not> representable (sint v + sint (w :: u32))"
  "(v XOR w) AND SIGN_BIT = 0 \<and> (w XOR (v + w)) AND SIGN_BIT \<noteq> 0 \<longleftrightarrow> \<not> representable (sint v + sint (w :: u32))"
  using sint_range [of v] sint_range [of w] sign_bit_xor [of v w] sign_bit_xor [of v "v + w"]
    sign_bit_xor [of w "v + w"]
  by (auto simp: sint_add representable_def Let_def split: if_splits)

lemma sub_overflow:
  "(v XOR w) AND SIGN_BIT \<noteq> 0 \<and> (v XOR (v - w)) AND SIGN_BIT \<noteq> 0 \<longleftrightarrow> \<not> representable (sint v - sint (w :: u32))"
  using sint_range [of v] sint_range [of w] sign_bit_xor [of v w] sign_bit_xor [of v "v - w"]
  by (auto simp: sint_sub representable_def Let_def split: if_splits)

text \<open>
  Property C34.  \<^verbatim>\<open>ADD\<close>, \<^verbatim>\<open>ADDI\<close> and \<^verbatim>\<open>SUB\<close> raise \<^verbatim>\<open>OverflowException\<close> exactly when the
  mathematical sum or difference of their signed operands does not fit in 32 bits, and otherwise
  put a word with that signed value in the target register.
\<close>

theorem execute_overflow_exact:
  "(let a = sint (registers m (rs i));
        b = (if opCode i = OP_ADDI then sint (extra i) else sint (registers m (rt i)));
        z = (if opCode i = OP_SUB then a - b else a + b);
        target = (if opCode i = OP_ADDI then rt i else rd i)
    in opCode i \<in> {OP_ADD, OP_ADDI, OP_SUB} \<longrightarrow>
       execute m i =
         (if representable z
          then Inr (Next (set_reg m target (word_of_int z)) 0 0 (registers m NextPCReg + 4))
          else raise_exc m OverflowException 0))"
  using add_overflow [of "registers m (rs i)"] sub_overflow [of "registers m (rs i)" "registers m (rt i)"]
  by (auto simp: execute_defs Let_def wi_hom_add wi_hom_sub)

theorem execute_overflow_exact_witness:
  "execute (set_reg sample_machine 4 0x7fffffff) \<lparr>opCode = OP_ADDI, rs = 4, rt = 2, rd = 0, extra = 1\<rparr>
     = raise_exc (set_reg sample_machine 4 0x7fffffff) OverflowException 0"
  using execute_overflow_exact [of "set_reg sample_machine 4 0x7fffffff"
      "\<lparr>opCode = OP_ADDI, rs = 4, rt = 2, rd = 0, extra = 1\<rparr>"]
  by (simp add: representable_def set_reg_def)

section \<open>Unaligned loads\<close>

lemma low_masks:
  "0xffffff = (mask 24 :: u32)" "0xffffff00 = (NOT (mask 8) :: u32)"
  "0xffff0000 = (NOT (mask 16) :: u32)" "0xff000000 = (NOT (mask 24) :: u32)"
  by (simp_all add: mask_eq_exp_minus_1)

text \<open>
  The pair \<^verbatim>\<open>LWR\<close> at an address and \<^verbatim>\<open>LWL\<close> three bytes further loads the
  unaligned little-endian word that starts there, out of the aligned word \<open>v0\<close> that holds the
  address and the next one, \<open>v1\<close>; nothing of the old register value is left.
\<close>

theorem unaligned_load:
  fixes ea old v0 v1 :: u32
  defines "byte \<equiv> unat (ea AND 3)"
  shows "lwl_merge (unat ((ea + 3) AND 3)) (lwr_merge byte old v0) (if byte = 0 then v0 else v1) =
           drop_bit (8 * byte) v0 OR push_bit (32 - 8 * byte) v1"
proof -
  have and3: "unat (x AND 3) = unat x mod 4" for x :: u32
  proof -
    have "x AND 3 = take_bit 2 x" by (simp add: take_bit_eq_mask mask_eq_exp_minus_1)
    then show ?thesis by (simp add: take_bit_eq_mod unat_mod)
  qed
  have "unat ((ea + 3) AND 3) = (unat ea + 3) mod 2 ^ 32 mod 4"
    by (simp add: and3 unat_word_ariths)
  also have "\<dots> = (unat ea + 3) mod 4" by (simp add: mod_mod_cancel)
  also have "\<dots> = (byte + 3) mod 4" by (simp add: byte_def and3 mod_simps)
  finally have l: "unat ((ea + 3) AND 3) = (byte + 3) mod 4" .
  have "byte < 4" by (simp add: byte_def and3)
  then have "byte = 0 \<or> byte = 1 \<or> byte = 2 \<or> byte = 3" by arith
  then show ?thesis
    unfolding l lwl_merge_def lwr_merge_def low_masks byte_masks
    by (elim disjE) (auto intro!: bit_word_eqI simp: bit_simps add.commute bit_beyond)
qed


section \<open>Shifts and the byte order of the host\<close>

text \<open>
  The logical shifts \<^verbatim>\<open>SRL\<close> and \<^verbatim>\<open>SRLV\<close> are executed on a signed variable, so they
  extend the sign: they agree with the logical shift exactly when the operand is non-negative or
  the shift amount is zero.
\<close>

theorem execute_SRL_extends_sign:
  fixes m :: machine and i :: instruction
  defines "w \<equiv> registers m (rt i)"
    and "n \<equiv> (if opCode i = OP_SRL then unat (extra i) else unat (registers m (rs i) AND 0x1f))"
  assumes "opCode i \<in> {OP_SRL, OP_SRLV}" "n < 32"
  shows "execute m i = Inr (Next (set_reg m (rd i) (drop_bit n w)) 0 0 (registers m NextPCReg + 4))
           \<longleftrightarrow> 0 \<le> sint w \<or> n = 0"
proof -
  have "signed_drop_bit n w = drop_bit n w \<longleftrightarrow> 0 \<le> sint w \<or> n = 0"
  proof -
    have b: "bit w 31 \<longleftrightarrow> sint w < 0" using bit_last_iff [of w] by simp
    have "signed_drop_bit n w = drop_bit n w" if "\<not> bit w 31 \<or> n = 0"
      using that assms(4)
      by (auto intro!: bit_word_eqI simp: bit_simps bit_beyond split: if_splits)
    moreover have "bit (signed_drop_bit n w) 31 \<noteq> bit (drop_bit n w) 31" if "bit w 31" "n \<noteq> 0"
      using that by (auto simp: bit_simps bit_beyond)
    ultimately show ?thesis using b by (metis linorder_not_le)
  qed
  moreover have "set_reg m (rd i) x = set_reg m (rd i) y \<longleftrightarrow> x = y" for x y
    by (metis fun_upd_same registers_set_reg)
  moreover have "execute m i =
      Inr (Next (set_reg m (rd i) (signed_drop_bit n w)) 0 0 (registers m NextPCReg + 4))"
    using assms(3) unfolding n_def w_def by (elim insertE emptyE) (simp_all add: execute_defs Let_def)
  ultimately show ?thesis by (simp only: sum.inject outcome.inject simp_thms)
qed

theorem execute_SRL_extends_sign_witness:
  "execute (set_reg sample_machine 4 0x80000000) \<lparr>opCode = OP_SRL, rs = 0, rt = 4, rd = 2, extra = 1\<rparr>
     \<noteq> Inr (Next (set_reg (set_reg sample_machine 4 0x80000000) 2 0x40000000) 0 0 4)"
  using execute_SRL_extends_sign [of "\<lparr>opCode = OP_SRL, rs = 0, rt = 4, rd = 2, extra = 1\<rparr>"
      "set_reg sample_machine 4 0x80000000"]
  by (simp add: set_reg_def sample_machine_def new_Machine_def drop_bit_eq_div)

definition on_host :: "bool \<Rightarrow> machine \<Rightarrow> machine" where
  "on_host big m = m\<lparr>hostBigEndian := big\<rparr>"

definition map_res :: "('a \<Rightarrow> 'b) \<Rightarrow> 'a res \<Rightarrow> 'b res" where
  "map_res f r = andThen r (\<lambda>x. Inr (f x))"

definition move :: "bool \<Rightarrow> outcome \<Rightarrow> outcome" where
  "move big out = (case out of Trap e m \<Rightarrow> Trap e (on_host big m) | Next m r v pc \<Rightarrow> Next (on_host big m) r v pc)"

lemma map_res_simps [simp]:
  "map_res f (Inl e) = Inl e" "map_res f (Inr x) = Inr (f x)"
  by (simp_all add: map_res_def)

lemma on_host_simps [simp]:
  "registers (on_host b m) = registers m" "mainMemory (on_host b m) = mainMemory m"
  "tlb (on_host b m) = tlb m" "pageTable (on_host b m) = pageTable m"
  "pageTableSize (on_host b m) = pageTableSize m" "hostBigEndian (on_host b m) = b"
  "(on_host b m)\<lparr>registers := f\<rparr> = on_host b (m\<lparr>registers := f\<rparr>)"
  "(on_host b m)\<lparr>mainMemory := g\<rparr> = on_host b (m\<lparr>mainMemory := g\<rparr>)"
  "(on_host b m)\<lparr>tlb := t\<rparr> = on_host b (m\<lparr>tlb := t\<rparr>)"
  "(on_host b m)\<lparr>pageTable := p\<rparr> = on_host b (m\<lparr>pageTable := p\<rparr>)"
  "set_reg (on_host b m) r v = on_host b (set_reg m r v)"
  by (simp_all add: on_host_def set_reg_def)

lemma DelayedLoad_host: "DelayedLoad (on_host b m) r v = map_res (on_host b) (DelayedLoad m r v)"
  by (simp add: DelayedLoad_def Let_def)

lemma RaiseException_host: "RaiseException (on_host b m) e v = map_res (on_host b) (RaiseException m e v)"
  by (simp add: RaiseException_def DelayedLoad_host)

lemma Translate_host:
  "Translate (on_host b m) va sz w = map_res (\<lambda>(e, pa, m). (e, pa, on_host b m)) (Translate m va sz w)"
  by (auto simp: Translate_def Let_def ASSERT_def map_res_def andThen_assoc split: option.splits
      intro!: andThen_cong)

lemma map_res_andThen: "andThen (map_res f r) g = andThen r (\<lambda>x. g (f x))"
  by (cases r) simp_all

lemma andThen_map_res: "map_res f (andThen r g) = andThen r (\<lambda>x. map_res f (g x))"
  by (cases r) simp_all

lemma ReadMem_host:
  "ReadMem (on_host b m) va sz = map_res (\<lambda>(e, v, m). (e, v, on_host b m)) (ReadMem m va sz)"
  by (auto simp: ReadMem_def Translate_host map_res_andThen andThen_map_res RaiseException_host
      guest_load32 guest_load16 intro!: andThen_cong)

lemma WriteMem_host:
  "WriteMem (on_host b m) va sz v = map_res (\<lambda>(e, m). (e, on_host b m)) (WriteMem m va sz v)"
  by (auto simp: WriteMem_def Translate_host map_res_andThen andThen_map_res RaiseException_host
      guest_store32 guest_store16 intro!: andThen_cong)

lemma raise_exc_host: "raise_exc (on_host b m) e v = map_res (move b) (raise_exc m e v)"
  by (simp add: raise_exc_def RaiseException_host map_res_andThen andThen_map_res move_def)

lemma load_host:
  assumes "\<And>m v. k (on_host b m) v = map_res (move b) (k' m v)"
  shows "load (on_host b m) a sz k = map_res (move b) (load m a sz k')"
  by (auto simp: load_def ReadMem_host map_res_andThen andThen_map_res move_def assms
      intro!: andThen_cong)

lemma store_host:
  assumes "\<And>m. k (on_host b m) = map_res (move b) (k' m)"
  shows "store (on_host b m) a sz v k = map_res (move b) (store m a sz v k')"
  by (auto simp: store_def WriteMem_host map_res_andThen andThen_map_res move_def assms
      intro!: andThen_cong)

lemma Next_host: "Inr (Next (on_host b m) r v pc) = map_res (move b) (Inr (Next m r v pc))"
  by (simp add: move_def)

lemma execute_host: "execute (on_host b m) i = map_res (move b) (execute m i)"
  by (cases "opCode i")
     (auto simp: execute_defs Let_def raise_exc_host move_def split: prod.splits
        intro!: load_host store_host)

text \<open>
  Property C35.  The byte order of the host is invisible to user programs: executing an instruction on
  a big endian host gives the same exception and the same machine, bit for bit, as on a little
  endian one.
\<close>

theorem OneInstruction_host_independent:
  "OneInstruction (m\<lparr>hostBigEndian := big\<rparr>) =
     andThen (OneInstruction m) (\<lambda>(exc, m'). Inr (exc, m'\<lparr>hostBigEndian := big\<rparr>))"
proof -
  have "OneInstruction (on_host big m) = map_res (\<lambda>(e, m). (e, on_host big m)) (OneInstruction m)"
    by (auto simp: OneInstruction_def ReadMem_host map_res_andThen andThen_map_res execute_host
        move_def DelayedLoad_host Let_def split: outcome.splits intro!: andThen_cong)
  then show ?thesis
    by (simp add: on_host_def map_res_def split_def)
qed

end
