(* ===== verification/NList.thy ===== *)
theory NList
  imports Nachos_Prelude
begin

text \<open>
  The singly linked lists of \<^verbatim>\<open>lib/list.h\<close> and \<^verbatim>\<open>lib/list.cc\<close>: \<^verbatim>\<open>List<T>\<close>, \<^verbatim>\<open>SortedList<T>\<close> and
  \<^verbatim>\<open>ListIterator<T>\<close>, on an explicit heap of \<^verbatim>\<open>ListElement\<close>s.

  An operation returns \<open>None\<close> when one of its loops never ends (a cyclic list), \<open>Some (Inl f)\<close>
  when it stops with the fault \<open>f\<close> and \<open>Some (Inr y)\<close> when it returns.  The refinement lemmas
  relate a list object to the sequence of its items (\<open>list_rep\<close>) and show that on such an object
  every operation returns, computes what the operation on sequences computes, and frees exactly
  the element it unlinks.  The kernel components (scheduler, semaphores, interrupts) then use the
  operations on sequences, \<open>seq_Append\<close>, \<open>seq_RemoveFront\<close>, \<open>seq_Remove\<close> and \<open>seq_Insert\<close>.
\<close>

section \<open>The heap of list elements\<close>

record 'a list_element =
  item :: 'a
  el_next :: "nat option"

text \<open>\<open>fresh\<close> is the next address \<^verbatim>\<open>new\<close> hands out; \<^verbatim>\<open>NULL\<close> is \<open>None\<close>.\<close>

record 'a nlist =
  heap :: "nat \<Rightarrow> 'a list_element option"
  fresh :: nat
  l_first :: "nat option"
  l_last :: "nat option"
  numInList :: int

type_synonym 'a run = "'a res option"

definition bindR :: "'a run \<Rightarrow> ('a \<Rightarrow> 'b run) \<Rightarrow> 'b run" where
  "bindR m f = (case m of None \<Rightarrow> None | Some (Inl e) \<Rightarrow> Some (Inl e) | Some (Inr x) \<Rightarrow> f x)"

definition assertR :: "bool \<Rightarrow> 'a run \<Rightarrow> 'a run" where
  "assertR b k = (if b then k else Some (Inl Assertion_failed))"

lemma bindR_simps [simp]:
  "bindR (Some (Inr x)) f = f x" "bindR (Some (Inl e)) f = Some (Inl e)" "bindR None f = None"
  by (simp_all add: bindR_def)

lemma assertR_simps [simp]: "assertR True k = k" "assertR False k = Some (Inl Assertion_failed)"
  by (simp_all add: assertR_def)

definition deref :: "'a nlist \<Rightarrow> nat option \<Rightarrow> (nat \<Rightarrow> 'a list_element \<Rightarrow> 'b run) \<Rightarrow> 'b run" where
  "deref l p k =
     (case p of
        None \<Rightarrow> Some (Inl Null_dereference)
      | Some a \<Rightarrow> (case heap l a of None \<Rightarrow> Some (Inl Dangling_pointer) | Some c \<Rightarrow> k a c))"

definition new_element :: "'a nlist \<Rightarrow> 'a \<Rightarrow> nat \<times> 'a nlist" where
  "new_element l x =
     (fresh l, l\<lparr>heap := (heap l)(fresh l \<mapsto> \<lparr>item = x, el_next = None\<rparr>), fresh := Suc (fresh l)\<rparr>)"

definition set_cell :: "'a nlist \<Rightarrow> nat \<Rightarrow> 'a list_element \<Rightarrow> 'a nlist" where
  "set_cell l a c = l\<lparr>heap := (heap l)(a \<mapsto> c)\<rparr>"

definition delete_element :: "'a nlist \<Rightarrow> nat \<Rightarrow> 'a nlist" where
  "delete_element l a = l\<lparr>heap := (heap l)(a := None)\<rparr>"

section \<open>List\<close>

definition new_List :: "'a nlist" where
  "new_List = \<lparr>heap = (\<lambda>_. None), fresh = 0, l_first = None, l_last = None, numInList = 0\<rparr>"

definition IsEmpty :: "'a nlist \<Rightarrow> bool" where
  "IsEmpty l \<longleftrightarrow> numInList l = 0"

definition Front :: "'a nlist \<Rightarrow> 'a run" where
  "Front l = deref l (l_first l) (\<lambda>_ c. Some (Inr (item c)))"

partial_function (option) IsInList_loop :: "'a nlist \<Rightarrow> nat option \<Rightarrow> 'a \<Rightarrow> bool run" where
  "IsInList_loop l ptr x =
     (case ptr of
        None \<Rightarrow> Some (Inr False)
      | Some a \<Rightarrow> (case heap l a of
          None \<Rightarrow> Some (Inl Dangling_pointer)
        | Some c \<Rightarrow> if x = item c then Some (Inr True) else IsInList_loop l (el_next c) x))"

definition IsInList :: "'a nlist \<Rightarrow> 'a \<Rightarrow> bool run" where
  "IsInList l x = IsInList_loop l (l_first l) x"

text \<open>The common end of the insertions: \<^verbatim>\<open>numInList++; ASSERT(IsInList(item));\<close>.\<close>

definition count_and_check :: "'a nlist \<Rightarrow> 'a \<Rightarrow> 'a nlist run" where
  "count_and_check l x =
     (let l = l\<lparr>numInList := numInList l + 1\<rparr>
      in bindR (IsInList l x) (\<lambda>b. assertR b (Some (Inr l))))"

definition Append :: "'a nlist \<Rightarrow> 'a \<Rightarrow> 'a nlist run" where
  "Append l0 x =
     (let (element, l) = new_element l0 x in
      bindR (IsInList l x) (\<lambda>b. assertR (\<not> b)
     (bindR (if IsEmpty l then Some (Inr (l\<lparr>l_first := Some element, l_last := Some element\<rparr>))
             else deref l (l_last l) (\<lambda>a c.
               Some (Inr ((set_cell l a (c\<lparr>el_next := Some element\<rparr>))\<lparr>l_last := Some element\<rparr>))))
      (\<lambda>l. count_and_check l x))))"

definition Prepend :: "'a nlist \<Rightarrow> 'a \<Rightarrow> 'a nlist run" where
  "Prepend l0 x =
     (let (element, l) = new_element l0 x in
      bindR (IsInList l x) (\<lambda>b. assertR (\<not> b)
     (bindR (if IsEmpty l then Some (Inr (l\<lparr>l_first := Some element, l_last := Some element\<rparr>))
             else deref l (Some element) (\<lambda>a c.
               Some (Inr ((set_cell l a (c\<lparr>el_next := l_first l\<rparr>))\<lparr>l_first := Some element\<rparr>))))
      (\<lambda>l. count_and_check l x))))"

definition RemoveFront :: "'a nlist \<Rightarrow> ('a \<times> 'a nlist) run" where
  "RemoveFront l =
     assertR (\<not> IsEmpty l)
    (deref l (l_first l) (\<lambda>element c.
     let l1 = (if l_first l = l_last l then l\<lparr>l_first := None, l_last := None\<rparr>
               else l\<lparr>l_first := el_next c\<rparr>);
         l2 = l1\<lparr>numInList := numInList l1 - 1\<rparr>
     in Some (Inr (item c, delete_element l2 element))))"

text \<open>The loop of \<^verbatim>\<open>Remove\<close>; leaving it with \<^verbatim>\<open>ptr == NULL\<close> trips the assertion after it.\<close>

partial_function (option) Remove_loop :: "'a nlist \<Rightarrow> 'a \<Rightarrow> nat \<Rightarrow> nat option \<Rightarrow> 'a nlist run" where
  "Remove_loop l x prev ptr =
     (case ptr of
        None \<Rightarrow> Some (Inl Assertion_failed)
      | Some a \<Rightarrow> (case heap l a of
          None \<Rightarrow> Some (Inl Dangling_pointer)
        | Some c \<Rightarrow>
            if x = item c then
              (case heap l prev of
                 None \<Rightarrow> Some (Inl Dangling_pointer)
               | Some pc \<Rightarrow>
                   (let l1 = set_cell l prev (pc\<lparr>el_next := el_next c\<rparr>);
                        l2 = (if el_next c = None then l1\<lparr>l_last := Some prev\<rparr> else l1);
                        l3 = delete_element l2 a
                    in Some (Inr (l3\<lparr>numInList := numInList l3 - 1\<rparr>))))
            else Remove_loop l x a (el_next c)))"

definition Remove :: "'a nlist \<Rightarrow> 'a \<Rightarrow> 'a nlist run" where
  "Remove l x =
     bindR (IsInList l x) (\<lambda>b. assertR b
    (bindR (deref l (l_first l) (\<lambda>a c.
              if x = item c then
                bindR (RemoveFront l) (\<lambda>(removed, l). assertR (x = removed) (Some (Inr l)))
              else Remove_loop l x a (el_next c)))
     (\<lambda>l. bindR (IsInList l x) (\<lambda>b. assertR (\<not> b) (Some (Inr l))))))"

text \<open>\<^verbatim>\<open>Apply\<close>, the function being a state transformer over the items.\<close>

partial_function (option) Apply_loop :: "'a nlist \<Rightarrow> nat option \<Rightarrow> ('a \<Rightarrow> 's \<Rightarrow> 's) \<Rightarrow> 's \<Rightarrow> 's run" where
  "Apply_loop l ptr f s =
     (case ptr of
        None \<Rightarrow> Some (Inr s)
      | Some a \<Rightarrow> (case heap l a of
          None \<Rightarrow> Some (Inl Dangling_pointer)
        | Some c \<Rightarrow> Apply_loop l (el_next c) f (f (item c) s)))"

definition Apply :: "'a nlist \<Rightarrow> ('a \<Rightarrow> 's \<Rightarrow> 's) \<Rightarrow> 's \<Rightarrow> 's run" where
  "Apply l f s = Apply_loop l (l_first l) f s"

partial_function (option) SanityCheck_loop :: "'a nlist \<Rightarrow> int \<Rightarrow> nat option \<Rightarrow> int run" where
  "SanityCheck_loop l numFound ptr =
     (if ptr = l_last l then Some (Inr numFound)
      else if numFound + 1 \<le> numInList l then
        (case ptr of
           None \<Rightarrow> Some (Inl Null_dereference)
         | Some a \<Rightarrow> (case heap l a of
             None \<Rightarrow> Some (Inl Dangling_pointer)
           | Some c \<Rightarrow> SanityCheck_loop l (numFound + 1) (el_next c)))
      else Some (Inl Assertion_failed))"

definition SanityCheck :: "'a nlist \<Rightarrow> unit run" where
  "SanityCheck l =
     (if l_first l = None then assertR (numInList l = 0 \<and> l_last l = None) (Some (Inr ()))
      else if l_first l = l_last l then
        assertR (numInList l = 1) (deref l (l_last l) (\<lambda>_ c. assertR (el_next c = None) (Some (Inr ()))))
      else
        bindR (SanityCheck_loop l 1 (l_first l)) (\<lambda>numFound.
        assertR (numFound = numInList l)
       (deref l (l_last l) (\<lambda>_ c. assertR (el_next c = None) (Some (Inr ()))))))"

section \<open>SortedList\<close>

text \<open>
  The loop of \<^verbatim>\<open>Insert\<close>: \<open>Inr (True, l)\<close> is its early return, \<open>Inr (False, l)\<close> its normal end.
\<close>

partial_function (option) Insert_loop ::
  "('a \<Rightarrow> 'a \<Rightarrow> int) \<Rightarrow> 'a nlist \<Rightarrow> 'a \<Rightarrow> nat \<Rightarrow> nat \<Rightarrow> (bool \<times> 'a nlist) run" where
  "Insert_loop compare l x element ptr =
     (case heap l ptr of
        None \<Rightarrow> Some (Inl Dangling_pointer)
      | Some c \<Rightarrow> (case el_next c of
          None \<Rightarrow> Some (Inr (False, l))
        | Some n \<Rightarrow> (case heap l n of
            None \<Rightarrow> Some (Inl Dangling_pointer)
          | Some cn \<Rightarrow>
              if compare x (item cn) < 0 then
                (let l1 = set_cell l element \<lparr>item = x, el_next = Some n\<rparr>;
                     l2 = set_cell l1 ptr (c\<lparr>el_next := Some element\<rparr>)
                 in Some (Inr (True, l2\<lparr>numInList := numInList l2 + 1\<rparr>)))
              else Insert_loop compare l x element n)))"

definition Insert_at_end :: "'a nlist \<Rightarrow> 'a \<Rightarrow> nat \<Rightarrow> 'a nlist run" where
  "Insert_at_end l x element =
     deref l (l_last l) (\<lambda>t c.
       count_and_check ((set_cell l t (c\<lparr>el_next := Some element\<rparr>))\<lparr>l_last := Some element\<rparr>) x)"

definition Insert :: "('a \<Rightarrow> 'a \<Rightarrow> int) \<Rightarrow> 'a nlist \<Rightarrow> 'a \<Rightarrow> 'a nlist run" where
  "Insert compare l0 x =
     (let (element, l) = new_element l0 x
      in bindR (IsInList l x) (\<lambda>b. assertR (\<not> b)
        (if IsEmpty l then count_and_check (l\<lparr>l_first := Some element, l_last := Some element\<rparr>) x
         else deref l (l_first l) (\<lambda>a c.
           if compare x (item c) < 0
           then count_and_check
                  ((set_cell l element \<lparr>item = x, el_next = l_first l\<rparr>)\<lparr>l_first := Some element\<rparr>) x
           else bindR (Insert_loop compare l x element a) (\<lambda>(early, l).
             if early then Some (Inr l) else Insert_at_end l x element)))))"

partial_function (option) Sorted_SanityCheck_loop ::
  "('a \<Rightarrow> 'a \<Rightarrow> int) \<Rightarrow> 'a nlist \<Rightarrow> 'a \<Rightarrow> nat option \<Rightarrow> unit run" where
  "Sorted_SanityCheck_loop compare l prev ptr =
     (case ptr of
        None \<Rightarrow> Some (Inr ())
      | Some a \<Rightarrow> (case heap l a of
          None \<Rightarrow> Some (Inl Dangling_pointer)
        | Some c \<Rightarrow> if compare prev (item c) \<le> 0
                    then Sorted_SanityCheck_loop compare l (item c) (el_next c)
                    else Some (Inl Assertion_failed)))"

definition Sorted_SanityCheck :: "('a \<Rightarrow> 'a \<Rightarrow> int) \<Rightarrow> 'a nlist \<Rightarrow> unit run" where
  "Sorted_SanityCheck compare l =
     bindR (SanityCheck l) (\<lambda>_.
     if l_first l \<noteq> l_last l
     then deref l (l_first l) (\<lambda>_ c. Sorted_SanityCheck_loop compare l (item c) (el_next c))
     else Some (Inr ()))"

section \<open>ListIterator\<close>

definition iter_start :: "'a nlist \<Rightarrow> nat option" where
  "iter_start l = l_first l"

definition iter_IsDone :: "nat option \<Rightarrow> bool" where
  "iter_IsDone current \<longleftrightarrow> current = None"

definition iter_Item :: "'a nlist \<Rightarrow> nat option \<Rightarrow> 'a run" where
  "iter_Item l current = assertR (\<not> iter_IsDone current) (deref l current (\<lambda>_ c. Some (Inr (item c))))"

definition iter_Next :: "'a nlist \<Rightarrow> nat option \<Rightarrow> nat option run" where
  "iter_Next l current = deref l current (\<lambda>_ c. Some (Inr (el_next c)))"

section \<open>Self tests\<close>

fun forR :: "('i \<Rightarrow> 's \<Rightarrow> 's run) \<Rightarrow> 'i list \<Rightarrow> 's \<Rightarrow> 's run" where
  "forR f [] s = Some (Inr s)"
| "forR f (i # is) s = bindR (f i s) (forR f is)"

text \<open>
  \<^verbatim>\<open>SelfTest\<close>: \<open>vAppend\<close> and \<open>vSanityCheck\<close> are the virtual methods \<^verbatim>\<open>Append\<close> and \<^verbatim>\<open>SanityCheck\<close> of the
  object, \<open>ps\<close> the array of \<^verbatim>\<open>numEntries\<close> items.  The iterator was made before the first
  assertion, on the list as it is on entry.
\<close>

definition List_SelfTest ::
  "('a nlist \<Rightarrow> 'a \<Rightarrow> 'a nlist run) \<Rightarrow> ('a nlist \<Rightarrow> unit run) \<Rightarrow> 'a nlist \<Rightarrow> 'a list \<Rightarrow> 'a nlist run" where
  "List_SelfTest vAppend vSanityCheck l ps =
     bindR (vSanityCheck l) (\<lambda>_.
     assertR (IsEmpty l \<and> l_first l = None)
    (assertR (iter_IsDone (iter_start l))
    (bindR (forR (\<lambda>x l. bindR (vAppend l x) (\<lambda>l.
              bindR (IsInList l x) (\<lambda>b. assertR (b \<and> \<not> IsEmpty l) (Some (Inr l))))) ps l) (\<lambda>l.
     bindR (vSanityCheck l) (\<lambda>_.
     bindR (forR (\<lambda>x l. bindR (Remove l x) (\<lambda>l.
              bindR (IsInList l x) (\<lambda>b. assertR (\<not> b) (Some (Inr l))))) ps l) (\<lambda>l.
     assertR (IsEmpty l) (bindR (vSanityCheck l) (\<lambda>_. Some (Inr l)))))))))"

fun sorted_pairs :: "('a \<Rightarrow> 'a \<Rightarrow> int) \<Rightarrow> 'a list \<Rightarrow> bool" where
  "sorted_pairs compare (x # y # q) = (compare x y \<le> 0 \<and> sorted_pairs compare (y # q))"
| "sorted_pairs compare q = True"

definition Sorted_SelfTest :: "('a \<Rightarrow> 'a \<Rightarrow> int) \<Rightarrow> 'a nlist \<Rightarrow> 'a list \<Rightarrow> 'a nlist run" where
  "Sorted_SelfTest compare l ps =
     bindR (List_SelfTest (Insert compare) (Sorted_SanityCheck compare) l ps) (\<lambda>l.
     bindR (forR (\<lambda>x l. bindR (Insert compare l x) (\<lambda>l.
              bindR (IsInList l x) (\<lambda>b. assertR b (Some (Inr l))))) ps l) (\<lambda>l.
     bindR (Sorted_SanityCheck compare l) (\<lambda>_.
     bindR (forR (\<lambda>_ (q, l). bindR (RemoveFront l) (\<lambda>(x, l).
              bindR (IsInList l x) (\<lambda>b. assertR (\<not> b) (Some (Inr (q @ [x], l)))))) ps ([], l)) (\<lambda>(q, l).
     assertR (IsEmpty l)
    (assertR (sorted_pairs compare q)
    (bindR (Sorted_SanityCheck compare l) (\<lambda>_. Some (Inr l))))))))"

section \<open>The operations on sequences\<close>

definition seq_Append :: "'a list \<Rightarrow> 'a \<Rightarrow> 'a list res" where
  "seq_Append xs x = ASSERT (x \<notin> set xs) (Inr (xs @ [x]))"

definition seq_Prepend :: "'a list \<Rightarrow> 'a \<Rightarrow> 'a list res" where
  "seq_Prepend xs x = ASSERT (x \<notin> set xs) (Inr (x # xs))"

definition seq_RemoveFront :: "'a list \<Rightarrow> ('a \<times> 'a list) res" where
  "seq_RemoveFront xs = (case xs of [] \<Rightarrow> Inl Assertion_failed | x # xs \<Rightarrow> Inr (x, xs))"

definition seq_Remove :: "'a list \<Rightarrow> 'a \<Rightarrow> 'a list res" where
  "seq_Remove xs x = ASSERT (x \<in> set xs) (Inr (remove1 x xs))"

fun insert_by :: "('a \<Rightarrow> 'a \<Rightarrow> int) \<Rightarrow> 'a \<Rightarrow> 'a list \<Rightarrow> 'a list" where
  "insert_by compare x [] = [x]"
| "insert_by compare x (y # ys) = (if compare x y < 0 then x # y # ys else y # insert_by compare x ys)"

definition seq_Insert :: "('a \<Rightarrow> 'a \<Rightarrow> int) \<Rightarrow> 'a list \<Rightarrow> 'a \<Rightarrow> 'a list res" where
  "seq_Insert compare xs x = ASSERT (x \<notin> set xs) (Inr (insert_by compare x xs))"

section \<open>Chains of elements\<close>

fun chain :: "(nat \<Rightarrow> 'a list_element option) \<Rightarrow> nat option \<Rightarrow> nat list \<Rightarrow> 'a list \<Rightarrow> nat option \<Rightarrow> bool" where
  "chain h p [] [] q \<longleftrightarrow> p = q"
| "chain h p (a # as) (x # xs) q \<longleftrightarrow>
     p = Some a \<and> (\<exists>n. h a = Some \<lparr>item = x, el_next = n\<rparr> \<and> chain h n as xs q)"
| "chain h p _ _ q \<longleftrightarrow> False"

text \<open>
  \<open>list_rep l as xs\<close>: the object \<open>l\<close> holds the items \<open>xs\<close>, in the elements at the addresses
  \<open>as\<close>; no other element is allocated.
\<close>

definition list_rep :: "'a nlist \<Rightarrow> nat list \<Rightarrow> 'a list \<Rightarrow> bool" where
  "list_rep l as xs \<longleftrightarrow>
     chain (heap l) (l_first l) as xs None \<and> distinct as \<and> distinct xs \<and>
     l_last l = (if as = [] then None else Some (last as)) \<and>
     numInList l = int (length xs) \<and> dom (heap l) = set as \<and> (\<forall>a\<in>set as. a < fresh l)"

definition holds :: "'a nlist \<Rightarrow> 'a list \<Rightarrow> bool" where
  "holds l xs \<longleftrightarrow> (\<exists>as. list_rep l as xs)"

lemma holdsI: "list_rep l as xs \<Longrightarrow> holds l xs"
  by (auto simp: holds_def)

lemma holdsE: "holds l xs \<Longrightarrow> (\<And>as. list_rep l as xs \<Longrightarrow> P) \<Longrightarrow> P"
  by (auto simp: holds_def)

lemma chain_length: "chain h p as xs q \<Longrightarrow> length as = length xs"
  by (induction h p as xs q rule: chain.induct) auto

lemma chain_frame: "a \<notin> set as \<Longrightarrow> chain (h(a := v)) p as xs q = chain h p as xs q"
  by (induction h p as xs q rule: chain.induct) auto

lemma chain_append:
  "length as = length xs \<Longrightarrow>
     chain h p (as @ as') (xs @ xs') q \<longleftrightarrow> (\<exists>r. chain h p as xs r \<and> chain h r as' xs' q)"
  by (induction as xs arbitrary: p rule: list_induct2) auto

lemma chain_Nil [simp]:
  "chain h p [] xs q \<longleftrightarrow> xs = [] \<and> p = q" "chain h p as [] q \<longleftrightarrow> as = [] \<and> p = q"
  by (cases xs; auto) (cases as; auto)

lemma chain_first: "chain h p as xs q \<Longrightarrow> as \<noteq> [] \<Longrightarrow> p = Some (hd as)"
  by (cases as; cases xs) auto

lemma chain_None: "chain h None as xs None \<longleftrightarrow> as = [] \<and> xs = []"
  by (cases as; cases xs) auto

lemma IsInList_loop_chain:
  "chain (heap l) p as xs None \<Longrightarrow> IsInList_loop l p x = Some (Inr (x \<in> set xs))"
proof (induction as arbitrary: p xs)
  case (Cons a as)
  then show ?case by (cases xs) (auto simp: IsInList_loop.simps [of l "Some a"])
qed (simp add: IsInList_loop.simps)

lemma IsInList_holds: "holds l xs \<Longrightarrow> IsInList l x = Some (Inr (x \<in> set xs))"
  by (auto simp: holds_def list_rep_def IsInList_def IsInList_loop_chain)

lemma IsEmpty_holds: "holds l xs \<Longrightarrow> IsEmpty l \<longleftrightarrow> xs = []"
  by (auto simp: holds_def list_rep_def IsEmpty_def)

lemma new_List_holds: "holds new_List []"
  by (auto simp: holds_def list_rep_def new_List_def)


section \<open>The operations on list objects implement the operations on sequences\<close>

lemma chain_last_next:
  assumes "chain h p as xs None" "distinct as" "as \<noteq> []"
  obtains x where "h (last as) = Some \<lparr>item = x, el_next = None\<rparr>"
    and "chain (h(last as := Some \<lparr>item = x, el_next = Some e\<rparr>)) p as xs (Some e)"
proof -
  obtain as' a where as: "as = as' @ [a]" using assms(3) by (metis rev_exhaust)
  then obtain xs' x where xs: "xs = xs' @ [x]"
    using chain_length [OF assms(1)] by (metis length_0_conv rev_exhaust snoc_eq_iff_butlast)
  have len: "length as' = length xs'" using chain_length [OF assms(1)] as xs by simp
  have "chain h p as' xs' (Some a)" "h a = Some \<lparr>item = x, el_next = None\<rparr>"
    using assms(1) as xs chain_append [OF len] by auto
  with that [of x] as xs len assms(2) show thesis by (auto simp: chain_append chain_frame)
qed

lemma list_repD:
  assumes "list_rep l as xs"
  shows "chain (heap l) (l_first l) as xs None" "distinct as" "distinct xs"
    "l_last l = (if as = [] then None else Some (last as))" "numInList l = int (length xs)"
    "dom (heap l) = set as" "\<forall>a\<in>set as. a < fresh l" "length as = length xs"
  using assms chain_length by (auto simp: list_rep_def)

lemma fresh_unused:
  assumes "list_rep l as xs" shows "fresh l \<notin> set as" "heap l (fresh l) = None"
  using list_repD(6,7) [OF assms] by (auto simp: dom_def)

lemma Append_fresh:
  assumes r: "list_rep l as xs" and x: "x \<notin> set xs"
  shows "\<exists>l'. Append l x = Some (Inr l') \<and> list_rep l' (as @ [fresh l]) (xs @ [x])"
proof -
  note r' = list_repD [OF r] and f = fresh_unused [OF r]
  let ?e = "fresh l"
  let ?h = "(heap l)(?e \<mapsto> \<lparr>item = x, el_next = None\<rparr>)"
  have c: "chain ?h (l_first l) as xs None" using r'(1) f(1) by (simp add: chain_frame)
  show ?thesis
  proof (cases "xs = []")
    case True
    with r' have "as = []" "l_first l = None" by auto
    with True r' f show ?thesis
      by (auto simp: Append_def count_and_check_def new_element_def IsInList_def IsInList_loop.simps IsEmpty_def Let_def
          list_rep_def)
  next
    case False
    then have ne: "as \<noteq> []" using r'(8) by auto
    obtain y where y: "?h (last as) = Some \<lparr>item = y, el_next = None\<rparr>"
      "chain (?h(last as := Some \<lparr>item = y, el_next = Some ?e\<rparr>)) (l_first l) as xs (Some ?e)"
      by (rule chain_last_next [OF c r'(2) ne])
    have le: "last as \<noteq> ?e" using f(1) ne by (metis last_in_set)
    let ?l = "l\<lparr>fresh := Suc ?e, heap := ?h(last as := Some \<lparr>item = y, el_next = Some ?e\<rparr>),
              l_last := Some ?e, numInList := numInList l + 1\<rparr>"
    have rep: "list_rep ?l (as @ [?e]) (xs @ [x])"
      using y r' f x ne le by (auto simp: list_rep_def chain_append)
    have "IsInList (snd (new_element l x)) x = Some (Inr False)"
      using c x by (simp add: IsInList_def new_element_def IsInList_loop_chain)
    moreover have "IsInList ?l x = Some (Inr True)"
      using IsInList_holds [OF holdsI [OF rep], of x] by simp
    ultimately have "Append l x = Some (Inr ?l)"
      using False r' y(1) ne le
      by (simp add: Append_def count_and_check_def new_element_def IsEmpty_def deref_def set_cell_def Let_def)
    with rep show ?thesis by blast
  qed
qed

lemma Append_present:
  assumes "list_rep l as xs" "x \<in> set xs"
  shows "Append l x = Some (Inl Assertion_failed)"
proof -
  have "chain ((heap l)(fresh l \<mapsto> \<lparr>item = x, el_next = None\<rparr>)) (l_first l) as xs None"
    using list_repD(1) [OF assms(1)] fresh_unused(1) [OF assms(1)] by (simp add: chain_frame)
  with assms(2) show ?thesis
    by (simp add: Append_def new_element_def IsInList_def IsInList_loop_chain)
qed

lemma Prepend_fresh:
  assumes r: "list_rep l as xs" and x: "x \<notin> set xs"
  shows "\<exists>l'. Prepend l x = Some (Inr l') \<and> list_rep l' (fresh l # as) (x # xs)"
proof (cases "xs = []")
  case True
  with list_repD [OF r] have "as = []" "l_first l = None" by auto
  with True list_repD [OF r] fresh_unused [OF r] show ?thesis
    by (auto simp: Prepend_def count_and_check_def new_element_def IsInList_def IsInList_loop.simps IsEmpty_def Let_def
        list_rep_def)
next
  case False
  note r' = list_repD [OF r] and f = fresh_unused [OF r]
  let ?e = "fresh l"
  let ?l = "l\<lparr>fresh := Suc ?e, heap := (heap l)(?e \<mapsto> \<lparr>item = x, el_next = l_first l\<rparr>),
            l_first := Some ?e, numInList := numInList l + 1\<rparr>"
  have rep: "list_rep ?l (?e # as) (x # xs)"
    using r' f x False by (auto simp: list_rep_def chain_frame)
  have "chain ((heap l)(?e \<mapsto> \<lparr>item = x, el_next = None\<rparr>)) (l_first l) as xs None"
    using r'(1) f(1) by (simp add: chain_frame)
  then have "IsInList (snd (new_element l x)) x = Some (Inr False)"
    using x by (simp add: IsInList_def new_element_def IsInList_loop_chain)
  moreover have "IsInList ?l x = Some (Inr True)"
    using IsInList_holds [OF holdsI [OF rep], of x] by simp
  ultimately have "Prepend l x = Some (Inr ?l)"
    using r' False by (simp add: Prepend_def count_and_check_def new_element_def IsEmpty_def deref_def set_cell_def Let_def)
  with rep show ?thesis by blast
qed

lemma RemoveFront_rep:
  assumes r: "list_rep l as (x # xs)"
  shows "\<exists>l'. RemoveFront l = Some (Inr (x, l')) \<and> list_rep l' (tl as) xs"
proof -
  note r' = list_repD [OF r]
  from r' obtain a as' n where a: "as = a # as'" "l_first l = Some a"
    "heap l a = Some \<lparr>item = x, el_next = n\<rparr>" "chain (heap l) n as' xs None" "a \<notin> set as'"
    by (cases as) auto
  have "a = last as \<longleftrightarrow> as' = []" using a by (metis last.simps last_in_set)
  with r' a show ?thesis
    by (auto simp: RemoveFront_def IsEmpty_def deref_def delete_element_def Let_def list_rep_def
        chain_frame)
qed


lemma Remove_loop_walk:
  "chain (heap l) p as xs (Some a) \<Longrightarrow> x \<notin> set xs \<Longrightarrow>
     Remove_loop l x c p = Remove_loop l x (last (c # as)) (Some a)"
proof (induction as arbitrary: c p xs)
  case (Cons b as)
  then obtain y ys n where "xs = y # ys" "p = Some b" "heap l b = Some \<lparr>item = y, el_next = n\<rparr>"
    "chain (heap l) n as ys (Some a)" by (cases xs) auto
  with Cons.IH [of n ys b] Cons.prems(2) show ?case
    by (simp add: Remove_loop.simps [of l x c "Some b"])
qed simp

text \<open>Unlinking the element at \<open>a\<close>, whose predecessor is \<open>b\<close>.\<close>

lemma unlink_rep:
  assumes r: "list_rep l (as @ b # a # as') (xs @ y # x # xs')" and len: "length as = length xs"
  obtains n where "heap l b = Some \<lparr>item = y, el_next = Some a\<rparr>" "heap l a = Some \<lparr>item = x, el_next = n\<rparr>"
    "n = None \<longleftrightarrow> as' = []"
    "list_rep (l\<lparr>heap := (heap l)(b \<mapsto> \<lparr>item = y, el_next = n\<rparr>, a := None),
        l_last := (if n = None then Some b else l_last l), numInList := numInList l - 1\<rparr>)
       (as @ b # as') (xs @ y # xs')"
proof -
  note r' = list_repD [OF r]
  obtain n where h: "chain (heap l) (l_first l) as xs (Some b)"
    "heap l b = Some \<lparr>item = y, el_next = Some a\<rparr>" "heap l a = Some \<lparr>item = x, el_next = n\<rparr>"
    "chain (heap l) n as' xs' None"
    using r'(1) chain_append [OF len] by auto
  have d: "a \<noteq> b" "a \<notin> set as" "b \<notin> set as" "a \<notin> set as'" "b \<notin> set as'"
    using r'(2) by auto
  have n: "n = None \<longleftrightarrow> as' = []"
    using h(4) by (cases as'; cases xs') auto
  let ?h = "(heap l)(b \<mapsto> \<lparr>item = y, el_next = n\<rparr>, a := None)"
  have "chain ?h (l_first l) (as @ b # as') (xs @ y # xs') None"
    using h d by (simp add: chain_append [OF len] chain_frame)
  moreover have "dom ?h = set (as @ b # as')" using r'(6) d by auto
  ultimately have "list_rep (l\<lparr>heap := ?h, l_last := (if n = None then Some b else l_last l),
      numInList := numInList l - 1\<rparr>) (as @ b # as') (xs @ y # xs')"
    using r' n by (auto simp: list_rep_def)
  with that h n show thesis by blast
qed

lemma Remove_rep:
  assumes r: "list_rep l as xs" and x: "x \<in> set xs"
  shows "\<exists>l' as'. Remove l x = Some (Inr l') \<and> list_rep l' as' (remove1 x xs)"
proof -
  have isin: "IsInList l x = Some (Inr True)"
    using IsInList_holds [OF holdsI [OF r]] x by simp
  obtain z zs where xs: "xs = z # zs" using x by (cases xs) auto
  note r' = list_repD [OF r]
  obtain c cs n where as: "as = c # cs" "l_first l = Some c" "heap l c = Some \<lparr>item = z, el_next = n\<rparr>"
    "chain (heap l) n cs zs None"
    using r'(1) xs by (cases as) auto
  have fin: ?thesis
    if l': "Remove l x = bindR (Some (Inr l')) (\<lambda>l. bindR (IsInList l x) (\<lambda>b. assertR (\<not> b) (Some (Inr l))))"
      and rep: "list_rep l' as' (remove1 x xs)" for l' as'
  proof -
    have "x \<notin> set (remove1 x xs)" using r'(3) by simp
    then have "IsInList l' x = Some (Inr False)" using IsInList_holds [OF holdsI [OF rep], of x] by simp
    with l' rep show ?thesis by auto
  qed
  show ?thesis
  proof (cases "x = z")
    case True
    obtain l' where "RemoveFront l = Some (Inr (x, l'))" "list_rep l' (tl as) zs"
      using RemoveFront_rep [of l as z zs] r xs True by auto
    with True xs as isin show ?thesis by (intro fin) (auto simp: Remove_def deref_def)
  next
    case False
    with x xs obtain ys zs' where ys: "zs = ys @ x # zs'" "x \<notin> set ys"
      by (metis set_ConsD split_list_first)
    define mid where "mid = take (length ys) cs"
    obtain a cs' where cs: "cs = mid @ a # cs'" "length mid = length ys"
    proof -
      have "length ys < length cs" using chain_length [OF as(4)] ys(1) by simp
      with that [of "cs ! length ys" "drop (Suc (length ys)) cs"] show thesis
        by (simp add: mid_def id_take_nth_drop)
    qed
    have walk: "chain (heap l) n mid ys (Some a)"
      using as(4) cs ys(1) chain_append [OF cs(2)] by auto
    obtain pre b where pre: "c # mid = pre @ [b]" "b = last (c # mid)" by (metis append_butlast_last_id list.distinct(1))
    obtain xpre y where xpre: "z # ys = xpre @ [y]" "y = last (z # ys)" by (metis append_butlast_last_id list.distinct(1))
    have len: "length pre = length xpre" using arg_cong [OF pre(1), of length] arg_cong [OF xpre(1), of length] cs(2) by simp
    have eq: "as = pre @ b # a # cs'" "xs = xpre @ y # x # zs'"
      using as(1) xs cs(1) ys(1) pre(1) xpre(1) by (metis append.assoc append_Cons append_Nil)+
    obtain m where u: "heap l b = Some \<lparr>item = y, el_next = Some a\<rparr>" "heap l a = Some \<lparr>item = x, el_next = m\<rparr>"
      "list_rep (l\<lparr>heap := (heap l)(b \<mapsto> \<lparr>item = y, el_next = m\<rparr>, a := None),
        l_last := (if m = None then Some b else l_last l), numInList := numInList l - 1\<rparr>)
       (pre @ b # cs') (xpre @ y # zs')"
      by (rule unlink_rep [OF r [unfolded eq] len])
    have rem: "remove1 x xs = xpre @ y # zs'"
    proof -
      have "x \<notin> set (xpre @ [y])" using False ys(2) by (simp flip: xpre(1))
      then show ?thesis by (simp add: eq remove1_append)
    qed
    have "Remove_loop l x c n = Remove_loop l x b (Some a)"
      using Remove_loop_walk [OF walk ys(2), of c] pre(2) by simp
    then have "Remove_loop l x c n = Some (Inr (l\<lparr>heap := (heap l)(b \<mapsto> \<lparr>item = y, el_next = m\<rparr>, a := None),
        l_last := (if m = None then Some b else l_last l), numInList := numInList l - 1\<rparr>))"
      using u(1,2) by (auto simp: Remove_loop.simps [of l x b] set_cell_def delete_element_def Let_def)
    with False u(3) rem as isin show ?thesis by (intro fin) (auto simp: Remove_def deref_def)
  qed
qed


section \<open>Sorted insertion\<close>

lemma insert_by_split:
  obtains pre post where "xs = pre @ post" "insert_by compare x xs = pre @ x # post"
    "\<forall>y\<in>set pre. \<not> compare x y < 0" "post = [] \<or> compare x (hd post) < 0"
proof -
  have "\<exists>pre post. xs = pre @ post \<and> insert_by compare x xs = pre @ x # post \<and>
      (\<forall>y\<in>set pre. \<not> compare x y < 0) \<and> (post = [] \<or> compare x (hd post) < 0)"
  proof (induction xs)
    case (Cons y ys)
    show ?case
    proof (cases "compare x y < 0")
      case True
      then show ?thesis by (intro exI [of _ "[]"] exI [of _ "y # ys"]) simp
    next
      case False
      with Cons obtain pre post where "ys = pre @ post" "insert_by compare x ys = pre @ x # post"
        "\<forall>y\<in>set pre. \<not> compare x y < 0" "post = [] \<or> compare x (hd post) < 0" by blast
      with False show ?thesis by (intro exI [of _ "y # pre"] exI [of _ post]) simp
    qed
  qed simp
  with that show thesis by blast
qed

text \<open>Linking a fresh element after the element at \<open>b\<close>.\<close>

lemma link_rep:
  assumes r: "list_rep l (as @ b # as') (xs @ y # xs')" and len: "length as = length xs"
    and x: "x \<notin> set (xs @ y # xs')"
  obtains q where "heap l b = Some \<lparr>item = y, el_next = q\<rparr>" "chain (heap l) q as' xs' None"
    "chain (heap l) (l_first l) as xs (Some b)"
    "list_rep (l\<lparr>fresh := Suc (fresh l),
        heap := (heap l)(fresh l \<mapsto> \<lparr>item = x, el_next = q\<rparr>, b \<mapsto> \<lparr>item = y, el_next = Some (fresh l)\<rparr>),
        l_last := (if as' = [] then Some (fresh l) else l_last l), numInList := numInList l + 1\<rparr>)
       (as @ b # fresh l # as') (xs @ y # x # xs')"
proof -
  note r' = list_repD [OF r] and f = fresh_unused [OF r]
  obtain q where h: "chain (heap l) (l_first l) as xs (Some b)"
    "heap l b = Some \<lparr>item = y, el_next = q\<rparr>" "chain (heap l) q as' xs' None"
    using r'(1) chain_append [OF len] by auto
  have d: "b \<notin> set as" "b \<notin> set as'" "fresh l \<notin> set as" "fresh l \<notin> set as'" "fresh l \<noteq> b"
    using r'(2) f(1) by auto
  let ?h = "(heap l)(fresh l \<mapsto> \<lparr>item = x, el_next = q\<rparr>, b \<mapsto> \<lparr>item = y, el_next = Some (fresh l)\<rparr>)"
  have "chain ?h (l_first l) (as @ b # fresh l # as') (xs @ y # x # xs') None"
    using h d by (simp add: chain_append [OF len] chain_frame)
  moreover have "dom ?h = set (as @ b # fresh l # as')" using r'(6) d by auto
  moreover have "distinct (as @ b # fresh l # as')" "distinct (xs @ y # x # xs')"
    using r'(2,3) d x by auto
  moreover have "\<forall>a\<in>set (as @ b # fresh l # as'). a < Suc (fresh l)"
    using r'(7) by (auto intro: less_SucI)
  ultimately have "list_rep (l\<lparr>fresh := Suc (fresh l), heap := ?h,
        l_last := (if as' = [] then Some (fresh l) else l_last l), numInList := numInList l + 1\<rparr>)
       (as @ b # fresh l # as') (xs @ y # x # xs')"
    using r'(4,5) by (simp add: list_rep_def)
  with that h show thesis by blast
qed

lemma Insert_loop_walk:
  "chain (heap l) p as ys q \<Longrightarrow> p = Some a \<Longrightarrow> as = a # as' \<Longrightarrow> \<forall>y\<in>set (tl ys). \<not> compare x y < 0 \<Longrightarrow>
     Insert_loop compare l x e a = Insert_loop compare l x e (last as)"
proof (induction as' arbitrary: p a as ys)
  case (Cons b as')
  then obtain y z ys' n where c: "ys = y # z # ys'" "heap l a = Some \<lparr>item = y, el_next = Some b\<rparr>"
    "heap l b = Some \<lparr>item = z, el_next = n\<rparr>" "chain (heap l) (Some b) (b # as') (z # ys') q"
    by (cases ys; cases "tl ys") auto
  with Cons.IH [OF c(4)] Cons.prems show ?case
    by (simp add: Insert_loop.simps [of compare l x e a])
qed simp

lemma IsInList_new_element:
  assumes "list_rep l as xs" shows "IsInList (snd (new_element l x)) y = Some (Inr (y \<in> set xs))"
proof -
  have "chain (heap (snd (new_element l x))) (l_first l) as xs None"
    using list_repD(1) [OF assms] fresh_unused(1) [OF assms] by (simp add: new_element_def chain_frame)
  from IsInList_loop_chain [OF this] show ?thesis by (simp add: IsInList_def new_element_def)
qed

lemma Insert_front:
  assumes r: "list_rep l as (y # ys)" and x: "x \<notin> set (y # ys)" and c: "compare x y < 0"
  shows "\<exists>l'. Insert compare l x = Some (Inr l') \<and> list_rep l' (fresh l # as) (x # y # ys)"
proof -
  note r' = list_repD [OF r] and f = fresh_unused [OF r]
  let ?e = "fresh l"
  let ?l = "l\<lparr>fresh := Suc ?e, heap := (heap l)(?e \<mapsto> \<lparr>item = x, el_next = l_first l\<rparr>),
            l_first := Some ?e, numInList := numInList l + 1\<rparr>"
  have rep: "list_rep ?l (?e # as) (x # y # ys)"
    using r' f x by (auto simp: list_rep_def chain_frame)
  have i: "IsInList ?l x = Some (Inr True)"
    using IsInList_holds [OF holdsI [OF rep], of x] by simp
  obtain a n where a: "l_first l = Some a" "heap l a = Some \<lparr>item = y, el_next = n\<rparr>" "a \<noteq> ?e"
    using r'(1) f(1) by (cases as) auto
  have "Insert compare l x = Some (Inr ?l)"
    using r' c a i IsInList_new_element [OF r, of x x] x
    by (simp add: Insert_def count_and_check_def new_element_def IsEmpty_def deref_def set_cell_def Let_def)
  with rep show ?thesis by blast
qed

lemma Insert_after:
  assumes r: "list_rep l (as @ b # as') (xs @ y # xs')" and len: "length as = length xs"
    and x: "x \<notin> set (xs @ y # xs')" and le: "\<forall>z\<in>set (xs @ [y]). \<not> compare x z < 0"
    and gt: "xs' = [] \<or> compare x (hd xs') < 0"
  shows "\<exists>l'. Insert compare l x = Some (Inr l') \<and> list_rep l' (as @ b # fresh l # as') (xs @ y # x # xs')"
proof -
  note r' = list_repD [OF r] and f = fresh_unused [OF r]
  let ?e = "fresh l"
  let ?l1 = "snd (new_element l x)"
  obtain q where q: "heap l b = Some \<lparr>item = y, el_next = q\<rparr>" "chain (heap l) q as' xs' None"
    "chain (heap l) (l_first l) as xs (Some b)"
    and rep: "list_rep (l\<lparr>fresh := Suc ?e,
        heap := (heap l)(?e \<mapsto> \<lparr>item = x, el_next = q\<rparr>, b \<mapsto> \<lparr>item = y, el_next = Some ?e\<rparr>),
        l_last := (if as' = [] then Some ?e else l_last l), numInList := numInList l + 1\<rparr>)
       (as @ b # ?e # as') (xs @ y # x # xs')"
    by (rule link_rep [OF r len x])
  have d: "b \<noteq> ?e" "\<forall>a\<in>set as'. a \<noteq> ?e" "?e \<notin> set as" using f(1) by auto
  have c: "chain (heap ?l1) (l_first l) (as @ [b]) (xs @ [y]) q"
    using q(1,3) d by (simp add: chain_append [OF len] new_element_def chain_frame)
  obtain a z n where a: "l_first l = Some a" "hd (as @ [b]) = a" "heap l a = Some \<lparr>item = z, el_next = n\<rparr>"
    "hd (xs @ [y]) = z" "a \<noteq> ?e"
    using c len d by (cases as; cases xs) (auto simp: new_element_def)
  obtain as0 where as0: "as @ [b] = a # as0" using a(2) by (cases as) auto
  have "\<forall>y\<in>set (tl (xs @ [y])). \<not> compare x y < 0"
    using le by (cases xs) auto
  then have walk: "Insert_loop compare ?l1 x ?e a = Insert_loop compare ?l1 x ?e b"
    using Insert_loop_walk [OF c a(1) as0] as0 by (metis last_snoc)
  have "z \<in> set (xs @ [y])" using a(4) by (cases xs) auto
  then have lz: "\<not> compare x z < 0" using le by blast
  have start: "Insert compare l x = bindR (Insert_loop compare ?l1 x ?e b) (\<lambda>(early, l).
       if early then Some (Inr l) else Insert_at_end l x ?e)"
    using r'(5) a lz walk IsInList_new_element [OF r, of x x] x
    by (simp add: Insert_def new_element_def IsEmpty_def deref_def)
  show ?thesis
  proof (cases xs')
    case Nil
    with q(2) have as': "as' = []" "q = None" by (cases as'; auto)+
    have "IsInList (l\<lparr>fresh := Suc ?e,
        heap := (heap l)(?e \<mapsto> \<lparr>item = x, el_next = q\<rparr>, b \<mapsto> \<lparr>item = y, el_next = Some ?e\<rparr>),
        l_last := (if as' = [] then Some ?e else l_last l), numInList := numInList l + 1\<rparr>) x = Some (Inr True)"
      using IsInList_holds [OF holdsI [OF rep], of x] by simp
    with start q(1) d(1) as' r'(4) rep Nil show ?thesis
      by (simp add: Insert_loop.simps [of compare _ x ?e b] new_element_def deref_def set_cell_def
          Insert_at_end_def count_and_check_def)
  next
    case (Cons w ws)
    with q(2) obtain a2 as2 m where q2: "q = Some a2" "as' = a2 # as2" "heap l a2 = Some \<lparr>item = w, el_next = m\<rparr>"
      by (cases as') auto
    with start q(1) d rep gt Cons show ?thesis
      by (simp add: Insert_loop.simps [of compare _ x ?e b] new_element_def deref_def set_cell_def Let_def)
  qed
qed


lemma Insert_rep:
  assumes r: "list_rep l as xs" and x: "x \<notin> set xs"
  shows "\<exists>l' as'. Insert compare l x = Some (Inr l') \<and> list_rep l' as' (insert_by compare x xs)"
proof -
  obtain pre post where sp: "xs = pre @ post" "insert_by compare x xs = pre @ x # post"
    "\<forall>y\<in>set pre. \<not> compare x y < 0" "post = [] \<or> compare x (hd post) < 0"
    by (rule insert_by_split)
  note r' = list_repD [OF r]
  show ?thesis
  proof (cases "pre = []")
    case True
    show ?thesis
    proof (cases post)
      case Nil
      with sp True r' have "xs = []" "as = []" "l_first l = None" by auto
      with r' fresh_unused [OF r] show ?thesis
        by (intro exI [of _ "l\<lparr>heap := (heap l)(fresh l \<mapsto> \<lparr>item = x, el_next = None\<rparr>),
              fresh := Suc (fresh l), l_first := Some (fresh l), l_last := Some (fresh l), numInList := 1\<rparr>"]
            exI [of _ "[fresh l]"])
           (simp add: Insert_def count_and_check_def new_element_def IsInList_def
            IsInList_loop.simps IsEmpty_def list_rep_def)
    next
      case (Cons y ys)
      with sp True r x Insert_front [of l as y ys x compare] show ?thesis by auto
    qed
  next
    case False
    then obtain xs0 y where pre: "pre = xs0 @ [y]" by (metis rev_exhaust)
    define as0 where "as0 = take (length xs0) as"
    obtain b as' where as: "as = as0 @ b # as'" "length as0 = length xs0"
    proof -
      have "length xs0 < length as" using r'(8) sp(1) pre by simp
      with that [of "as ! length xs0" "drop (Suc (length xs0)) as"] show thesis
        by (simp add: as0_def id_take_nth_drop)
    qed
    have "\<exists>l'. Insert compare l x = Some (Inr l') \<and> list_rep l' (as0 @ b # fresh l # as') (xs0 @ y # x # post)"
      by (rule Insert_after) (use r as sp pre x in auto)
    with sp(2) pre show ?thesis by auto
  qed
qed

lemma Insert_present:
  assumes "list_rep l as xs" "x \<in> set xs"
  shows "Insert compare l x = Some (Inl Assertion_failed)"
  using IsInList_new_element [OF assms(1), of x x] assms(2) by (simp add: Insert_def new_element_def)

lemma set_insert_by [simp]: "set (insert_by compare x xs) = insert x (set xs)"
  by (induction xs) auto

lemma distinct_insert_by: "distinct xs \<Longrightarrow> x \<notin> set xs \<Longrightarrow> distinct (insert_by compare x xs)"
  by (induction xs) auto

lemma length_insert_by [simp]: "length (insert_by compare x xs) = Suc (length xs)"
  by (induction xs) auto

text \<open>A comparison function that is consistent, as \<^verbatim>\<open>list.h\<close> demands of \<^verbatim>\<open>Compare\<close>.\<close>

definition consistent :: "('a \<Rightarrow> 'a \<Rightarrow> int) \<Rightarrow> bool" where
  "consistent compare \<longleftrightarrow>
     (\<forall>x y. \<not> compare x y < 0 \<longrightarrow> compare y x \<le> 0) \<and> (\<forall>x y. compare x y < 0 \<longrightarrow> compare x y \<le> 0) \<and>
     (\<forall>x y z. compare x y \<le> 0 \<longrightarrow> compare y z \<le> 0 \<longrightarrow> compare x z \<le> 0)"

lemma sorted_pairs_insert_by:
  "consistent compare \<Longrightarrow> sorted_pairs compare xs \<Longrightarrow> sorted_pairs compare (insert_by compare x xs)"
proof (induction xs rule: sorted_pairs.induct [of _ compare])
  case (1 compare y z q)
  then show ?case by (auto simp: consistent_def)
qed (auto simp: consistent_def)

section \<open>Sanity checks and self tests\<close>

lemma SanityCheck_loop_chain:
  "chain (heap l) p as xs None \<Longrightarrow> as \<noteq> [] \<Longrightarrow> l_last l = Some (last as) \<Longrightarrow> distinct as \<Longrightarrow>
     k + int (length as) - 1 = numInList l \<Longrightarrow> SanityCheck_loop l k p = Some (Inr (numInList l))"
proof (induction as arbitrary: p xs k)
  case (Cons a as)
  then obtain x ys n where c: "xs = x # ys" "p = Some a" "heap l a = Some \<lparr>item = x, el_next = n\<rparr>"
    "chain (heap l) n as ys None" by (cases xs) auto
  show ?case
  proof (cases "as = []")
    case True
    with Cons.prems c show ?thesis by (simp add: SanityCheck_loop.simps)
  next
    case False
    with Cons.prems have "a \<noteq> last as" by auto
    with False Cons.prems c Cons.IH [OF c(4), of "k + 1"] show ?thesis
      by (cases as) (auto simp: SanityCheck_loop.simps [of l k "Some a"])
  qed
qed simp

lemma SanityCheck_rep:
  assumes r: "list_rep l as xs" shows "SanityCheck l = Some (Inr ())"
proof (cases as rule: rev_cases)
  case Nil
  with list_repD [OF r] show ?thesis by (auto simp: SanityCheck_def)
next
  case (snoc as0 b)
  note r' = list_repD [OF r]
  obtain xs0 y where xs: "xs = xs0 @ [y]" "length as0 = length xs0"
    using r'(8) snoc by (cases xs rule: rev_cases) auto
  have b: "heap l b = Some \<lparr>item = y, el_next = None\<rparr>" "l_last l = Some b"
    using r'(1,4) snoc xs chain_append [OF xs(2)] by auto
  have f: "l_first l = Some (hd as)" using chain_first [OF r'(1)] snoc by simp
  show ?thesis
  proof (cases "as0 = []")
    case True
    with b f snoc r' xs show ?thesis by (simp add: SanityCheck_def deref_def)
  next
    case False
    with r'(2) snoc have "hd as \<noteq> b" by (cases as0) auto
    moreover have "SanityCheck_loop l 1 (l_first l) = Some (Inr (numInList l))"
      using SanityCheck_loop_chain [OF r'(1), of 1] r' snoc by simp
    ultimately show ?thesis using b f by (simp add: SanityCheck_def deref_def)
  qed
qed

lemma Sorted_loop_chain:
  "chain (heap l) p as xs None \<Longrightarrow> sorted_pairs compare (y # xs) \<Longrightarrow>
     Sorted_SanityCheck_loop compare l y p = Some (Inr ())"
proof (induction as arbitrary: p xs y)
  case (Cons a as)
  then obtain x ys n where "xs = x # ys" "p = Some a" "heap l a = Some \<lparr>item = x, el_next = n\<rparr>"
    "chain (heap l) n as ys None" by (cases xs) auto
  with Cons.IH [of n ys x] Cons.prems(2) show ?case
    by (simp add: Sorted_SanityCheck_loop.simps [of compare l y "Some a"])
qed (simp add: Sorted_SanityCheck_loop.simps)

lemma Sorted_SanityCheck_rep:
  assumes r: "list_rep l as xs" and s: "sorted_pairs compare xs"
  shows "Sorted_SanityCheck compare l = Some (Inr ())"
proof (cases as)
  case Nil
  with list_repD [OF r] SanityCheck_rep [OF r] show ?thesis by (auto simp: Sorted_SanityCheck_def)
next
  case (Cons a as')
  with list_repD(1) [OF r] obtain x ys n where "xs = x # ys" "l_first l = Some a"
    "heap l a = Some \<lparr>item = x, el_next = n\<rparr>" "chain (heap l) n as' ys None" by (cases xs) auto
  with SanityCheck_rep [OF r] Sorted_loop_chain [of l n as' ys compare x] s show ?thesis
    by (simp add: Sorted_SanityCheck_def deref_def)
qed


lemma Append_holds:
  "holds l xs \<Longrightarrow> x \<notin> set xs \<Longrightarrow> \<exists>l'. Append l x = Some (Inr l') \<and> holds l' (xs @ [x])"
  by (metis holdsE holdsI Append_fresh)

lemma Prepend_holds:
  "holds l xs \<Longrightarrow> x \<notin> set xs \<Longrightarrow> \<exists>l'. Prepend l x = Some (Inr l') \<and> holds l' (x # xs)"
  by (metis holdsE holdsI Prepend_fresh)

lemma RemoveFront_holds:
  "holds l (x # xs) \<Longrightarrow> \<exists>l'. RemoveFront l = Some (Inr (x, l')) \<and> holds l' xs"
  by (metis holdsE holdsI RemoveFront_rep)

lemma Remove_holds:
  "holds l xs \<Longrightarrow> x \<in> set xs \<Longrightarrow> \<exists>l'. Remove l x = Some (Inr l') \<and> holds l' (remove1 x xs)"
  by (metis holdsE holdsI Remove_rep)

lemma Insert_holds:
  "holds l xs \<Longrightarrow> x \<notin> set xs \<Longrightarrow>
     \<exists>l'. Insert compare l x = Some (Inr l') \<and> holds l' (insert_by compare x xs)"
  by (metis holdsE holdsI Insert_rep)

lemma holds_distinct: "holds l xs \<Longrightarrow> distinct xs"
  by (auto simp: holds_def list_rep_def)

section \<open>The contract of an item store\<close>

text \<open>
  What a client of a list relies on, whether the list is plain or sorted: \<open>put\<close> adds one item and
  keeps the shape \<open>good\<close> of the sequence, \<open>sanity\<close> passes.  \<^verbatim>\<open>SelfTest\<close> is such a client.
\<close>

lemma forR_rule:
  assumes "P [] s"
    and step: "\<And>pre i post s. is = pre @ i # post \<Longrightarrow> P pre s \<Longrightarrow>
      \<exists>s'. f i s = Some (Inr s') \<and> P (pre @ [i]) s'"
  shows "\<exists>s'. forR f is s = Some (Inr s') \<and> P is s'"
proof -
  have "\<exists>s'. forR f post s0 = Some (Inr s') \<and> P is s'" if "is = pre @ post" "P pre s0" for pre post s0
    using that
  proof (induction post arbitrary: pre s0)
    case Nil
    then show ?case by simp
  next
    case (Cons i post)
    obtain s1 where "f i s0 = Some (Inr s1)" "P (pre @ [i]) s1"
      using step [OF Cons.prems(1,2)] by blast
    with Cons.IH [of "pre @ [i]" s1] Cons.prems(1) show ?case by simp
  qed
  from this [of "[]" "is" s] assms(1) show ?thesis by simp
qed

locale item_store =
  fixes good :: "'a list \<Rightarrow> bool"
    and put :: "'a nlist \<Rightarrow> 'a \<Rightarrow> 'a nlist run"
    and sanity :: "'a nlist \<Rightarrow> unit run"
  assumes put_ok: "holds l xs \<Longrightarrow> good xs \<Longrightarrow> x \<notin> set xs \<Longrightarrow>
      \<exists>l' xs'. put l x = Some (Inr l') \<and> holds l' xs' \<and> good xs' \<and> set xs' = insert x (set xs)"
    and sanity_ok: "holds l xs \<Longrightarrow> good xs \<Longrightarrow> sanity l = Some (Inr ())"
    and good_Nil: "good []"
    and good_remove: "good xs \<Longrightarrow> good (remove1 x xs)"
begin

lemma put_all:
  assumes "holds l []" "distinct ps"
  shows "\<exists>l'. forR (\<lambda>x l. bindR (put l x) (\<lambda>l. bindR (IsInList l x) (\<lambda>b. assertR (b \<and> \<not> IsEmpty l) (Some (Inr l))))) ps l
            = Some (Inr l') \<and> (\<exists>xs. holds l' xs \<and> good xs \<and> set xs = set ps)"
proof (rule forR_rule)
  show "\<exists>xs. holds l xs \<and> good xs \<and> set xs = set []" using assms good_Nil by (intro exI [of _ "[]"]) simp
next
  fix pre x post s
  assume ps: "ps = pre @ x # post" and "\<exists>xs. holds s xs \<and> good xs \<and> set xs = set pre"
  then obtain xs where xs: "holds s xs" "good xs" "set xs = set pre" by blast
  with ps assms(2) obtain s' xs' where "put s x = Some (Inr s')" "holds s' xs'" "good xs'"
    "set xs' = insert x (set xs)"
    using put_ok [of s xs x] by auto
  moreover from this have "xs' \<noteq> []" by auto
  ultimately show "\<exists>s'. bindR (put s x) (\<lambda>l. bindR (IsInList l x) (\<lambda>b. assertR (b \<and> \<not> IsEmpty l) (Some (Inr l))))
      = Some (Inr s') \<and> (\<exists>xs. holds s' xs \<and> good xs \<and> set xs = set (pre @ [x]))"
    using xs(3) by (auto simp: IsInList_holds IsEmpty_holds intro!: exI [of _ xs'])
qed

lemma remove_all:
  assumes "holds l xs" "good xs" "set xs = set ps" "distinct ps"
  shows "\<exists>l'. forR (\<lambda>x l. bindR (Remove l x) (\<lambda>l. bindR (IsInList l x) (\<lambda>b. assertR (\<not> b) (Some (Inr l))))) ps l
            = Some (Inr l') \<and> (\<exists>xs. holds l' xs \<and> good xs \<and> set xs = set ps - set ps)"
proof (rule forR_rule [where P = "\<lambda>pre l. \<exists>xs. holds l xs \<and> good xs \<and> set xs = set ps - set pre"])
  show "\<exists>xs. holds l xs \<and> good xs \<and> set xs = set ps - set []" using assms by (intro exI [of _ xs]) simp
next
  fix pre x post s
  assume ps: "ps = pre @ x # post" and "\<exists>xs. holds s xs \<and> good xs \<and> set xs = set ps - set pre"
  then obtain xs where xs: "holds s xs" "good xs" "set xs = set ps - set pre" by blast
  then obtain as where as: "list_rep s as xs" by (auto simp: holds_def)
  have "x \<in> set xs" using ps assms(4) xs(3) by auto
  then obtain s' where s': "Remove s x = Some (Inr s')" "holds s' (remove1 x xs)"
    using Remove_rep [OF as, of x] by (auto simp: holds_def)
  moreover have "set (remove1 x xs) = set xs - {x}" using list_repD(3) [OF as] by (rule set_remove1_eq)
  ultimately show "\<exists>s'. bindR (Remove s x) (\<lambda>l. bindR (IsInList l x) (\<lambda>b. assertR (\<not> b) (Some (Inr l))))
      = Some (Inr s') \<and> (\<exists>xs. holds s' xs \<and> good xs \<and> set xs = set ps - set (pre @ [x]))"
    using xs good_remove by (auto simp: IsInList_holds intro!: exI [of _ "remove1 x xs"])
qed

lemma SelfTest_ok:
  assumes "holds l []" "distinct ps"
  shows "\<exists>l'. List_SelfTest put sanity l ps = Some (Inr l') \<and> holds l' []"
proof -
  obtain l1 xs where l1: "forR (\<lambda>x l. bindR (put l x) (\<lambda>l. bindR (IsInList l x) (\<lambda>b. assertR (b \<and> \<not> IsEmpty l) (Some (Inr l))))) ps l
      = Some (Inr l1)" "holds l1 xs" "good xs" "set xs = set ps"
    using put_all [OF assms] by blast
  obtain l2 xs2 where l2: "forR (\<lambda>x l. bindR (Remove l x) (\<lambda>l. bindR (IsInList l x) (\<lambda>b. assertR (\<not> b) (Some (Inr l))))) ps l1
      = Some (Inr l2)" "holds l2 xs2" "set xs2 = set ps - set ps"
    using remove_all [OF l1(2-4) assms(2)] by blast
  have "xs2 = []" using l2(3) by simp
  moreover have "l_first l = None" using assms(1) by (auto simp: holds_def list_rep_def)
  ultimately show ?thesis
    using l1 l2 sanity_ok [OF assms(1) good_Nil] sanity_ok [OF l1(2,3)] sanity_ok [of l2 "[]"] good_Nil
      IsEmpty_holds [OF assms(1)] IsEmpty_holds [of l2 "[]"]
    by (simp add: List_SelfTest_def iter_IsDone_def iter_start_def)
qed

end

interpretation plain: item_store "\<lambda>_. True" Append SanityCheck
proof
  fix l :: "'a nlist" and xs x
  assume "holds l xs" "x \<notin> set xs"
  then show "\<exists>l' xs'. Append l x = Some (Inr l') \<and> holds l' xs' \<and> True \<and> set xs' = insert x (set xs)"
    using Append_holds [of l xs x] by fastforce
qed (auto simp: holds_def SanityCheck_rep)


lemma sorted_pairs_tl: "sorted_pairs compare (y # zs) \<Longrightarrow> sorted_pairs compare zs"
  by (cases zs) auto

lemma sorted_pairs_remove1:
  assumes "consistent compare" "sorted_pairs compare xs"
  shows "sorted_pairs compare (remove1 x xs)"
proof -
  have hd: "sorted_pairs compare (y # remove1 x zs)" if "sorted_pairs compare (y # zs)" for y zs
    using that
  proof (induction zs arbitrary: y)
    case (Cons z zs)
    then show ?case
      using assms(1) by (cases zs) (auto simp: consistent_def)
  qed simp
  show ?thesis using assms(2) hd sorted_pairs_tl by (cases xs) auto
qed

lemma Insert_item_store:
  assumes "consistent compare"
  shows "item_store (sorted_pairs compare) (Insert compare) (Sorted_SanityCheck compare)"
proof
  fix l xs and x :: 'a
  assume "holds l xs" "sorted_pairs compare xs" "x \<notin> set xs"
  then show "\<exists>l' xs'. Insert compare l x = Some (Inr l') \<and> holds l' xs' \<and> sorted_pairs compare xs' \<and>
      set xs' = insert x (set xs)"
    using Insert_holds [of l xs x compare] sorted_pairs_insert_by [OF assms, of xs x]
    by fastforce
qed (use assms in \<open>auto simp: holds_def Sorted_SanityCheck_rep sorted_pairs_remove1\<close>)


lemma insert_all:
  assumes "consistent compare" "holds l []" "distinct ps"
  shows "\<exists>l'. forR (\<lambda>x l. bindR (Insert compare l x) (\<lambda>l.
              bindR (IsInList l x) (\<lambda>b. assertR b (Some (Inr l))))) ps l = Some (Inr l') \<and>
            (\<exists>xs. holds l' xs \<and> sorted_pairs compare xs \<and> set xs = set ps \<and> length xs = length ps)"
proof (rule forR_rule)
  show "\<exists>xs. holds l xs \<and> sorted_pairs compare xs \<and> set xs = set [] \<and> length xs = length []"
    using assms(2) by (intro exI [of _ "[]"]) simp
next
  fix pre x post s
  assume ps: "ps = pre @ x # post"
    and "\<exists>xs. holds s xs \<and> sorted_pairs compare xs \<and> set xs = set pre \<and> length xs = length pre"
  then obtain xs where xs: "holds s xs" "sorted_pairs compare xs" "set xs = set pre" "length xs = length pre"
    by blast
  with ps assms(3) obtain s' where "Insert compare s x = Some (Inr s')" "holds s' (insert_by compare x xs)"
    using Insert_holds [of s xs x compare] by auto
  with xs sorted_pairs_insert_by [OF assms(1) xs(2), of x]
  show "\<exists>s'. bindR (Insert compare s x) (\<lambda>l. bindR (IsInList l x) (\<lambda>b. assertR b (Some (Inr l)))) = Some (Inr s') \<and>
      (\<exists>xs. holds s' xs \<and> sorted_pairs compare xs \<and> set xs = set (pre @ [x]) \<and> length xs = length (pre @ [x]))"
    by (auto simp: IsInList_holds intro!: exI [of _ "insert_by compare x xs"])
qed

lemma drain_all:
  "holds l xs \<Longrightarrow> length ps = length xs \<Longrightarrow>
     \<exists>l'. forR (\<lambda>_ (q, l). bindR (RemoveFront l) (\<lambda>(x, l).
              bindR (IsInList l x) (\<lambda>b. assertR (\<not> b) (Some (Inr (q @ [x], l)))))) ps (q0, l)
          = Some (Inr (q0 @ xs, l')) \<and> holds l' []"
proof (induction ps arbitrary: xs l q0)
  case (Cons p ps)
  then obtain x ys where xs: "xs = x # ys" by (cases xs) auto
  with Cons.prems obtain as where as: "list_rep l as (x # ys)" by (auto simp: holds_def)
  then obtain l' where l': "RemoveFront l = Some (Inr (x, l'))" "holds l' ys"
    using RemoveFront_rep [OF as] by (auto simp: holds_def)
  moreover have "x \<notin> set ys" using list_repD(3) [OF as] by simp
  ultimately show ?case
    using Cons.IH [of l' ys "q0 @ [x]"] Cons.prems xs by (simp add: IsInList_holds)
qed simp

lemma Sorted_SelfTest_ok:
  assumes c: "consistent compare" and l: "holds l []" and d: "distinct ps"
  shows "\<exists>l'. Sorted_SelfTest compare l ps = Some (Inr l') \<and> holds l' []"
proof -
  obtain l1 where l1: "List_SelfTest (Insert compare) (Sorted_SanityCheck compare) l ps = Some (Inr l1)"
    "holds l1 []"
    using item_store.SelfTest_ok [OF Insert_item_store [OF c] l d] by blast
  obtain l2 xs where l2: "forR (\<lambda>x l. bindR (Insert compare l x) (\<lambda>l.
              bindR (IsInList l x) (\<lambda>b. assertR b (Some (Inr l))))) ps l1 = Some (Inr l2)"
      "holds l2 xs" "sorted_pairs compare xs" "set xs = set ps" "length ps = length xs"
    using insert_all [OF c l1(2) d] by auto
  obtain l3 where l3: "forR (\<lambda>_ (q, l). bindR (RemoveFront l) (\<lambda>(x, l).
              bindR (IsInList l x) (\<lambda>b. assertR (\<not> b) (Some (Inr (q @ [x], l)))))) ps ([], l2)
          = Some (Inr (xs, l3))" "holds l3 []"
    using drain_all [OF l2(2,5), of "[]"] by auto
  have "Sorted_SanityCheck compare l2 = Some (Inr ())" "Sorted_SanityCheck compare l3 = Some (Inr ())"
    using l2 l3 Sorted_SanityCheck_rep [of l2 _ xs compare] Sorted_SanityCheck_rep [of l3 _ "[]" compare]
    by (auto simp: holds_def)
  with l1 l2 l3 show ?thesis by (simp add: Sorted_SelfTest_def IsEmpty_holds)
qed

section \<open>Properties\<close>

definition implements :: "'c run \<Rightarrow> 'a res \<Rightarrow> ('c \<Rightarrow> 'a \<Rightarrow> bool) \<Rightarrow> bool" where
  "implements r s R \<longleftrightarrow>
     (case s of Inl f \<Rightarrow> r = Some (Inl f) | Inr y \<Rightarrow> (\<exists>l. r = Some (Inr l) \<and> R l y))"

text \<open>
  Property C5.  On a list object that holds the items \<open>xs\<close>, every operation of \<^verbatim>\<open>List\<close> and
  \<^verbatim>\<open>SortedList\<close> ends and does what the operation on sequences does: appending, prepending or
  inserting an item that is already there, removing one that is not and taking the front of an
  empty list trip an assertion; otherwise the object holds the resulting sequence, its elements
  form one acyclic chain, and no element is leaked or left dangling.
\<close>

theorem List_implements_sequence:
  assumes "holds l xs"
  shows "implements (Append l x) (seq_Append xs x) holds \<and>
         implements (Prepend l x) (seq_Prepend xs x) holds \<and>
         implements (RemoveFront l) (seq_RemoveFront xs) (\<lambda>(y, l') (z, ys). y = z \<and> holds l' ys) \<and>
         implements (Remove l x) (seq_Remove xs x) holds \<and>
         implements (Insert compare l x) (seq_Insert compare xs x) holds \<and>
         IsInList l x = Some (Inr (x \<in> set xs)) \<and> (IsEmpty l \<longleftrightarrow> xs = []) \<and>
         SanityCheck l = Some (Inr ())"
proof (intro conjI)
  obtain as where r: "list_rep l as xs" using assms by (rule holdsE)
  note isin = IsInList_new_element [OF r, of x x]
  show "implements (Append l x) (seq_Append xs x) holds"
    using Append_holds [OF assms, of x] Append_present [OF r, of x]
    by (auto simp: implements_def seq_Append_def ASSERT_def)
  show "implements (Prepend l x) (seq_Prepend xs x) holds"
    using Prepend_holds [OF assms, of x] isin
    by (auto simp: implements_def seq_Prepend_def ASSERT_def Prepend_def new_element_def)
  show "implements (RemoveFront l) (seq_RemoveFront xs) (\<lambda>(y, l') (z, ys). y = z \<and> holds l' ys)"
  proof (cases xs)
    case Nil
    with IsEmpty_holds [OF assms] show ?thesis
      by (simp add: implements_def seq_RemoveFront_def RemoveFront_def)
  next
    case (Cons y ys)
    with RemoveFront_holds [of l y ys] assms show ?thesis
      by (auto simp: implements_def seq_RemoveFront_def)
  qed
  show "implements (Remove l x) (seq_Remove xs x) holds"
    using Remove_holds [OF assms, of x] IsInList_holds [OF assms, of x]
    by (auto simp: implements_def seq_Remove_def ASSERT_def Remove_def)
  show "implements (Insert compare l x) (seq_Insert compare xs x) holds"
    using Insert_holds [OF assms, of x compare] Insert_present [OF r, of x compare]
    by (auto simp: implements_def seq_Insert_def ASSERT_def)
  show "IsInList l x = Some (Inr (x \<in> set xs))" by (rule IsInList_holds [OF assms])
  show "IsEmpty l \<longleftrightarrow> xs = []" by (rule IsEmpty_holds [OF assms])
  show "SanityCheck l = Some (Inr ())" by (rule SanityCheck_rep [OF r])
qed

theorem List_implements_sequence_witness:
  "implements (Append new_List (7 :: int)) (Inr [7]) holds"
  using List_implements_sequence [OF new_List_holds, of "7 :: int"] by (simp add: seq_Append_def)

text \<open>
  Property C36.  \<^verbatim>\<open>SortedList::Insert\<close> keeps a sorted list sorted and puts the new item behind every
  item it does not precede, so that items that compare equal leave the list in the order in which
  they were inserted.
\<close>

theorem Insert_sorted_stable:
  assumes "holds l xs" "sorted_pairs compare xs" "x \<notin> set xs" "consistent compare"
  shows "\<exists>l' pre post. Insert compare l x = Some (Inr l') \<and> holds l' (pre @ x # post) \<and>
           xs = pre @ post \<and> sorted_pairs compare (pre @ x # post) \<and>
           (\<forall>y\<in>set pre. \<not> compare x y < 0) \<and> (post = [] \<or> compare x (hd post) < 0)"
proof -
  obtain pre post where sp: "xs = pre @ post" "insert_by compare x xs = pre @ x # post"
    "\<forall>y\<in>set pre. \<not> compare x y < 0" "post = [] \<or> compare x (hd post) < 0"
    by (rule insert_by_split)
  obtain l' where "Insert compare l x = Some (Inr l')" "holds l' (insert_by compare x xs)"
    using Insert_holds [of l xs x compare] assms(1,3) by auto
  with sp sorted_pairs_insert_by [OF assms(4,2), of x] show ?thesis by metis
qed

lemma consistent_int: "consistent (\<lambda>x y :: int. sgn (x - y))"
  by (auto simp: consistent_def sgn_if split: if_splits)

theorem Insert_sorted_stable_witness:
  "\<exists>l'. Insert (\<lambda>x y. sgn (x - y)) new_List (7 :: int) = Some (Inr l') \<and> holds l' [7]"
  using Insert_sorted_stable [OF new_List_holds _ _ consistent_int, of 7] by auto

text \<open>
  The self tests of both list classes pass on an empty list for every array of
  distinct items and, for the sorted list, every consistent comparison; they leave the list empty.
\<close>

theorem List_SelfTests_pass:
  assumes "holds l []" "distinct ps" "consistent compare"
  shows "(\<exists>l'. List_SelfTest Append SanityCheck l ps = Some (Inr l') \<and> holds l' []) \<and>
         (\<exists>l'. Sorted_SelfTest compare l ps = Some (Inr l') \<and> holds l' [])"
  using plain.SelfTest_ok [OF assms(1,2)] Sorted_SelfTest_ok [OF assms(3,1,2)] by blast

theorem List_SelfTests_pass_witness:
  "(\<exists>l'. List_SelfTest Append SanityCheck new_List [9, 5, 7 :: int] = Some (Inr l')) \<and>
   (\<exists>l'. Sorted_SelfTest (\<lambda>x y. sgn (x - y)) new_List [9, 5, 7 :: int] = Some (Inr l'))"
  using List_SelfTests_pass [OF new_List_holds _ consistent_int, of "[9, 5, 7]"] by auto

end
