(* ===== verification/Interrupt.thy ===== *)
theory Interrupt
  imports NList Machine
begin

text \<open>
  The interrupt simulation (\<^verbatim>\<open>machine/interrupt.h\<close>, \<^verbatim>\<open>interrupt.cc\<close>), the simulated clock
  (\<^verbatim>\<open>machine/stats.h\<close>), the timer device (\<^verbatim>\<open>machine/timer.cc\<close>) and the alarm that time-slices
  threads (\<^verbatim>\<open>threads/alarm.cc\<close>).

  The state is the extensible record \<open>hw\<close>, which later theories extend with the scheduler.  An
  interrupt handler is a \<^verbatim>\<open>CallBackObj\<close>; the operations take \<open>call\<close>, the virtual method
  \<^verbatim>\<open>CallBack\<close>, and \<open>yield\<close>, the call of \<^verbatim>\<open>Thread::Yield\<close> on the current thread, as arguments.
  The locale \<open>device_handlers\<close> states what a handler may do, and the timer with its alarm is the
  instance.  The pending list is the sequence of its items; \<^verbatim>\<open>NList\<close> shows that the linked list
  implements these operations.  Ticks are counted in unbounded integers.
\<close>

section \<open>State\<close>

datatype IntStatus = IntOff | IntOn

datatype MachineStatus = IdleMode | SystemMode | UserMode

datatype IntType = TimerInt | DiskInt | ConsoleWriteInt | ConsoleReadInt | NetworkSendInt | NetworkRecvInt

text \<open>\<open>pi_id\<close> is the address of the object, so that two interrupts are equal only if identical.\<close>

record 'cb pending_interrupt =
  pi_id :: nat
  callOnInterrupt :: 'cb
  pi_when :: int
  pi_type :: IntType

record statistics =
  totalTicks :: int
  idleTicks :: int
  systemTicks :: int
  userTicks :: int
  numDiskReads :: int
  numDiskWrites :: int
  numConsoleCharsRead :: int
  numConsoleCharsWritten :: int
  numPageFaults :: int
  numPacketsSent :: int
  numPacketsRecvd :: int

abbreviation (input) UserTick :: int where "UserTick \<equiv> 1"
abbreviation (input) SystemTick :: int where "SystemTick \<equiv> 10"

definition TimerTicks :: int where
  "TimerTicks = 100"

definition new_Statistics :: statistics where
  "new_Statistics =
     \<lparr>totalTicks = 0, idleTicks = 0, systemTicks = 0, userTicks = 0, numDiskReads = 0,
      numDiskWrites = 0, numConsoleCharsRead = 0, numConsoleCharsWritten = 0, numPageFaults = 0,
      numPacketsSent = 0, numPacketsRecvd = 0\<rparr>"

text \<open>
  \<open>level\<close> to \<open>status\<close> are the fields of class \<^verbatim>\<open>Interrupt\<close>; \<open>stats\<close> and \<open>kmachine\<close> are
  \<^verbatim>\<open>kernel->stats\<close> and \<^verbatim>\<open>kernel->machine\<close> (\<open>None\<close> when NULL); \<open>fresh_pi\<close> is the next
  address \<^verbatim>\<open>new PendingInterrupt\<close> returns.
\<close>

record 'cb hw =
  level :: IntStatus
  pending :: "'cb pending_interrupt list"
  inHandler :: bool
  yieldOnReturn :: bool
  mstatus :: MachineStatus
  stats :: statistics
  kmachine :: "machine option"
  fresh_pi :: nat

section \<open>Operations\<close>

definition PendingCompare :: "'cb pending_interrupt \<Rightarrow> 'cb pending_interrupt \<Rightarrow> int" where
  "PendingCompare x y = (if pi_when x < pi_when y then -1 else if pi_when x > pi_when y then 1 else 0)"

definition new_Interrupt :: "machine option \<Rightarrow> 'cb hw" where
  "new_Interrupt m =
     \<lparr>level = IntOff, pending = [], inHandler = False, yieldOnReturn = False, mstatus = SystemMode,
      stats = new_Statistics, kmachine = m, fresh_pi = 0\<rparr>"

definition ChangeLevel :: "IntStatus \<Rightarrow> ('cb, 'a) hw_scheme \<Rightarrow> ('cb, 'a) hw_scheme" where
  "ChangeLevel now h = h\<lparr>level := now\<rparr>"

definition Schedule :: "'cb \<Rightarrow> int \<Rightarrow> IntType \<Rightarrow> ('cb, 'a) hw_scheme \<Rightarrow> ('cb, 'a) hw_scheme res" where
  "Schedule toCall fromNow ty h =
     (let w = totalTicks (stats h) + fromNow;
          toOccur = \<lparr>pi_id = fresh_pi h, callOnInterrupt = toCall, pi_when = w, pi_type = ty\<rparr>
      in ASSERT (fromNow > 0)
        (andThen (seq_Insert PendingCompare (pending h) toOccur) (\<lambda>ps.
         Inr (h\<lparr>pending := ps, fresh_pi := Suc (fresh_pi h)\<rparr>))))"

definition YieldOnReturn :: "('cb, 'a) hw_scheme \<Rightarrow> ('cb, 'a) hw_scheme res" where
  "YieldOnReturn h = ASSERT (inHandler h) (Inr (h\<lparr>yieldOnReturn := True\<rparr>))"

text \<open>The do-while loop of \<^verbatim>\<open>CheckIfDue\<close>.\<close>

partial_function (option) fire_loop ::
  "('cb \<Rightarrow> ('cb, 'a) hw_scheme \<Rightarrow> ('cb, 'a) hw_scheme res) \<Rightarrow> ('cb, 'a) hw_scheme \<Rightarrow> ('cb, 'a) hw_scheme run" where
  "fire_loop call h =
     (case pending h of
        [] \<Rightarrow> Some (Inl Assertion_failed)
      | p # ps \<Rightarrow>
          (case call (callOnInterrupt p) (h\<lparr>pending := ps\<rparr>) of
             Inl e \<Rightarrow> Some (Inl e)
           | Inr h' \<Rightarrow>
               if pending h' \<noteq> [] \<and> pi_when (hd (pending h')) \<le> totalTicks (stats h')
               then fire_loop call h' else Some (Inr h')))"

definition advance_clock :: "int \<Rightarrow> statistics \<Rightarrow> statistics" where
  "advance_clock w s = s\<lparr>idleTicks := idleTicks s + (w - totalTicks s), totalTicks := w\<rparr>"

definition CheckIfDue ::
  "('cb \<Rightarrow> ('cb, 'a) hw_scheme \<Rightarrow> ('cb, 'a) hw_scheme res) \<Rightarrow> bool \<Rightarrow> ('cb, 'a) hw_scheme \<Rightarrow>
   (bool \<times> ('cb, 'a) hw_scheme) run" where
  "CheckIfDue call advanceClock h =
     assertR (level h = IntOff)
    (case pending h of
       [] \<Rightarrow> Some (Inr (False, h))
     | n # _ \<Rightarrow>
         if pi_when n > totalTicks (stats h) \<and> \<not> advanceClock then Some (Inr (False, h))
         else
           (let h1 = (if pi_when n > totalTicks (stats h)
                      then h\<lparr>stats := advance_clock (pi_when n) (stats h)\<rparr> else h)
            in bindR (case kmachine h1 of
                        None \<Rightarrow> Some (Inr h1)
                      | Some m \<Rightarrow> Some (andThen (DelayedLoad m 0 0) (\<lambda>m. Inr (h1\<lparr>kmachine := Some m\<rparr>))))
              (\<lambda>h2. bindR (fire_loop call (h2\<lparr>inHandler := True\<rparr>)) (\<lambda>h3.
               Some (Inr (True, h3\<lparr>inHandler := False\<rparr>))))))"

definition tick :: "MachineStatus \<Rightarrow> statistics \<Rightarrow> statistics" where
  "tick st s =
     (if st = SystemMode
      then s\<lparr>totalTicks := totalTicks s + SystemTick, systemTicks := systemTicks s + SystemTick\<rparr>
      else s\<lparr>totalTicks := totalTicks s + UserTick, userTicks := userTicks s + UserTick\<rparr>)"

definition OneTick ::
  "('cb \<Rightarrow> ('cb, 'a) hw_scheme \<Rightarrow> ('cb, 'a) hw_scheme res) \<Rightarrow>
   (('cb, 'a) hw_scheme \<Rightarrow> ('cb, 'a) hw_scheme run) \<Rightarrow> ('cb, 'a) hw_scheme \<Rightarrow> ('cb, 'a) hw_scheme run" where
  "OneTick call yield h =
     (let oldStatus = mstatus h; h1 = h\<lparr>stats := tick (mstatus h) (stats h)\<rparr>
      in bindR (CheckIfDue call False (ChangeLevel IntOff h1)) (\<lambda>(_, h2).
         let h3 = ChangeLevel IntOn h2
         in if yieldOnReturn h3
            then bindR (yield (h3\<lparr>yieldOnReturn := False, mstatus := SystemMode\<rparr>)) (\<lambda>h4.
                 Some (Inr (h4\<lparr>mstatus := oldStatus\<rparr>)))
            else Some (Inr h3)))"

definition SetLevel ::
  "('cb \<Rightarrow> ('cb, 'a) hw_scheme \<Rightarrow> ('cb, 'a) hw_scheme res) \<Rightarrow>
   (('cb, 'a) hw_scheme \<Rightarrow> ('cb, 'a) hw_scheme run) \<Rightarrow> IntStatus \<Rightarrow> ('cb, 'a) hw_scheme \<Rightarrow>
   (IntStatus \<times> ('cb, 'a) hw_scheme) run" where
  "SetLevel call yield now h =
     (let old = level h
      in assertR (now = IntOff \<or> \<not> inHandler h)
        (let h1 = ChangeLevel now h
         in if now = IntOn \<and> old = IntOff
            then bindR (OneTick call yield h1) (\<lambda>h2. Some (Inr (old, h2)))
            else Some (Inr (old, h1))))"

definition Enable ::
  "('cb \<Rightarrow> ('cb, 'a) hw_scheme \<Rightarrow> ('cb, 'a) hw_scheme res) \<Rightarrow>
   (('cb, 'a) hw_scheme \<Rightarrow> ('cb, 'a) hw_scheme run) \<Rightarrow> ('cb, 'a) hw_scheme \<Rightarrow> ('cb, 'a) hw_scheme run" where
  "Enable call yield h = bindR (SetLevel call yield IntOn h) (\<lambda>(_, h). Some (Inr h))"

text \<open>\<^verbatim>\<open>Idle\<close>: the flag is set when nothing is pending and the machine halts (\<^verbatim>\<open>delete kernel\<close>).\<close>

definition Idle ::
  "('cb \<Rightarrow> ('cb, 'a) hw_scheme \<Rightarrow> ('cb, 'a) hw_scheme res) \<Rightarrow> ('cb, 'a) hw_scheme \<Rightarrow>
   (bool \<times> ('cb, 'a) hw_scheme) run" where
  "Idle call h =
     bindR (CheckIfDue call True (h\<lparr>mstatus := IdleMode\<rparr>)) (\<lambda>(fired, h1).
     if fired then Some (Inr (False, h1\<lparr>mstatus := SystemMode\<rparr>)) else Some (Inr (True, h1)))"

section \<open>Timer and alarm\<close>

text \<open>
  \<^verbatim>\<open>RandomNumber\<close> is the C library's \<^verbatim>\<open>rand\<close>, an arbitrary stream of non-negative integers;
  the state counts how many numbers were taken.
\<close>

text \<open>\<open>me\<close> is the timer object itself, as the callback it registers with the interrupt simulation.\<close>

record 'cb timer_hw = "'cb hw" +
  randomize :: bool
  disable :: bool
  random_stream :: "nat \<Rightarrow> nat"
  random_pos :: nat

definition RandomNumber :: "('cb, 'a) timer_hw_scheme \<Rightarrow> nat \<times> ('cb, 'a) timer_hw_scheme" where
  "RandomNumber h = (random_stream h (random_pos h), h\<lparr>random_pos := Suc (random_pos h)\<rparr>)"

definition SetInterrupt :: "'cb \<Rightarrow> ('cb, 'a) timer_hw_scheme \<Rightarrow> ('cb, 'a) timer_hw_scheme res" where
  "SetInterrupt me h =
     (if disable h then Inr h
      else let (delay, h) = (if randomize h
                             then (let (r, h) = RandomNumber h in (1 + int r mod (TimerTicks * 2), h))
                             else (TimerTicks, h))
           in Schedule me delay TimerInt h)"

definition Alarm_CallBack :: "('cb, 'a) timer_hw_scheme \<Rightarrow> ('cb, 'a) timer_hw_scheme res" where
  "Alarm_CallBack h = (if mstatus h \<noteq> IdleMode then YieldOnReturn h else Inr h)"

definition Timer_CallBack :: "'cb \<Rightarrow> ('cb, 'a) timer_hw_scheme \<Rightarrow> ('cb, 'a) timer_hw_scheme res" where
  "Timer_CallBack me h = andThen (Alarm_CallBack h) (SetInterrupt me)"

definition new_Timer :: "'cb \<Rightarrow> bool \<Rightarrow> (nat \<Rightarrow> nat) \<Rightarrow> machine option \<Rightarrow> 'cb timer_hw res" where
  "new_Timer me doRandom rs m =
     SetInterrupt me (hw.extend (new_Interrupt m)
       \<lparr>randomize = doRandom, disable = False, random_stream = rs, random_pos = 0\<rparr>)"

section \<open>Invariants\<close>

text \<open>
  The pending list is sorted by time and holds distinct objects; every tick is accounted for once;
  the delayed-load register of the machine, if there is one, names a register.
\<close>

definition wf_hw :: "('cb, 'a) hw_scheme \<Rightarrow> bool" where
  "wf_hw h \<longleftrightarrow> sorted_pairs PendingCompare (pending h) \<and> (\<forall>p\<in>set (pending h). pi_id p < fresh_pi h) \<and>
     (case kmachine h of None \<Rightarrow> True | Some m \<Rightarrow> unat (registers m LoadReg) < NumGPRegs)"

definition ticks_ok :: "statistics \<Rightarrow> bool" where
  "ticks_ok s \<longleftrightarrow> totalTicks s = idleTicks s + systemTicks s + userTicks s"

definition all_future :: "('cb, 'a) hw_scheme \<Rightarrow> bool" where
  "all_future h \<longleftrightarrow> (\<forall>p\<in>set (pending h). totalTicks (stats h) < pi_when p)"

definition dues :: "('cb, 'a) hw_scheme \<Rightarrow> 'cb pending_interrupt list" where
  "dues h = filter (\<lambda>p. pi_when p \<le> totalTicks (stats h)) (pending h)"

lemma consistent_PendingCompare: "consistent PendingCompare"
  by (auto simp: consistent_def PendingCompare_def split: if_splits)

lemma sorted_pairs_le:
  "sorted_pairs PendingCompare (p # ps) \<Longrightarrow> q \<in> set ps \<Longrightarrow> pi_when p \<le> pi_when q"
proof (induction ps arbitrary: p)
  case (Cons r ps)
  then have "pi_when p \<le> pi_when r" by (auto simp: PendingCompare_def split: if_splits)
  with Cons.IH [of r] Cons.prems show ?case by fastforce
qed simp

lemma head_future_all:
  assumes "wf_hw h" "pending h = [] \<or> totalTicks (stats h) < pi_when (hd (pending h))"
  shows "all_future h"
proof (cases "pending h")
  case (Cons p ps)
  with assms sorted_pairs_le [of p ps] show ?thesis by (fastforce simp: wf_hw_def all_future_def)
qed (simp add: all_future_def)

lemma Schedule_ok:
  fixes h :: "('cb, 'a) hw_scheme" and cb :: 'cb and ty :: IntType
  assumes "wf_hw h" "0 < fromNow"
  defines "p \<equiv> \<lparr>pi_id = fresh_pi h, callOnInterrupt = cb, pi_when = totalTicks (stats h) + fromNow, pi_type = ty\<rparr>"
  shows "Schedule cb fromNow ty h =
           Inr (h\<lparr>pending := insert_by PendingCompare p (pending h), fresh_pi := Suc (fresh_pi h)\<rparr>)"
    and "wf_hw (h\<lparr>pending := insert_by PendingCompare p (pending h), fresh_pi := Suc (fresh_pi h)\<rparr>)"
proof -
  have "p \<notin> set (pending h)" using assms(1) by (auto simp: wf_hw_def p_def)
  then show "Schedule cb fromNow ty h =
      Inr (h\<lparr>pending := insert_by PendingCompare p (pending h), fresh_pi := Suc (fresh_pi h)\<rparr>)"
    using assms(2) by (simp add: Schedule_def seq_Insert_def p_def [symmetric])
  show "wf_hw (h\<lparr>pending := insert_by PendingCompare p (pending h), fresh_pi := Suc (fresh_pi h)\<rparr>)"
    using assms(1) sorted_pairs_insert_by [OF consistent_PendingCompare]
    by (auto simp: wf_hw_def p_def less_SucI cong: option.case_cong)
qed

section \<open>The contract of the interrupt handlers\<close>

text \<open>
  A handler runs with interrupts off, ends, does not move the clock, takes no interrupt off the
  list and schedules interrupts in the future only.
\<close>

definition handled :: "('cb, 'a) hw_scheme \<Rightarrow> ('cb, 'a) hw_scheme \<Rightarrow> bool" where
  "handled h h' \<longleftrightarrow> wf_hw h' \<and> level h' = level h \<and> inHandler h' = inHandler h \<and> mstatus h' = mstatus h \<and>
     totalTicks (stats h') = totalTicks (stats h) \<and> (ticks_ok (stats h) \<longrightarrow> ticks_ok (stats h')) \<and>
     dues h' = dues h \<and>
     (\<forall>p\<in>set (pending h). totalTicks (stats h) < pi_when p \<longrightarrow> p \<in> set (pending h'))"

text \<open>What firing the due interrupts does, whatever the handlers are.\<close>

definition fired_from :: "('cb, 'a) hw_scheme \<Rightarrow> ('cb, 'a) hw_scheme \<Rightarrow> bool" where
  "fired_from h h' \<longleftrightarrow> wf_hw h' \<and> level h' = IntOff \<and> inHandler h' \<and> mstatus h' = mstatus h \<and>
     totalTicks (stats h') = totalTicks (stats h) \<and> (ticks_ok (stats h) \<longrightarrow> ticks_ok (stats h')) \<and>
     all_future h' \<and> (\<forall>p\<in>set (pending h). totalTicks (stats h) < pi_when p \<longrightarrow> p \<in> set (pending h'))"

locale device_handlers =
  fixes call :: "'cb \<Rightarrow> ('cb, 'a) hw_scheme \<Rightarrow> ('cb, 'a) hw_scheme res"
  assumes call_ok: "wf_hw h \<Longrightarrow> level h = IntOff \<Longrightarrow> inHandler h \<Longrightarrow> \<exists>h'. call cb h = Inr h' \<and> handled h h'"
begin

lemma fire_loop_ok:
  assumes "wf_hw h" "level h = IntOff" "inHandler h" "pending h \<noteq> []"
    "pi_when (hd (pending h)) \<le> totalTicks (stats h)"
  shows "\<exists>h'. fire_loop call h = Some (Inr h') \<and> fired_from h h'"
  using assms
proof (induction "length (dues h)" arbitrary: h rule: less_induct)
  case less
  obtain p ps where p: "pending h = p # ps" using less.prems(4) by (cases "pending h") auto
  let ?h = "h\<lparr>pending := ps\<rparr>"
  have wf: "wf_hw ?h" using less.prems(1) p sorted_pairs_tl [of PendingCompare p ps] by (simp add: wf_hw_def)
  obtain h1 where h1: "call (callOnInterrupt p) ?h = Inr h1" "handled ?h h1"
    using call_ok [OF wf, of "callOnInterrupt p"] less.prems by auto
  have d: "dues h = p # dues ?h" using p less.prems(5) by (simp add: dues_def)
  show ?case
  proof (cases "pending h1 \<noteq> [] \<and> pi_when (hd (pending h1)) \<le> totalTicks (stats h1)")
    case True
    have "length (dues h1) < length (dues h)" using h1(2) d by (simp add: handled_def)
    from less.hyps [OF this] True h1(2) less.prems
    obtain h2 where h2: "fire_loop call h1 = Some (Inr h2)" "fired_from h1 h2" by (auto simp: handled_def)
    have "fired_from h h2"
      using h1(2) h2(2) p less.prems(5) by (auto simp: fired_from_def handled_def)
    with h1(1) h2(1) True p show ?thesis by (auto simp: fire_loop.simps [of call h])
  next
    case False
    then have "all_future h1" using h1(2) by (intro head_future_all) (auto simp: handled_def)
    then have "fired_from h h1"
      using h1(2) p less.prems by (auto simp: fired_from_def handled_def)
    with h1(1) False p show ?thesis by (auto simp: fire_loop.simps [of call h])
  qed
qed

lemma CheckIfDue_ok:
  assumes wf: "wf_hw h" and off: "level h = IntOff" "\<not> inHandler h"
  shows "\<exists>fired h'. CheckIfDue call adv h = Some (Inr (fired, h')) \<and> wf_hw h' \<and> level h' = IntOff \<and>
           \<not> inHandler h' \<and> mstatus h' = mstatus h \<and> all_future h' \<and>
           totalTicks (stats h) \<le> totalTicks (stats h') \<and>
           (ticks_ok (stats h) \<longrightarrow> ticks_ok (stats h')) \<and>
           (\<not> adv \<longrightarrow> totalTicks (stats h') = totalTicks (stats h)) \<and>
           (fired \<longleftrightarrow> pending h \<noteq> [] \<and> (adv \<or> pi_when (hd (pending h)) \<le> totalTicks (stats h)))"
proof (cases "pending h \<noteq> [] \<and> (adv \<or> pi_when (hd (pending h)) \<le> totalTicks (stats h))")
  case False
  then have "CheckIfDue call adv h = Some (Inr (False, h))"
    using off by (auto simp: CheckIfDue_def split: list.splits)
  moreover have "all_future h" using False by (intro head_future_all [OF wf]) auto
  ultimately show ?thesis using assms False by auto
next
  case True
  then obtain n ps where n: "pending h = n # ps" by (cases "pending h") auto
  define h1 where "h1 = (if pi_when n > totalTicks (stats h)
      then h\<lparr>stats := advance_clock (pi_when n) (stats h)\<rparr> else h)"
  have h1: "pending h1 = pending h" "level h1 = IntOff" "fresh_pi h1 = fresh_pi h" "kmachine h1 = kmachine h"
    "mstatus h1 = mstatus h" "totalTicks (stats h) \<le> totalTicks (stats h1)" "pi_when n \<le> totalTicks (stats h1)"
    "ticks_ok (stats h) \<longrightarrow> ticks_ok (stats h1)" "\<not> adv \<longrightarrow> totalTicks (stats h1) = totalTicks (stats h)"
    using off True n by (auto simp: h1_def advance_clock_def ticks_ok_def)
  obtain h2 where h2: "(case kmachine h1 of None \<Rightarrow> Some (Inr h1)
      | Some m \<Rightarrow> Some (andThen (DelayedLoad m 0 0) (\<lambda>m. Inr (h1\<lparr>kmachine := Some m\<rparr>)))) = Some (Inr h2)"
    "pending h2 = pending h" "level h2 = IntOff" "stats h2 = stats h1" "mstatus h2 = mstatus h" "wf_hw h2"
  proof (cases "kmachine h")
    case None
    with that [of h1] h1 wf show thesis by (simp add: wf_hw_def)
  next
    case (Some m)
    with wf obtain m' where "DelayedLoad m 0 0 = Inr m'" "registers m' LoadReg = 0"
      by (auto simp: wf_hw_def DelayedLoad_def Let_def)
    with that [of "h1\<lparr>kmachine := Some m'\<rparr>"] h1 Some wf show thesis by (simp add: wf_hw_def)
  qed
  have "\<exists>h3. fire_loop call (h2\<lparr>inHandler := True\<rparr>) = Some (Inr h3) \<and> fired_from (h2\<lparr>inHandler := True\<rparr>) h3"
    by (rule fire_loop_ok) (use h2 h1 n in \<open>auto simp: wf_hw_def\<close>)
  then obtain h3 where h3: "fire_loop call (h2\<lparr>inHandler := True\<rparr>) = Some (Inr h3)"
    "fired_from (h2\<lparr>inHandler := True\<rparr>) h3" by blast
  have "\<not> (pi_when n > totalTicks (stats h) \<and> \<not> adv)" using True n by auto
  then have "CheckIfDue call adv h = bindR (Some (Inr h2)) (\<lambda>h2.
      bindR (fire_loop call (h2\<lparr>inHandler := True\<rparr>)) (\<lambda>h3. Some (Inr (True, h3\<lparr>inHandler := False\<rparr>))))"
    unfolding CheckIfDue_def n list.case Let_def h1_def [symmetric] h2(1) by (simp only: off assertR_simps simp_thms if_False)
  then have "CheckIfDue call adv h = Some (Inr (True, h3\<lparr>inHandler := False\<rparr>))"
    using h3(1) by simp
  then show ?thesis
    using h3(2) h2 h1 True by (auto simp: fired_from_def wf_hw_def all_future_def)
qed

end

section \<open>The timer is a device, the clock only moves forward\<close>

lemma dues_insert_future:
  "totalTicks (stats h) < pi_when p \<Longrightarrow>
     filter (\<lambda>p. pi_when p \<le> totalTicks (stats h)) (insert_by PendingCompare p ps) =
     filter (\<lambda>p. pi_when p \<le> totalTicks (stats h)) ps"
  by (induction ps) auto

lemma SetInterrupt_handled:
  assumes wf: "wf_hw h"
  shows "\<exists>h'. SetInterrupt me h = Inr h' \<and> handled h h'"
proof -
  have "\<exists>h'. Schedule me d TimerInt h0 = Inr h' \<and> handled h h'"
    if "0 < d" "h0 = h\<lparr>random_pos := n\<rparr>" for d n h0
  proof -
    have w0: "wf_hw h0" using wf that(2) by (simp add: wf_hw_def)
    show ?thesis
      using Schedule_ok [OF w0 that(1), of me TimerInt] that
      by (auto simp: handled_def dues_def dues_insert_future)
  qed
  from this [OF _ refl, of TimerTicks "random_pos h"]
    this [OF _ refl, of "1 + int (random_stream h (random_pos h)) mod (TimerTicks * 2)" "Suc (random_pos h)"]
  show ?thesis
    using wf by (auto simp: SetInterrupt_def RandomNumber_def TimerTicks_def handled_def add_pos_nonneg)
qed

interpretation timer: device_handlers Timer_CallBack
proof
  fix h :: "('a, 'b) timer_hw_scheme" and cb :: 'a
  assume h: "wf_hw h" "level h = IntOff" "inHandler h"
  have "handled h (h\<lparr>yieldOnReturn := True\<rparr>)" "handled h h"
    using h by (auto simp: handled_def wf_hw_def dues_def)
  with h obtain h1 where h1: "Alarm_CallBack h = Inr h1" "handled h h1"
    by (cases "mstatus h = IdleMode") (auto simp: Alarm_CallBack_def YieldOnReturn_def)
  then obtain h2 where h2: "SetInterrupt cb h1 = Inr h2" "handled h1 h2"
    using SetInterrupt_handled [of h1 cb] by (auto simp: handled_def)
  have "handled h h2" using h1(2) h2(2) by (auto simp: handled_def)
  with h1(1) h2(1) show "\<exists>h'. Timer_CallBack cb h = Inr h' \<and> handled h h'"
    by (auto simp: Timer_CallBack_def)
qed

section \<open>Properties\<close>

definition sample_hw :: "unit timer_hw" where
  "sample_hw = hw.extend
     ((new_Interrupt None)\<lparr>pending := [\<lparr>pi_id = 0, callOnInterrupt = (), pi_when = 5, pi_type = TimerInt\<rparr>],
        fresh_pi := 1\<rparr>)
     \<lparr>randomize = False, disable = False, random_stream = (\<lambda>_. 0), random_pos = 0\<rparr>"

lemma sample_hw_ok: "wf_hw sample_hw" "level sample_hw = IntOff" "\<not> inHandler sample_hw" "ticks_ok (stats sample_hw)"
  by (simp_all add: sample_hw_def wf_hw_def new_Interrupt_def hw.defs ticks_ok_def new_Statistics_def)



text \<open>
  \<^verbatim>\<open>OneTick\<close> with the timer as the only device advances the clock by exactly one
  system or user tick, calls every handler that is due, and returns with interrupts on and outside
  any handler; a handler's request to yield is honoured after interrupts are on again.
\<close>

theorem OneTick_spec:
  assumes "wf_hw h" "\<not> inHandler h" "ticks_ok (stats h)"
  shows "\<exists>h'. wf_hw h' \<and> level h' = IntOn \<and> \<not> inHandler h' \<and> ticks_ok (stats h') \<and>
           totalTicks (stats h') = totalTicks (stats h) + (if mstatus h = SystemMode then 10 else 1) \<and>
           (\<forall>p\<in>set (pending h'). totalTicks (stats h') < pi_when p) \<and>
           OneTick Timer_CallBack yield h =
             (if yieldOnReturn h'
              then bindR (yield (h'\<lparr>yieldOnReturn := False, mstatus := SystemMode\<rparr>))
                     (\<lambda>h4. Some (Inr (h4\<lparr>mstatus := mstatus h\<rparr>)))
              else Some (Inr h'))"
proof -
  let ?h1 = "ChangeLevel IntOff (h\<lparr>stats := tick (mstatus h) (stats h)\<rparr>)"
  have pre: "wf_hw ?h1" "level ?h1 = IntOff" "\<not> inHandler ?h1" "ticks_ok (stats ?h1)"
    "totalTicks (stats ?h1) = totalTicks (stats h) + (if mstatus h = SystemMode then 10 else 1)"
    using assms by (simp_all add: wf_hw_def ChangeLevel_def tick_def ticks_ok_def)
  obtain fired h2 where h2: "CheckIfDue Timer_CallBack False ?h1 = Some (Inr (fired, h2))" "wf_hw h2"
    "\<not> inHandler h2" "all_future h2" "ticks_ok (stats h2)"
    "totalTicks (stats h2) = totalTicks (stats ?h1)"
    using timer.CheckIfDue_ok [OF pre(1-3), of False] pre(4) by blast
  show ?thesis
    by (rule exI [of _ "ChangeLevel IntOn h2"])
       (use h2 pre(5) in \<open>auto simp: OneTick_def Let_def ChangeLevel_def wf_hw_def all_future_def\<close>)
qed

theorem OneTick_spec_witness:
  "\<exists>h'. level h' = IntOn \<and> totalTicks (stats h') = 10 \<and>
     OneTick Timer_CallBack (\<lambda>h. Some (Inr h)) sample_hw =
       (if yieldOnReturn h' then Some (Inr (h'\<lparr>yieldOnReturn := False, mstatus := SystemMode\<rparr>)) else Some (Inr h'))"
proof -
  have "totalTicks (stats sample_hw) = 0" "mstatus sample_hw = SystemMode"
    by (simp_all add: sample_hw_def hw.defs new_Interrupt_def new_Statistics_def)
  with OneTick_spec [OF sample_hw_ok(1,3,4), of "\<lambda>h. Some (Inr h)"] show ?thesis by auto
qed

end
