(* ===== verification/Bitmap.thy ===== *)
theory Bitmap
  imports Nachos_Prelude
begin

text \<open>
  \<^verbatim>\<open>lib/bitmap.h\<close> and \<^verbatim>\<open>lib/bitmap.cc\<close>: an array of bits stored in 32-bit words.  The model keeps
  the words; \<open>marked\<close> abstracts them to the set of bits that are on.  The locale \<open>slot_map\<close> is
  what the clients of a bitmap (process table, semaphore table, page allocation, file headers)
  rely on, and \<open>bm\<close> interprets it on the model of \<^verbatim>\<open>class Bitmap\<close>.
\<close>

section \<open>State and operations\<close>

definition BitsInByte :: int where
  "BitsInByte = 8"

definition BitsInWord :: int where
  "BitsInWord = 4 * BitsInByte"

record bitmap =
  numBits :: int
  numWords :: int
  bm_map :: "u32 list"

definition load_word :: "bitmap \<Rightarrow> int \<Rightarrow> u32 res" where
  "load_word bm i =
     (if 0 \<le> i \<and> i < int (length (bm_map bm)) then Inr (bm_map bm ! nat i) else Inl Out_of_bounds)"

definition store_word :: "bitmap \<Rightarrow> int \<Rightarrow> u32 \<Rightarrow> bitmap res" where
  "store_word bm i w =
     (if 0 \<le> i \<and> i < int (length (bm_map bm))
      then Inr (bm\<lparr>bm_map := (bm_map bm)[nat i := w]\<rparr>) else Inl Out_of_bounds)"

definition Test :: "bitmap \<Rightarrow> int \<Rightarrow> bool res" where
  "Test bm which =
     ASSERT (which \<ge> 0 \<and> which < numBits bm)
       (andThen (load_word bm (cdiv which BitsInWord)) (\<lambda>w.
        if w AND push_bit (nat (cmod which BitsInWord)) 1 \<noteq> 0 then Inr True else Inr False))"

definition Mark :: "bitmap \<Rightarrow> int \<Rightarrow> bitmap res" where
  "Mark bm which =
     ASSERT (which \<ge> 0 \<and> which < numBits bm)
       (andThen (load_word bm (cdiv which BitsInWord)) (\<lambda>w.
        andThen (store_word bm (cdiv which BitsInWord)
                   (w OR push_bit (nat (cmod which BitsInWord)) 1)) (\<lambda>bm'.
        andThen (Test bm' which) (\<lambda>t. ASSERT t (Inr bm')))))"

definition Clear :: "bitmap \<Rightarrow> int \<Rightarrow> bitmap res" where
  "Clear bm which =
     ASSERT (which \<ge> 0 \<and> which < numBits bm)
       (andThen (load_word bm (cdiv which BitsInWord)) (\<lambda>w.
        andThen (store_word bm (cdiv which BitsInWord)
                   (w AND NOT (push_bit (nat (cmod which BitsInWord)) 1))) (\<lambda>bm'.
        andThen (Test bm' which) (\<lambda>t. ASSERT (\<not> t) (Inr bm')))))"

definition new_Bitmap :: "int \<Rightarrow> bitmap res" where
  "new_Bitmap numItems =
     ASSERT (numItems > 0)
       (let words = divRoundUp numItems BitsInWord
        in forRes (\<lambda>i bm. Clear bm i) [0..numItems - 1]
             \<lparr>numBits = numItems, numWords = words, bm_map = replicate (nat words) 0\<rparr>)"

fun FindAndSet_loop :: "bitmap \<Rightarrow> int list \<Rightarrow> (int \<times> bitmap) res" where
  "FindAndSet_loop bm [] = Inr (-1, bm)"
| "FindAndSet_loop bm (i # is) =
     andThen (Test bm i) (\<lambda>t.
       if \<not> t then andThen (Mark bm i) (\<lambda>bm'. Inr (i, bm')) else FindAndSet_loop bm is)"

definition FindAndSet :: "bitmap \<Rightarrow> (int \<times> bitmap) res" where
  "FindAndSet bm = FindAndSet_loop bm [0..numBits bm - 1]"

definition NumClear :: "bitmap \<Rightarrow> int res" where
  "NumClear bm =
     forRes (\<lambda>i count. andThen (Test bm i) (\<lambda>t. Inr (if \<not> t then count + 1 else count)))
       [0..numBits bm - 1] 0"

text \<open>\<^verbatim>\<open>Bitmap::Print\<close>: the numbers it writes, in order.\<close>

definition Bitmap_Print :: "bitmap \<Rightarrow> int list res" where
  "Bitmap_Print bm =
     forRes (\<lambda>i out. andThen (Test bm i) (\<lambda>t. Inr (if t then out @ [i] else out)))
       [0..numBits bm - 1] []"

definition Bitmap_SelfTest :: "bitmap \<Rightarrow> bitmap res" where
  "Bitmap_SelfTest bm =
     ASSERT (numBits bm \<ge> BitsInWord)
     (andThen (NumClear bm) (\<lambda>c. ASSERT (c = numBits bm)
     (andThen (FindAndSet bm) (\<lambda>(i, bm). ASSERT (i = 0)
     (andThen (Mark bm 31) (\<lambda>bm.
      andThen (Test bm 0) (\<lambda>t0. andThen (Test bm 31) (\<lambda>t31. ASSERT (t0 \<and> t31)
     (andThen (FindAndSet bm) (\<lambda>(i, bm). ASSERT (i = 1)
     (andThen (Clear bm 0) (\<lambda>bm. andThen (Clear bm 1) (\<lambda>bm. andThen (Clear bm 31) (\<lambda>bm.
      andThen (forRes (\<lambda>i bm. Mark bm i) [0..numBits bm - 1] bm) (\<lambda>bm.
      andThen (FindAndSet bm) (\<lambda>(i, bm). ASSERT (i = -1)
     (forRes (\<lambda>i bm. Clear bm i) [0..numBits bm - 1] bm)))))))))))))))))"

section \<open>Invariant and abstraction\<close>

definition wf_bitmap :: "bitmap \<Rightarrow> bool" where
  "wf_bitmap bm \<longleftrightarrow>
     numBits bm > 0 \<and> numWords bm = divRoundUp (numBits bm) BitsInWord \<and>
     int (length (bm_map bm)) = numWords bm"

definition marked :: "bitmap \<Rightarrow> int set" where
  "marked bm = {i. 0 \<le> i \<and> i < numBits bm \<and> bit (bm_map bm ! nat (i div 32)) (nat (i mod 32))}"

lemma BitsInWord_32 [simp]: "BitsInWord = 32"
  by (simp add: BitsInWord_def BitsInByte_def)

lemma marked_range: "marked bm \<subseteq> {0..<numBits bm}"
  by (auto simp: marked_def)

lemma finite_marked [simp]: "finite (marked bm)"
  by (rule finite_subset [OF marked_range]) simp

lemma index_in_words:
  assumes "wf_bitmap bm" "0 \<le> i" "i < numBits bm"
  shows "i div 32 < int (length (bm_map bm))" and "0 \<le> i div 32"
proof -
  from assms show "i div 32 < int (length (bm_map bm))"
    using divRoundUp_covers [of i "numBits bm" 32] by (simp add: wf_bitmap_def)
  from assms show "0 \<le> i div 32" by simp
qed

lemma same_word_bit:
  fixes i j :: int
  assumes "0 \<le> i" "0 \<le> j" "nat (i div 32) = nat (j div 32)" "nat (i mod 32) = nat (j mod 32)"
  shows "i = j"
  using assms by (metis div_mult_mod_eq eq_nat_nat_iff pos_imp_zdiv_nonneg_iff pos_mod_sign
      zero_less_numeral)

lemma load_word_ok:
  "wf_bitmap bm \<Longrightarrow> 0 \<le> i \<Longrightarrow> i < numBits bm \<Longrightarrow>
     load_word bm (i div 32) = Inr (bm_map bm ! nat (i div 32))"
  using index_in_words by (simp add: load_word_def)

lemma store_word_ok:
  "wf_bitmap bm \<Longrightarrow> 0 \<le> i \<Longrightarrow> i < numBits bm \<Longrightarrow>
     store_word bm (i div 32) w = Inr (bm\<lparr>bm_map := (bm_map bm)[nat (i div 32) := w]\<rparr>)"
  using index_in_words by (simp add: store_word_def)

lemma wf_bitmap_update [simp]:
  "wf_bitmap (bm\<lparr>bm_map := (bm_map bm)[k := w]\<rparr>) = wf_bitmap bm"
  by (simp add: wf_bitmap_def)

lemma Test_marked [simp]:
  "wf_bitmap bm \<Longrightarrow> 0 \<le> i \<Longrightarrow> i < numBits bm \<Longrightarrow> Test bm i = Inr (i \<in> marked bm)"
  by (simp add: Test_def load_word_ok marked_def test_mask)

lemma Test_out_of_range: "\<not> (0 \<le> i \<and> i < numBits bm) \<Longrightarrow> Test bm i = Inl Assertion_failed"
  unfolding Test_def ASSERT_def by (simp only: if_False)

lemma marked_set_bit:
  assumes wf: "wf_bitmap bm" and i: "0 \<le> i" "i < numBits bm"
  shows "marked (bm\<lparr>bm_map := (bm_map bm)[nat (i div 32) :=
            bm_map bm ! nat (i div 32) OR 2 ^ nat (i mod 32)]\<rparr>) = insert i (marked bm)"
proof -
  have "nat (i div 32) < length (bm_map bm)" using index_in_words [OF wf i] by linarith
  moreover have "nat (i mod 32) < 32" by (simp add: nat_less_iff)
  ultimately show ?thesis
    using i by (auto simp: marked_def nth_list_update bit_set_mask dest: same_word_bit)
qed

lemma marked_clear_bit:
  assumes wf: "wf_bitmap bm" and i: "0 \<le> i" "i < numBits bm"
  shows "marked (bm\<lparr>bm_map := (bm_map bm)[nat (i div 32) :=
            bm_map bm ! nat (i div 32) AND NOT (2 ^ nat (i mod 32))]\<rparr>) = marked bm - {i}"
proof -
  have "nat (i div 32) < length (bm_map bm)" using index_in_words [OF wf i] by linarith
  moreover have "nat (i mod 32) < 32" by (simp add: nat_less_iff)
  ultimately show ?thesis
    using i by (auto simp: marked_def nth_list_update bit_clear_mask dest: same_word_bit
        split: if_splits)
qed

section \<open>What each operation does to the set of marked bits\<close>

lemma Mark_ok:
  assumes "wf_bitmap bm" "0 \<le> i" "i < numBits bm"
  obtains bm' where "Mark bm i = Inr bm'" "wf_bitmap bm'" "numBits bm' = numBits bm"
    "marked bm' = insert i (marked bm)"
  using assms that
  by (simp add: Mark_def load_word_ok store_word_ok Test_marked marked_set_bit)

lemma Clear_ok:
  assumes "wf_bitmap bm" "0 \<le> i" "i < numBits bm"
  obtains bm' where "Clear bm i = Inr bm'" "wf_bitmap bm'" "numBits bm' = numBits bm"
    "marked bm' = marked bm - {i}"
  using assms that
  by (simp add: Clear_def load_word_ok store_word_ok Test_marked marked_clear_bit)

lemma Mark_out_of_range: "\<not> (0 \<le> i \<and> i < numBits bm) \<Longrightarrow> Mark bm i = Inl Assertion_failed"
  unfolding Mark_def ASSERT_def by (simp only: if_False)

lemma Clear_out_of_range: "\<not> (0 \<le> i \<and> i < numBits bm) \<Longrightarrow> Clear bm i = Inl Assertion_failed"
  unfolding Clear_def ASSERT_def by (simp only: if_False)


lemma new_Bitmap_ok:
  assumes "0 < n"
  obtains bm where "new_Bitmap n = Inr bm" "wf_bitmap bm" "numBits bm = n" "marked bm = {}"
proof -
  let ?bm0 = "\<lparr>numBits = n, numWords = divRoundUp n BitsInWord,
              bm_map = replicate (nat (divRoundUp n BitsInWord)) 0\<rparr>"
  let ?P = "\<lambda>pre bm. wf_bitmap bm \<and> numBits bm = n \<and> marked bm = {}"
  have up: "0 \<le> divRoundUp n 32" using assms divRoundUp_bounds(3) [of n 32] by simp
  have "nat (i div 32) < nat (divRoundUp n 32)" if "0 \<le> i" "i < n" for i
    using divRoundUp_covers [of i n 32] that by simp
  then have base: "?P [] ?bm0"
    using assms up by (auto simp: wf_bitmap_def marked_def)
  have "\<exists>bm. forRes (\<lambda>i bm. Clear bm i) [0..n - 1] ?bm0 = Inr bm \<and> ?P [0..n - 1] bm"
  proof (rule forRes_rule [where P = ?P, OF base])
    fix pre i post bm
    assume split: "[0..n - 1] = pre @ i # post" and inv: "?P pre bm"
    have "i \<in> set [0..n - 1]" by (simp only: split) simp
    with inv obtain bm' where "Clear bm i = Inr bm'" "wf_bitmap bm'" "numBits bm' = numBits bm"
      "marked bm' = marked bm - {i}"
      using Clear_ok [of bm i] by auto
    with inv show "\<exists>bm'. Clear bm i = Inr bm' \<and> ?P (pre @ [i]) bm'" by auto
  qed
  with assms that show thesis by (auto simp: new_Bitmap_def Let_def)
qed

lemma new_Bitmap_bad: "n \<le> 0 \<Longrightarrow> new_Bitmap n = Inl Assertion_failed"
  by (simp add: new_Bitmap_def)

text \<open>The search loop stops at the first index of its list that is not marked.\<close>

lemma FindAndSet_loop_full:
  "wf_bitmap bm \<Longrightarrow> set is \<subseteq> {0..<numBits bm} \<Longrightarrow> set is \<subseteq> marked bm \<Longrightarrow>
     FindAndSet_loop bm is = Inr (-1, bm)"
  by (induction "is") auto

lemma FindAndSet_loop_skip:
  "wf_bitmap bm \<Longrightarrow> set is \<subseteq> {0..<numBits bm} \<Longrightarrow> set is \<subseteq> marked bm \<Longrightarrow>
     FindAndSet_loop bm (is @ js) = FindAndSet_loop bm js"
  by (induction "is") auto

lemma set_upto_less: "set [0..n - 1] = {0..<n::int}"
  by auto

lemma FindAndSet_full:
  "wf_bitmap bm \<Longrightarrow> marked bm = {0..<numBits bm} \<Longrightarrow> FindAndSet bm = Inr (-1, bm)"
  by (simp add: FindAndSet_def FindAndSet_loop_full set_upto_less del: set_upto)

lemma FindAndSet_first:
  assumes wf: "wf_bitmap bm" and i: "0 \<le> i" "i < numBits bm" "i \<notin> marked bm"
    and least: "{0..<i} \<subseteq> marked bm"
  obtains bm' where "FindAndSet bm = Inr (i, bm')" "wf_bitmap bm'" "numBits bm' = numBits bm"
    "marked bm' = insert i (marked bm)"
proof -
  obtain bm' where bm': "Mark bm i = Inr bm'" "wf_bitmap bm'" "numBits bm' = numBits bm"
      "marked bm' = insert i (marked bm)"
    using Mark_ok [OF wf i(1,2)] .
  have "set [0..i - 1] \<subseteq> marked bm" "set [0..i - 1] \<subseteq> {0..<numBits bm}"
    using least i by auto
  then have "FindAndSet bm = FindAndSet_loop bm (i # [i + 1..numBits bm - 1])"
    using i by (simp add: FindAndSet_def upto_split3 [of 0 i] FindAndSet_loop_skip [OF wf])
  with bm' wf i have "FindAndSet bm = Inr (i, bm')" by simp
  with bm' that show thesis by blast
qed

lemma FindAndSet_free:
  assumes wf: "wf_bitmap bm" and free: "marked bm \<noteq> {0..<numBits bm}"
  obtains i bm' where "FindAndSet bm = Inr (i, bm')" "wf_bitmap bm'" "numBits bm' = numBits bm"
    "i \<in> {0..<numBits bm} - marked bm" "{0..<i} \<subseteq> marked bm" "marked bm' = insert i (marked bm)"
proof -
  let ?F = "{0..<numBits bm} - marked bm"
  define i where "i = Min ?F"
  have ne: "?F \<noteq> {}" using free marked_range [of bm] by blast
  then have i: "i \<in> ?F" unfolding i_def by (intro Min_in) auto
  have "j \<in> marked bm" if "j \<in> {0..<i}" for j
  proof (rule ccontr)
    assume "j \<notin> marked bm"
    with that i have "j \<in> ?F" by auto
    then have "i \<le> j" unfolding i_def by (intro Min_le) auto
    with that show False by simp
  qed
  with i FindAndSet_first [OF wf, of i] that show thesis by (auto simp: subset_iff)
qed

lemma NumClear_ok:
  assumes wf: "wf_bitmap bm"
  shows "NumClear bm = Inr (int (card ({0..<numBits bm} - marked bm)))"
proof -
  have "forRes (\<lambda>i count. andThen (Test bm i) (\<lambda>t. Inr (if \<not> t then count + 1 else count))) is c
        = Inr (c + int (card (set is - marked bm)))"
    if "set is \<subseteq> {0..<numBits bm}" "distinct is" for "is" c
    using that by (induction "is" arbitrary: c) (auto simp: wf insert_Diff_if)
  from this [of "[0..numBits bm - 1]" 0] show ?thesis
    by (simp add: NumClear_def set_upto_less del: set_upto)
qed

lemma Bitmap_Print_ok:
  assumes wf: "wf_bitmap bm"
  shows "Bitmap_Print bm = Inr (filter (\<lambda>i. i \<in> marked bm) [0..numBits bm - 1])"
proof -
  have "forRes (\<lambda>i out. andThen (Test bm i) (\<lambda>t. Inr (if t then out @ [i] else out))) is acc
        = Inr (acc @ filter (\<lambda>i. i \<in> marked bm) is)"
    if "set is \<subseteq> {0..<numBits bm}" for "is" acc
    using that by (induction "is" arbitrary: acc) (auto simp: wf)
  from this [of "[0..numBits bm - 1]" "[]"] show ?thesis
    by (simp add: Bitmap_Print_def set_upto_less del: set_upto)
qed

section \<open>The allocator interface\<close>

text \<open>
  What the kernel's tables rely on: a finite supply of numbered slots, an allocator that hands out
  the lowest free one or answers \<open>-1\<close>, and operations on one slot.  Clients reason about the set
  of used slots only.
\<close>

locale slot_map =
  fixes inv :: "'s \<Rightarrow> bool" and size :: "'s \<Rightarrow> int" and used :: "'s \<Rightarrow> int set"
    and alloc :: "'s \<Rightarrow> (int \<times> 's) res" and clear :: "'s \<Rightarrow> int \<Rightarrow> 's res"
    and test :: "'s \<Rightarrow> int \<Rightarrow> bool res" and mark :: "'s \<Rightarrow> int \<Rightarrow> 's res"
  assumes used_range: "inv s \<Longrightarrow> used s \<subseteq> {0..<size s}"
    and alloc_full: "inv s \<Longrightarrow> used s = {0..<size s} \<Longrightarrow> alloc s = Inr (-1, s)"
    and alloc_free: "inv s \<Longrightarrow> used s \<noteq> {0..<size s} \<Longrightarrow>
      \<exists>i s'. alloc s = Inr (i, s') \<and> inv s' \<and> size s' = size s \<and> i \<in> {0..<size s} - used s
        \<and> {0..<i} \<subseteq> used s \<and> used s' = insert i (used s)"
    and clear_used: "inv s \<Longrightarrow> i \<in> {0..<size s} \<Longrightarrow>
      \<exists>s'. clear s i = Inr s' \<and> inv s' \<and> size s' = size s \<and> used s' = used s - {i}"
    and test_used: "inv s \<Longrightarrow> i \<in> {0..<size s} \<Longrightarrow> test s i = Inr (i \<in> used s)"
    and mark_used: "inv s \<Longrightarrow> i \<in> {0..<size s} \<Longrightarrow>
      \<exists>s'. mark s i = Inr s' \<and> inv s' \<and> size s' = size s \<and> used s' = insert i (used s)"
begin

abbreviation free :: "'s \<Rightarrow> int set" where
  "free s \<equiv> {0..<size s} - used s"

lemma finite_used: "inv s \<Longrightarrow> finite (used s)"
  using used_range finite_subset by fastforce

text \<open>n allocations succeed when n slots are free, and give n different slots that were free.\<close>

lemma repeat_alloc_ok:
  assumes "inv s" "n \<le> card (free s)"
  shows "\<exists>is s'. repeat_alloc alloc s n = Inr (is, s') \<and> inv s' \<and> size s' = size s \<and>
           length is = n \<and> distinct is \<and> set is \<subseteq> free s \<and> used s' = used s \<union> set is"
  using assms
proof (induction n arbitrary: s)
  case 0
  then show ?case by auto
next
  case (Suc n)
  have "used s \<noteq> {0..<size s}" using Suc.prems by auto
  from alloc_free [OF Suc.prems(1) this] obtain i s1 where
    1: "alloc s = Inr (i, s1)" "inv s1" "size s1 = size s" "i \<in> free s" "used s1 = insert i (used s)"
    by blast
  have "free s1 = free s - {i}" using 1 by auto
  then have "n \<le> card (free s1)" using Suc.prems(2) 1(4) by simp
  from Suc.IH [OF 1(2) this] obtain "is" s2 where
    2: "repeat_alloc alloc s1 n = Inr (is, s2)" "inv s2" "size s2 = size s1" "length is = n"
       "distinct is" "set is \<subseteq> free s1" "used s2 = used s1 \<union> set is"
    by blast
  with 1 show ?case by auto
qed

text \<open>Clearing a list of used slots.\<close>

lemma clear_all_ok:
  assumes "inv s" "set is \<subseteq> {0..<size s}"
  shows "\<exists>s'. forRes (\<lambda>i s. clear s i) is s = Inr s' \<and> inv s' \<and> size s' = size s \<and>
           used s' = used s - set is"
  using assms
proof (induction "is" arbitrary: s)
  case Nil
  then show ?case by auto
next
  case (Cons i "is")
  obtain s1 where "clear s i = Inr s1" "inv s1" "size s1 = size s" "used s1 = used s - {i}"
    using clear_used [of s i] Cons.prems by auto
  with Cons.IH [of s1] Cons.prems show ?case by auto
qed

text \<open>Giving back what was allocated restores the set of used slots.\<close>

lemma alloc_then_clear:
  assumes "inv s" "n \<le> card (free s)" "repeat_alloc alloc s n = Inr (is, s1)"
  shows "\<exists>s2. forRes (\<lambda>i s. clear s i) is s1 = Inr s2 \<and> inv s2 \<and> used s2 = used s"
proof -
  from repeat_alloc_ok [OF assms(1,2)] assms(3) have
    1: "inv s1" "size s1 = size s" "set is \<subseteq> free s" "used s1 = used s \<union> set is" by auto
  with clear_all_ok [OF 1(1), of "is"] obtain s2 where
    "forRes (\<lambda>i s. clear s i) is s1 = Inr s2" "inv s2" "used s2 = used s1 - set is" by auto
  with 1 show ?thesis by auto
qed

end

interpretation bm: slot_map wf_bitmap numBits marked FindAndSet Clear Test Mark
proof (unfold_locales, goal_cases)
  case (1 s) show ?case by (rule marked_range)
next
  case (2 s) then show ?case by (rule FindAndSet_full)
next
  case (3 s) then show ?case by (metis FindAndSet_free)
next
  case (4 s i) then show ?case using Clear_ok [of s i] by auto
next
  case (5 s i) then show ?case by simp
next
  case (6 s i) then show ?case using Mark_ok [of s i] by auto
qed

section \<open>Properties\<close>

lemma Mark_all_ok:
  assumes "wf_bitmap bm"
  shows "\<exists>bm'. forRes (\<lambda>i bm. Mark bm i) [0..numBits bm - 1] bm = Inr bm' \<and> wf_bitmap bm' \<and>
           numBits bm' = numBits bm \<and> marked bm' = {0..<numBits bm}"
proof -
  let ?P = "\<lambda>pre b. wf_bitmap b \<and> numBits b = numBits bm \<and> marked b = marked bm \<union> set pre"
  have "\<exists>b. forRes (\<lambda>i bm. Mark bm i) [0..numBits bm - 1] bm = Inr b \<and> ?P [0..numBits bm - 1] b"
  proof (rule forRes_rule [where P = ?P])
    show "?P [] bm" using assms by simp
  next
    fix pre i post b
    assume split: "[0..numBits bm - 1] = pre @ i # post" and inv: "?P pre b"
    have "i \<in> set [0..numBits bm - 1]" by (simp only: split) simp
    with inv bm.mark_used [of b i] show "\<exists>b'. Mark b i = Inr b' \<and> ?P (pre @ [i]) b'" by auto
  qed
  with marked_range [of bm] show ?thesis by (auto simp: set_upto_less simp del: set_upto)
qed

text \<open>
  Property C17.  \<^verbatim>\<open>Bitmap::FindAndSet\<close>: when every bit is on it answers -1 and changes nothing;
  otherwise it answers the lowest clear bit, sets exactly that bit, and \<^verbatim>\<open>NumClear\<close> goes down
  by one.
\<close>

theorem FindAndSet_lowest_clear:
  assumes "wf_bitmap bm"
  shows "if marked bm = {0..<numBits bm} then FindAndSet bm = Inr (-1, bm)
         else \<exists>i bm' c. FindAndSet bm = Inr (i, bm') \<and> wf_bitmap bm' \<and>
                i = Min ({0..<numBits bm} - marked bm) \<and> marked bm' = insert i (marked bm) \<and>
                NumClear bm = Inr c \<and> NumClear bm' = Inr (c - 1)"
proof (cases "marked bm = {0..<numBits bm}")
  case True
  then show ?thesis using FindAndSet_full [OF assms] by simp
next
  case False
  obtain i bm' where r: "FindAndSet bm = Inr (i, bm')" "wf_bitmap bm'" "numBits bm' = numBits bm"
      "i \<in> {0..<numBits bm} - marked bm" "{0..<i} \<subseteq> marked bm" "marked bm' = insert i (marked bm)"
    using FindAndSet_free [OF assms False] .
  have "i \<le> y" if "y \<in> {0..<numBits bm} - marked bm" for y
    using r(5) that by (auto simp: subset_iff not_less [symmetric])
  then have min: "i = Min ({0..<numBits bm} - marked bm)"
    using r(4) by (intro Min_eqI [symmetric]) auto
  have "{0..<numBits bm'} - marked bm' = ({0..<numBits bm} - marked bm) - {i}" using r by auto
  then have "card ({0..<numBits bm'} - marked bm') = card ({0..<numBits bm} - marked bm) - 1"
    using r(4) by simp
  moreover have "card ({0..<numBits bm} - marked bm) > 0"
    using r(4) by (auto simp: card_gt_0_iff)
  ultimately have "NumClear bm' = Inr (int (card ({0..<numBits bm} - marked bm)) - 1)"
    using NumClear_ok [OF r(2)] by (simp add: of_nat_diff)
  with r min NumClear_ok [OF assms] False show ?thesis by auto
qed

text \<open>The hypothesis holds of a bitmap of 3 bits with bits 0 and 2 on.\<close>

theorem FindAndSet_lowest_clear_witness:
  "wf_bitmap \<lparr>numBits = 3, numWords = 1, bm_map = [5]\<rparr> \<and>
   (\<exists>i bm' c. FindAndSet \<lparr>numBits = 3, numWords = 1, bm_map = [5]\<rparr> = Inr (i, bm') \<and> c = 1 \<and> i = 1 \<and>
      NumClear \<lparr>numBits = 3, numWords = 1, bm_map = [5]\<rparr> = Inr c \<and> NumClear bm' = Inr (c - 1))"
proof -
  let ?b = "\<lparr>numBits = 3, numWords = 1, bm_map = [5]\<rparr>"
  have wf: "wf_bitmap ?b" by (simp add: wf_bitmap_def divRoundUp_def)
  have "bit (5::u32) n \<longleftrightarrow> n = 0 \<or> n = 2" if "n < 3" for n
    using that by (cases n) (auto simp: less_Suc_eq numeral_3_eq_3 bit_numeral_rec)
  then have m: "marked ?b = {0, 2}" by (auto simp: marked_def)
  have f: "{0..<3} - {0, 2} = {1::int}" by auto
  then have ne: "{0, 2} \<noteq> {0..<3::int}" by auto
  show ?thesis using wf FindAndSet_lowest_clear [OF wf] NumClear_ok [OF wf] ne
    by (auto simp: m f)
qed

text \<open>
  \<^verbatim>\<open>Bitmap::SelfTest\<close> passes: on a freshly constructed bitmap of any size of at
  least one word every assertion of the module's own test holds, no access leaves the array of
  words, and the test hands back an empty bitmap.
\<close>

theorem Bitmap_SelfTest_passes:
  assumes "BitsInWord \<le> n"
  shows "\<exists>bm bm'. new_Bitmap n = Inr bm \<and> Bitmap_SelfTest bm = Inr bm' \<and> wf_bitmap bm' \<and>
           numBits bm' = n \<and> marked bm' = {}"
proof -
  have n: "32 \<le> n" using assms by simp
  have one: "{0..<1::int} = {0}" by auto
  obtain b0 where b0: "new_Bitmap n = Inr b0" "wf_bitmap b0" "numBits b0 = n" "marked b0 = {}"
    using new_Bitmap_ok [of n] n by auto
  obtain b1 where b1: "FindAndSet b0 = Inr (0, b1)" "wf_bitmap b1" "numBits b1 = n" "marked b1 = {0}"
    using FindAndSet_first [of b0 0] b0 n by auto
  obtain b2 where b2: "Mark b1 31 = Inr b2" "wf_bitmap b2" "numBits b2 = n" "marked b2 = {0, 31}"
    using Mark_ok [of b1 31] b1 n by (auto simp: insert_commute)
  obtain b3 where b3: "FindAndSet b2 = Inr (1, b3)" "wf_bitmap b3" "numBits b3 = n"
      "marked b3 = {0, 1, 31}"
    using FindAndSet_first [of b2 1] b2 n by (auto simp: insert_commute one)
  obtain b4 where b4: "Clear b3 0 = Inr b4" "wf_bitmap b4" "numBits b4 = n"
    using bm.clear_used [of b3 0] b3 n by auto
  obtain b5 where b5: "Clear b4 1 = Inr b5" "wf_bitmap b5" "numBits b5 = n"
    using bm.clear_used [of b4 1] b4 n by auto
  obtain b6 where b6: "Clear b5 31 = Inr b6" "wf_bitmap b6" "numBits b6 = n"
    using bm.clear_used [of b5 31] b5 n by auto
  obtain b7 where b7: "forRes (\<lambda>i bm. Mark bm i) [0..n - 1] b6 = Inr b7" "wf_bitmap b7"
      "numBits b7 = n" "marked b7 = {0..<n}"
    using Mark_all_ok [OF b6(2)] b6(3) by auto
  obtain b8 where b8: "forRes (\<lambda>i bm. Clear bm i) [0..n - 1] b7 = Inr b8" "wf_bitmap b8"
      "numBits b8 = n" "marked b8 = {}"
    using bm.clear_all_ok [OF b7(2), of "[0..n - 1]"] b7
    by (auto simp: set_upto_less simp del: set_upto)
  have "Bitmap_SelfTest b0 = Inr b8"
    using n b0 b1 b2 b3 b4 b5 b6 b7 b8 FindAndSet_full [of b7] NumClear_ok [of b0]
    by (simp add: Bitmap_SelfTest_def)
  with b0 b8 show ?thesis by blast
qed

theorem Bitmap_SelfTest_passes_witness:
  "\<exists>bm bm'. new_Bitmap 128 = Inr bm \<and> Bitmap_SelfTest bm = Inr bm' \<and> numBits bm' = 128 \<and> marked bm' = {}"
  using Bitmap_SelfTest_passes [of 128] by auto

end
