(* ===== verification/AddrSpace.thy ===== *)
theory AddrSpace
  imports Bitmap Machine
begin

text \<open>
  Address spaces of user processes (\<^verbatim>\<open>userprog/addrspace.h\<close>, \<^verbatim>\<open>addrspace.cc\<close>) and the object code
  format (\<^verbatim>\<open>userprog/noff.h\<close>): allocation of page frames for a program, loading of its segments,
  release of the frames, the registers a program starts with and the kernel's own translation.

  The executable is the byte sequence of a host file (\<open>None\<close> when it cannot be opened), read as
  the host's \<^verbatim>\<open>read\<close> does: as many bytes as are left, up to the number asked for.  The semaphore
  \<^verbatim>\<open>addrLock\<close> is its value; the constructor is described from the point where its \<^verbatim>\<open>P\<close> has
  succeeded (blocking is the subject of \<^verbatim>\<open>Synch\<close>).
\<close>

section \<open>Object files\<close>

definition NOFFMAGIC :: u32 where
  "NOFFMAGIC = 0xbadfad"

record segment =
  virtualAddr :: u32
  inFileAddr :: u32
  seg_size :: u32

record noffHeader =
  noffMagic :: u32
  code :: segment
  initData :: segment
  readonlyData :: segment
  uninitData :: segment

definition file_word :: "bool \<Rightarrow> u8 list \<Rightarrow> nat \<Rightarrow> u32" where
  "file_word big f a = host_load32 big (\<lambda>i. f ! i) a"

definition file_segment :: "bool \<Rightarrow> u8 list \<Rightarrow> nat \<Rightarrow> segment" where
  "file_segment big f a =
     \<lparr>virtualAddr = file_word big f a, inFileAddr = file_word big f (a + 4), seg_size = file_word big f (a + 8)\<rparr>"

text \<open>
  \<^verbatim>\<open>executable->ReadAt((char * )&noffH, sizeof(noffH), 0)\<close>: the result is not checked, so a file
  shorter than the header leaves fields of it uninitialised.
\<close>

definition read_header :: "bool \<Rightarrow> u8 list \<Rightarrow> noffHeader res" where
  "read_header big f =
     (if length f < 52 then Inl Uninitialised_read
      else Inr \<lparr>noffMagic = file_word big f 0, code = file_segment big f 4, initData = file_segment big f 16,
                readonlyData = file_segment big f 28, uninitData = file_segment big f 40\<rparr>)"

definition swap_segment :: "bool \<Rightarrow> segment \<Rightarrow> segment" where
  "swap_segment big s =
     \<lparr>virtualAddr = WordToHost big (virtualAddr s), inFileAddr = WordToHost big (inFileAddr s),
      seg_size = WordToHost big (seg_size s)\<rparr>"

definition SwapHeader :: "bool \<Rightarrow> noffHeader \<Rightarrow> noffHeader" where
  "SwapHeader big h =
     \<lparr>noffMagic = WordToHost big (noffMagic h), code = swap_segment big (code h),
      initData = swap_segment big (initData h), readonlyData = swap_segment big (readonlyData h),
      uninitData = swap_segment big (uninitData h)\<rparr>"

text \<open>The lines the constructor and \<^verbatim>\<open>Load\<close> share: read the header, swap it if needed, check it.\<close>

definition get_header :: "bool \<Rightarrow> u8 list \<Rightarrow> noffHeader res" where
  "get_header big f =
     andThen (read_header big f) (\<lambda>h.
     let h' = (if noffMagic h \<noteq> NOFFMAGIC \<and> WordToHost big (noffMagic h) = NOFFMAGIC
               then SwapHeader big h else h)
     in ASSERT (noffMagic h' = NOFFMAGIC) (Inr h'))"

section \<open>State\<close>

record addrspace =
  as_pageTable :: "translation_entry list"
  numPages :: nat

record vm =
  gPhysPageBitmap :: bitmap
  addrLock :: int
  vm_memory :: "nat \<Rightarrow> u8"

definition UserStackSize :: u32 where
  "UserStackSize = 1024"

section \<open>Operations\<close>

text \<open>Copying bytes into \<^verbatim>\<open>mainMemory\<close>, from an index that may lie outside it.\<close>

definition write_bytes :: "(nat \<Rightarrow> u8) \<Rightarrow> int \<Rightarrow> u8 list \<Rightarrow> (nat \<Rightarrow> u8) res" where
  "write_bytes mem a bs =
     (if bs = [] then Inr mem
      else if 0 \<le> a \<and> a + int (length bs) \<le> int MemorySize
      then Inr (\<lambda>x. if nat a \<le> x \<and> x < nat a + length bs then bs ! (x - nat a) else mem x)
      else Inl Out_of_bounds)"

text \<open>\<^verbatim>\<open>ReadAt\<close> of a host file: \<^verbatim>\<open>Lseek\<close> asserts that the position is not negative.\<close>

definition read_file_at :: "u8 list \<Rightarrow> nat \<Rightarrow> u32 \<Rightarrow> u8 list res" where
  "read_file_at f n pos = ASSERT (sint pos \<ge> 0) (Inr (take n (drop (unat pos) f)))"

definition load_page :: "u8 list \<Rightarrow> segment \<Rightarrow> translation_entry list \<Rightarrow> nat \<Rightarrow> (nat \<Rightarrow> u8) \<Rightarrow> (nat \<Rightarrow> u8) res" where
  "load_page f seg pt i mem =
     andThen (read_file_at f PageSize (inFileAddr seg + of_nat (i * PageSize))) (\<lambda>bs.
     write_bytes mem (sint (virtualAddr seg) + physicalPage (pt ! i) * int PageSize) bs)"

definition load_segment :: "u8 list \<Rightarrow> segment \<Rightarrow> translation_entry list \<Rightarrow> (nat \<Rightarrow> u8) \<Rightarrow> (nat \<Rightarrow> u8) res" where
  "load_segment f seg pt mem =
     (if sint (seg_size seg) > 0 then forRes (load_page f seg pt) [0..<length pt] mem else Inr mem)"

definition entry_for :: "nat \<Rightarrow> int \<Rightarrow> translation_entry" where
  "entry_for i frame =
     \<lparr>virtualPage = int i, physicalPage = frame, valid = True, readOnly = False, te_use = False, dirty = False\<rparr>"

definition page_table :: "int list \<Rightarrow> translation_entry list" where
  "page_table frames = map2 entry_for [0..<length frames] frames"

definition pages_for :: "u32 \<Rightarrow> u32" where
  "pages_for bytes = bytes div 512 + (if bytes mod 512 > 0 then 1 else 0)"

text \<open>
  The constructor.  When the executable cannot be opened it returns with \<^verbatim>\<open>pageTable\<close> and
  \<^verbatim>\<open>numPages\<close> never set (\<open>None\<close>).  When there is not enough memory it deletes the executable and
  goes on with zero pages, so that the \<^verbatim>\<open>delete executable\<close> at its end frees the object again.
\<close>

definition AddrSpace_ctor :: "bool \<Rightarrow> u8 list option \<Rightarrow> vm \<Rightarrow> (addrspace option \<times> vm) res" where
  "AddrSpace_ctor big executable st =
     (case executable of
        None \<Rightarrow> Inr (None, st)
      | Some f \<Rightarrow>
          andThen (get_header big f) (\<lambda>noffH.
          let st1 = st\<lparr>addrLock := addrLock st - 1\<rparr>;
              bytes = seg_size (code noffH) + seg_size (initData noffH) + seg_size (uninitData noffH) + UserStackSize;
              np = pages_for bytes
          in andThen (NumClear (gPhysPageBitmap st1)) (\<lambda>numclear.
             if np > word_of_int numclear then Inl Dangling_pointer
             else
               andThen (repeat_alloc FindAndSet (gPhysPageBitmap st1) (unat np)) (\<lambda>(frames, bm).
               let pt = page_table frames;
                   st2 = st1\<lparr>gPhysPageBitmap := bm, addrLock := addrLock st1 + 1\<rparr>
               in andThen (load_segment f (code noffH) pt (vm_memory st2)) (\<lambda>mem.
                  andThen (load_segment f (initData noffH) pt mem) (\<lambda>mem.
                  Inr (Some \<lparr>as_pageTable = pt, numPages = unat np\<rparr>, st2\<lparr>vm_memory := mem\<rparr>)))))))"

definition AddrSpace_dtor :: "addrspace \<Rightarrow> vm \<Rightarrow> vm res" where
  "AddrSpace_dtor sp st =
     (if numPages sp > length (as_pageTable sp) then Inl Out_of_bounds
      else andThen (forRes (\<lambda>i bm. Clear bm (physicalPage (as_pageTable sp ! i))) [0..<numPages sp] (gPhysPageBitmap st))
             (\<lambda>bm. Inr (st\<lparr>gPhysPageBitmap := bm\<rparr>)))"

text \<open>\<^verbatim>\<open>Load\<close>, which maps virtual to physical addresses one to one.\<close>

definition load_at :: "u8 list \<Rightarrow> segment \<Rightarrow> (nat \<Rightarrow> u8) \<Rightarrow> (nat \<Rightarrow> u8) res" where
  "load_at f seg mem =
     (if sint (seg_size seg) > 0
      then andThen (read_file_at f (unat (seg_size seg)) (inFileAddr seg)) (\<lambda>bs.
           write_bytes mem (sint (virtualAddr seg)) bs)
      else Inr mem)"

definition AddrSpace_Load :: "bool \<Rightarrow> u8 list option \<Rightarrow> addrspace \<Rightarrow> (nat \<Rightarrow> u8) \<Rightarrow> (bool \<times> addrspace \<times> (nat \<Rightarrow> u8)) res" where
  "AddrSpace_Load big executable sp mem =
     (case executable of
        None \<Rightarrow> Inr (False, sp, mem)
      | Some f \<Rightarrow>
          andThen (get_header big f) (\<lambda>noffH.
          let bytes = seg_size (code noffH) + seg_size (readonlyData noffH) + seg_size (initData noffH)
                     + seg_size (uninitData noffH) + UserStackSize;
              np = pages_for bytes
          in ASSERT (np \<le> of_nat NumPhysPages)
            (andThen (load_at f (code noffH) mem) (\<lambda>mem.
             andThen (load_at f (initData noffH) mem) (\<lambda>mem.
             andThen (load_at f (readonlyData noffH) mem) (\<lambda>mem.
             Inr (True, sp\<lparr>numPages := unat np\<rparr>, mem)))))))"

definition InitRegisters :: "addrspace \<Rightarrow> machine \<Rightarrow> machine res" where
  "InitRegisters sp m =
     andThen (forRes (\<lambda>i m. WriteRegister m (int i) 0) [0..<NumTotalRegs] m) (\<lambda>m.
     andThen (WriteRegister m (int PCReg) 0) (\<lambda>m.
     andThen (WriteRegister m (int NextPCReg) 4) (\<lambda>m.
     WriteRegister m (int StackReg) (of_nat (numPages sp) * of_nat PageSize - 16))))"

definition SaveState :: "addrspace \<Rightarrow> machine \<Rightarrow> machine" where
  "SaveState sp m = m"

definition RestoreState :: "addrspace \<Rightarrow> machine \<Rightarrow> machine" where
  "RestoreState sp m = m\<lparr>pageTable := Some (as_pageTable sp), pageTableSize := numPages sp\<rparr>"

text \<open>\<^verbatim>\<open>Execute\<close> up to the call of \<^verbatim>\<open>machine->Run()\<close>, which never returns.\<close>

definition Execute_prepare :: "addrspace \<Rightarrow> machine \<Rightarrow> machine res" where
  "Execute_prepare sp m = andThen (InitRegisters sp m) (\<lambda>m. Inr (RestoreState sp m))"

definition AddrSpace_Translate :: "addrspace \<Rightarrow> u32 \<Rightarrow> bool \<Rightarrow> (ExceptionType \<times> u32 \<times> addrspace) res" where
  "AddrSpace_Translate sp vaddr isReadWrite =
     (let vpn = unat vaddr div PageSize; offset = unat vaddr mod PageSize
      in if vpn \<ge> numPages sp then Inr (AddressErrorException, 0, sp)
         else if vpn \<ge> length (as_pageTable sp) then Inl Out_of_bounds
         else let pte = as_pageTable sp ! vpn
              in if isReadWrite \<and> readOnly pte then Inr (ReadOnlyException, 0, sp)
                 else let pfn = physicalPage pte
                      in if pfn \<ge> int NumPhysPages then Inr (BusErrorException, 0, sp)
                         else let pte' = pte\<lparr>te_use := True, dirty := (isReadWrite \<or> dirty pte)\<rparr>;
                                  paddr = word_of_int (pfn * int PageSize + int offset) :: u32
                              in ASSERT (paddr < of_nat MemorySize)
                                   (Inr (NoException, paddr, sp\<lparr>as_pageTable := (as_pageTable sp)[vpn := pte']\<rparr>)))"

section \<open>Well-formed address spaces\<close>

definition frames_of :: "addrspace \<Rightarrow> int list" where
  "frames_of sp = map physicalPage (as_pageTable sp)"

definition wf_space :: "addrspace \<Rightarrow> bool" where
  "wf_space sp \<longleftrightarrow> numPages sp = length (as_pageTable sp) \<and> distinct (frames_of sp) \<and>
     set (frames_of sp) \<subseteq> {0..<int NumPhysPages} \<and> (\<forall>e\<in>set (as_pageTable sp). valid e \<and> \<not> readOnly e)"

text \<open>The bytes of main memory that belong to a list of frames.\<close>

definition frame_bytes :: "int list \<Rightarrow> nat set" where
  "frame_bytes fs = {x. x < MemorySize \<and> int (x div PageSize) \<in> set fs}"

lemma length_page_table [simp]: "length (page_table frames) = length frames"
  by (simp add: page_table_def)

lemma page_table_nth: "i < length frames \<Longrightarrow> page_table frames ! i = entry_for i (frames ! i)"
  by (simp add: page_table_def)

lemma frames_page_table: "map physicalPage (page_table frames) = frames"
  by (rule nth_equalityI) (simp_all add: page_table_nth entry_for_def)

lemma page_table_entries: "e \<in> set (page_table frames) \<Longrightarrow> valid e \<and> \<not> readOnly e"
  by (auto simp: in_set_conv_nth page_table_nth entry_for_def)

lemma unat_pages_for: "unat (pages_for n) = unat n div 512 + (if unat n mod 512 > 0 then 1 else 0)"
proof -
  have "unat n < 2 ^ LENGTH(32)" by (rule unsigned_less)
  then have "unat n div 512 < 2 ^ 23" by (simp add: less_mult_imp_div_less)
  then have "unat (n div 512 + 1) = unat n div 512 + 1"
    by (simp add: unat_word_ariths unat_div)
  moreover have "n mod 512 > 0 \<longleftrightarrow> unat n mod 512 > 0"
    by (simp add: word_less_nat_alt unat_mod)
  ultimately show ?thesis by (auto simp: pages_for_def unat_div)
qed

lemma pages_for_enough: "unat n \<le> unat (pages_for n) * PageSize"
proof -
  have "unat n = unat n div 512 * 512 + unat n mod 512" by simp
  moreover have "unat n mod 512 < 512" by simp
  ultimately show ?thesis by (auto simp: unat_pages_for)
qed

lemma frame_of_nonneg: "0 \<le> physicalPage e \<Longrightarrow> physicalPage e < 128 \<Longrightarrow> frame_of e = nat (physicalPage e)"
  by (simp add: frame_of_def flip: nat_uint_eq) (simp add: uint_word_of_int take_bit_eq_mod)

section \<open>Allocation and release of frames\<close>

lemma load_segments_bitmap:
  "AddrSpace_ctor big (Some f) st = Inr (r, st') \<Longrightarrow>
     \<exists>h numclear frames bm. get_header big f = Inr h \<and> NumClear (gPhysPageBitmap st) = Inr numclear \<and>
       (let np = pages_for (seg_size (code h) + seg_size (initData h) + seg_size (uninitData h) + UserStackSize)
        in np \<le> word_of_int numclear \<and>
           repeat_alloc FindAndSet (gPhysPageBitmap st) (unat np) = Inr (frames, bm) \<and>
           r = Some \<lparr>as_pageTable = page_table frames, numPages = unat np\<rparr> \<and>
           gPhysPageBitmap st' = bm \<and> addrLock st' = addrLock st)"
  by (auto simp: AddrSpace_ctor_def res_simps Let_def not_less split: if_splits)

lemma enough_clear:
  assumes bm: "wf_bitmap bm" "numBits bm = int NumPhysPages" "NumClear bm = Inr numclear"
    and np: "np \<le> (word_of_int numclear :: u32)"
  shows "unat np \<le> card ({0..<numBits bm} - marked bm)"
proof -
  have "{0..<numBits bm} - marked bm \<subseteq> {0..<128}" using bm(2) by auto
  from card_mono [OF _ this] have c: "card ({0..<numBits bm} - marked bm) \<le> 128" by simp
  moreover have "numclear = int (card ({0..<numBits bm} - marked bm))"
    using NumClear_ok [OF bm(1)] bm(3) by simp
  ultimately have "unat (word_of_int numclear :: u32) = card ({0..<numBits bm} - marked bm)"
    by (simp add: unat_of_nat)
  with np show ?thesis by (simp add: word_le_nat_alt)
qed

lemma AddrSpace_ctor_ok:
  assumes bm: "wf_bitmap (gPhysPageBitmap st)" "numBits (gPhysPageBitmap st) = int NumPhysPages"
    and c: "AddrSpace_ctor big (Some f) st = Inr (Some sp, st')" and h: "get_header big f = Inr h"
  shows "wf_space sp \<and> set (frames_of sp) \<inter> marked (gPhysPageBitmap st) = {} \<and>
         marked (gPhysPageBitmap st') = marked (gPhysPageBitmap st) \<union> set (frames_of sp) \<and>
         wf_bitmap (gPhysPageBitmap st') \<and> numBits (gPhysPageBitmap st') = int NumPhysPages \<and>
         addrLock st' = addrLock st \<and>
         unat (seg_size (code h) + seg_size (initData h) + seg_size (uninitData h) + UserStackSize)
           \<le> numPages sp * PageSize"
proof -
  let ?np = "pages_for (seg_size (code h) + seg_size (initData h) + seg_size (uninitData h) + UserStackSize)"
  obtain numclear frames where n: "NumClear (gPhysPageBitmap st) = Inr numclear" "?np \<le> word_of_int numclear"
    "repeat_alloc FindAndSet (gPhysPageBitmap st) (unat ?np) = Inr (frames, gPhysPageBitmap st')"
    "sp = \<lparr>as_pageTable = page_table frames, numPages = unat ?np\<rparr>" "addrLock st' = addrLock st"
    using load_segments_bitmap [OF c] h by (auto simp: Let_def)
  have f: "frames_of sp = frames" by (simp add: n(4) frames_of_def frames_page_table)
  have "unat ?np \<le> card ({0..<numBits (gPhysPageBitmap st)} - marked (gPhysPageBitmap st))"
    by (rule enough_clear [OF bm n(1,2)])
  from bm.repeat_alloc_ok [OF bm(1) this] n(3)
  have a: "wf_bitmap (gPhysPageBitmap st')" "numBits (gPhysPageBitmap st') = numBits (gPhysPageBitmap st)"
    "length frames = unat ?np" "distinct frames"
    "set frames \<subseteq> {0..<numBits (gPhysPageBitmap st)} - marked (gPhysPageBitmap st)"
    "marked (gPhysPageBitmap st') = marked (gPhysPageBitmap st) \<union> set frames" by auto
  have "wf_space sp"
    using a(3-5) bm(2) f by (auto simp: wf_space_def n(4) dest: page_table_entries)
  with a n(5) f bm(2) pages_for_enough show ?thesis by (auto simp: n(4))
qed

text \<open>
  Property C6.  When the constructor of an address space succeeds, the new space gets pairwise
  different page frames that no one owned, the frame bitmap is updated by exactly these frames, the
  lock on the bitmap is released as often as it was taken, and the pages cover the code, the data
  and the stack of the program.  In particular no two processes ever share a frame.
\<close>

theorem AddrSpace_ctor_fresh_frames:
  assumes bm: "wf_bitmap (gPhysPageBitmap st)" "numBits (gPhysPageBitmap st) = int NumPhysPages"
    and c: "AddrSpace_ctor big (Some f) st = Inr (Some sp, st')" and h: "get_header big f = Inr h"
  shows "wf_space sp \<and> set (frames_of sp) \<inter> marked (gPhysPageBitmap st) = {} \<and>
         marked (gPhysPageBitmap st') = marked (gPhysPageBitmap st) \<union> set (frames_of sp) \<and>
         wf_bitmap (gPhysPageBitmap st') \<and> numBits (gPhysPageBitmap st') = int NumPhysPages \<and>
         addrLock st' = addrLock st \<and>
         unat (seg_size (code h) + seg_size (initData h) + seg_size (uninitData h) + UserStackSize)
           \<le> numPages sp * PageSize"
  by (rule AddrSpace_ctor_ok [OF assms])

lemma AddrSpace_dtor_ok:
  assumes "wf_bitmap (gPhysPageBitmap st)" "numBits (gPhysPageBitmap st) = int NumPhysPages" "wf_space sp"
  shows "\<exists>st'. AddrSpace_dtor sp st = Inr st' \<and> wf_bitmap (gPhysPageBitmap st') \<and>
           numBits (gPhysPageBitmap st') = int NumPhysPages \<and>
           marked (gPhysPageBitmap st') = marked (gPhysPageBitmap st) - set (frames_of sp)"
proof -
  have "forRes (\<lambda>i bm. Clear bm (physicalPage (as_pageTable sp ! i))) js bm =
      forRes (\<lambda>i bm. Clear bm i) (map (\<lambda>i. physicalPage (as_pageTable sp ! i)) js) bm" for js bm
    by (induction js arbitrary: bm) (simp_all cong: andThen_cong)
  moreover have "map (\<lambda>i. physicalPage (as_pageTable sp ! i)) [0..<numPages sp] = frames_of sp"
    using assms(3) by (intro nth_equalityI) (simp_all add: wf_space_def frames_of_def)
  ultimately have "AddrSpace_dtor sp st = andThen (forRes (\<lambda>i bm. Clear bm i) (frames_of sp) (gPhysPageBitmap st))
      (\<lambda>bm. Inr (st\<lparr>gPhysPageBitmap := bm\<rparr>))"
    using assms(3) by (simp add: AddrSpace_dtor_def wf_space_def)
  moreover have "set (frames_of sp) \<subseteq> {0..<numBits (gPhysPageBitmap st)}"
    using assms(2,3) by (simp add: wf_space_def)
  ultimately show ?thesis
    using bm.clear_all_ok [OF assms(1), of "frames_of sp"] assms(2) by auto
qed

text \<open>
  Deleting an address space gives back exactly the frames its constructor took: the
  set of used frames is again what it was before.
\<close>

theorem AddrSpace_ctor_dtor:
  assumes "wf_bitmap (gPhysPageBitmap st)" "numBits (gPhysPageBitmap st) = int NumPhysPages"
    and "AddrSpace_ctor big (Some f) st = Inr (Some sp, st')"
  shows "\<exists>st''. AddrSpace_dtor sp st' = Inr st'' \<and>
           marked (gPhysPageBitmap st'') = marked (gPhysPageBitmap st)"
proof -
  obtain h where h: "get_header big f = Inr h" using load_segments_bitmap [OF assms(3)] by blast
  note ok = AddrSpace_ctor_ok [OF assms h]
  then obtain st'' where "AddrSpace_dtor sp st' = Inr st''"
    "marked (gPhysPageBitmap st'') = marked (gPhysPageBitmap st') - set (frames_of sp)"
    using AddrSpace_dtor_ok [of st' sp] by blast
  with ok show ?thesis by (intro exI [of _ st'']) blast
qed

section \<open>Starting a program\<close>

lemma forRes_WriteRegister_zero:
  "n \<le> 40 \<Longrightarrow> forRes (\<lambda>i m. WriteRegister m (int i) 0) [0..<n] m =
     Inr (m\<lparr>registers := (\<lambda>r. if r < n then 0 else registers m r)\<rparr>)"
proof (induction n)
  case (Suc n)
  have "(\<lambda>r. if r < n then 0 else registers m r)(n := 0) = (\<lambda>r. if r < Suc n then 0 else registers m r)"
    by auto
  with Suc show ?case by (simp add: forRes_append WriteRegister_def)
qed simp

lemma InitRegisters_ok:
  "InitRegisters sp m = Inr (m\<lparr>registers :=
     (\<lambda>r. if r = NextPCReg then 4 else if r = StackReg then of_nat (numPages sp) * 512 - 16
          else if r < NumTotalRegs then 0 else registers m r)\<rparr>)"
proof -
  have z: "forRes (\<lambda>i m. WriteRegister m (int i) 0) [0..<40] m =
      Inr (m\<lparr>registers := (\<lambda>r. if r < 40 then 0 else registers m r)\<rparr>)"
    by (rule forRes_WriteRegister_zero) simp
  have f: "((((\<lambda>r. if r < 40 then 0 else registers m r)(34 := 0))(35 := 4))(29 := of_nat (numPages sp) * 512 - 16)) =
     (\<lambda>r. if r = 35 then 4 else if r = 29 then of_nat (numPages sp) * 512 - 16
          else if r < 40 then 0 else registers m r)" by (rule ext) simp
  show ?thesis unfolding InitRegisters_def z by (simp add: WriteRegister_def f)
qed

lemma wf_space_writable:
  assumes sp: "wf_space sp" and m: "tlb m = None" "pageTable m = Some (as_pageTable sp)"
  shows "writable_bytes m = frame_bytes (frames_of sp)"
proof -
  have r: "rights_of e = (nat (physicalPage e), True)" "0 \<le> physicalPage e"
    if "e \<in> set (as_pageTable sp)" for e
    using that sp frame_of_nonneg [of e] by (auto simp: wf_space_def frames_of_def rights_of_def)
  have "(\<exists>e\<in>set (as_pageTable sp). rights_of e = (k, True)) \<longleftrightarrow> int k \<in> set (frames_of sp)" for k
    using r by (force simp: frames_of_def image_iff)
  then show ?thesis
    using m by (simp add: writable_bytes_def frame_bytes_def entries_def)
qed

text \<open>
  When \<^verbatim>\<open>Execute\<close> hands the CPU to a program, the machine is well-formed, the program
  counter is 0, the next one 4, the stack pointer 16 bytes below the end of the address space, and
  the only bytes of main memory the program can write are those of the frames of its own space.
\<close>

theorem Execute_starts_program:
  assumes "wf_space sp" "tlb m = None"
  shows "\<exists>m'. Execute_prepare sp m = Inr m' \<and> machine_ok m' \<and>
           registers m' PCReg = 0 \<and> registers m' NextPCReg = 4 \<and>
           registers m' StackReg = of_nat (numPages sp * PageSize) - 16 \<and>
           writable_bytes m' = frame_bytes (frames_of sp) \<and> mainMemory m' = mainMemory m"
proof -
  define m' where "m' = RestoreState sp (m\<lparr>registers :=
     (\<lambda>r. if r = NextPCReg then 4 else if r = StackReg then of_nat (numPages sp) * 512 - 16
          else if r < NumTotalRegs then 0 else registers m r)\<rparr>)"
  have "Execute_prepare sp m = Inr m'"
    by (simp add: Execute_prepare_def InitRegisters_ok m'_def)
  moreover have "machine_ok m'"
    using assms by (simp add: machine_ok_def m'_def RestoreState_def table_ok_def wf_space_def)
  moreover have "writable_bytes m' = frame_bytes (frames_of sp)"
    by (rule wf_space_writable [OF assms(1)]) (use assms in \<open>simp_all add: m'_def RestoreState_def\<close>)
  ultimately show ?thesis by (auto simp: m'_def RestoreState_def)
qed

section \<open>Loading\<close>

lemma write_bytes_ok:
  assumes "0 \<le> a" "a + int (length bs) \<le> int MemorySize"
  shows "write_bytes mem a bs =
     Inr (\<lambda>x. if nat a \<le> x \<and> x < nat a + length bs then bs ! (x - nat a) else mem x)"
  using assms by (auto simp: write_bytes_def fun_eq_iff)

lemma sint_small: "uint (x :: u32) < 2 ^ 31 \<Longrightarrow> sint x = uint x"
  using signed_take_bit_int_eq_self [of 31 "uint x"] uint_ge_0 [of x] by (simp add: sint_uint)

lemma file_pos:
  assumes "unat (p :: u32) + n * 512 < 2 ^ 31" "i < n"
  shows "unat (p + of_nat (i * 512)) = unat p + i * 512" "0 \<le> sint (p + of_nat (i * 512))"
proof -
  have "i * 512 < n * 512" using assms(2) by simp
  then have l: "unat p + i * 512 < 2 ^ 31" using assms(1) by linarith
  have "unat (of_nat (i * 512) :: u32) = i * 512"
    using l by (simp only: unat_of_nat) simp
  with l show u: "unat (p + of_nat (i * 512)) = unat p + i * 512"
    by (simp only: unat_word_ariths) simp
  have "uint (p + of_nat (i * 512)) = int (unat p + i * 512)" using arg_cong [OF u, of int] by simp
  moreover have "int (unat p + i * 512) < int (2 ^ 31)" using l by (simp only: of_nat_less_iff)
  moreover have "int (2 ^ 31) = 2 ^ 31" by simp
  ultimately have "uint (p + of_nat (i * 512)) < 2 ^ 31" by (simp only:)
  then show "0 \<le> sint (p + of_nat (i * 512))"
    by (simp only: sint_small uint_ge_0)
qed

lemma wf_space_frame:
  assumes "wf_space sp" "i < length (as_pageTable sp)"
  shows "0 \<le> physicalPage (as_pageTable sp ! i) \<and> physicalPage (as_pageTable sp ! i) < 128"
proof -
  have "physicalPage (as_pageTable sp ! i) \<in> set (frames_of sp)" using assms(2) by (simp add: frames_of_def)
  with assms(1) show ?thesis by (auto simp: wf_space_def)
qed

text \<open>A page of a segment that starts at virtual address 0 goes to the frame of that page.\<close>

lemma window_iff:
  "N \<le> x \<and> x < N + min 512 (L - q) \<longleftrightarrow> (N \<le> x \<and> x < N + 512) \<and> q + (x - N) < (L :: nat)"
  by (cases "N \<le> x") auto

lemma load_page_ok:
  assumes seg: "virtualAddr seg = 0" "unat (inFileAddr seg) + length pt * 512 < 2 ^ 31"
    and pt: "i < length pt" "0 \<le> physicalPage (pt ! i)" "physicalPage (pt ! i) < 128"
  shows "load_page f seg pt i mem = Inr (\<lambda>x.
      let o' = x - nat (physicalPage (pt ! i)) * 512 in
      if x div 512 = nat (physicalPage (pt ! i)) \<and> unat (inFileAddr seg) + i * 512 + o' < length f
      then f ! (unat (inFileAddr seg) + i * 512 + o') else mem x)"
proof -
  let ?b = "physicalPage (pt ! i) * 512" and ?q = "unat (inFileAddr seg) + i * 512"
  let ?bs = "take 512 (drop ?q f)"
  note pos = file_pos [OF seg(2) pt(1)]
  have len: "length ?bs = min 512 (length f - ?q)" by simp
  have fit: "0 \<le> ?b" "?b + int (length ?bs) \<le> int MemorySize" using pt by (simp_all add: MemorySize_def)
  have b: "nat ?b = nat (physicalPage (pt ! i)) * 512" using pt(2) by (simp add: nat_mult_distrib)
  have "load_page f seg pt i mem = write_bytes mem ?b ?bs"
    using pos seg(1) by (simp add: load_page_def read_file_at_def)
  also have "\<dots> = Inr (\<lambda>x. if nat ?b \<le> x \<and> x < nat ?b + length ?bs then ?bs ! (x - nat ?b) else mem x)"
    by (rule write_bytes_ok [OF fit])
  also have "(\<lambda>x. if nat ?b \<le> x \<and> x < nat ?b + length ?bs then ?bs ! (x - nat ?b) else mem x) =
      (\<lambda>x. let o' = x - nat (physicalPage (pt ! i)) * 512 in
      if x div 512 = nat (physicalPage (pt ! i)) \<and> ?q + o' < length f
      then f ! (?q + o') else mem x)"
  proof (rule ext)
    fix x
    let ?n = "nat (physicalPage (pt ! i))"
    have "?n * 512 \<le> x \<and> x < ?n * 512 + length ?bs \<longleftrightarrow> x div 512 = ?n \<and> ?q + (x - ?n * 512) < length f"
    proof -
      have "x div 512 = ?n \<longleftrightarrow> ?n * 512 \<le> x \<and> x < ?n * 512 + 512"
        by (metis add.commute div_nat_eqI div_times_less_eq_dividend dividend_less_div_times mult.commute mult_Suc_right zero_less_numeral)
      then show ?thesis unfolding len window_iff by blast
    qed
    moreover have "?bs ! (x - ?n * 512) = f ! (?q + (x - ?n * 512))"
      if "?n * 512 \<le> x \<and> x < ?n * 512 + length ?bs"
    proof -
      have w: "?n * 512 \<le> x \<and> x < ?n * 512 + 512" "?q + (x - ?n * 512) < length f"
        using that unfolding len window_iff by blast+
      then have "x - ?n * 512 < 512" "?q \<le> length f" by linarith+
      then show ?thesis by (simp only: nth_take nth_drop)
    qed
    ultimately show "(if nat ?b \<le> x \<and> x < nat ?b + length ?bs then ?bs ! (x - nat ?b) else mem x) =
      (let o' = x - ?n * 512 in if x div 512 = ?n \<and> ?q + o' < length f then f ! (?q + o') else mem x)"
      unfolding b Let_def by presburger
  qed
  finally show ?thesis .
qed


lemma load_segment_zero:
  assumes sp: "wf_space sp"
    and seg: "virtualAddr seg = 0" "sint (seg_size seg) > 0" "unat (inFileAddr seg) + numPages sp * PageSize < 2 ^ 31"
  shows "\<exists>mem'. load_segment f seg (as_pageTable sp) mem = Inr mem' \<and>
           (\<forall>va < numPages sp * PageSize. unat (inFileAddr seg) + va < length f \<longrightarrow>
              mem' (nat (frames_of sp ! (va div PageSize)) * PageSize + va mod PageSize) = f ! (unat (inFileAddr seg) + va)) \<and>
           (\<forall>x. x \<notin> frame_bytes (frames_of sp) \<longrightarrow> mem' x = mem x)"
proof -
  let ?pt = "as_pageTable sp" and ?q = "unat (inFileAddr seg)"
  let ?fr = "\<lambda>i. nat (physicalPage (?pt ! i))"
  let ?P = "\<lambda>js mem'. (\<forall>va. va div 512 \<in> set js \<longrightarrow> ?q + va < length f \<longrightarrow> mem' (?fr (va div 512) * 512 + va mod 512) = f ! (?q + va)) \<and>
      (\<forall>x. x \<notin> frame_bytes (frames_of sp) \<longrightarrow> mem' x = mem x)"
  have len: "numPages sp = length ?pt" and d: "distinct (frames_of sp)"
    using sp by (auto simp: wf_space_def)
  note rng = wf_space_frame [OF sp]
  have inj: "i = j" if "?fr i = ?fr j" "i < length ?pt" "j < length ?pt" for i j
    using that rng [OF that(2)] rng [OF that(3)] d nth_eq_iff_index_eq [of "frames_of sp" i j]
    by (simp add: frames_of_def eq_nat_nat_iff)
  have "\<exists>mem'. forRes (load_page f seg ?pt) [0..<length ?pt] mem = Inr mem' \<and> ?P [0..<length ?pt] mem'"
  proof (rule forRes_rule [where P = ?P])
    show "?P [] mem" by simp
  next
    fix pre i post m
    assume sp: "[0..<length ?pt] = pre @ i # post" and P: "?P pre m"
    have i: "i < length ?pt" and pre: "set pre \<subseteq> {0..<length ?pt}" "i \<notin> set pre"
      using arg_cong [OF sp, of set] arg_cong [OF sp, of distinct] by auto
    let ?m = "\<lambda>x. let o' = x - ?fr i * 512 in
      if x div 512 = ?fr i \<and> ?q + i * 512 + o' < length f then f ! (?q + i * 512 + o') else m x"
    have l: "load_page f seg ?pt i m = Inr ?m"
      using load_page_ok [of seg ?pt i f m] seg i rng [OF i] len by simp
    have "?m (?fr (va div 512) * 512 + va mod 512) = f ! (?q + va)"
      if "va div 512 \<in> set (pre @ [i])" "?q + va < length f" for va
    proof (cases "va div 512 = i")
      case True
      then have "i * 512 + va mod 512 = va" by (metis div_mult_mod_eq)
      with True that(2) show ?thesis by (simp add: Let_def add.assoc)
    next
      case False
      with that(1) have k: "va div 512 \<in> set pre" by simp
      with pre have "va div 512 < length ?pt" by auto
      with False inj [of "va div 512" i] i have "?fr (va div 512) \<noteq> ?fr i" by blast
      with P k that(2) show ?thesis by (simp add: Let_def)
    qed
    moreover have "?m x = mem x" if "x \<notin> frame_bytes (frames_of sp)" for x
    proof -
      have "x div 512 \<noteq> ?fr i"
      proof
        assume e: "x div 512 = ?fr i"
        with rng [OF i] have "x div 512 < 128" by (simp add: nat_less_iff)
        then have "x < MemorySize" by (simp add: MemorySize_def div_less_iff_less_mult)
        moreover have "physicalPage (?pt ! i) \<in> set (frames_of sp)" using i by (simp add: frames_of_def)
        ultimately show False using that e rng [OF i] by (simp add: frame_bytes_def)
      qed
      with P that show ?thesis by (simp add: Let_def)
    qed
    ultimately show "\<exists>s'. load_page f seg ?pt i m = Inr s' \<and> ?P (pre @ [i]) s'" using l by blast
  qed
  then obtain mem' where m': "forRes (load_page f seg ?pt) [0..<length ?pt] mem = Inr mem'" "?P [0..<length ?pt] mem'"
    by blast
  have "frames_of sp ! (va div 512) = physicalPage (?pt ! (va div 512))" "va div 512 < length ?pt"
    if "va < numPages sp * 512" for va
    using that len by (simp_all add: frames_of_def less_mult_imp_div_less)
  with m' seg(2) show ?thesis by (auto simp: load_segment_def)
qed


definition sample_space :: addrspace where
  "sample_space = \<lparr>as_pageTable = page_table [5, 2], numPages = 2\<rparr>"

lemma sample_space_wf: "wf_space sample_space" "frames_of sample_space = [5, 2]"
  by (auto simp: sample_space_def wf_space_def frames_of_def frames_page_table dest: page_table_entries)

text \<open>
  A segment that starts at virtual address 0 (where the linker puts the code) is loaded
  right whatever frames the space was given: every virtual address of the space holds the byte of
  the file that belongs there, and no byte outside the frames of the space is changed.
\<close>

theorem load_segment_at_zero:
  assumes sp: "wf_space sp"
    and seg: "virtualAddr seg = 0" "sint (seg_size seg) > 0" "unat (inFileAddr seg) + numPages sp * PageSize < 2 ^ 31"
  shows "\<exists>mem'. load_segment f seg (as_pageTable sp) mem = Inr mem' \<and>
           (\<forall>va < numPages sp * PageSize. unat (inFileAddr seg) + va < length f \<longrightarrow>
              mem' (nat (frames_of sp ! (va div PageSize)) * PageSize + va mod PageSize) = f ! (unat (inFileAddr seg) + va)) \<and>
           (\<forall>x. x \<notin> frame_bytes (frames_of sp) \<longrightarrow> mem' x = mem x)"
  by (rule load_segment_zero [OF assms])

theorem load_segment_at_zero_witness:
  "\<exists>mem'. load_segment (replicate 52 0 @ [7]) \<lparr>virtualAddr = 0, inFileAddr = 52, seg_size = 1\<rparr>
       (as_pageTable sample_space) (\<lambda>_. 0) = Inr mem' \<and> mem' 2560 = 7"
proof -
  obtain mem' where m: "load_segment (replicate 52 0 @ [7]) \<lparr>virtualAddr = 0, inFileAddr = 52, seg_size = 1\<rparr>
       (as_pageTable sample_space) (\<lambda>_. 0) = Inr mem'"
    "\<forall>va < numPages sample_space * PageSize. 52 + va < length (replicate 52 0 @ [7 :: u8]) \<longrightarrow>
       mem' (nat (frames_of sample_space ! (va div PageSize)) * PageSize + va mod PageSize) = (replicate 52 0 @ [7]) ! (52 + va)"
    using load_segment_at_zero [OF sample_space_wf(1), of "\<lparr>virtualAddr = 0, inFileAddr = 52, seg_size = 1\<rparr>"
        "replicate 52 0 @ [7]" "\<lambda>_. 0"] by (auto simp: sample_space_def)
  from m(2) [rule_format, of 0] have "mem' 2560 = 7"
    by (simp add: sample_space_wf(2) nth_append) (simp add: sample_space_def)
  with m(1) show ?thesis by blast
qed



section \<open>The kernel's translation agrees with the hardware's\<close>

text \<open>
  For a well-formed address space that is installed in the machine, the kernel's
  \<^verbatim>\<open>AddrSpace::Translate\<close> and the hardware's \<^verbatim>\<open>Machine::Translate\<close> (for byte accesses) give the
  same exception or the same physical address, and set the same use and dirty bits.
\<close>

theorem AddrSpace_Translate_agrees:
  assumes sp: "wf_space sp" and m: "tlb m = None"
  shows "\<exists>exc pa sp'. AddrSpace_Translate sp va w = Inr (exc, pa, sp') \<and>
           Translate (RestoreState sp m) va 1 w = Inr (exc, unat pa, RestoreState sp' m)"
proof (cases "unat va div 512 < numPages sp")
  case False
  then show ?thesis by (simp add: AddrSpace_Translate_def Translate_def RestoreState_def m)
next
  case True
  let ?v = "unat va div 512" and ?o = "unat va mod 512"
  let ?e = "as_pageTable sp ! ?v"
  have len: "?v < length (as_pageTable sp)" using True sp by (simp add: wf_space_def)
  have e: "valid ?e" "\<not> readOnly ?e" using sp nth_mem [OF len] by (auto simp: wf_space_def)
  note p = wf_space_frame [OF sp len]
  then obtain n where n: "physicalPage ?e = int n" "n < 128" by (metis nat_eq_iff2 of_nat_less_iff of_nat_numeral)
  have o: "n * 512 + ?o < 65536" using n(2) by simp
  let ?pa = "of_nat (n * 512 + ?o) :: u32"
  have pa: "unat ?pa = n * 512 + ?o" using o by (simp only: unat_of_nat) simp
  let ?e' = "?e\<lparr>te_use := True, dirty := (w \<or> dirty ?e)\<rparr>"
  let ?sp = "sp\<lparr>as_pageTable := (as_pageTable sp)[?v := ?e']\<rparr>"
  have "AddrSpace_Translate sp va w = Inr (NoException, ?pa, ?sp)"
  proof -
    have "word_of_int (physicalPage ?e * 512 + int ?o) = ?pa" by (simp add: n)
    moreover have "?pa < of_nat MemorySize" using pa o by (simp add: word_less_nat_alt MemorySize_def)
    ultimately show ?thesis using True len e n by (simp add: AddrSpace_Translate_def Let_def)
  qed
  moreover have "use_entry ?e ?o 1 w = Inr (NoException, n * 512 + ?o, ?e')"
    using e n o by (simp add: use_entry_def Let_def unat_of_nat MemorySize_def disj_commute)
  then have "Translate (RestoreState sp m) va 1 w = Inr (NoException, n * 512 + ?o, RestoreState ?sp m)"
    using True len e m by (simp add: Translate_def RestoreState_def Let_def)
  ultimately show ?thesis using pa by metis
qed


theorem AddrSpace_Translate_agrees_witness:
  "\<exists>pa sp'. AddrSpace_Translate sample_space 513 True = Inr (NoException, pa, sp') \<and>
     Translate (RestoreState sample_space (new_Machine False False)) 513 1 True =
       Inr (NoException, unat pa, RestoreState sp' (new_Machine False False)) \<and> unat pa = 1025"
proof -
  have "tlb (new_Machine False False) = None" by (simp add: new_Machine_def)
  from AddrSpace_Translate_agrees [OF sample_space_wf(1) this, of 513 True] show ?thesis
    by (auto simp: AddrSpace_Translate_def sample_space_def page_table_nth entry_for_def Let_def MemorySize_def)
qed

section \<open>The constructor on concrete programs\<close>

lemma AddrSpace_ctor_succeeds:
  assumes bm: "wf_bitmap (gPhysPageBitmap st)" "numBits (gPhysPageBitmap st) = int NumPhysPages"
    and h: "get_header big f = Inr h" "virtualAddr (code h) = 0" "seg_size (initData h) = 0"
    and np: "np = unat (pages_for (seg_size (code h) + seg_size (uninitData h) + UserStackSize))"
      "np \<le> card ({0..<numBits (gPhysPageBitmap st)} - marked (gPhysPageBitmap st))"
    and fit: "unat (inFileAddr (code h)) + np * PageSize < 2 ^ 31"
  shows "\<exists>sp st'. AddrSpace_ctor big (Some f) st = Inr (Some sp, st')"
proof -
  let ?bm = "gPhysPageBitmap st"
  obtain frames bm' where a: "repeat_alloc FindAndSet ?bm np = Inr (frames, bm')" "length frames = np"
    "distinct frames" "set frames \<subseteq> {0..<numBits ?bm} - marked ?bm"
    using bm.repeat_alloc_ok [OF bm(1) np(2)] by blast
  let ?sp = "\<lparr>as_pageTable = page_table frames, numPages = np\<rparr>"
  have "wf_space ?sp"
    using a bm(2) by (auto simp: wf_space_def frames_of_def frames_page_table dest: page_table_entries)
  then have "\<exists>mem'. load_segment f (code h) (page_table frames) (vm_memory st) = Inr mem'"
    using load_segment_zero [of ?sp "code h" f "vm_memory st"] h(2) fit
    by (cases "sint (seg_size (code h)) > 0") (auto simp: load_segment_def)
  moreover have "\<not> (pages_for (seg_size (code h) + seg_size (uninitData h) + UserStackSize) >
      word_of_int (int (card ({0..<numBits ?bm} - marked ?bm))))"
  proof -
    have "{0..<numBits ?bm} - marked ?bm \<subseteq> {0..<128}" using bm(2) by auto
    from card_mono [OF _ this] have "card ({0..<numBits ?bm} - marked ?bm) \<le> 128" by simp
    then have "unat (of_nat (card ({0..<numBits ?bm} - marked ?bm)) :: u32) = card ({0..<numBits ?bm} - marked ?bm)"
      by (simp add: unat_of_nat)
    with np show ?thesis by (simp add: word_less_nat_alt)
  qed
  ultimately show ?thesis
    using a(1) h np(1) NumClear_ok [OF bm(1)] by (auto simp: AddrSpace_ctor_def Let_def load_segment_def)
qed

text \<open>
  When there are not enough free frames, the constructor goes on after deleting the
  executable and deletes it a second time: it never reports the failure to its caller.
\<close>

theorem AddrSpace_ctor_no_memory:
  assumes bm: "wf_bitmap (gPhysPageBitmap st)" "numBits (gPhysPageBitmap st) = int NumPhysPages"
    and h: "get_header big f = Inr h"
    and few: "card ({0..<numBits (gPhysPageBitmap st)} - marked (gPhysPageBitmap st)) <
      unat (pages_for (seg_size (code h) + seg_size (initData h) + seg_size (uninitData h) + UserStackSize))"
  shows "AddrSpace_ctor big (Some f) st = Inl Dangling_pointer"
proof -
  let ?bm = "gPhysPageBitmap st"
  have "{0..<numBits ?bm} - marked ?bm \<subseteq> {0..<128}" using bm(2) by auto
  from card_mono [OF _ this] have "card ({0..<numBits ?bm} - marked ?bm) \<le> 128" by simp
  then have "unat (of_nat (card ({0..<numBits ?bm} - marked ?bm)) :: u32) = card ({0..<numBits ?bm} - marked ?bm)"
    by (simp add: unat_of_nat)
  with few have "pages_for (seg_size (code h) + seg_size (initData h) + seg_size (uninitData h) + UserStackSize) >
      word_of_int (int (card ({0..<numBits ?bm} - marked ?bm)))" by (simp add: word_less_nat_alt)
  with h NumClear_ok [OF bm(1)] show ?thesis by (simp add: AddrSpace_ctor_def Let_def)
qed

definition sample_program :: "u8 list" where
  "sample_program =
     [0xad, 0xdf, 0xba, 0,  0, 0, 0, 0,  52, 0, 0, 0,  4, 0, 0, 0,  0, 0, 0, 0,  0, 0, 0, 0,  0, 0, 0, 0,
      0, 0, 0, 0,  0, 0, 0, 0,  0, 0, 0, 0,  0, 0, 0, 0,  0, 0, 0, 0,  0, 0, 0, 0,  12, 0, 0, 0]"

definition sample_header :: noffHeader where
  "sample_header =
     \<lparr>noffMagic = NOFFMAGIC, code = \<lparr>virtualAddr = 0, inFileAddr = 52, seg_size = 4\<rparr>,
      initData = \<lparr>virtualAddr = 0, inFileAddr = 0, seg_size = 0\<rparr>,
      readonlyData = \<lparr>virtualAddr = 0, inFileAddr = 0, seg_size = 0\<rparr>,
      uninitData = \<lparr>virtualAddr = 0, inFileAddr = 0, seg_size = 0\<rparr>\<rparr>"

lemma sample_program_header: "get_header False sample_program = Inr sample_header"
  by (simp add: get_header_def read_header_def sample_program_def sample_header_def file_word_def
      file_segment_def host_load32_def NOFFMAGIC_def Let_def)


lemma sample_ctor:
  obtains bm sp st' where "new_Bitmap 128 = Inr bm" "wf_bitmap bm" "numBits bm = int NumPhysPages" "marked bm = {}"
    "AddrSpace_ctor False (Some sample_program) \<lparr>gPhysPageBitmap = bm, addrLock = 1, vm_memory = (\<lambda>_. 0)\<rparr>
       = Inr (Some sp, st')"
proof -
  obtain bm where bm: "new_Bitmap 128 = Inr bm" "wf_bitmap bm" "numBits bm = 128" "marked bm = {}"
    using new_Bitmap_ok [of 128] by auto
  have "unat (pages_for 1028) = 3" by (simp add: unat_pages_for)
  then have "\<exists>sp st'. AddrSpace_ctor False (Some sample_program) \<lparr>gPhysPageBitmap = bm, addrLock = 1, vm_memory = (\<lambda>_. 0)\<rparr>
       = Inr (Some sp, st')"
    using bm by (intro AddrSpace_ctor_succeeds [OF _ _ sample_program_header, where np = 3])
      (simp_all add: sample_header_def UserStackSize_def)
  with bm that show thesis by auto
qed

theorem AddrSpace_ctor_fresh_frames_witness:
  "\<exists>bm sp st'. new_Bitmap 128 = Inr bm \<and>
     AddrSpace_ctor False (Some sample_program) \<lparr>gPhysPageBitmap = bm, addrLock = 1, vm_memory = (\<lambda>_. 0)\<rparr>
       = Inr (Some sp, st') \<and> wf_space sp \<and> marked (gPhysPageBitmap st') = set (frames_of sp) \<and> addrLock st' = 1"
proof -
  obtain bm sp st' where s: "new_Bitmap 128 = Inr bm" "wf_bitmap bm" "numBits bm = int NumPhysPages" "marked bm = {}"
    "AddrSpace_ctor False (Some sample_program) \<lparr>gPhysPageBitmap = bm, addrLock = 1, vm_memory = (\<lambda>_. 0)\<rparr>
       = Inr (Some sp, st')" by (rule sample_ctor)
  show ?thesis using AddrSpace_ctor_fresh_frames [OF _ _ s(5) sample_program_header] s by auto
qed

theorem AddrSpace_ctor_dtor_witness:
  "\<exists>bm sp st' st''. new_Bitmap 128 = Inr bm \<and>
     AddrSpace_ctor False (Some sample_program) \<lparr>gPhysPageBitmap = bm, addrLock = 1, vm_memory = (\<lambda>_. 0)\<rparr>
       = Inr (Some sp, st') \<and> AddrSpace_dtor sp st' = Inr st'' \<and> marked (gPhysPageBitmap st'') = {}"
proof -
  obtain bm sp st' where s: "new_Bitmap 128 = Inr bm" "wf_bitmap bm" "numBits bm = int NumPhysPages" "marked bm = {}"
    "AddrSpace_ctor False (Some sample_program) \<lparr>gPhysPageBitmap = bm, addrLock = 1, vm_memory = (\<lambda>_. 0)\<rparr>
       = Inr (Some sp, st')" by (rule sample_ctor)
  show ?thesis using AddrSpace_ctor_dtor [OF _ _ s(5)] s by auto
qed

theorem Execute_starts_program_witness:
  "\<exists>m'. Execute_prepare sample_space (new_Machine False False) = Inr m' \<and> machine_ok m' \<and>
     registers m' StackReg = 1008 \<and> writable_bytes m' = frame_bytes [5, 2]"
proof -
  have "tlb (new_Machine False False) = None" by (simp add: new_Machine_def)
  from Execute_starts_program [OF sample_space_wf(1) this] show ?thesis
    by (auto simp: sample_space_wf(2)) (simp add: sample_space_def)
qed

lemma full_bitmap:
  obtains bm where "wf_bitmap bm" "numBits bm = 128" "marked bm = {0..<128}"
proof -
  obtain bm where bm: "wf_bitmap bm" "numBits bm = 128" "marked bm = {}"
    using new_Bitmap_ok [of 128] by auto
  then have "128 \<le> card ({0..<numBits bm} - marked bm)" by simp
  from bm.repeat_alloc_ok [OF bm(1) this] bm obtain "is" bm' where
    "wf_bitmap bm'" "numBits bm' = 128" "marked bm' = set is" "set is \<subseteq> {0..<128}" "distinct is" "length is = 128"
    by auto
  moreover from this have "set is = {0..<128}"
    by (intro card_subset_eq) (simp_all add: distinct_card)
  ultimately show thesis using that by simp
qed

theorem AddrSpace_ctor_no_memory_witness:
  "\<exists>bm. AddrSpace_ctor False (Some sample_program) \<lparr>gPhysPageBitmap = bm, addrLock = 1, vm_memory = (\<lambda>_. 0)\<rparr>
     = Inl Dangling_pointer"
proof -
  obtain bm where bm: "wf_bitmap bm" "numBits bm = 128" "marked bm = {0..<128}" by (rule full_bitmap)
  have "unat (pages_for 1028) = 3" by (simp add: unat_pages_for)
  with bm AddrSpace_ctor_no_memory [of "\<lparr>gPhysPageBitmap = bm, addrLock = 1, vm_memory = (\<lambda>_. 0)\<rparr>",
      OF _ _ sample_program_header]
  show ?thesis by (auto simp: sample_header_def UserStackSize_def)
qed

end
