(* ===== verification/Threads.thy ===== *)
theory Threads
  imports Interrupt AddrSpace
begin

text \<open>
  Kernel threads and the scheduler: \<^verbatim>\<open>threads/thread.h\<close>, \<^verbatim>\<open>thread.cc\<close>, \<^verbatim>\<open>scheduler.h\<close>,
  \<^verbatim>\<open>scheduler.cc\<close>.

  A thread that is not running is somewhere inside a kernel call; what is left to do on its kernel
  stack is the list of \<open>frame\<close>s of its control block, the innermost first.  \<^verbatim>\<open>SWITCH\<close> makes
  another thread current, and that thread goes on with its own innermost frame (\<open>continue\<close> in
  \<^verbatim>\<open>Synch\<close>).  The state is the record \<open>kernel\<close>, which extends the interrupt hardware of
  \<^verbatim>\<open>Interrupt\<close>; \<open>call\<close> is again the virtual method of the interrupt handlers.

  \<^verbatim>\<open>SetLevel\<close> at the end of a kernel call turns interrupts on and lets time pass.  Here it only
  changes the level (\<open>set_level\<close>); the tick is a step of its own, which the step relation of
  \<^verbatim>\<open>Synch\<close> allows whenever interrupts are on.
\<close>

section \<open>State\<close>

datatype ThreadStatus = JUST_CREATED | RUNNING | READY | BLOCKED

text \<open>
  \<open>F_begin f\<close>: \<^verbatim>\<open>ThreadRoot\<close>, which calls \<^verbatim>\<open>Begin\<close> and then the forked procedure \<open>f\<close>;
  \<open>F_yield l\<close>: inside \<^verbatim>\<open>Yield\<close>, about to restore the level \<open>l\<close>;
  \<open>F_P s l\<close>: inside the loop of \<^verbatim>\<open>Semaphore::P\<close> on \<open>s\<close>;
  \<open>F_call_P s\<close>, \<open>F_call_Acquire k\<close>: about to call \<^verbatim>\<open>P\<close> or \<^verbatim>\<open>Acquire\<close>;
  \<open>F_set_holder k\<close>: in \<^verbatim>\<open>Lock::Acquire\<close> after its \<^verbatim>\<open>P\<close>;
  \<open>F_delete s\<close>: at the end of \<^verbatim>\<open>Condition::Wait\<close>, before \<^verbatim>\<open>delete waiter\<close>;
  \<open>F_broadcast c\<close>: in the loop of \<^verbatim>\<open>Condition::Broadcast\<close>.
\<close>

datatype frame =
    F_begin nat | F_yield IntStatus | F_P nat IntStatus | F_call_P nat | F_call_Acquire nat
  | F_set_holder nat | F_delete nat | F_broadcast nat

text \<open>\<open>stack\<close> is the word at the bottom of the stack, \<open>None\<close> for the main thread's NULL.\<close>

record thread =
  t_name :: string
  stack :: "u32 option"
  t_status :: ThreadStatus
  processID :: int
  exitStatus :: int
  space :: "nat option"
  userRegisters :: "nat \<Rightarrow> u32"
  frames :: "frame list"

record semaphore =
  s_value :: int
  s_queue :: "nat list"

record lock =
  lk_semaphore :: nat
  lockHolder :: "nat option"

record condition =
  waitQueue :: "nat list"

record 'cb kernel = "'cb timer_hw" +
  currentThread :: nat
  threads :: "nat \<Rightarrow> thread option"
  readyList :: "nat list"
  toBeDestroyed :: "nat option"
  spaces :: "nat \<Rightarrow> addrspace option"
  sems :: "nat \<Rightarrow> semaphore option"
  locks :: "nat \<Rightarrow> lock option"
  conds :: "nat \<Rightarrow> condition option"
  fresh_sem :: nat
  halted :: bool

definition STACK_FENCEPOST :: u32 where
  "STACK_FENCEPOST = 0xdedbeef"

definition new_Thread :: "string \<Rightarrow> thread" where
  "new_Thread threadName =
     \<lparr>t_name = threadName, stack = None, t_status = JUST_CREATED, processID = 0, exitStatus = 0,
      space = None, userRegisters = (\<lambda>_. 0), frames = []\<rparr>"

section \<open>Access to threads\<close>

definition with_thread :: "nat \<Rightarrow> 'cb kernel \<Rightarrow> (thread \<Rightarrow> 'b res) \<Rightarrow> 'b res" where
  "with_thread t k f = (case threads k t of None \<Rightarrow> Inl Dangling_pointer | Some th \<Rightarrow> f th)"

definition put_thread :: "nat \<Rightarrow> thread \<Rightarrow> 'cb kernel \<Rightarrow> 'cb kernel" where
  "put_thread t th k = k\<lparr>threads := (threads k)(t \<mapsto> th)\<rparr>"

definition push_frame :: "frame \<Rightarrow> 'cb kernel \<Rightarrow> 'cb kernel res" where
  "push_frame f k =
     with_thread (currentThread k) k (\<lambda>th.
     Inr (put_thread (currentThread k) (th\<lparr>frames := f # frames th\<rparr>) k))"

text \<open>\<^verbatim>\<open>Interrupt::SetLevel\<close> without the passing of time.\<close>

definition set_level :: "IntStatus \<Rightarrow> 'cb kernel \<Rightarrow> 'cb kernel res" where
  "set_level now k = ASSERT (now = IntOff \<or> \<not> inHandler k) (Inr (k\<lparr>level := now\<rparr>))"

section \<open>Scheduler\<close>

definition ReadyToRun :: "nat \<Rightarrow> 'cb kernel \<Rightarrow> 'cb kernel res" where
  "ReadyToRun t k =
     ASSERT (level k = IntOff)
    (with_thread t k (\<lambda>th.
     andThen (seq_Append (readyList k) t) (\<lambda>rl.
     Inr ((put_thread t (th\<lparr>t_status := READY\<rparr>) k)\<lparr>readyList := rl\<rparr>))))"

definition FindNextToRun :: "'cb kernel \<Rightarrow> (nat option \<times> 'cb kernel) res" where
  "FindNextToRun k =
     ASSERT (level k = IntOff)
    (if readyList k = [] then Inr (None, k)
     else andThen (seq_RemoveFront (readyList k)) (\<lambda>(t, rl). Inr (Some t, k\<lparr>readyList := rl\<rparr>)))"

definition delete_Thread :: "nat \<Rightarrow> 'cb kernel \<Rightarrow> 'cb kernel res" where
  "delete_Thread t k =
     with_thread t k (\<lambda>_. ASSERT (t \<noteq> currentThread k) (Inr (k\<lparr>threads := (threads k)(t := None)\<rparr>)))"

definition CheckToBeDestroyed :: "'cb kernel \<Rightarrow> 'cb kernel res" where
  "CheckToBeDestroyed k =
     (case toBeDestroyed k of
        None \<Rightarrow> Inr k
      | Some t \<Rightarrow> andThen (delete_Thread t k) (\<lambda>k. Inr (k\<lparr>toBeDestroyed := None\<rparr>)))"

definition CheckOverflow :: "thread \<Rightarrow> 'b res \<Rightarrow> 'b res" where
  "CheckOverflow th go =
     (case stack th of None \<Rightarrow> go | Some w \<Rightarrow> ASSERT (w = STACK_FENCEPOST) go)"

definition SaveUserState :: "machine \<Rightarrow> thread \<Rightarrow> thread res" where
  "SaveUserState m th =
     forRes (\<lambda>i th. andThen (ReadRegister m (int i)) (\<lambda>v. Inr (th\<lparr>userRegisters := (userRegisters th)(i := v)\<rparr>)))
       [0..<NumTotalRegs] th"

definition RestoreUserState :: "thread \<Rightarrow> machine \<Rightarrow> machine res" where
  "RestoreUserState th m =
     forRes (\<lambda>i m. WriteRegister m (int i) (userRegisters th i)) [0..<NumTotalRegs] m"

definition with_machine :: "'cb kernel \<Rightarrow> (machine \<Rightarrow> 'b res) \<Rightarrow> 'b res" where
  "with_machine k f = (case kmachine k of None \<Rightarrow> Inl Null_dereference | Some m \<Rightarrow> f m)"

definition with_space :: "nat \<Rightarrow> 'cb kernel \<Rightarrow> (addrspace \<Rightarrow> 'b res) \<Rightarrow> 'b res" where
  "with_space s k f = (case spaces k s of None \<Rightarrow> Inl Dangling_pointer | Some sp \<Rightarrow> f sp)"

text \<open>The first half of \<^verbatim>\<open>Run\<close>, executed by the thread that gives up the CPU.\<close>

definition Run_leave :: "nat \<Rightarrow> bool \<Rightarrow> 'cb kernel \<Rightarrow> 'cb kernel res" where
  "Run_leave nextThread finishing k =
     (let oldThread = currentThread k in
      ASSERT (level k = IntOff)
     (andThen (if finishing then ASSERT (toBeDestroyed k = None) (Inr (k\<lparr>toBeDestroyed := Some oldThread\<rparr>))
               else Inr k) (\<lambda>k.
      with_thread oldThread k (\<lambda>old.
      andThen (case space old of
                 None \<Rightarrow> Inr (k, old)
               | Some s \<Rightarrow> with_machine k (\<lambda>m. andThen (SaveUserState m old) (\<lambda>old.
                           with_space s k (\<lambda>sp. Inr (put_thread oldThread old k, old))))) (\<lambda>(k, old).
      CheckOverflow old
     (let k = k\<lparr>currentThread := nextThread\<rparr>
      in with_thread nextThread k (\<lambda>new. Inr (put_thread nextThread (new\<lparr>t_status := RUNNING\<rparr>) k))))))))"

text \<open>
  The second half, executed by the thread that gets the CPU back: it returns from its own call of
  \<^verbatim>\<open>SWITCH\<close>.  A thread that never ran starts in \<^verbatim>\<open>ThreadRoot\<close> instead.
\<close>

definition Run_resume :: "'cb kernel \<Rightarrow> 'cb kernel res" where
  "Run_resume k =
     (let me = currentThread k in
      ASSERT (level k = IntOff)
     (andThen (CheckToBeDestroyed k) (\<lambda>k.
      with_thread me k (\<lambda>th.
      case space th of
        None \<Rightarrow> Inr k
      | Some s \<Rightarrow> with_machine k (\<lambda>m. andThen (RestoreUserState th m) (\<lambda>m.
                  with_space s k (\<lambda>sp. Inr (k\<lparr>kmachine := Some (RestoreState sp m)\<rparr>))))))))"

definition starts_fresh :: "thread \<Rightarrow> bool" where
  "starts_fresh th \<longleftrightarrow> (case frames th of F_begin _ # _ \<Rightarrow> True | _ \<Rightarrow> False)"

definition Run :: "nat \<Rightarrow> bool \<Rightarrow> 'cb kernel \<Rightarrow> 'cb kernel res" where
  "Run nextThread finishing k =
     andThen (Run_leave nextThread finishing k) (\<lambda>k.
     with_thread nextThread k (\<lambda>new. if starts_fresh new then Inr k else Run_resume k))"

section \<open>Threads\<close>

text \<open>\<^verbatim>\<open>StackAllocate\<close> prepares the stack so that the first \<^verbatim>\<open>SWITCH\<close> enters \<^verbatim>\<open>ThreadRoot\<close>.\<close>

definition StackAllocate :: "nat \<Rightarrow> thread \<Rightarrow> thread" where
  "StackAllocate func th = th\<lparr>stack := Some STACK_FENCEPOST, frames := [F_begin func]\<rparr>"

definition Fork :: "nat \<Rightarrow> nat \<Rightarrow> 'cb kernel \<Rightarrow> 'cb kernel res" where
  "Fork t func k =
     with_thread t k (\<lambda>th.
     let k1 = put_thread t (StackAllocate func th) k; oldLevel = level k
     in andThen (set_level IntOff k1) (\<lambda>k.
        andThen (ReadyToRun t k) (\<lambda>k.
        set_level oldLevel k)))"

definition Begin :: "'cb kernel \<Rightarrow> 'cb kernel res" where
  "Begin k = andThen (CheckToBeDestroyed k) (\<lambda>k. set_level IntOn k)"

definition Yield :: "'cb kernel \<Rightarrow> 'cb kernel res" where
  "Yield k =
     (let oldLevel = level k in
      andThen (set_level IntOff k) (\<lambda>k.
      andThen (FindNextToRun k) (\<lambda>(nextThread, k).
      case nextThread of
        None \<Rightarrow> set_level oldLevel k
      | Some t \<Rightarrow>
          andThen (ReadyToRun (currentThread k) k) (\<lambda>k.
          andThen (push_frame (F_yield oldLevel) k) (\<lambda>k.
          Run t False k)))))"

text \<open>
  \<^verbatim>\<open>Sleep\<close>: the loop idles until a thread is ready; it ends with \<open>halted\<close> set when \<^verbatim>\<open>Idle\<close>
  finds nothing pending and halts the machine.
\<close>

partial_function (option) Sleep_loop ::
  "('cb \<Rightarrow> 'cb kernel \<Rightarrow> 'cb kernel res) \<Rightarrow> 'cb kernel \<Rightarrow> (nat option \<times> 'cb kernel) run" where
  "Sleep_loop call k =
     (case FindNextToRun k of
        Inl e \<Rightarrow> Some (Inl e)
      | Inr (Some t, k) \<Rightarrow> Some (Inr (Some t, k))
      | Inr (None, k) \<Rightarrow>
          (case Idle call k of
             None \<Rightarrow> None
           | Some (Inl e) \<Rightarrow> Some (Inl e)
           | Some (Inr (halt, k)) \<Rightarrow>
               if halt then Some (Inr (None, k\<lparr>halted := True\<rparr>)) else Sleep_loop call k))"

definition Sleep :: "('cb \<Rightarrow> 'cb kernel \<Rightarrow> 'cb kernel res) \<Rightarrow> bool \<Rightarrow> 'cb kernel \<Rightarrow> 'cb kernel run" where
  "Sleep call finishing k =
     assertR (level k = IntOff)
    (bindR (Some (with_thread (currentThread k) k (\<lambda>th.
              Inr (put_thread (currentThread k) (th\<lparr>t_status := BLOCKED\<rparr>) k)))) (\<lambda>k.
     bindR (Sleep_loop call k) (\<lambda>(nextThread, k).
     case nextThread of
       None \<Rightarrow> Some (Inr k)
     | Some t \<Rightarrow> Some (Run t finishing k))))"

definition Finish :: "('cb \<Rightarrow> 'cb kernel \<Rightarrow> 'cb kernel res) \<Rightarrow> 'cb kernel \<Rightarrow> 'cb kernel run" where
  "Finish call k = bindR (Some (set_level IntOff k)) (Sleep call True)"

end
