(* ===== verification/Synch.thy ===== *)
theory Synch
  imports Threads
begin

text \<open>
  Synchronisation: semaphores, locks and condition variables (\<^verbatim>\<open>threads/synch.h\<close>, \<^verbatim>\<open>synch.cc\<close>) on
  top of the scheduler of \<^verbatim>\<open>Threads\<close>, and the interleaving of threads as a step relation.

  An operation that may block pushes what is left of it as a frame of the current thread before the
  CPU changes hands; \<open>continue\<close> executes the innermost frame of whichever thread is current.
\<close>

section \<open>Semaphores\<close>

definition with_sem :: "nat \<Rightarrow> 'cb kernel \<Rightarrow> (semaphore \<Rightarrow> 'b res) \<Rightarrow> 'b res" where
  "with_sem s k f = (case sems k s of None \<Rightarrow> Inl Dangling_pointer | Some sm \<Rightarrow> f sm)"

definition put_sem :: "nat \<Rightarrow> semaphore \<Rightarrow> 'cb kernel \<Rightarrow> 'cb kernel" where
  "put_sem s sm k = k\<lparr>sems := (sems k)(s \<mapsto> sm)\<rparr>"

definition new_Semaphore :: "int \<Rightarrow> 'cb kernel \<Rightarrow> nat \<times> 'cb kernel" where
  "new_Semaphore initialValue k =
     (fresh_sem k,
      (put_sem (fresh_sem k) \<lparr>s_value = initialValue, s_queue = []\<rparr> k)\<lparr>fresh_sem := Suc (fresh_sem k)\<rparr>)"

definition delete_Semaphore :: "nat \<Rightarrow> 'cb kernel \<Rightarrow> 'cb kernel res" where
  "delete_Semaphore s k = with_sem s k (\<lambda>_. Inr (k\<lparr>sems := (sems k)(s := None)\<rparr>))"

text \<open>The loop of \<^verbatim>\<open>P\<close>, entered with interrupts off; \<open>oldLevel\<close> is the level to restore.\<close>

definition P_loop :: "('cb \<Rightarrow> 'cb kernel \<Rightarrow> 'cb kernel res) \<Rightarrow> nat \<Rightarrow> IntStatus \<Rightarrow> 'cb kernel \<Rightarrow> 'cb kernel run" where
  "P_loop call s oldLevel k =
     (case sems k s of
        None \<Rightarrow> Some (Inl Dangling_pointer)
      | Some sm \<Rightarrow>
          if s_value sm = 0 then
            bindR (Some (andThen (seq_Append (s_queue sm) (currentThread k)) (\<lambda>q.
                         push_frame (F_P s oldLevel) (put_sem s (sm\<lparr>s_queue := q\<rparr>) k))))
              (Sleep call False)
          else Some (set_level oldLevel (put_sem s (sm\<lparr>s_value := s_value sm - 1\<rparr>) k)))"

definition P :: "('cb \<Rightarrow> 'cb kernel \<Rightarrow> 'cb kernel res) \<Rightarrow> nat \<Rightarrow> 'cb kernel \<Rightarrow> 'cb kernel run" where
  "P call s k = bindR (Some (set_level IntOff k)) (P_loop call s (level k))"

definition V :: "nat \<Rightarrow> 'cb kernel \<Rightarrow> 'cb kernel res" where
  "V s k =
     (let oldLevel = level k in
      andThen (set_level IntOff k) (\<lambda>k.
      with_sem s k (\<lambda>sm.
      andThen (if s_queue sm = [] then Inr (sm, k)
               else andThen (seq_RemoveFront (s_queue sm)) (\<lambda>(t, q).
                    andThen (ReadyToRun t k) (\<lambda>k. Inr (sm\<lparr>s_queue := q\<rparr>, k)))) (\<lambda>(sm, k).
      set_level oldLevel (put_sem s (sm\<lparr>s_value := s_value sm + 1\<rparr>) k)))))"

section \<open>Locks\<close>

definition with_lock :: "nat \<Rightarrow> 'cb kernel \<Rightarrow> (lock \<Rightarrow> 'b res) \<Rightarrow> 'b res" where
  "with_lock l k f = (case locks k l of None \<Rightarrow> Inl Dangling_pointer | Some lk \<Rightarrow> f lk)"

definition put_lock :: "nat \<Rightarrow> lock \<Rightarrow> 'cb kernel \<Rightarrow> 'cb kernel" where
  "put_lock l lk k = k\<lparr>locks := (locks k)(l \<mapsto> lk)\<rparr>"

definition new_Lock :: "nat \<Rightarrow> 'cb kernel \<Rightarrow> 'cb kernel" where
  "new_Lock l k =
     (let (s, k) = new_Semaphore 1 k in put_lock l \<lparr>lk_semaphore = s, lockHolder = None\<rparr> k)"

definition Acquire :: "('cb \<Rightarrow> 'cb kernel \<Rightarrow> 'cb kernel res) \<Rightarrow> nat \<Rightarrow> 'cb kernel \<Rightarrow> 'cb kernel run" where
  "Acquire call l k =
     bindR (Some (with_lock l k (\<lambda>lk. andThen (push_frame (F_set_holder l) k) (\<lambda>k. Inr (lk_semaphore lk, k)))))
       (\<lambda>(s, k). P call s k)"

definition Release :: "nat \<Rightarrow> 'cb kernel \<Rightarrow> 'cb kernel res" where
  "Release l k = with_lock l k (\<lambda>lk. V (lk_semaphore lk) (put_lock l (lk\<lparr>lockHolder := None\<rparr>) k))"

section \<open>Condition variables\<close>

definition with_cond :: "nat \<Rightarrow> 'cb kernel \<Rightarrow> (condition \<Rightarrow> 'b res) \<Rightarrow> 'b res" where
  "with_cond c k f = (case conds k c of None \<Rightarrow> Inl Dangling_pointer | Some cd \<Rightarrow> f cd)"

definition put_cond :: "nat \<Rightarrow> condition \<Rightarrow> 'cb kernel \<Rightarrow> 'cb kernel" where
  "put_cond c cd k = k\<lparr>conds := (conds k)(c \<mapsto> cd)\<rparr>"

text \<open>
  \<^verbatim>\<open>Wait\<close>: allocate the waiter's semaphore, queue it, release the lock; \<^verbatim>\<open>P\<close> on the waiter,
  \<^verbatim>\<open>Acquire\<close> and \<^verbatim>\<open>delete\<close> are left as frames, since time passes between them.
\<close>

definition Wait :: "nat \<Rightarrow> nat \<Rightarrow> 'cb kernel \<Rightarrow> 'cb kernel res" where
  "Wait c conditionLock k =
     (let (waiter, k) = new_Semaphore 0 k in
      with_cond c k (\<lambda>cd.
      andThen (seq_Append (waitQueue cd) waiter) (\<lambda>q.
      andThen (push_frame (F_delete waiter) (put_cond c (cd\<lparr>waitQueue := q\<rparr>) k)) (\<lambda>k.
      andThen (push_frame (F_call_Acquire conditionLock) k) (\<lambda>k.
      andThen (push_frame (F_call_P waiter) k) (\<lambda>k.
      Release conditionLock k))))))"

definition Signal :: "nat \<Rightarrow> 'cb kernel \<Rightarrow> 'cb kernel res" where
  "Signal c k =
     with_cond c k (\<lambda>cd.
     if waitQueue cd = [] then Inr k
     else andThen (seq_RemoveFront (waitQueue cd)) (\<lambda>(waiter, q).
          V waiter (put_cond c (cd\<lparr>waitQueue := q\<rparr>) k)))"

section \<open>Going on with the innermost frame\<close>

definition pop_frame :: "'cb kernel \<Rightarrow> (frame option \<times> 'cb kernel) res" where
  "pop_frame k =
     with_thread (currentThread k) k (\<lambda>th.
     case frames th of
       [] \<Rightarrow> Inr (None, k)
     | f # fs \<Rightarrow> Inr (Some f, put_thread (currentThread k) (th\<lparr>frames := fs\<rparr>) k))"

definition Broadcast :: "nat \<Rightarrow> 'cb kernel \<Rightarrow> 'cb kernel res" where
  "Broadcast c k =
     with_cond c k (\<lambda>cd.
     if waitQueue cd = [] then Inr k
     else andThen (push_frame (F_broadcast c) k) (\<lambda>k. Signal c k))"

definition continue :: "('cb \<Rightarrow> 'cb kernel \<Rightarrow> 'cb kernel res) \<Rightarrow> 'cb kernel \<Rightarrow> 'cb kernel run" where
  "continue call k =
     bindR (Some (pop_frame k)) (\<lambda>(f, k).
     case f of
       None \<Rightarrow> Some (Inr k)
     | Some (F_begin _) \<Rightarrow> Some (Begin k)
     | Some (F_yield oldLevel) \<Rightarrow> Some (set_level oldLevel k)
     | Some (F_P s oldLevel) \<Rightarrow> P_loop call s oldLevel k
     | Some (F_call_P s) \<Rightarrow> P call s k
     | Some (F_call_Acquire l) \<Rightarrow> Acquire call l k
     | Some (F_set_holder l) \<Rightarrow>
         Some (with_lock l k (\<lambda>lk. Inr (put_lock l (lk\<lparr>lockHolder := Some (currentThread k)\<rparr>) k)))
     | Some (F_delete s) \<Rightarrow> Some (delete_Semaphore s k)
     | Some (F_broadcast c) \<Rightarrow> Some (Broadcast c k))"

section \<open>Interleavings\<close>

text \<open>
  The kernel calls of a running thread.  \<open>Do_fork t f\<close> is \<^verbatim>\<open>new Thread\<close> followed by \<^verbatim>\<open>Fork\<close>.
\<close>

datatype kcall =
    Do_P nat | Do_V nat | Do_Acquire nat | Do_Release nat | Do_Wait nat nat | Do_Signal nat
  | Do_Broadcast nat | Do_Yield | Do_Fork nat nat | Do_Finish

definition new_thread_in :: "nat \<Rightarrow> 'cb kernel \<Rightarrow> 'cb kernel" where
  "new_thread_in t k = put_thread t (new_Thread []) k"

fun perform :: "('cb \<Rightarrow> 'cb kernel \<Rightarrow> 'cb kernel res) \<Rightarrow> kcall \<Rightarrow> 'cb kernel \<Rightarrow> 'cb kernel run" where
  "perform call (Do_P s) k = P call s k"
| "perform call (Do_V s) k = Some (V s k)"
| "perform call (Do_Acquire l) k = Acquire call l k"
| "perform call (Do_Release l) k = Some (Release l k)"
| "perform call (Do_Wait c l) k = Some (Wait c l k)"
| "perform call (Do_Signal c) k = Some (Signal c k)"
| "perform call (Do_Broadcast c) k = Some (Broadcast c k)"
| "perform call Do_Yield k = Some (Yield k)"
| "perform call (Do_Fork t f) k = Some (Fork t f (new_thread_in t k))"
| "perform call Do_Finish k = Finish call k"

text \<open>
  What the allocator and the callers promise: \<^verbatim>\<open>new\<close> returns an unused object, and a semaphore is
  deleted only when no thread waits on it (the comment of \<^verbatim>\<open>Semaphore::~Semaphore\<close>).
\<close>

fun allocates_fresh :: "kcall \<Rightarrow> 'cb kernel \<Rightarrow> bool" where
  "allocates_fresh (Do_Fork t f) k \<longleftrightarrow> threads k t = None"
| "allocates_fresh (Do_Wait c l) k \<longleftrightarrow> sems k (fresh_sem k) = None"
| "allocates_fresh _ k \<longleftrightarrow> True"

definition deletes_unused :: "frame list \<Rightarrow> 'cb kernel \<Rightarrow> bool" where
  "deletes_unused fs k \<longleftrightarrow>
     (case fs of F_delete s # _ \<Rightarrow> (case sems k s of Some sm \<Rightarrow> s_queue sm = [] | None \<Rightarrow> True) | _ \<Rightarrow> True)"

text \<open>
  One step of the machine: the current thread goes on inside a kernel call, a thread outside the
  kernel makes a call, or, with interrupts on, a time slice ends (\<^verbatim>\<open>OneTick\<close> calls \<^verbatim>\<open>Yield\<close>).
\<close>

inductive kstep :: "('cb \<Rightarrow> 'cb kernel \<Rightarrow> 'cb kernel res) \<Rightarrow> 'cb kernel \<Rightarrow> 'cb kernel \<Rightarrow> bool"
  for call where
  kcontinue: "\<not> halted k \<Longrightarrow> threads k (currentThread k) = Some th \<Longrightarrow> frames th \<noteq> [] \<Longrightarrow>
     deletes_unused (frames th) k \<Longrightarrow> continue call k = Some (Inr k') \<Longrightarrow> kstep call k k'"
| kcall: "\<not> halted k \<Longrightarrow> threads k (currentThread k) = Some th \<Longrightarrow> frames th = [] \<Longrightarrow>
     allocates_fresh c k \<Longrightarrow> perform call c k = Some (Inr k') \<Longrightarrow> kstep call k k'"
| ktick: "\<not> halted k \<Longrightarrow> level k = IntOn \<Longrightarrow> Yield k = Inr k' \<Longrightarrow> kstep call k k'"


section \<open>Invariant: where a thread is\<close>

definition st_of :: "'cb kernel \<Rightarrow> nat \<Rightarrow> ThreadStatus option" where
  "st_of k t = map_option t_status (threads k t)"

definition fr_of :: "'cb kernel \<Rightarrow> nat \<Rightarrow> frame list option" where
  "fr_of k t = map_option frames (threads k t)"

definition queued :: "'cb kernel \<Rightarrow> nat \<Rightarrow> bool" where
  "queued k t \<longleftrightarrow> (\<exists>s sm. sems k s = Some sm \<and> t \<in> set (s_queue sm))"

definition sems_ok :: "'cb kernel \<Rightarrow> bool" where
  "sems_ok k \<longleftrightarrow>
     (\<forall>s sm. sems k s = Some sm \<longrightarrow> 0 \<le> s_value sm \<and> distinct (s_queue sm) \<and>
        (\<forall>t\<in>set (s_queue sm). st_of k t = Some BLOCKED \<and> (\<exists>old fs. fr_of k t = Some (F_P s old # fs))))"

definition wf_gen :: "nat option \<Rightarrow> nat option \<Rightarrow> nat option \<Rightarrow> 'cb kernel \<Rightarrow> bool" where
  "wf_gen r b w k \<longleftrightarrow>
     (\<forall>t. st_of k t = Some RUNNING \<longleftrightarrow> r = Some t) \<and>
     distinct (readyList k) \<and>
     (\<forall>t. st_of k t = Some READY \<longleftrightarrow> t \<in> set (readyList k) \<or> w = Some t) \<and>
     (\<forall>t. w = Some t \<longrightarrow> t \<notin> set (readyList k)) \<and>
     sems_ok k \<and>
     (\<forall>d. toBeDestroyed k = Some d \<or> b = Some d \<longrightarrow> st_of k d = Some BLOCKED \<and> \<not> queued k d) \<and>
     (\<forall>t. st_of k t = Some BLOCKED \<longrightarrow> queued k t \<or> toBeDestroyed k = Some t \<or> b = Some t)"

abbreviation wf_kernel :: "'cb kernel \<Rightarrow> bool" where
  "wf_kernel k \<equiv> wf_gen (Some (currentThread k)) None None k"

lemma views_put_thread [simp]:
  "st_of (put_thread t th k) = (st_of k)(t := Some (t_status th))"
  "fr_of (put_thread t th k) = (fr_of k)(t := Some (frames th))"
  "queued (put_thread t th k) = queued k" "readyList (put_thread t th k) = readyList k"
  "sems (put_thread t th k) = sems k" "toBeDestroyed (put_thread t th k) = toBeDestroyed k"
  "currentThread (put_thread t th k) = currentThread k" "level (put_thread t th k) = level k"
  "threads (put_thread t th k) = (threads k)(t \<mapsto> th)" "halted (put_thread t th k) = halted k"
  by (auto simp: put_thread_def st_of_def fr_of_def queued_def fun_eq_iff)

text \<open>The invariant only looks at the threads, the queues and \<^verbatim>\<open>toBeDestroyed\<close>.\<close>

lemma wf_gen_cong:
  assumes "threads k' = threads k" "readyList k' = readyList k" "sems k' = sems k"
    "toBeDestroyed k' = toBeDestroyed k"
  shows "wf_gen r b w k' = wf_gen r b w k"
proof -
  have "st_of k' = st_of k" "fr_of k' = fr_of k" "queued k' = queued k"
    using assms by (auto simp: st_of_def fr_of_def queued_def fun_eq_iff)
  then show ?thesis using assms by (simp add: wf_gen_def sems_ok_def)
qed

definition same_threads :: "'cb kernel \<Rightarrow> 'cb kernel \<Rightarrow> bool" where
  "same_threads k k' \<longleftrightarrow> threads k' = threads k \<and> readyList k' = readyList k \<and> sems k' = sems k \<and>
     toBeDestroyed k' = toBeDestroyed k \<and> currentThread k' = currentThread k"

lemma wf_gen_hw [simp]:
  "wf_gen r b w (k\<lparr>level := x1\<rparr>) = wf_gen r b w k" "wf_gen r b w (k\<lparr>mstatus := x2\<rparr>) = wf_gen r b w k"
  "wf_gen r b w (k\<lparr>stats := x3\<rparr>) = wf_gen r b w k" "wf_gen r b w (k\<lparr>kmachine := x4\<rparr>) = wf_gen r b w k"
  "wf_gen r b w (k\<lparr>pending := x5\<rparr>) = wf_gen r b w k" "wf_gen r b w (k\<lparr>inHandler := x6\<rparr>) = wf_gen r b w k"
  "wf_gen r b w (k\<lparr>halted := x7\<rparr>) = wf_gen r b w k" "wf_gen r b w (k\<lparr>currentThread := x8\<rparr>) = wf_gen r b w k"
  "wf_gen r b w (k\<lparr>yieldOnReturn := x9\<rparr>) = wf_gen r b w k" "wf_gen r b w (k\<lparr>locks := x10\<rparr>) = wf_gen r b w k"
  "wf_gen r b w (k\<lparr>conds := x11\<rparr>) = wf_gen r b w k" "wf_gen r b w (k\<lparr>fresh_sem := x12\<rparr>) = wf_gen r b w k"
  by (rule wf_gen_cong; simp)+

lemma set_level_Inr: "set_level l k = Inr k' \<longleftrightarrow> k' = k\<lparr>level := l\<rparr> \<and> (l = IntOff \<or> \<not> inHandler k)"
  by (auto simp: set_level_def res_simps)

lemma with_thread_Inr: "with_thread t k f = Inr y \<longleftrightarrow> (\<exists>th. threads k t = Some th \<and> f th = Inr y)"
  by (auto simp: with_thread_def split: option.splits)

lemma with_sem_Inr: "with_sem s k f = Inr y \<longleftrightarrow> (\<exists>sm. sems k s = Some sm \<and> f sm = Inr y)"
  by (auto simp: with_sem_def split: option.splits)

lemma with_lock_Inr: "with_lock s k f = Inr y \<longleftrightarrow> (\<exists>sm. locks k s = Some sm \<and> f sm = Inr y)"
  by (auto simp: with_lock_def split: option.splits)

lemma with_cond_Inr: "with_cond s k f = Inr y \<longleftrightarrow> (\<exists>sm. conds k s = Some sm \<and> f sm = Inr y)"
  by (auto simp: with_cond_def split: option.splits)

lemma with_machine_Inr: "with_machine k f = Inr y \<longleftrightarrow> (\<exists>m. kmachine k = Some m \<and> f m = Inr y)"
  by (auto simp: with_machine_def split: option.splits)

lemma with_space_Inr: "with_space s k f = Inr y \<longleftrightarrow> (\<exists>sp. spaces k s = Some sp \<and> f sp = Inr y)"
  by (auto simp: with_space_def split: option.splits)

lemmas kernel_Inr = res_simps set_level_Inr with_thread_Inr with_sem_Inr with_lock_Inr with_cond_Inr
  with_machine_Inr with_space_Inr seq_Append_def

text \<open>Changing a thread without touching its status or its frames.\<close>

lemma wf_gen_put_same:
  assumes "threads k t = Some th" "t_status th' = t_status th" "frames th' = frames th"
  shows "wf_gen r b w (put_thread t th' k) = wf_gen r b w k"
proof -
  have "(st_of k)(t := Some (t_status th')) = st_of k" "(fr_of k)(t := Some (frames th')) = fr_of k"
    using assms by (auto simp: st_of_def fr_of_def fun_eq_iff)
  then show ?thesis by (simp add: wf_gen_def sems_ok_def)
qed

lemma wf_gen_put_frames:
  assumes "threads k t = Some th" "t_status th' = t_status th" "t_status th \<noteq> BLOCKED"
  shows "wf_gen r b w (put_thread t th' k) = wf_gen r b w k"
proof -
  have "(st_of k)(t := Some (t_status th')) = st_of k" using assms by (auto simp: st_of_def fun_eq_iff)
  moreover have "st_of k t \<noteq> Some BLOCKED" using assms by (simp add: st_of_def)
  ultimately show ?thesis by (auto simp: wf_gen_def sems_ok_def)
qed

lemma ReadyToRun_Inr:
  "ReadyToRun t k = Inr k' \<longleftrightarrow> level k = IntOff \<and> (\<exists>th. threads k t = Some th \<and> t \<notin> set (readyList k) \<and>
     k' = (put_thread t (th\<lparr>t_status := READY\<rparr>) k)\<lparr>readyList := readyList k @ [t]\<rparr>)"
  by (auto simp: ReadyToRun_def kernel_Inr)

lemma FindNextToRun_Inr:
  "FindNextToRun k = Inr (n, k') \<longleftrightarrow> level k = IntOff \<and>
     (case readyList k of [] \<Rightarrow> n = None \<and> k' = k | t # rl \<Rightarrow> n = Some t \<and> k' = k\<lparr>readyList := rl\<rparr>)"
  by (auto simp: FindNextToRun_def kernel_Inr seq_RemoveFront_def split: list.splits)

lemma wf_gen_pop:
  assumes "wf_gen r b None k" "readyList k = t # rl"
  shows "wf_gen r b (Some t) (k\<lparr>readyList := rl\<rparr>)"
proof -
  let ?k = "k\<lparr>readyList := rl\<rparr>"
  have "st_of ?k = st_of k" "fr_of ?k = fr_of k" "queued ?k = queued k"
    by (auto simp: st_of_def fr_of_def queued_def fun_eq_iff)
  then show ?thesis using assms by (auto simp: wf_gen_def sems_ok_def)
qed

lemma wf_gen_status:
  assumes "wf_gen r b w k" "st_of k t = Some x"
  shows "r = Some t \<longleftrightarrow> x = RUNNING" "t \<in> set (readyList k) \<or> w = Some t \<longleftrightarrow> x = READY"
    "x \<noteq> BLOCKED \<Longrightarrow> \<not> queued k t"
proof -
  have "st_of k t = Some RUNNING \<longleftrightarrow> r = Some t" "st_of k t = Some READY \<longleftrightarrow> t \<in> set (readyList k) \<or> w = Some t"
    using assms(1) unfolding wf_gen_def by blast+
  with assms(2) show "r = Some t \<longleftrightarrow> x = RUNNING" "t \<in> set (readyList k) \<or> w = Some t \<longleftrightarrow> x = READY" by auto
  show "x \<noteq> BLOCKED \<Longrightarrow> \<not> queued k t" using assms by (force simp: wf_gen_def sems_ok_def queued_def)
qed

lemma CheckToBeDestroyed_wf:
  assumes "wf_gen r b w k" "b = None" "CheckToBeDestroyed k = Inr k'"
  shows "wf_gen r b w k' \<and> currentThread k' = currentThread k \<and> halted k' = halted k \<and> level k' = level k \<and>
    toBeDestroyed k' = None \<and> (\<forall>t. Some t \<noteq> toBeDestroyed k \<longrightarrow> threads k' t = threads k t) \<and>
    sems k' = sems k \<and> spaces k' = spaces k \<and> kmachine k' = kmachine k \<and> readyList k' = readyList k"
proof (cases "toBeDestroyed k")
  case None
  with assms show ?thesis by (simp add: CheckToBeDestroyed_def)
next
  case (Some d)
  then have k': "k' = k\<lparr>threads := (threads k)(d := None), toBeDestroyed := None\<rparr>"
    using assms(3) by (auto simp: CheckToBeDestroyed_def delete_Thread_def kernel_Inr)
  have v: "st_of k' = (st_of k)(d := None)" "fr_of k' = (fr_of k)(d := None)" "queued k' = queued k"
    by (auto simp: k' st_of_def fr_of_def queued_def fun_eq_iff)
  have d: "st_of k d = Some BLOCKED" "\<not> queued k d" using assms(1) Some by (auto simp: wf_gen_def)
  have "sems_ok k'"
    using assms(1) d(2) v by (auto simp: wf_gen_def sems_ok_def k' queued_def)
  moreover have "r \<noteq> Some d" "d \<notin> set (readyList k)" "w \<noteq> Some d"
    using wf_gen_status [OF assms(1) d(1)] by auto
  ultimately have "wf_gen r b w k'"
    using assms(1,2) d v Some unfolding wf_gen_def by (auto simp: k')
  with Some k' show ?thesis by auto
qed


text \<open>Saving and restoring the user registers leave status and frames alone.\<close>

lemma SaveUserState_total:
  "\<exists>f. SaveUserState m th = Inr (th\<lparr>userRegisters := f\<rparr>) \<and> (\<forall>r<40. f r = registers m r)"
proof -
  have "\<exists>th'. forRes (\<lambda>i th. andThen (ReadRegister m (int i)) (\<lambda>v. Inr (th\<lparr>userRegisters := (userRegisters th)(i := v)\<rparr>)))
       [0..<40] th = Inr th' \<and> (\<exists>f. th' = th\<lparr>userRegisters := f\<rparr> \<and> (\<forall>r\<in>set [0..<40]. f r = registers m r))"
  proof (rule forRes_rule [where P = "\<lambda>pre th'. \<exists>f. th' = th\<lparr>userRegisters := f\<rparr> \<and> (\<forall>r\<in>set pre. f r = registers m r)"])
    show "\<exists>f. th = th\<lparr>userRegisters := f\<rparr> \<and> (\<forall>r\<in>set []. f r = registers m r)"
      by (rule exI [of _ "userRegisters th"]) simp
  next
    fix pre i post s
    assume sp: "[0..<40] = pre @ i # post" and "\<exists>f. s = th\<lparr>userRegisters := f\<rparr> \<and> (\<forall>r\<in>set pre. f r = registers m r)"
    then obtain f where f: "s = th\<lparr>userRegisters := f\<rparr>" "\<forall>r\<in>set pre. f r = registers m r" by blast
    have "i < 40" using arg_cong [OF sp, of set] by auto
    then show "\<exists>s'. andThen (ReadRegister m (int i)) (\<lambda>v. Inr (s\<lparr>userRegisters := (userRegisters s)(i := v)\<rparr>)) = Inr s' \<and>
        (\<exists>f. s' = th\<lparr>userRegisters := f\<rparr> \<and> (\<forall>r\<in>set (pre @ [i]). f r = registers m r))"
      using f by (auto simp: ReadRegister_def intro!: exI [of _ "f(i := registers m i)"])
  qed
  then show ?thesis by (auto simp: SaveUserState_def)
qed

lemma SaveUserState_Inr:
  "SaveUserState m th = Inr th' \<Longrightarrow> \<exists>f. th' = th\<lparr>userRegisters := f\<rparr> \<and> (\<forall>r<40. f r = registers m r)"
  using SaveUserState_total [of m th] by auto

lemma RestoreUserState_eq:
  "RestoreUserState th m = Inr (m\<lparr>registers := (\<lambda>r. if r < 40 then userRegisters th r else registers m r)\<rparr>)"
proof -
  have "n \<le> 40 \<Longrightarrow> forRes (\<lambda>i m. WriteRegister m (int i) (userRegisters th i)) [0..<n] m =
      Inr (m\<lparr>registers := (\<lambda>r. if r < n then userRegisters th r else registers m r)\<rparr>)" for n
  proof (induction n)
    case (Suc n)
    have "(\<lambda>r. if r < n then userRegisters th r else registers m r)(n := userRegisters th n) =
        (\<lambda>r. if r < Suc n then userRegisters th r else registers m r)" by (auto simp: less_Suc_eq)
    with Suc show ?case by (simp add: forRes_append WriteRegister_def)
  qed simp
  then show ?thesis by (simp add: RestoreUserState_def)
qed

text \<open>
  The dispatch: the thread \<open>t\<close> was taken off the ready list; the previous thread is already
  blocked or ready, or it is finishing and is marked for destruction.
\<close>

lemma Run_leave_wf:
  assumes wf: "wf_gen None b (Some t) k" and b: "b = (if fin then Some (currentThread k) else None)"
    and run: "Run_leave t fin k = Inr k'"
  shows "wf_gen (Some t) None None k' \<and> currentThread k' = t \<and> halted k' = halted k \<and> level k' = IntOff"
proof -
  have st: "st_of k t = Some READY" "t \<notin> set (readyList k)" using wf by (auto simp: wf_gen_def)
  define k1 where "k1 = (if fin then k\<lparr>toBeDestroyed := Some (currentThread k)\<rparr> else k)"
  have v1: "st_of k1 = st_of k" "fr_of k1 = fr_of k" "queued k1 = queued k" "readyList k1 = readyList k"
    "sems k1 = sems k" "currentThread k1 = currentThread k" "threads k1 = threads k"
    "level k1 = level k" "halted k1 = halted k"
    by (auto simp: k1_def st_of_def fr_of_def queued_def fun_eq_iff)
  have "fin \<Longrightarrow> toBeDestroyed k = None"
    using run by (auto simp: Run_leave_def kernel_Inr Let_def)
  then have wf1: "wf_gen None None (Some t) k1"
    using wf b v1 by (auto simp: wf_gen_def sems_ok_def k1_def)
  have lev: "level k = IntOff" using run by (auto simp: Run_leave_def kernel_Inr Let_def)
  from run lev obtain old k2 old2 where old: "threads k1 (currentThread k) = Some old"
    and mid: "(case space old of None \<Rightarrow> Inr (k1, old)
               | Some s \<Rightarrow> with_machine k1 (\<lambda>m. andThen (SaveUserState m old) (\<lambda>old.
                   with_space s k1 (\<lambda>sp. Inr (put_thread (currentThread k) old k1, old))))) = Inr (k2, old2)"
    and fin: "CheckOverflow old2 (let k = k2\<lparr>currentThread := t\<rparr>
       in with_thread t k (\<lambda>new. Inr (put_thread t (new\<lparr>t_status := RUNNING\<rparr>) k))) = Inr k'"
    unfolding k1_def by (cases fin) (auto simp: Run_leave_def kernel_Inr Let_def)
  have k2: "wf_gen None None (Some t) k2 \<and> level k2 = level k \<and> halted k2 = halted k \<and> st_of k2 = st_of k1"
  proof (cases "space old")
    case None
    with mid wf1 v1 show ?thesis by auto
  next
    case (Some s)
    with mid obtain m old' where o: "SaveUserState m old = Inr old'" "k2 = put_thread (currentThread k) old' k1"
      by (auto simp: kernel_Inr)
    with SaveUserState_Inr [OF o(1)] have s: "t_status old' = t_status old" "frames old' = frames old" by auto
    then have "st_of k2 = st_of k1" using o(2) old by (auto simp: st_of_def fun_eq_iff)
    with o(2) wf_gen_put_same [OF old s] wf1 v1 show ?thesis by auto
  qed
  obtain new where new: "threads k2 t = Some new"
    "k' = put_thread t (new\<lparr>t_status := RUNNING\<rparr>) (k2\<lparr>currentThread := t\<rparr>)"
    using fin by (auto simp: CheckOverflow_def kernel_Inr Let_def split: option.splits)
  have s2: "t \<notin> set (readyList k2)" "st_of k2 t = Some READY" "\<not> queued k2 t"
    using k2 st(1) v1(1) wf_gen_status(3) [of None None "Some t" k2 t READY] by (auto simp: wf_gen_def)
  have v: "st_of k' = (st_of k2)(t := Some RUNNING)" "fr_of k' = fr_of k2" "queued k' = queued k2"
    "readyList k' = readyList k2" "sems k' = sems k2" "toBeDestroyed k' = toBeDestroyed k2"
    using new by (auto simp: st_of_def fr_of_def queued_def fun_eq_iff)
  have "sems_ok k'" using k2 s2(3) v by (auto simp: wf_gen_def sems_ok_def queued_def)
  moreover have "toBeDestroyed k2 \<noteq> Some t" using k2 s2(2) by (auto simp: wf_gen_def)
  ultimately have "wf_gen (Some t) None None k'"
    using k2 s2 v unfolding wf_gen_def by auto
  with new k2 lev show ?thesis by simp
qed


lemma Run_resume_wf:
  assumes wf: "wf_kernel k" and run: "Run_resume k = Inr k'"
  shows "wf_kernel k' \<and> currentThread k' = currentThread k \<and> halted k' = halted k"
proof -
  obtain k1 where k1: "CheckToBeDestroyed k = Inr k1"
    using run by (auto simp: Run_resume_def kernel_Inr Let_def)
  note c = CheckToBeDestroyed_wf [OF wf refl k1]
  have "\<exists>x. k' = k1\<lparr>kmachine := x\<rparr>"
    using run k1 by (auto simp: Run_resume_def kernel_Inr Let_def split: option.splits intro: exI [of _ "kmachine k1"])
  with c show ?thesis by auto
qed

lemma Run_wf:
  assumes "wf_gen None b (Some t) k" "b = (if fin then Some (currentThread k) else None)"
    "Run t fin k = Inr k'"
  shows "wf_kernel k' \<and> currentThread k' = t \<and> halted k' = halted k"
proof -
  obtain k1 new where k1: "Run_leave t fin k = Inr k1" "threads k1 t = Some new"
    "(if starts_fresh new then Inr k1 else Run_resume k1) = Inr k'"
    using assms(3) by (auto simp: Run_def kernel_Inr)
  note l = Run_leave_wf [OF assms(1,2) k1(1)]
  show ?thesis
  proof (cases "starts_fresh new")
    case True
    with k1(3) l show ?thesis by simp
  next
    case False
    with k1(3) l Run_resume_wf [of k1 k'] show ?thesis by auto
  qed
qed

lemma wf_current:
  assumes "wf_kernel k"
  obtains th where "threads k (currentThread k) = Some th" "t_status th = RUNNING"
    "currentThread k \<notin> set (readyList k)" "\<not> queued k (currentThread k)" "toBeDestroyed k \<noteq> Some (currentThread k)"
proof -
  have s: "st_of k (currentThread k) = Some RUNNING" using assms by (auto simp: wf_gen_def)
  then obtain th where "threads k (currentThread k) = Some th" "t_status th = RUNNING" by (auto simp: st_of_def)
  with that wf_gen_status [OF assms s] assms s show thesis by (fastforce simp: wf_gen_def)
qed

text \<open>The state in which \<^verbatim>\<open>Yield\<close> hands over: the current thread at the end of the ready list.\<close>

lemma wf_gen_yield:
  assumes wf: "wf_kernel k" and r: "readyList k = t # rl" and th: "threads k (currentThread k) = Some th"
  shows "wf_gen None None (Some t) (put_thread (currentThread k)
    (th\<lparr>t_status := READY, frames := F_yield (level k) # frames th\<rparr>)
    (k\<lparr>level := IntOff, readyList := rl @ [currentThread k]\<rparr>))" (is "wf_gen _ _ _ ?k")
proof -
  let ?c = "currentThread k"
  have cur: "?c \<notin> set (readyList k)" "\<not> queued k ?c" "toBeDestroyed k \<noteq> Some ?c"
    by (rule wf_current [OF wf], simp)+
  have wf0: "wf_gen (Some ?c) None (Some t) (k\<lparr>readyList := rl\<rparr>)" by (rule wf_gen_pop [OF wf r])
  have v: "st_of ?k = (st_of k)(?c := Some READY)"
    "fr_of ?k = (fr_of k)(?c := Some (F_yield (level k) # frames th))" "queued ?k = queued k"
    by (auto simp: st_of_def fr_of_def queued_def fun_eq_iff)
  have v0: "st_of (k\<lparr>readyList := rl\<rparr>) = st_of k" "fr_of (k\<lparr>readyList := rl\<rparr>) = fr_of k"
    "queued (k\<lparr>readyList := rl\<rparr>) = queued k"
    by (auto simp: st_of_def fr_of_def queued_def fun_eq_iff)
  have "t \<noteq> ?c" "?c \<notin> set rl" using cur(1) r by auto
  moreover have "sems_ok ?k"
    using wf0 cur(2) unfolding wf_gen_def sems_ok_def v v0 by (auto simp: queued_def)
  ultimately show ?thesis
    using wf0 cur unfolding wf_gen_def v v0 by auto
qed

lemma Yield_wf:
  assumes wf: "wf_kernel k" and y: "Yield k = Inr k'"
  shows "wf_kernel k' \<and> halted k' = halted k"
proof -
  obtain th where th: "threads k (currentThread k) = Some th" by (rule wf_current [OF wf])
  show ?thesis
  proof (cases "readyList k")
    case Nil
    with y wf show ?thesis by (auto simp: Yield_def kernel_Inr FindNextToRun_def Let_def)
  next
    case (Cons t rl)
    have run: "Run t False (put_thread (currentThread k)
        (th\<lparr>t_status := READY, frames := F_yield (level k) # frames th\<rparr>)
        (k\<lparr>level := IntOff, readyList := rl @ [currentThread k]\<rparr>)) = Inr k'"
      using y Cons th by (auto simp: Yield_def kernel_Inr FindNextToRun_def Let_def seq_RemoveFront_def
        ReadyToRun_def push_frame_def put_thread_def)
    from Run_wf [OF wf_gen_yield [OF wf Cons th] _ run] show ?thesis by auto
  qed
qed

lemma views_put_sem [simp]:
  "st_of (put_sem s sm k) = st_of k" "fr_of (put_sem s sm k) = fr_of k" "readyList (put_sem s sm k) = readyList k"
  "sems (put_sem s sm k) = (sems k)(s \<mapsto> sm)" "toBeDestroyed (put_sem s sm k) = toBeDestroyed k"
  "currentThread (put_sem s sm k) = currentThread k" "level (put_sem s sm k) = level k"
  "threads (put_sem s sm k) = threads k" "halted (put_sem s sm k) = halted k"
  by (auto simp: put_sem_def st_of_def fr_of_def fun_eq_iff)

lemma queuedI: "sems k s = Some sm \<Longrightarrow> t \<in> set (s_queue sm) \<Longrightarrow> queued k t"
  by (auto simp: queued_def)

lemma sems_okD:
  assumes "sems_ok k" "sems k s = Some sm"
  shows "0 \<le> s_value sm" "distinct (s_queue sm)"
    "t \<in> set (s_queue sm) \<Longrightarrow> st_of k t = Some BLOCKED"
    "t \<in> set (s_queue sm) \<Longrightarrow> \<exists>old fs. fr_of k t = Some (F_P s old # fs)"
  using assms unfolding sems_ok_def by blast+

lemma one_queue:
  assumes "sems_ok k" "sems k s = Some sm" "t \<in> set (s_queue sm)" "sems k s' = Some sm'" "t \<in> set (s_queue sm')"
  shows "s' = s"
  using sems_okD(4) [OF assms(1,2,3)] sems_okD(4) [OF assms(1,4,5)] by auto

lemma queued_put_sem:
  assumes "sems k s = Some sm0" "sems_ok k"
  shows "queued (put_sem s sm k) t \<longleftrightarrow> (queued k t \<and> t \<notin> set (s_queue sm0)) \<or> t \<in> set (s_queue sm)"
proof
  assume "queued (put_sem s sm k) t"
  then obtain s' sm' where q: "((sems k)(s \<mapsto> sm)) s' = Some sm'" "t \<in> set (s_queue sm')"
    by (auto simp: queued_def)
  show "(queued k t \<and> t \<notin> set (s_queue sm0)) \<or> t \<in> set (s_queue sm)"
  proof (cases "s' = s")
    case False
    with q have "sems k s' = Some sm'" by simp
    with q(2) one_queue [OF assms(2) this q(2) assms(1)] False show ?thesis by (auto intro: queuedI)
  qed (use q in auto)
next
  assume "(queued k t \<and> t \<notin> set (s_queue sm0)) \<or> t \<in> set (s_queue sm)"
  then show "queued (put_sem s sm k) t"
  proof
    assume "queued k t \<and> t \<notin> set (s_queue sm0)"
    then obtain s' sm' where "sems k s' = Some sm'" "t \<in> set (s_queue sm')" "s' \<noteq> s"
      using assms(1) unfolding queued_def by (metis option.inject)
    then show ?thesis by (intro queuedI [of _ s' sm']) auto
  qed (auto intro: queuedI [of _ s sm])
qed

lemma wf_gen_value:
  assumes "wf_gen r b w k" "sems k s = Some sm" "0 \<le> v"
  shows "wf_gen r b w (put_sem s (sm\<lparr>s_value := v\<rparr>) k)"
proof -
  have so: "sems_ok k" using assms(1) by (simp add: wf_gen_def)
  have "queued (put_sem s (sm\<lparr>s_value := v\<rparr>) k) = queued k"
    using queued_put_sem [OF assms(2) so, of "sm\<lparr>s_value := v\<rparr>"] assms(2) by (auto simp: fun_eq_iff intro: queuedI)
  then show ?thesis using assms by (auto simp: wf_gen_def sems_ok_def split: if_splits)
qed

text \<open>Waking the first waiter of a semaphore.\<close>

lemma wf_gen_wake:
  assumes wf: "wf_gen r b None k" and s: "sems k s = Some sm" "s_queue sm = t # q"
    and r: "ReadyToRun t k = Inr k'"
  shows "wf_gen r b None (put_sem s (sm\<lparr>s_queue := q\<rparr>) k') \<and> currentThread k' = currentThread k \<and>
    halted k' = halted k \<and> sems k' = sems k"
proof -
  obtain th where th: "threads k t = Some th" "t \<notin> set (readyList k)"
    "k' = (put_thread t (th\<lparr>t_status := READY\<rparr>) k)\<lparr>readyList := readyList k @ [t]\<rparr>"
    using r by (auto simp: ReadyToRun_Inr)
  have so: "sems_ok k" using wf by (simp add: wf_gen_def)
  with s have t: "st_of k t = Some BLOCKED" "t \<notin> set q" "\<exists>old fs. fr_of k t = Some (F_P s old # fs)" "queued k t"
    by (force simp: sems_ok_def queued_def)+
  let ?k = "put_sem s (sm\<lparr>s_queue := q\<rparr>) k'"
  have v: "st_of ?k = (st_of k)(t := Some READY)" "fr_of ?k = fr_of k" "readyList ?k = readyList k @ [t]"
    "toBeDestroyed ?k = toBeDestroyed k" "sems ?k = (sems k)(s \<mapsto> sm\<lparr>s_queue := q\<rparr>)"
    using th by (auto simp: st_of_def fr_of_def fun_eq_iff)
  have q: "queued ?k x \<longleftrightarrow> queued k x \<and> x \<noteq> t" for x
  proof -
    have "queued ?k x = queued (put_sem s (sm\<lparr>s_queue := q\<rparr>) k) x" by (simp add: queued_def th(3))
    also have "\<dots> \<longleftrightarrow> queued k x \<and> x \<noteq> t"
      using queued_put_sem [OF s(1) so, of "sm\<lparr>s_queue := q\<rparr>" x] s t(2) queuedI [OF s(1), of x] by auto
    finally show ?thesis .
  qed
  have "sems_ok ?k"
    unfolding sems_ok_def v
  proof (intro allI impI)
    fix s' sm' assume s': "((sems k)(s \<mapsto> sm\<lparr>s_queue := q\<rparr>)) s' = Some sm'"
    have nt: "t \<notin> set (s_queue sm')"
    proof (cases "s' = s")
      case True with s' t(2) show ?thesis by auto
    next
      case False with s' so t(3) show ?thesis unfolding sems_ok_def by fastforce
    qed
    have "0 \<le> s_value sm' \<and> distinct (s_queue sm') \<and> (\<forall>x\<in>set (s_queue sm'). st_of k x = Some BLOCKED \<and>
        (\<exists>old fs. fr_of k x = Some (F_P s' old # fs)))"
    proof (cases "s' = s")
      case True
      with s' s sems_okD [OF so s(1)] show ?thesis by auto
    next
      case False
      with s' have "sems k s' = Some sm'" by simp
      with sems_okD [OF so this] show ?thesis by blast
    qed
    with nt show "0 \<le> s_value sm' \<and> distinct (s_queue sm') \<and>
        (\<forall>x\<in>set (s_queue sm'). ((st_of k)(t := Some READY)) x = Some BLOCKED \<and> (\<exists>old fs. fr_of k x = Some (F_P s' old # fs)))"
      by auto
  qed
  moreover have "r \<noteq> Some t" "toBeDestroyed k \<noteq> Some t" "b \<noteq> Some t"
    using wf_gen_status [OF wf t(1)] wf t(4) by (auto simp: wf_gen_def)
  ultimately have "wf_gen r b None ?k"
    using wf th(2) t unfolding wf_gen_def v q by auto
  with th show ?thesis by simp
qed

lemma V_wf:
  assumes wf: "wf_gen r b None k" and v: "V s k = Inr k'"
  shows "wf_gen r b None k' \<and> currentThread k' = currentThread k \<and> halted k' = halted k"
proof -
  let ?k0 = "k\<lparr>level := IntOff\<rparr>"
  obtain sm where s: "sems k s = Some sm" using v by (auto simp: V_def kernel_Inr Let_def)
  have pos: "0 \<le> s_value sm" using wf s by (auto simp: wf_gen_def sems_ok_def)
  show ?thesis
  proof (cases "s_queue sm")
    case Nil
    with v s have "k' = (put_sem s (sm\<lparr>s_value := s_value sm + 1\<rparr>) ?k0)\<lparr>level := level k\<rparr>"
      by (auto simp: V_def kernel_Inr Let_def)
    with wf_gen_value [of r b None ?k0 s sm "s_value sm + 1"] wf s pos show ?thesis by simp
  next
    case (Cons t q)
    with v s obtain k1 where k1: "ReadyToRun t ?k0 = Inr k1"
      "k' = (put_sem s (sm\<lparr>s_queue := q, s_value := s_value sm + 1\<rparr>) k1)\<lparr>level := level k\<rparr>"
      by (auto simp: V_def kernel_Inr Let_def seq_RemoveFront_def)
    have w: "wf_gen r b None (put_sem s (sm\<lparr>s_queue := q\<rparr>) k1) \<and> currentThread k1 = currentThread k \<and> halted k1 = halted k"
      using wf_gen_wake [OF _ _ Cons k1(1), of r b s] wf s by simp
    have "put_sem s (sm\<lparr>s_queue := q, s_value := s_value sm + 1\<rparr>) k1 =
        put_sem s ((sm\<lparr>s_queue := q\<rparr>)\<lparr>s_value := s_value sm + 1\<rparr>) (put_sem s (sm\<lparr>s_queue := q\<rparr>) k1)"
      by (simp add: put_sem_def)
    with w k1(2) pos wf_gen_value [of r b None "put_sem s (sm\<lparr>s_queue := q\<rparr>) k1" s "sm\<lparr>s_queue := q\<rparr>" "s_value sm + 1"]
    show ?thesis by simp
  qed
qed


text \<open>Queueing the running thread on a semaphore and marking it blocked.\<close>

lemma wf_gen_block:
  fixes old :: IntStatus
  assumes wf: "wf_kernel k" and sm: "sems k s = Some sm" and th: "threads k (currentThread k) = Some th"
  defines "th' \<equiv> th\<lparr>frames := F_P s old # frames th\<rparr>"
  defines "k1 \<equiv> put_thread (currentThread k) (th'\<lparr>t_status := BLOCKED\<rparr>)
    (put_thread (currentThread k) th' (put_sem s (sm\<lparr>s_queue := s_queue sm @ [currentThread k]\<rparr>) k))"
  shows "wf_gen None None None k1"
proof -
  let ?c = "currentThread k" and ?sm = "sm\<lparr>s_queue := s_queue sm @ [currentThread k]\<rparr>"
  have cur: "?c \<notin> set (readyList k)" "\<not> queued k ?c" "toBeDestroyed k \<noteq> Some ?c"
    by (rule wf_current [OF wf], simp)+
  have so: "sems_ok k" using wf by (simp add: wf_gen_def)
  have c: "?c \<notin> set (s_queue sm)" using cur(2) sm by (auto intro: queuedI)
  have v: "st_of k1 = (st_of k)(?c := Some BLOCKED)" "fr_of k1 = (fr_of k)(?c := Some (F_P s old # frames th))"
    "readyList k1 = readyList k" "toBeDestroyed k1 = toBeDestroyed k" "sems k1 = (sems k)(s \<mapsto> ?sm)"
    by (simp_all add: fun_eq_iff k1_def th'_def)
  have q: "queued k1 x \<longleftrightarrow> queued k x \<or> x = ?c" for x
    using queued_put_sem [OF sm so, of ?sm x] queuedI [OF sm, of x] by (auto simp: k1_def)
  have "sems_ok k1"
    unfolding sems_ok_def v
  proof (intro allI impI)
    fix s' sm' assume s': "((sems k)(s \<mapsto> ?sm)) s' = Some sm'"
    show "0 \<le> s_value sm' \<and> distinct (s_queue sm') \<and> (\<forall>t\<in>set (s_queue sm').
        ((st_of k)(?c := Some BLOCKED)) t = Some BLOCKED \<and>
        (\<exists>o' fs. ((fr_of k)(?c := Some (F_P s old # frames th))) t = Some (F_P s' o' # fs)))"
    proof (cases "s' = s")
      case True
      with s' sems_okD [OF so sm] c show ?thesis by auto
    next
      case False
      with s' have k: "sems k s' = Some sm'" by simp
      with cur(2) have "?c \<notin> set (s_queue sm')" by (auto intro: queuedI)
      with sems_okD [OF so k] show ?thesis by auto
    qed
  qed
  then show ?thesis
    using wf cur unfolding wf_gen_def v q by auto
qed

section \<open>The contract of the handlers and sleeping\<close>

text \<open>
  What the kernel relies on when it idles with no thread running: a handler may wake threads but
  keeps every thread where it belongs.
\<close>

lemma CheckIfDue_cases:
  assumes "CheckIfDue call adv h = Some (Inr (f, h'))"
  shows "h' = h \<or> (\<exists>s m h3. fire_loop call (h\<lparr>stats := s, kmachine := m, inHandler := True\<rparr>) = Some (Inr h3) \<and>
           h' = h3\<lparr>inHandler := False\<rparr>)"
proof (cases "pending h")
  case Nil
  with assms show ?thesis by (auto simp: CheckIfDue_def assertR_def split: if_splits)
next
  case (Cons n ps)
  show ?thesis
  proof (cases "pi_when n > totalTicks (stats h) \<and> \<not> adv")
    case True
    with Cons assms show ?thesis by (auto simp: CheckIfDue_def assertR_def split: if_splits)
  next
    case False
    define s where "s = (if pi_when n > totalTicks (stats h) then advance_clock (pi_when n) (stats h) else stats h)"
    have h1: "(if pi_when n > totalTicks (stats h) then h\<lparr>stats := advance_clock (pi_when n) (stats h)\<rparr> else h) = h\<lparr>stats := s\<rparr>"
      by (simp add: s_def)
    from assms have "level h = IntOff" by (auto simp: CheckIfDue_def assertR_def split: if_splits)
    with assms False have "bindR (case kmachine h of None \<Rightarrow> Some (Inr (h\<lparr>stats := s\<rparr>))
        | Some m \<Rightarrow> Some (andThen (DelayedLoad m 0 0) (\<lambda>m. Inr (h\<lparr>stats := s, kmachine := Some m\<rparr>))))
        (\<lambda>h2. bindR (fire_loop call (h2\<lparr>inHandler := True\<rparr>)) (\<lambda>h3. Some (Inr (True, h3\<lparr>inHandler := False\<rparr>)))) = Some (Inr (f, h'))"
      unfolding CheckIfDue_def Cons list.case Let_def h1 by simp
    then obtain m h3 where "fire_loop call (h\<lparr>stats := s, kmachine := m, inHandler := True\<rparr>) = Some (Inr h3)"
      "h' = h3\<lparr>inHandler := False\<rparr>"
    proof (cases "kmachine h")
      case None
      then have "h\<lparr>stats := s, inHandler := True\<rparr> = h\<lparr>stats := s, kmachine := None, inHandler := True\<rparr>" by simp
      with None that [of None] \<open>bindR _ _ = _\<close> show thesis
        by (auto simp: bindR_def split: option.splits sum.splits)
    next
      case (Some m0)
      with that \<open>bindR _ _ = _\<close> show thesis
        by (cases "DelayedLoad m0 0 0") (auto simp: bindR_def split: option.splits sum.splits)
    qed
    then show ?thesis by blast
  qed
qed

locale kernel_handlers =
  fixes call :: "'cb \<Rightarrow> 'cb kernel \<Rightarrow> 'cb kernel res"
  assumes call_wf: "wf_gen None b None k \<Longrightarrow> call cb k = Inr k' \<Longrightarrow>
      wf_gen None b None k' \<and> currentThread k' = currentThread k \<and> halted k' = halted k"
begin

lemma fire_loop_wf:
  assumes run: "fire_loop call k = Some (Inr k')" and wf: "wf_gen None b None k"
  shows "wf_gen None b None k' \<and> currentThread k' = currentThread k \<and> halted k' = halted k"
proof -
  define Q :: "('cb \<Rightarrow> 'cb kernel \<Rightarrow> 'cb kernel res) \<Rightarrow> 'cb kernel \<Rightarrow> 'cb kernel res \<Rightarrow> bool"
    where "Q = (\<lambda>call' k r. \<forall>k'. r = Inr k' \<longrightarrow> call' = call \<longrightarrow> wf_gen None b None k \<longrightarrow>
    wf_gen None b None k' \<and> currentThread k' = currentThread k \<and> halted k' = halted k)"
  have "Q call k (Inr k')"
  proof (rule fire_loop.raw_induct [where P = Q])
    show "fire_loop call k = Some (Inr k')" by (rule run)
  next
    fix rec call' h r
    assume IH: "\<And>c h y. rec c h = Some y \<Longrightarrow> Q c h y"
      and body: "(case pending h of [] \<Rightarrow> Some (Inl Assertion_failed)
        | p # ps \<Rightarrow> (case call' (callOnInterrupt p) (h\<lparr>pending := ps\<rparr>) of Inl e \<Rightarrow> Some (Inl e)
          | Inr h' \<Rightarrow> if pending h' \<noteq> [] \<and> pi_when (hd (pending h')) \<le> totalTicks (stats h')
                     then rec call' h' else Some (Inr h'))) = Some r"
    show "Q call' h r"
      unfolding Q_def
    proof (intro allI impI)
      fix k' assume r: "r = Inr k'" and c: "call' = call" and wf: "wf_gen None b None h"
      obtain p ps where p: "pending h = p # ps" using body r by (cases "pending h") auto
      obtain h1 where h1: "call (callOnInterrupt p) (h\<lparr>pending := ps\<rparr>) = Inr h1"
        using body r p c by (cases "call (callOnInterrupt p) (h\<lparr>pending := ps\<rparr>)") auto
      have h2: "(if pending h1 \<noteq> [] \<and> pi_when (hd (pending h1)) \<le> totalTicks (stats h1)
          then rec call' h1 else Some (Inr h1)) = Some (Inr k')"
        using body r p c h1 by simp
      have w1: "wf_gen None b None h1 \<and> currentThread h1 = currentThread h \<and> halted h1 = halted h"
        using call_wf [OF _ h1, of b] wf by simp
      show "wf_gen None b None k' \<and> currentThread k' = currentThread h \<and> halted k' = halted h"
      proof (cases "pending h1 \<noteq> [] \<and> pi_when (hd (pending h1)) \<le> totalTicks (stats h1)")
        case True
        with h2 have "rec call' h1 = Some (Inr k')" by simp
        from IH [OF this] w1 c show ?thesis by (auto simp: Q_def)
      next
        case False
        with h2 w1 show ?thesis by auto
      qed
    qed
  qed
  with wf show ?thesis by (auto simp: Q_def)
qed

lemma Idle_wf:
  assumes run: "Idle call k = Some (Inr (h, k'))" and wf: "wf_gen None b None k"
  shows "wf_gen None b None k' \<and> currentThread k' = currentThread k \<and> halted k' = halted k"
proof -
  have c: "wf_gen None b None k2 \<and> currentThread k2 = currentThread k1 \<and> halted k2 = halted k1"
    if "CheckIfDue call True k1 = Some (Inr (f, k2))" "wf_gen None b None k1" for k1 k2 f
  proof -
    from CheckIfDue_cases [OF that(1)] have "k2 = k1 \<or> (\<exists>s m k3. fire_loop call (k1\<lparr>stats := s, kmachine := m, inHandler := True\<rparr>) = Some (Inr k3) \<and>
        k2 = k3\<lparr>inHandler := False\<rparr>)" by blast
    then show ?thesis using that(2) fire_loop_wf [of _ _ b] by fastforce
  qed
  show ?thesis
    using run c [of "k\<lparr>mstatus := IdleMode\<rparr>"] wf
    by (auto simp: Idle_def bindR_def split: option.splits sum.splits if_splits prod.splits)
qed

lemma Sleep_loop_wf:
  assumes run: "Sleep_loop call k = Some (Inr (n, k'))" and wf: "wf_gen None b None k"
  shows "currentThread k' = currentThread k \<and>
    (case n of None \<Rightarrow> halted k' | Some t \<Rightarrow> wf_gen None b (Some t) k' \<and> halted k' = halted k)"
proof -
  define Q :: "('cb \<Rightarrow> 'cb kernel \<Rightarrow> 'cb kernel res) \<Rightarrow> 'cb kernel \<Rightarrow> (nat option \<times> 'cb kernel) res \<Rightarrow> bool"
    where "Q = (\<lambda>call' k r. \<forall>n k'. r = Inr (n, k') \<longrightarrow> call' = call \<longrightarrow> wf_gen None b None k \<longrightarrow>
      currentThread k' = currentThread k \<and>
      (case n of None \<Rightarrow> halted k' | Some t \<Rightarrow> wf_gen None b (Some t) k' \<and> halted k' = halted k))"
  have "Q call k (Inr (n, k'))"
  proof (rule Sleep_loop.raw_induct [where P = Q])
    show "Sleep_loop call k = Some (Inr (n, k'))" by (rule run)
  next
    fix rec call' k r
    assume IH: "\<And>c k y. rec c k = Some y \<Longrightarrow> Q c k y"
      and body: "(case FindNextToRun k of Inl e \<Rightarrow> Some (Inl e) | Inr (Some t, k) \<Rightarrow> Some (Inr (Some t, k))
        | Inr (None, k) \<Rightarrow> (case Idle call' k of None \<Rightarrow> None | Some (Inl e) \<Rightarrow> Some (Inl e)
            | Some (Inr (halt, k)) \<Rightarrow> if halt then Some (Inr (None, k\<lparr>halted := True\<rparr>)) else rec call' k)) = Some r"
    show "Q call' k r"
      unfolding Q_def
    proof (intro allI impI)
      fix n k' assume r: "r = Inr (n, k')" and c: "call' = call" and wf: "wf_gen None b None k"
      have off: "level k = IntOff" using body r by (auto simp: FindNextToRun_def ASSERT_def split: if_splits)
      show "currentThread k' = currentThread k \<and>
          (case n of None \<Rightarrow> halted k' | Some t \<Rightarrow> wf_gen None b (Some t) k' \<and> halted k' = halted k)"
      proof (cases "readyList k")
        case (Cons t rl)
        with off have f: "FindNextToRun k = Inr (Some t, k\<lparr>readyList := rl\<rparr>)" by (simp add: FindNextToRun_Inr)
        from body [unfolded f] r wf_gen_pop [OF wf Cons] show ?thesis by auto
      next
        case Nil
        with off have f: "FindNextToRun k = Inr (None, k)" by (simp add: FindNextToRun_Inr)
        from body [unfolded f] r obtain halt k2 where i: "Idle call' k = Some (Inr (halt, k2))"
          by (cases "Idle call' k") (auto split: sum.splits)
        from body [unfolded f] r i have i2: "(if halt then Some (Inr (None, k2\<lparr>halted := True\<rparr>)) else rec call' k2) = Some (Inr (n, k'))"
          by simp
        note w2 = Idle_wf [OF i [unfolded c] wf]
        show ?thesis
        proof (cases halt)
          case True
          with i2 w2 show ?thesis by auto
        next
          case False
          with i2 have "rec call' k2 = Some (Inr (n, k'))" by simp
          from IH [OF this] w2 c show ?thesis by (cases n) (auto simp: Q_def)
        qed
      qed
    qed
  qed
  with wf show ?thesis by (simp add: Q_def)
qed

text \<open>Sleeping with the current thread already off every list but marked as it must be.\<close>

lemma Sleep_wf:
  assumes run: "Sleep call fin k = Some (Inr k')" and th: "threads k (currentThread k) = Some th"
    and wf: "wf_gen None (if fin then Some (currentThread k) else None) None
        (put_thread (currentThread k) (th\<lparr>t_status := BLOCKED\<rparr>) k)"
  shows "halted k' \<or> wf_kernel k'"
proof -
  let ?k1 = "put_thread (currentThread k) (th\<lparr>t_status := BLOCKED\<rparr>) k"
  let ?b = "if fin then Some (currentThread k) else None"
  obtain n k2 where l: "Sleep_loop call ?k1 = Some (Inr (n, k2))"
    "(case n of None \<Rightarrow> Some (Inr k2) | Some t \<Rightarrow> Some (Run t fin k2)) = Some (Inr k')"
    using run th by (auto simp: Sleep_def with_thread_def assertR_def bindR_def
        split: if_splits option.splits sum.splits)
  note w = Sleep_loop_wf [OF l(1) wf]
  show ?thesis
  proof (cases n)
    case None
    with l(2) w show ?thesis by simp
  next
    case (Some t)
    with l(2) have r: "Run t fin k2 = Inr k'" by simp
    from w Some have w2: "wf_gen None ?b (Some t) k2" "currentThread k2 = currentThread k" by auto
    have "?b = (if fin then Some (currentThread k2) else None)" using w2(2) by simp
    from Run_wf [OF w2(1) this r] show ?thesis by auto
  qed
qed

lemma Finish_wf:
  assumes wf: "wf_kernel k" and run: "Finish call k = Some (Inr k')"
  shows "halted k' \<or> wf_kernel k'"
proof -
  let ?c = "currentThread k" and ?k = "k\<lparr>level := IntOff\<rparr>"
  obtain th where th: "threads k ?c = Some th" "t_status th = RUNNING" "?c \<notin> set (readyList k)" "\<not> queued k ?c"
    "toBeDestroyed k \<noteq> Some ?c"
    by (rule wf_current [OF wf])
  have s: "Sleep call True ?k = Some (Inr k')"
    using run by (auto simp: Finish_def bindR_def set_level_Inr set_level_def)
  have v: "st_of (put_thread ?c (th\<lparr>t_status := BLOCKED\<rparr>) ?k) = (st_of k)(?c := Some BLOCKED)"
    "fr_of (put_thread ?c (th\<lparr>t_status := BLOCKED\<rparr>) ?k) = fr_of k"
    "queued (put_thread ?c (th\<lparr>t_status := BLOCKED\<rparr>) ?k) = queued k"
    using th by (auto simp: st_of_def fr_of_def queued_def fun_eq_iff)
  have "sems_ok (put_thread ?c (th\<lparr>t_status := BLOCKED\<rparr>) ?k)"
    using wf th(4) unfolding wf_gen_def sems_ok_def v by (auto simp: queued_def)
  then have "wf_gen None (Some ?c) None (put_thread ?c (th\<lparr>t_status := BLOCKED\<rparr>) ?k)"
    using wf th unfolding wf_gen_def v by auto
  with Sleep_wf [OF s, of th] th(1) show ?thesis by simp
qed

lemma P_loop_wf:
  assumes wf: "wf_kernel k" and run: "P_loop call s old k = Some (Inr k')"
  shows "halted k' \<or> wf_kernel k'"
proof -
  let ?c = "currentThread k"
  obtain th where th: "threads k ?c = Some th" "t_status th = RUNNING" "?c \<notin> set (readyList k)" "\<not> queued k ?c"
    "toBeDestroyed k \<noteq> Some ?c"
    by (rule wf_current [OF wf])
  obtain sm where sm: "sems k s = Some sm" using run by (auto simp: P_loop_def split: option.splits)
  have so: "sems_ok k" using wf by (simp add: wf_gen_def)
  show ?thesis
  proof (cases "s_value sm = 0")
    case False
    with run sm have "k' = (put_sem s (sm\<lparr>s_value := s_value sm - 1\<rparr>) k)\<lparr>level := old\<rparr>"
      by (auto simp: P_loop_def set_level_Inr)
    moreover have "0 \<le> s_value sm - 1" using sems_okD(1) [OF so sm] False by simp
    ultimately show ?thesis using wf_gen_value [OF wf sm] by simp
  next
    case True
    let ?sm = "sm\<lparr>s_queue := s_queue sm @ [?c]\<rparr>"
    let ?th = "th\<lparr>frames := F_P s old # frames th\<rparr>"
    let ?k = "put_thread ?c ?th (put_sem s ?sm k)"
    let ?k1 = "put_thread ?c (?th\<lparr>t_status := BLOCKED\<rparr>) ?k"
    have c: "?c \<notin> set (s_queue sm)" using th(4) sm by (auto intro: queuedI)
    have sl: "Sleep call False ?k = Some (Inr k')"
      using run sm True th(1) c by (simp add: P_loop_def seq_Append_def push_frame_def with_thread_def)
    have "wf_gen None None None ?k1" by (rule wf_gen_block [OF wf sm th(1)])
    with Sleep_wf [OF sl, of ?th] show ?thesis by simp
  qed
qed

lemma P_wf:
  assumes wf: "wf_kernel k" and run: "P call s k = Some (Inr k')"
  shows "halted k' \<or> wf_kernel k'"
proof -
  have "P_loop call s (level k) (k\<lparr>level := IntOff\<rparr>) = Some (Inr k')"
    using run by (auto simp: P_def bindR_def set_level_def)
  with P_loop_wf [OF _ this] wf show ?thesis by simp
qed

end

section \<open>Every operation keeps the invariant\<close>

lemma put_lock_cond_wf [simp]:
  "wf_gen r b w (put_lock l lk k) = wf_gen r b w k" "wf_gen r b w (put_cond c cd k) = wf_gen r b w k"
  "currentThread (put_lock l lk k) = currentThread k" "currentThread (put_cond c cd k) = currentThread k"
  "halted (put_lock l lk k) = halted k" "halted (put_cond c cd k) = halted k"
  by (simp_all add: put_lock_def put_cond_def)

text \<open>Pushing or popping frames of the running thread.\<close>

lemma wf_kernel_put_frames:
  assumes wf: "wf_kernel k" and th: "threads k (currentThread k) = Some th"
  shows "wf_kernel (put_thread (currentThread k) (th\<lparr>frames := fs\<rparr>) k)"
proof -
  from wf th have "t_status th = RUNNING" by (metis wf_current option.inject)
  with wf_gen_put_frames [OF th, of "th\<lparr>frames := fs\<rparr>"] wf show ?thesis by simp
qed

lemma push_frame_wf:
  assumes "wf_kernel k" "push_frame f k = Inr k'"
  shows "wf_kernel k' \<and> currentThread k' = currentThread k \<and> halted k' = halted k"
  using assms wf_kernel_put_frames [OF assms(1)] by (auto simp: push_frame_def kernel_Inr)

lemma pop_frame_wf:
  assumes "wf_kernel k" "pop_frame k = Inr (f, k')"
  shows "wf_kernel k' \<and> currentThread k' = currentThread k \<and> halted k' = halted k \<and> sems k' = sems k \<and>
    (\<exists>th. threads k (currentThread k) = Some th \<and> f = (case frames th of [] \<Rightarrow> None | x # _ \<Rightarrow> Some x))"
  using assms wf_kernel_put_frames [OF assms(1)]
  by (auto simp: pop_frame_def with_thread_def split: list.split_asm option.split_asm)

lemma Fork_wf:
  assumes wf: "wf_kernel k" and n: "threads k t = None" and run: "Fork t f (new_thread_in t k) = Inr k'"
  shows "wf_kernel k' \<and> halted k' = halted k"
proof -
  obtain th where k': "k' = (put_thread t (th\<lparr>t_status := READY\<rparr>) (k\<lparr>level := IntOff\<rparr>))
      \<lparr>readyList := readyList k @ [t], level := level k\<rparr>"
    using run by (auto simp: Fork_def new_thread_in_def kernel_Inr ReadyToRun_Inr Let_def put_thread_def)
  have t: "st_of k t = None" using n by (simp add: st_of_def)
  have v: "st_of k' = (st_of k)(t := Some READY)" "fr_of k' = (fr_of k)(t := Some (frames th))"
    "queued k' = queued k" "readyList k' = readyList k @ [t]" "sems k' = sems k"
    "toBeDestroyed k' = toBeDestroyed k" "currentThread k' = currentThread k" "halted k' = halted k"
    by (auto simp: k' st_of_def fr_of_def queued_def put_thread_def fun_eq_iff)
  have so: "sems_ok k" "t \<notin> set (readyList k)" "t \<noteq> currentThread k" "toBeDestroyed k \<noteq> Some t"
    using wf t unfolding wf_gen_def by (auto, (metis option.distinct(1))+)
  have "sems_ok k'"
    using so(1) t unfolding sems_ok_def v by fastforce
  with wf so t have "wf_kernel k'" unfolding wf_gen_def v by auto
  then show ?thesis by (simp add: v)
qed

lemma new_Semaphore_wf:
  assumes wf: "wf_gen r b w k" and n: "sems k (fresh_sem k) = None" and v: "0 \<le> v"
    and new: "new_Semaphore v k = (s, k')"
  shows "wf_gen r b w k' \<and> currentThread k' = currentThread k \<and> halted k' = halted k"
proof -
  let ?sm = "\<lparr>s_value = v, s_queue = []\<rparr>"
  have k': "k' = (put_sem (fresh_sem k) ?sm k)\<lparr>fresh_sem := Suc (fresh_sem k)\<rparr>"
    using new by (auto simp: new_Semaphore_def)
  have q: "queued k' = queued k" using n by (auto simp: k' queued_def fun_eq_iff) (metis option.distinct(1))
  have vw: "st_of k' = st_of k" "fr_of k' = fr_of k" "readyList k' = readyList k"
    "toBeDestroyed k' = toBeDestroyed k" "sems k' = (sems k)(fresh_sem k \<mapsto> ?sm)"
    by (auto simp: k' st_of_def fr_of_def put_sem_def fun_eq_iff)
  have "sems_ok k'" using wf v by (auto simp: wf_gen_def sems_ok_def vw)
  with wf have "wf_gen r b w k'" by (simp add: wf_gen_def vw q)
  then show ?thesis by (simp add: k')
qed

lemma delete_Semaphore_wf:
  assumes wf: "wf_gen r b w k" and run: "delete_Semaphore s k = Inr k'"
    and e: "\<And>sm. sems k s = Some sm \<Longrightarrow> s_queue sm = []"
  shows "wf_gen r b w k' \<and> currentThread k' = currentThread k \<and> halted k' = halted k"
proof -
  have k': "k' = k\<lparr>sems := (sems k)(s := None)\<rparr>" using run by (auto simp: delete_Semaphore_def kernel_Inr)
  have q: "queued k' = queued k" using e by (force simp: k' queued_def fun_eq_iff)
  have vw: "st_of k' = st_of k" "fr_of k' = fr_of k"
    by (auto simp: k' st_of_def fr_of_def fun_eq_iff)
  have "sems_ok k'" using wf unfolding wf_gen_def sems_ok_def vw by (auto simp: k' split: if_splits)
  with wf have "wf_gen r b w k'" by (simp add: wf_gen_def vw q) (simp add: k')
  then show ?thesis by (simp add: k')
qed

lemma Release_wf:
  assumes "wf_kernel k" "Release l k = Inr k'"
  shows "wf_kernel k' \<and> currentThread k' = currentThread k \<and> halted k' = halted k"
proof -
  obtain lk where v: "V (lk_semaphore lk) (put_lock l (lk\<lparr>lockHolder := None\<rparr>) k) = Inr k'"
    using assms(2) by (auto simp: Release_def kernel_Inr)
  have "wf_gen (Some (currentThread k)) None None (put_lock l (lk\<lparr>lockHolder := None\<rparr>) k)" using assms(1) by simp
  from V_wf [OF this v] show ?thesis by simp
qed

lemma Signal_wf:
  assumes "wf_kernel k" "Signal c k = Inr k'"
  shows "wf_kernel k' \<and> currentThread k' = currentThread k \<and> halted k' = halted k"
proof (cases "k' = k")
  case False
  then obtain cd w q where v: "V w (put_cond c (cd\<lparr>waitQueue := q\<rparr>) k) = Inr k'"
    using assms(2) by (auto simp: Signal_def kernel_Inr seq_RemoveFront_def split: if_splits list.splits)
  have "wf_gen (Some (currentThread k)) None None (put_cond c (cd\<lparr>waitQueue := q\<rparr>) k)" using assms(1) by simp
  from V_wf [OF this v] show ?thesis by simp
qed (use assms in simp)

lemma Broadcast_wf:
  assumes wf: "wf_kernel k" and run: "Broadcast c k = Inr k'"
  shows "wf_kernel k' \<and> halted k' = halted k"
proof (cases "k' = k")
  case False
  then obtain k1 where k1: "push_frame (F_broadcast c) k = Inr k1" "Signal c k1 = Inr k'"
    using run by (auto simp: Broadcast_def kernel_Inr split: if_splits)
  from push_frame_wf [OF wf k1(1)] Signal_wf [OF _ k1(2)] show ?thesis by auto
qed (use wf in simp)

lemma Wait_wf:
  assumes wf: "wf_kernel k" and n: "sems k (fresh_sem k) = None" and run: "Wait c l k = Inr k'"
  shows "wf_kernel k' \<and> halted k' = halted k"
proof -
  obtain w k1 where k1: "new_Semaphore 0 k = (w, k1)" by fastforce
  have w1: "wf_kernel k1 \<and> currentThread k1 = currentThread k \<and> halted k1 = halted k"
    using new_Semaphore_wf [OF wf n _ k1] by auto
  obtain cd k2 k3 k4 where s: "push_frame (F_delete w) (put_cond c cd k1) = Inr k2"
    "push_frame (F_call_Acquire l) k2 = Inr k3" "push_frame (F_call_P w) k3 = Inr k4" "Release l k4 = Inr k'"
    using run by (auto simp: Wait_def k1 kernel_Inr)
  have "wf_kernel k2" "wf_kernel k3" "wf_kernel k4" "halted k4 = halted k"
    using push_frame_wf [OF _ s(1)] push_frame_wf [OF _ s(2)] push_frame_wf [OF _ s(3)] w1 by auto
  with Release_wf [OF _ s(4)] show ?thesis by auto
qed

context kernel_handlers
begin

lemma Acquire_wf:
  assumes wf: "wf_kernel k" and run: "Acquire call l k = Some (Inr k')"
  shows "halted k' \<or> wf_kernel k'"
proof -
  have "\<exists>k1 s. push_frame (F_set_holder l) k = Inr k1 \<and> P call s k1 = Some (Inr k')"
    using run by (auto simp: Acquire_def bindR_def with_lock_def andThen_def split: option.splits sum.splits)
  with push_frame_wf [OF wf] P_wf show ?thesis by blast
qed

lemma continue_wf:
  assumes wf: "wf_kernel k" and th: "threads k (currentThread k) = Some th"
    and d: "deletes_unused (frames th) k" and run: "continue call k = Some (Inr k')"
  shows "halted k' \<or> wf_kernel k'"
proof -
  obtain f k1 where p: "pop_frame k = Inr (f, k1)"
    using run by (cases "pop_frame k") (auto simp: continue_def bindR_def)
  note w1 = pop_frame_wf [OF wf p]
  then have wf1: "wf_kernel k1" by blast
  note run = run [unfolded continue_def p bindR_def, simplified]
  show ?thesis
  proof (cases f)
    case None
    with run wf1 show ?thesis by simp
  next
    case (Some x)
    show ?thesis
    proof (cases x)
      case (F_begin g)
      with run Some obtain k2 where "CheckToBeDestroyed k1 = Inr k2" "k' = k2\<lparr>level := IntOn\<rparr>"
        by (auto simp: Begin_def kernel_Inr)
      with CheckToBeDestroyed_wf [OF wf1 refl] show ?thesis by auto
    next
      case (F_delete s)
      with run Some have r: "delete_Semaphore s k1 = Inr k'" by simp
      have "s_queue sm = []" if "sems k1 s = Some sm" for sm
        using d w1 th that Some F_delete by (auto simp: deletes_unused_def split: list.splits)
      from delete_Semaphore_wf [OF wf1 r this] show ?thesis by simp
    qed (use run Some wf1 Broadcast_wf [OF wf1] P_loop_wf [OF wf1] P_wf [OF wf1] Acquire_wf [OF wf1] in
         \<open>auto simp: kernel_Inr\<close>)
  qed
qed

lemma perform_wf:
  assumes "wf_kernel k" "allocates_fresh c k" "perform call c k = Some (Inr k')"
  shows "halted k' \<or> wf_kernel k'"
proof (cases c)
  case (Do_P s) with assms P_wf show ?thesis by simp
next
  case (Do_V s) with assms V_wf [of "Some (currentThread k)" None k s k'] show ?thesis by auto
next
  case (Do_Acquire l) with assms Acquire_wf show ?thesis by simp
next
  case (Do_Release l) with assms Release_wf [OF assms(1), of l k'] show ?thesis by auto
next
  case (Do_Wait c l) with assms Wait_wf [OF assms(1), of c l k'] show ?thesis by auto
next
  case (Do_Signal c) with assms Signal_wf [OF assms(1), of c k'] show ?thesis by auto
next
  case (Do_Broadcast c) with assms Broadcast_wf [OF assms(1), of c k'] show ?thesis by auto
next
  case Do_Yield with assms Yield_wf [OF assms(1), of k'] show ?thesis by auto
next
  case (Do_Fork t f) with assms Fork_wf [OF assms(1), of t f k'] show ?thesis by auto
next
  case Do_Finish with assms Finish_wf show ?thesis by simp
qed

lemma kstep_wf:
  assumes "kstep call k k'" "wf_kernel k"
  shows "halted k' \<or> wf_kernel k'"
  using assms by (cases rule: kstep.cases) (use continue_wf perform_wf Yield_wf in \<open>blast+\<close>)

lemma ksteps_wf:
  assumes "(kstep call)\<^sup>*\<^sup>* k k'" "wf_kernel k"
  shows "halted k' \<or> wf_kernel k'"
  using assms
proof (induction rule: rtranclp_induct)
  case (step k1 k2)
  then have "\<not> halted k1" by (auto elim: kstep.cases)
  with step kstep_wf show ?case by blast
qed simp

end


section \<open>The handlers of the kernel\<close>

text \<open>
  The interrupt handlers: the timer, whose alarm requests a context switch, and a device (disk or
  console) whose completion handler does \<^verbatim>\<open>V\<close> on the semaphore its requester waits on.
\<close>

datatype kcallback = TimerDevice | DeviceDone nat

definition kernel_call :: "kcallback \<Rightarrow> kcallback kernel \<Rightarrow> kcallback kernel res" where
  "kernel_call cb k = (case cb of TimerDevice \<Rightarrow> Timer_CallBack TimerDevice k | DeviceDone s \<Rightarrow> V s k)"

lemma Timer_CallBack_same:
  assumes "Timer_CallBack me k = Inr k'"
  shows "threads k' = threads k \<and> readyList k' = readyList k \<and> sems k' = sems k \<and>
    toBeDestroyed k' = toBeDestroyed k \<and> currentThread k' = currentThread k \<and> halted k' = halted (k :: 'cb kernel)"
  using assms by (auto simp: Timer_CallBack_def Alarm_CallBack_def YieldOnReturn_def SetInterrupt_def
      RandomNumber_def Schedule_def res_simps Let_def split: if_splits)

interpretation devices: kernel_handlers kernel_call
proof
  fix b k cb k'
  assume wf: "wf_gen None b None k" and c: "kernel_call cb k = Inr k'"
  show "wf_gen None b None k' \<and> currentThread k' = currentThread k \<and> halted k' = halted k"
  proof (cases cb)
    case TimerDevice
    with c have "Timer_CallBack TimerDevice k = Inr k'" by (simp add: kernel_call_def)
    from Timer_CallBack_same [OF this] wf wf_gen_cong [of k' k] show ?thesis by auto
  next
    case (DeviceDone s)
    with c V_wf [OF wf] show ?thesis by (simp add: kernel_call_def)
  qed
qed

section \<open>A sample kernel\<close>

text \<open>Two threads, the first running and the second ready, and a semaphore of value 0.\<close>

definition sample_thread :: "ThreadStatus \<Rightarrow> frame list \<Rightarrow> thread" where
  "sample_thread st fs = (new_Thread ''t'')\<lparr>t_status := st, stack := Some STACK_FENCEPOST, frames := fs\<rparr>"

definition sample_kernel :: "kcallback kernel" where
  "sample_kernel =
     \<lparr>level = IntOn, pending = [], inHandler = False, yieldOnReturn = False, mstatus = SystemMode,
      stats = new_Statistics, kmachine = None, fresh_pi = 0, randomize = False, disable = False,
      random_stream = (\<lambda>_. 0), random_pos = 0, currentThread = 0,
      threads = [0 \<mapsto> sample_thread RUNNING [], 1 \<mapsto> sample_thread READY [F_begin 7]],
      readyList = [1], toBeDestroyed = None, spaces = Map.empty,
      sems = [0 \<mapsto> \<lparr>s_value = 0, s_queue = []\<rparr>], locks = Map.empty, conds = Map.empty, fresh_sem = 1,
      halted = False\<rparr>"

lemma sample_kernel_wf: "wf_kernel sample_kernel"
  by (auto simp: wf_gen_def sems_ok_def queued_def st_of_def sample_kernel_def sample_thread_def)

end
