(* ===== verification/STable.thy ===== *)
theory STable
  imports Synch
begin

text \<open>
  The table of named semaphores behind the system calls CreateSemaphore, Wait and Signal:
  \<^verbatim>\<open>threads/stable.h\<close> and \<^verbatim>\<open>threads/stable.cc\<close>.  Ten slots managed by a bitmap, each with a name
  buffer of 50 bytes and a semaphore of the kernel (\<^verbatim>\<open>Synch\<close>).  The abstract specification is a
  finite map from names to semaphores (\<open>sem_map\<close>) of at most ten entries.
\<close>

section \<open>State and operations\<close>

definition MAX_SEMAPHORE :: nat where
  "MAX_SEMAPHORE = 10"

record sem =
  sem_name :: string
  sem_ptr :: nat

record stable =
  st_bm :: bitmap
  semTab :: "sem option list"

text \<open>\<^verbatim>\<open>Sem::Sem\<close>: \<^verbatim>\<open>strcpy\<close> into a buffer of 50 bytes, the terminating zero included.\<close>

definition new_Sem :: "string \<Rightarrow> int \<Rightarrow> 'cb kernel \<Rightarrow> (sem \<times> 'cb kernel) res" where
  "new_Sem na i k =
     (if length na \<ge> 50 then Inl Out_of_bounds
      else let (s, k) = new_Semaphore i k in Inr (\<lparr>sem_name = na, sem_ptr = s\<rparr>, k))"

definition new_STable :: "stable res" where
  "new_STable =
     andThen (new_Bitmap (int MAX_SEMAPHORE)) (\<lambda>bm.
     Inr \<lparr>st_bm = bm, semTab = replicate MAX_SEMAPHORE None\<rparr>)"

definition STable_dtor :: "stable \<Rightarrow> 'cb kernel \<Rightarrow> 'cb kernel res" where
  "STable_dtor st k =
     forRes (\<lambda>e k. case e of None \<Rightarrow> Inr k | Some sm \<Rightarrow> delete_Semaphore (sem_ptr sm) k) (semTab st) k"

text \<open>
  The loop the three operations start with: the slot whose semaphore has the name, looking only at
  slots the bitmap has marked.
\<close>

fun find_name :: "string \<Rightarrow> stable \<Rightarrow> nat list \<Rightarrow> nat option res" where
  "find_name name st [] = Inr None"
| "find_name name st (i # is) =
     andThen (Test (st_bm st) (int i)) (\<lambda>t.
       if t then
         (if i \<ge> length (semTab st) then Inl Out_of_bounds
          else case semTab st ! i of
            None \<Rightarrow> Inl Null_dereference
          | Some sm \<Rightarrow> if sem_name sm = name then Inr (Some i) else find_name name st is)
       else find_name name st is)"

definition STable_FindFreeSlot :: "stable \<Rightarrow> (int \<times> stable) res" where
  "STable_FindFreeSlot st =
     andThen (FindAndSet (st_bm st)) (\<lambda>(i, bm). Inr (i, st\<lparr>st_bm := bm\<rparr>))"

definition STable_Create :: "string \<Rightarrow> int \<Rightarrow> stable \<Rightarrow> 'cb kernel \<Rightarrow> (int \<times> stable \<times> 'cb kernel) res" where
  "STable_Create name ini st k =
     andThen (find_name name st [0..<MAX_SEMAPHORE]) (\<lambda>f.
     case f of
       Some _ \<Rightarrow> Inr (-1, st, k)
     | None \<Rightarrow>
         andThen (STable_FindFreeSlot st) (\<lambda>(i, st).
         if i < 0 then Inr (-1, st, k)
         else andThen (new_Sem name ini k) (\<lambda>(sm, k).
              if nat i \<ge> length (semTab st) then Inl Out_of_bounds
              else Inr (0, st\<lparr>semTab := (semTab st)[nat i := Some sm]\<rparr>, k))))"

definition slot_sem :: "stable \<Rightarrow> nat \<Rightarrow> nat res" where
  "slot_sem st i =
     (if i \<ge> length (semTab st) then Inl Out_of_bounds
      else case semTab st ! i of None \<Rightarrow> Inl Null_dereference | Some sm \<Rightarrow> Inr (sem_ptr sm))"

text \<open>\<^verbatim>\<open>Wait\<close> may block inside \<^verbatim>\<open>P\<close>; the result 0 is what its caller sees when it returns.\<close>

definition STable_Wait ::
  "('cb \<Rightarrow> 'cb kernel \<Rightarrow> 'cb kernel res) \<Rightarrow> string \<Rightarrow> stable \<Rightarrow> 'cb kernel \<Rightarrow> (int \<times> 'cb kernel) run" where
  "STable_Wait call name st k =
     bindR (Some (find_name name st [0..<MAX_SEMAPHORE])) (\<lambda>f.
     case f of
       None \<Rightarrow> Some (Inr (-1, k))
     | Some i \<Rightarrow> bindR (Some (slot_sem st i)) (\<lambda>s. bindR (P call s k) (\<lambda>k. Some (Inr (0, k)))))"

definition STable_Signal :: "string \<Rightarrow> stable \<Rightarrow> 'cb kernel \<Rightarrow> (int \<times> 'cb kernel) res" where
  "STable_Signal name st k =
     andThen (find_name name st [0..<MAX_SEMAPHORE]) (\<lambda>f.
     case f of
       None \<Rightarrow> Inr (-1, k)
     | Some i \<Rightarrow> andThen (slot_sem st i) (\<lambda>s. andThen (V s k) (\<lambda>k. Inr (0, k))))"

section \<open>Invariant and abstraction\<close>

text \<open>Marked slots hold a semaphore, and no two of them the same name.\<close>

definition used_sem :: "stable \<Rightarrow> nat \<Rightarrow> sem \<Rightarrow> bool" where
  "used_sem st i sm \<longleftrightarrow> i < 10 \<and> int i \<in> marked (st_bm st) \<and> semTab st ! i = Some sm"

definition wf_stable :: "stable \<Rightarrow> bool" where
  "wf_stable st \<longleftrightarrow>
     wf_bitmap (st_bm st) \<and> numBits (st_bm st) = 10 \<and> length (semTab st) = 10 \<and>
     (\<forall>i<10. int i \<in> marked (st_bm st) \<longrightarrow> semTab st ! i \<noteq> None) \<and>
     (\<forall>i j a b. used_sem st i a \<longrightarrow> used_sem st j b \<longrightarrow> sem_name a = sem_name b \<longrightarrow> i = j)"

text \<open>The abstract table: a map from names to semaphores.\<close>

definition sem_map :: "stable \<Rightarrow> string \<Rightarrow> nat option" where
  "sem_map st name =
     (case [sm. i \<leftarrow> [0..<10], int i \<in> marked (st_bm st), Some sm \<leftarrow> [semTab st ! i], sem_name sm = name] of
        [] \<Rightarrow> None | sm # _ \<Rightarrow> Some (sem_ptr sm))"

lemma MAX_SEMAPHORE_10 [simp]: "MAX_SEMAPHORE = 10"
  by (simp add: MAX_SEMAPHORE_def)

lemma sem_map_Some:
  assumes "wf_stable st"
  shows "sem_map st name = Some s \<longleftrightarrow> (\<exists>i sm. used_sem st i sm \<and> sem_name sm = name \<and> sem_ptr sm = s)"
proof -
  define L where "L = [sm. i \<leftarrow> [0..<10], int i \<in> marked (st_bm st), Some sm \<leftarrow> [semTab st ! i], sem_name sm = name]"
  have mem: "sm \<in> set L \<longleftrightarrow> (\<exists>i. used_sem st i sm) \<and> sem_name sm = name" for sm
    unfolding L_def used_sem_def by (auto split: option.splits if_splits intro!: bexI)
  have one: "a = b" if "a \<in> set L" "b \<in> set L" for a b
    using that assms unfolding mem wf_stable_def used_sem_def by (metis option.inject)
  show ?thesis
  proof (cases L)
    case Nil
    with mem have "\<not> (\<exists>i sm. used_sem st i sm \<and> sem_name sm = name)" by (metis list.set(1) empty_iff)
    with Nil show ?thesis unfolding sem_map_def L_def [symmetric] by auto
  next
    case (Cons a l)
    with mem [of a] one [of a] show ?thesis unfolding sem_map_def L_def [symmetric] mem [symmetric]
      by (simp, metis Cons list.set_intros(1) mem)
  qed
qed

lemma find_name_ok:
  assumes wf: "wf_stable st" and ix: "set is \<subseteq> {..<10}"
  shows "\<exists>r. find_name name st is = Inr r \<and>
    (case r of None \<Rightarrow> \<forall>i\<in>set is. \<forall>sm. used_sem st i sm \<longrightarrow> sem_name sm \<noteq> name
     | Some i \<Rightarrow> i \<in> set is \<and> (\<exists>sm. used_sem st i sm \<and> sem_name sm = name))"
  using ix
proof (induction "is")
  case (Cons i "is")
  have i: "i < 10" using Cons.prems by simp
  then have t: "Test (st_bm st) (int i) = Inr (int i \<in> marked (st_bm st))"
    using wf bm.test_used [of "st_bm st" "int i"] by (simp add: wf_stable_def)
  obtain r where r: "find_name name st is = Inr r"
    "case r of None \<Rightarrow> \<forall>i\<in>set is. \<forall>sm. used_sem st i sm \<longrightarrow> sem_name sm \<noteq> name
     | Some i \<Rightarrow> i \<in> set is \<and> (\<exists>sm. used_sem st i sm \<and> sem_name sm = name)"
    using Cons by auto
  show ?case
  proof (cases "int i \<in> marked (st_bm st)")
    case True
    with wf i obtain sm where sm: "semTab st ! i = Some sm" "length (semTab st) = 10" by (auto simp: wf_stable_def)
    with True i t r show ?thesis
      by (cases "sem_name sm = name") (auto simp: used_sem_def split: option.splits)
  next
    case False
    with t r show ?thesis by (auto simp: used_sem_def split: option.splits)
  qed
qed simp

lemma find_name_map:
  assumes wf: "wf_stable st"
  shows "case sem_map st name of
      None \<Rightarrow> find_name name st [0..<10] = Inr None
    | Some s \<Rightarrow> \<exists>i. find_name name st [0..<10] = Inr (Some i) \<and> slot_sem st i = Inr s"
proof -
  have "set [0..<10::nat] \<subseteq> {..<10}" by auto
  from find_name_ok [OF wf this, of name] obtain r where r: "find_name name st [0..<10] = Inr r"
    "case r of None \<Rightarrow> \<forall>i\<in>set [0..<10]. \<forall>sm. used_sem st i sm \<longrightarrow> sem_name sm \<noteq> name
     | Some i \<Rightarrow> i \<in> set [0..<10] \<and> (\<exists>sm. used_sem st i sm \<and> sem_name sm = name)"
    by blast
  show ?thesis
  proof (cases r)
    case None
    with r have "\<not> (\<exists>i sm. used_sem st i sm \<and> sem_name sm = name)" by (auto simp: used_sem_def)
    with sem_map_Some [OF wf, of name] have "sem_map st name = None" by (cases "sem_map st name") auto
    with r None show ?thesis by simp
  next
    case (Some i)
    with r obtain sm where sm: "used_sem st i sm" "sem_name sm = name" by auto
    then have "sem_map st name = Some (sem_ptr sm)" using sem_map_Some [OF wf] by blast
    moreover have "slot_sem st i = Inr (sem_ptr sm)" using sm wf by (simp add: slot_sem_def used_sem_def wf_stable_def)
    ultimately show ?thesis using r Some by auto
  qed
qed

lemma dom_sem_map:
  assumes wf: "wf_stable st"
  shows "card (dom (sem_map st)) = card (marked (st_bm st))"
proof -
  let ?n = "\<lambda>i. sem_name (the (semTab st ! nat i))"
  have rng: "marked (st_bm st) \<subseteq> {0..<10}" using wf bm.used_range [of "st_bm st"] by (simp add: wf_stable_def)
  have u: "used_sem st (nat i) (the (semTab st ! nat i))" if "i \<in> marked (st_bm st)" for i
  proof -
    have "nat i < 10" "int (nat i) = i" using subsetD [OF rng that] by (auto simp: nat_less_iff)
    with that wf show ?thesis unfolding used_sem_def wf_stable_def by (metis option.exhaust_sel)
  qed
  have "dom (sem_map st) = ?n ` marked (st_bm st)"
  proof (intro equalityI subsetI)
    fix x assume "x \<in> dom (sem_map st)"
    then obtain i sm where "used_sem st i sm" "sem_name sm = x" using sem_map_Some [OF wf] by blast
    then show "x \<in> ?n ` marked (st_bm st)" by (intro image_eqI [of _ _ "int i"]) (auto simp: used_sem_def)
  next
    fix x assume "x \<in> ?n ` marked (st_bm st)"
    then obtain i where "i \<in> marked (st_bm st)" "x = ?n i" by auto
    with u [of i] sem_map_Some [OF wf, of x] show "x \<in> dom (sem_map st)" by blast
  qed
  moreover have "inj_on ?n (marked (st_bm st))"
  proof (rule inj_onI)
    fix i j assume ij: "i \<in> marked (st_bm st)" "j \<in> marked (st_bm st)" "?n i = ?n j"
    have "nat i = nat j"
      using u [OF ij(1)] u [OF ij(2)] ij(3) wf unfolding wf_stable_def by blast
    with subsetD [OF rng ij(1)] subsetD [OF rng ij(2)] show "i = j" by auto
  qed
  ultimately show ?thesis by (simp add: card_image)
qed

lemma sem_map_full: "wf_stable st \<Longrightarrow> card (dom (sem_map st)) = 10 \<longleftrightarrow> marked (st_bm st) = {0..<10}"
proof
  assume wf: "wf_stable st" and c: "card (dom (sem_map st)) = 10"
  have "marked (st_bm st) \<subseteq> {0..<10}" using wf bm.used_range [of "st_bm st"] by (simp add: wf_stable_def)
  moreover have "card (marked (st_bm st)) = card {0..<10::int}" using dom_sem_map [OF wf] c by simp
  ultimately show "marked (st_bm st) = {0..<10}" by (simp add: card_subset_eq)
qed (simp add: dom_sem_map)

text \<open>Storing a semaphore of a new name in a slot that was free.\<close>

lemma store_sem:
  fixes s :: nat
  assumes wf: "wf_stable st" and n: "sem_map st name = None" and i: "i < 10" "int i \<notin> marked (st_bm st)"
    and b: "wf_bitmap b" "numBits b = 10" "marked b = insert (int i) (marked (st_bm st))"
  defines "st' \<equiv> \<lparr>st_bm = b, semTab = (semTab st)[i := Some \<lparr>sem_name = name, sem_ptr = s\<rparr>]\<rparr>"
  shows "wf_stable st' \<and> sem_map st' = (sem_map st)(name \<mapsto> s)"
proof
  have len: "length (semTab st) = 10" using wf by (simp add: wf_stable_def)
  have u: "used_sem st' j a \<longleftrightarrow> (if j = i then a = \<lparr>sem_name = name, sem_ptr = s\<rparr> else used_sem st j a)" for j a
    using i len by (auto simp: used_sem_def st'_def b nth_list_update)
  have free: "sem_name a \<noteq> name" if "used_sem st j a" for j a
    using n that sem_map_Some [OF wf, of name] by auto
  show wf': "wf_stable st'"
    unfolding wf_stable_def
  proof (intro conjI allI impI)
    fix j a j' a' assume "used_sem st' j a" "used_sem st' j' a'" "sem_name a = sem_name a'"
    with free wf show "j = j'" unfolding u wf_stable_def by (auto split: if_splits)
  qed (use wf b i len in \<open>auto simp: st'_def wf_stable_def nth_list_update\<close>)
  show "sem_map st' = (sem_map st)(name \<mapsto> s)"
  proof
    fix x
    have ni: "\<not> used_sem st i a" for a using i by (simp add: used_sem_def)
    have "(\<exists>j a. used_sem st' j a \<and> sem_name a = x \<and> sem_ptr a = y) \<longleftrightarrow>
        (name = x \<and> s = y) \<or> (\<exists>j a. used_sem st j a \<and> sem_name a = x \<and> sem_ptr a = y)" for y
      unfolding u using ni by (auto split: if_splits) (metis sem.select_convs)+
    then have "sem_map st' x = Some y \<longleftrightarrow> ((sem_map st)(name \<mapsto> s)) x = Some y" for y
      using free unfolding sem_map_Some [OF wf'] by (auto simp: sem_map_Some [OF wf])
    then show "sem_map st' x = ((sem_map st)(name \<mapsto> s)) x" by (metis option.exhaust)
  qed
qed

lemma STable_Create_ok:
  assumes wf: "wf_stable st" and len: "length name < 50"
  shows "\<exists>r st' k'. STable_Create name ini st k = Inr (r, st', k') \<and> wf_stable st' \<and>
    (if sem_map st name \<noteq> None \<or> card (dom (sem_map st)) = 10
     then r = -1 \<and> sem_map st' = sem_map st \<and> k' = k
     else r = 0 \<and> sem_map st' = (sem_map st)(name \<mapsto> fresh_sem k) \<and> k' = snd (new_Semaphore ini k))"
proof (cases "sem_map st name")
  case (Some s)
  with find_name_map [OF wf, of name] wf show ?thesis by (auto simp: STable_Create_def)
next
  case None
  then have f: "find_name name st [0..<10] = Inr None" using find_name_map [OF wf, of name] by simp
  have b: "wf_bitmap (st_bm st)" "numBits (st_bm st) = 10" "length (semTab st) = 10" using wf by (auto simp: wf_stable_def)
  show ?thesis
  proof (cases "marked (st_bm st) = {0..<10}")
    case True
    with bm.alloc_full [OF b(1)] b have "FindAndSet (st_bm st) = Inr (-1, st_bm st)" by simp
    with f True sem_map_full [OF wf] wf show ?thesis by (simp add: STable_Create_def STable_FindFreeSlot_def)
  next
    case False
    with bm.alloc_free [OF b(1)] b obtain i b' where
      i: "FindAndSet (st_bm st) = Inr (i, b')" "wf_bitmap b'" "numBits b' = 10" "i \<in> {0..<10} - marked (st_bm st)"
        "marked b' = insert i (marked (st_bm st))"
      by auto
    obtain k' where k': "new_Semaphore ini k = (fresh_sem k, k')" by (simp add: new_Semaphore_def)
    have n: "nat i < 10" using i(4) by (auto simp: nat_less_iff)
    let ?st = "\<lparr>st_bm = b', semTab = (semTab st)[nat i := Some \<lparr>sem_name = name, sem_ptr = fresh_sem k\<rparr>]\<rparr>"
    have "STable_Create name ini st k = Inr (0, ?st, k')"
      using f i n b len k' by (simp add: STable_Create_def STable_FindFreeSlot_def new_Sem_def)
    moreover have "wf_stable ?st \<and> sem_map ?st = (sem_map st)(name \<mapsto> fresh_sem k)"
      using store_sem [OF wf None n, of b' "fresh_sem k"] i by simp
    ultimately show ?thesis using None False sem_map_full [OF wf] k' by simp
  qed
qed

section \<open>Properties\<close>

text \<open>
  Property C13.  The semaphore table implements a map from names to semaphores with room for ten:
  CreateSemaphore fails exactly when the name exists or the table is full, and otherwise adds the
  new semaphore; Wait and Signal act on the semaphore of that name, and answer -1 for an unknown one.
\<close>

theorem STable_implements_map:
  assumes "wf_stable st" "length name < 50"
  shows "(\<exists>r st' k'. STable_Create name ini st k = Inr (r, st', k') \<and> wf_stable st' \<and>
      (if sem_map st name \<noteq> None \<or> card (dom (sem_map st)) = 10
       then r = -1 \<and> sem_map st' = sem_map st \<and> k' = k
       else r = 0 \<and> sem_map st' = (sem_map st)(name \<mapsto> fresh_sem k) \<and> k' = snd (new_Semaphore ini k))) \<and>
    STable_Signal name st k =
      (case sem_map st name of None \<Rightarrow> Inr (-1, k) | Some s \<Rightarrow> andThen (V s k) (\<lambda>k. Inr (0, k))) \<and>
    STable_Wait call name st k =
      (case sem_map st name of None \<Rightarrow> Some (Inr (-1, k))
       | Some s \<Rightarrow> bindR (P call s k) (\<lambda>k. Some (Inr (0, k))))"
proof (intro conjI)
  show "STable_Signal name st k =
      (case sem_map st name of None \<Rightarrow> Inr (-1, k) | Some s \<Rightarrow> andThen (V s k) (\<lambda>k. Inr (0, k)))"
    "STable_Wait call name st k =
      (case sem_map st name of None \<Rightarrow> Some (Inr (-1, k))
       | Some s \<Rightarrow> bindR (P call s k) (\<lambda>k. Some (Inr (0, k))))"
    using find_name_map [OF assms(1), of name]
    by (auto simp: STable_Signal_def STable_Wait_def split: option.splits)
qed (rule STable_Create_ok [OF assms])

definition one_sem :: stable where
  "one_sem = \<lparr>st_bm = \<lparr>numBits = 10, numWords = 1, bm_map = [2]\<rparr>,
     semTab = (replicate 10 None)[1 := Some \<lparr>sem_name = ''mutex'', sem_ptr = 4\<rparr>]\<rparr>"

lemma one_sem_ok: "wf_stable one_sem" "sem_map one_sem ''mutex'' = Some 4" "sem_map one_sem ''other'' = None"
proof -
  have m: "marked (st_bm one_sem) = {1}"
    by (auto simp: one_sem_def marked_def bit_2_iff)
  show wf: "wf_stable one_sem"
    by (auto simp: wf_stable_def used_sem_def m) (simp_all add: one_sem_def wf_bitmap_def divRoundUp_def nth_list_update)
  have "used_sem one_sem 1 \<lparr>sem_name = ''mutex'', sem_ptr = 4\<rparr>" by (simp add: used_sem_def m) (simp add: one_sem_def)
  then show "sem_map one_sem ''mutex'' = Some 4" using sem_map_Some [OF wf] by force
  show "sem_map one_sem ''other'' = None"
  proof (rule ccontr)
    assume "sem_map one_sem ''other'' \<noteq> None"
    then obtain i sm where "used_sem one_sem i sm" "sem_name sm = ''other''" using sem_map_Some [OF wf] by blast
    then show False by (simp add: used_sem_def m) (auto simp: one_sem_def)
  qed
qed

theorem STable_implements_map_witness:
  "STable_Signal ''other'' one_sem sample_kernel = Inr (-1, sample_kernel) \<and>
   (\<exists>st' k'. STable_Create ''mutex'' 1 one_sem sample_kernel = Inr (-1, st', k'))"
  using STable_implements_map [OF one_sem_ok(1), of "''other''" 0 sample_kernel kernel_call]
    STable_implements_map [OF one_sem_ok(1), of "''mutex''" 1 sample_kernel kernel_call] one_sem_ok(2,3)
  by auto

end
