(* ===== verification/Process.thy ===== *)
theory Process
  imports Bitmap
begin

text \<open>
  Processes: the process control blocks (\<^verbatim>\<open>threads/pcb.h\<close>, \<^verbatim>\<open>pcb.cc\<close>) and the process table
  (\<^verbatim>\<open>threads/ptable.h\<close>, \<^verbatim>\<open>ptable.cc\<close>) behind the system calls Exec, Join and Exit.

  The operations block and run interleaved.  Kernel code is preempted only where it re-enables
  interrupts, that is at the end of a semaphore operation, so each operation is a sequence of pieces
  that run without interruption; \<open>pc\<close> says which piece a thread executes next.  \<open>proc_chunk\<close> executes
  one piece, \<open>pstep\<close> interleaves the threads.  A semaphore is its value: \<open>P\<close> proceeds when the
  value is not zero (\<^verbatim>\<open>Synch\<close> has the queues and the scheduler below this).  Control blocks are
  objects on a heap, so that a pointer to a deleted one is seen as such.
\<close>

section \<open>State\<close>

definition MAXPROCESS :: nat where
  "MAXPROCESS = 10"

record pcb =
  joinsem :: int
  exitsem :: int
  multex :: int
  exitcode :: int
  numwait :: int
  pcb_thread :: "nat option"
  FileName :: string
  parentID :: int

text \<open>
  Where a thread is: starting (\<^verbatim>\<open>StartProcess_2\<close>), in user code with the result of its last
  call, or inside one of the three system calls.  A \<open>nat\<close> argument is the control block whose
  semaphore the piece uses, an \<open>int\<close> argument a process id, an exit code or a result.
\<close>

datatype pc =
    Start
  | User "int option"
  | Exec_bmsem_P "string option"
  | Exec_body "string option"
  | Exec_multex_P nat string int
  | Exec_fork nat string int
  | Exec_multex_V nat int
  | Exec_bmsem_V int
  | Join_check int
  | Join_multex_P nat int
  | Join_inc nat int
  | Join_wait int
  | Join_sem_P nat int
  | Join_read int
  | Exit_set int
  | Exit_multex_P nat int
  | Exit_dec nat int
  | Exit_release int
  | Exit_wait int
  | Exit_sem_P nat int
  | Exit_remove int

record proc =
  p_pid :: int
  p_name :: string
  p_pc :: pc

record ptab =
  pt_bm :: bitmap
  pcbs :: "nat option list"
  psize :: int
  bmsem :: int
  pcb_heap :: "nat \<Rightarrow> pcb option"
  fresh_pcb :: nat
  procs :: "nat \<Rightarrow> proc option"
  fresh_proc :: nat
  shut_down :: bool

section \<open>Access\<close>

definition goto :: "nat \<Rightarrow> pc \<Rightarrow> ptab \<Rightarrow> ptab" where
  "goto t c st = st\<lparr>procs := (procs st)(t := map_option (\<lambda>p. p\<lparr>p_pc := c\<rparr>) (procs st t))\<rparr>"

definition pcb_at :: "ptab \<Rightarrow> int \<Rightarrow> nat res" where
  "pcb_at st i =
     (if i < 0 \<or> nat i \<ge> length (pcbs st) then Inl Out_of_bounds
      else case pcbs st ! nat i of None \<Rightarrow> Inl Null_dereference | Some ob \<Rightarrow> Inr ob)"

definition with_pcb :: "nat \<Rightarrow> ptab \<Rightarrow> (pcb \<Rightarrow> 'b res) \<Rightarrow> 'b res" where
  "with_pcb ob st f = (case pcb_heap st ob of None \<Rightarrow> Inl Dangling_pointer | Some b \<Rightarrow> f b)"

definition put_pcb :: "nat \<Rightarrow> pcb \<Rightarrow> ptab \<Rightarrow> ptab" where
  "put_pcb ob b st = st\<lparr>pcb_heap := (pcb_heap st)(ob \<mapsto> b)\<rparr>"

section \<open>Process control blocks\<close>

text \<open>The constructor, with the creating process' id.\<close>

definition new_PCB :: "int \<Rightarrow> int \<Rightarrow> pcb" where
  "new_PCB ident creator =
     \<lparr>joinsem = 0, exitsem = 0, multex = 1, exitcode = 0, numwait = 0, pcb_thread = None, FileName = [],
      parentID = (if ident = 0 then -1 else creator)\<rparr>"

text \<open>\<^verbatim>\<open>SetFileName\<close>: \<^verbatim>\<open>strcpy\<close> into 32 bytes.\<close>

definition SetFileName :: "string \<Rightarrow> pcb \<Rightarrow> pcb res" where
  "SetFileName fn b = (if length fn \<ge> 32 then Inl Out_of_bounds else Inr (b\<lparr>FileName := fn\<rparr>))"

definition SetExitCode :: "int \<Rightarrow> pcb \<Rightarrow> pcb" where
  "SetExitCode ec b = b\<lparr>exitcode := ec\<rparr>"

definition IncNumWait_body :: "pcb \<Rightarrow> pcb" where
  "IncNumWait_body b = b\<lparr>numwait := numwait b + 1, multex := multex b + 1\<rparr>"

definition DecNumWait_body :: "pcb \<Rightarrow> pcb" where
  "DecNumWait_body b = b\<lparr>numwait := (if numwait b > 0 then numwait b - 1 else numwait b), multex := multex b + 1\<rparr>"

definition JoinRelease :: "pcb \<Rightarrow> pcb" where
  "JoinRelease b = b\<lparr>joinsem := joinsem b + 1\<rparr>"

definition ExitRelease :: "pcb \<Rightarrow> pcb" where
  "ExitRelease b = b\<lparr>exitsem := exitsem b + 1\<rparr>"

text \<open>
  \<open>P_on ob get put c t st\<close>: thread \<open>t\<close> does \<^verbatim>\<open>P\<close> on one semaphore of the control block and
  goes on at \<open>c\<close>; \<open>None\<close> while it waits.  Nobody signals a semaphore that was deleted.
\<close>

definition P_on :: "nat \<Rightarrow> (pcb \<Rightarrow> int) \<Rightarrow> ((int \<Rightarrow> int) \<Rightarrow> pcb \<Rightarrow> pcb) \<Rightarrow> pc \<Rightarrow> nat \<Rightarrow> ptab \<Rightarrow> ptab res option" where
  "P_on ob get put c t st =
     (case pcb_heap st ob of
        None \<Rightarrow> None
      | Some b \<Rightarrow> if get b = 0 then None
                  else Some (Inr (goto t c (put_pcb ob (put (\<lambda>v. v - 1) b) st))))"

text \<open>\<^verbatim>\<open>PCB::Exec\<close> after its \<^verbatim>\<open>multex->P()\<close>: the new thread is forked.\<close>

definition PCB_Exec_body :: "nat \<Rightarrow> string \<Rightarrow> int \<Rightarrow> int \<Rightarrow> ptab \<Rightarrow> ptab res" where
  "PCB_Exec_body ob filename pID me st =
     with_pcb ob st (\<lambda>b.
     Inr ((put_pcb ob (b\<lparr>pcb_thread := Some (fresh_proc st), parentID := me\<rparr>) st)
       \<lparr>procs := (procs st)(fresh_proc st \<mapsto> \<lparr>p_pid = pID, p_name = filename, p_pc = Start\<rparr>),
        fresh_proc := Suc (fresh_proc st)\<rparr>))"

text \<open>
  \<^verbatim>\<open>PCB::~PCB\<close>: the semaphores go, then \<^verbatim>\<open>thread->Finish()\<close>, which asserts that the thread is the
  current one and does not return.
\<close>

definition PCB_dtor :: "nat \<Rightarrow> nat \<Rightarrow> ptab \<Rightarrow> ptab res" where
  "PCB_dtor ob t st =
     with_pcb ob st (\<lambda>b.
     case pcb_thread b of
       None \<Rightarrow> Inr (st\<lparr>pcb_heap := (pcb_heap st)(ob := None)\<rparr>)
     | Some t' \<Rightarrow> ASSERT (t' = t)
         (Inr (st\<lparr>pcb_heap := (pcb_heap st)(ob := None), procs := (procs st)(t := None)\<rparr>)))"

section \<open>Process table\<close>

definition IsExist :: "int \<Rightarrow> ptab \<Rightarrow> bool res" where
  "IsExist pID st = (if pID < 0 \<or> pID \<ge> int MAXPROCESS then Inr False else Test (pt_bm st) pID)"

definition GetFreeSlot :: "ptab \<Rightarrow> (int \<times> ptab) res" where
  "GetFreeSlot st = andThen (FindAndSet (pt_bm st)) (\<lambda>(i, b). Inr (i, st\<lparr>pt_bm := b\<rparr>))"

text \<open>The main thread is thread 0 of process 0.\<close>

definition new_PTable :: "int \<Rightarrow> string \<Rightarrow> ptab res" where
  "new_PTable sz mainName =
     andThen (new_Bitmap sz) (\<lambda>b.
     andThen (Mark b 0) (\<lambda>b.
     Inr \<lparr>pt_bm = b, pcbs = (replicate MAXPROCESS None)[0 := Some 0], psize = sz, bmsem = 1,
          pcb_heap = [0 \<mapsto> (new_PCB 0 0)\<lparr>parentID := -1\<rparr>], fresh_pcb = 1,
          procs = [0 \<mapsto> \<lparr>p_pid = 0, p_name = mainName, p_pc = User None\<rparr>], fresh_proc = 1,
          shut_down = False\<rparr>))"

definition GetFileName :: "int \<Rightarrow> ptab \<Rightarrow> string res" where
  "GetFileName ident st = andThen (pcb_at st ident) (\<lambda>ob. with_pcb ob st (\<lambda>b. Inr (FileName b)))"

text \<open>
  \<^verbatim>\<open>ExecUpdate\<close> between its \<^verbatim>\<open>bmsem->P()\<close> and the first \<^verbatim>\<open>P\<close> of \<^verbatim>\<open>PCB::Exec\<close>.  \<open>openable\<close> tells
  whether \<^verbatim>\<open>FileSystem::Open\<close> succeeds on a name.
\<close>

definition ExecUpdate_body :: "(string \<Rightarrow> bool) \<Rightarrow> string option \<Rightarrow> nat \<Rightarrow> proc \<Rightarrow> ptab \<Rightarrow> ptab res" where
  "ExecUpdate_body openable filename t p st =
     (case filename of
        None \<Rightarrow> Inr (goto t (Exec_bmsem_V (-1)) st)
      | Some fn \<Rightarrow>
          if fn = p_name p then Inr (goto t (Exec_bmsem_V (-1)) st)
          else
            andThen (pcb_at st (p_pid p)) (\<lambda>mine.
            with_pcb mine st (\<lambda>_.
            if \<not> openable fn then Inr (goto t (Exec_bmsem_V (-1)) st)
            else
              andThen (GetFreeSlot st) (\<lambda>(idSlot, st).
              if idSlot = -1 then Inr (goto t (Exec_bmsem_V (-1)) st)
              else if nat idSlot \<ge> length (pcbs st) then Inl Out_of_bounds
              else
                andThen (SetFileName fn (new_PCB idSlot (p_pid p))) (\<lambda>b.
                andThen (Mark (pt_bm st) idSlot) (\<lambda>bm.
                let ob = fresh_pcb st
                in Inr (goto t (Exec_multex_P ob fn idSlot)
                     ((put_pcb ob (b\<lparr>parentID := p_pid p\<rparr>) st)
                      \<lparr>pcbs := (pcbs st)[nat idSlot := Some ob], fresh_pcb := Suc ob, pt_bm := bm\<rparr>))))))))"

definition JoinUpdate_check :: "int \<Rightarrow> nat \<Rightarrow> proc \<Rightarrow> ptab \<Rightarrow> ptab res" where
  "JoinUpdate_check pID t p st =
     andThen (IsExist pID st) (\<lambda>e.
     if \<not> e then Inr (goto t (User (Some (-1))) st)
     else if p_pid p = pID then Inr (goto t (User (Some (-1))) st)
     else
       andThen (pcb_at st pID) (\<lambda>ob.
       with_pcb ob st (\<lambda>b.
       if p_pid p \<noteq> parentID b then Inr (goto t (User (Some (-1))) st)
       else andThen (pcb_at st (parentID b)) (\<lambda>par. Inr (goto t (Join_multex_P par pID) st)))))"

definition JoinUpdate_finish :: "int \<Rightarrow> nat \<Rightarrow> ptab \<Rightarrow> ptab res" where
  "JoinUpdate_finish pID t st =
     andThen (pcb_at st pID) (\<lambda>ob.
     with_pcb ob st (\<lambda>b. Inr (goto t (User (Some (exitcode b))) (put_pcb ob (ExitRelease b) st))))"

definition ExitUpdate_set :: "int \<Rightarrow> nat \<Rightarrow> proc \<Rightarrow> ptab \<Rightarrow> ptab res" where
  "ExitUpdate_set ec t p st =
     (if p_pid p = 0 then Inr (st\<lparr>shut_down := True\<rparr>)
      else
        andThen (IsExist (p_pid p) st) (\<lambda>e.
        if \<not> e then Inr (goto t (User (Some (-1))) st)
        else
          andThen (pcb_at st (p_pid p)) (\<lambda>ob.
          with_pcb ob st (\<lambda>b.
          andThen (pcb_at st (parentID b)) (\<lambda>par.
          with_pcb par st (\<lambda>_.
          Inr (goto t (Exit_multex_P par ec) (put_pcb ob (SetExitCode ec b) st))))))))"

definition PTable_Remove :: "int \<Rightarrow> nat \<Rightarrow> ptab \<Rightarrow> ptab res" where
  "PTable_Remove pID t st =
     (if pID < 0 \<or> pID \<ge> int MAXPROCESS then Inr st
      else andThen (Test (pt_bm st) pID) (\<lambda>e.
           if e then
             andThen (Clear (pt_bm st) pID) (\<lambda>b.
             andThen (pcb_at st pID) (\<lambda>ob. PCB_dtor ob t (st\<lparr>pt_bm := b\<rparr>)))
           else Inr st))"

section \<open>One uninterrupted piece of a thread\<close>

fun proc_chunk :: "(string \<Rightarrow> bool) \<Rightarrow> nat \<Rightarrow> proc \<Rightarrow> pc \<Rightarrow> ptab \<Rightarrow> ptab res option" where
  "proc_chunk openable t p Start st = Some (andThen (GetFileName (p_pid p) st) (\<lambda>_. Inr (goto t (User None) st)))"
| "proc_chunk openable t p (User r) st = None"
| "proc_chunk openable t p (Exec_bmsem_P fn) st =
     (if bmsem st = 0 then None else Some (Inr (goto t (Exec_body fn) (st\<lparr>bmsem := bmsem st - 1\<rparr>))))"
| "proc_chunk openable t p (Exec_body fn) st = Some (ExecUpdate_body openable fn t p st)"
| "proc_chunk openable t p (Exec_multex_P ob fn i) st = P_on ob multex multex_update (Exec_fork ob fn i) t st"
| "proc_chunk openable t p (Exec_fork ob fn i) st =
     Some (andThen (PCB_Exec_body ob fn i (p_pid p) st) (\<lambda>st. Inr (goto t (Exec_multex_V ob i) st)))"
| "proc_chunk openable t p (Exec_multex_V ob i) st =
     Some (with_pcb ob st (\<lambda>b. Inr (goto t (Exec_bmsem_V i) (put_pcb ob (b\<lparr>multex := multex b + 1\<rparr>) st))))"
| "proc_chunk openable t p (Exec_bmsem_V r) st = Some (Inr (goto t (User (Some r)) (st\<lparr>bmsem := bmsem st + 1\<rparr>)))"
| "proc_chunk openable t p (Join_check pID) st = Some (JoinUpdate_check pID t p st)"
| "proc_chunk openable t p (Join_multex_P ob pID) st = P_on ob multex multex_update (Join_inc ob pID) t st"
| "proc_chunk openable t p (Join_inc ob pID) st =
     Some (with_pcb ob st (\<lambda>b. Inr (goto t (Join_wait pID) (put_pcb ob (IncNumWait_body b) st))))"
| "proc_chunk openable t p (Join_wait pID) st =
     Some (andThen (pcb_at st pID) (\<lambda>ob. with_pcb ob st (\<lambda>_. Inr (goto t (Join_sem_P ob pID) st))))"
| "proc_chunk openable t p (Join_sem_P ob pID) st = P_on ob joinsem joinsem_update (Join_read pID) t st"
| "proc_chunk openable t p (Join_read pID) st = Some (JoinUpdate_finish pID t st)"
| "proc_chunk openable t p (Exit_set ec) st = Some (ExitUpdate_set ec t p st)"
| "proc_chunk openable t p (Exit_multex_P ob ec) st = P_on ob multex multex_update (Exit_dec ob ec) t st"
| "proc_chunk openable t p (Exit_dec ob ec) st =
     Some (with_pcb ob st (\<lambda>b. Inr (goto t (Exit_release ec) (put_pcb ob (DecNumWait_body b) st))))"
| "proc_chunk openable t p (Exit_release ec) st =
     Some (andThen (pcb_at st (p_pid p)) (\<lambda>ob. with_pcb ob st (\<lambda>b.
           Inr (goto t (Exit_wait ec) (put_pcb ob (JoinRelease b) st)))))"
| "proc_chunk openable t p (Exit_wait ec) st =
     Some (andThen (pcb_at st (p_pid p)) (\<lambda>ob. with_pcb ob st (\<lambda>_. Inr (goto t (Exit_sem_P ob ec) st))))"
| "proc_chunk openable t p (Exit_sem_P ob ec) st = P_on ob exitsem exitsem_update (Exit_remove ec) t st"
| "proc_chunk openable t p (Exit_remove ec) st = Some (PTable_Remove (p_pid p) t st)"

section \<open>Interleavings\<close>

datatype pcall = Call_Exec "string option" | Call_Join int | Call_Exit int

fun entry_pc :: "pcall \<Rightarrow> pc" where
  "entry_pc (Call_Exec fn) = Exec_bmsem_P fn"
| "entry_pc (Call_Join pID) = Join_check pID"
| "entry_pc (Call_Exit ec) = Exit_set ec"

inductive pstep :: "(string \<Rightarrow> bool) \<Rightarrow> ptab \<Rightarrow> ptab \<Rightarrow> bool" for openable where
  pcall: "\<not> shut_down st \<Longrightarrow> procs st t = Some p \<Longrightarrow> p_pc p = User r \<Longrightarrow> pstep openable st (goto t (entry_pc c) st)"
| prun: "\<not> shut_down st \<Longrightarrow> procs st t = Some p \<Longrightarrow> proc_chunk openable t p (p_pc p) st = Some (Inr st') \<Longrightarrow>
     pstep openable st st'"

text \<open>A schedule names the thread that goes on next, and the call it makes when it is in user code.\<close>

fun play1 :: "(string \<Rightarrow> bool) \<Rightarrow> nat \<times> pcall option \<Rightarrow> ptab \<Rightarrow> ptab res option" where
  "play1 openable (t, c) st =
     (case procs st t of
        None \<Rightarrow> None
      | Some p \<Rightarrow> if shut_down st then None
          else (case c of
                  Some call \<Rightarrow> (case p_pc p of User _ \<Rightarrow> Some (Inr (goto t (entry_pc call) st)) | _ \<Rightarrow> None)
                | None \<Rightarrow> proc_chunk openable t p (p_pc p) st))"

fun play :: "(string \<Rightarrow> bool) \<Rightarrow> (nat \<times> pcall option) list \<Rightarrow> ptab \<Rightarrow> ptab res option" where
  "play openable [] st = Some (Inr st)"
| "play openable (s # ss) st =
     (case play1 openable s st of
        None \<Rightarrow> None
      | Some (Inl e) \<Rightarrow> Some (Inl e)
      | Some (Inr st) \<Rightarrow> play openable ss st)"

section \<open>Invariant\<close>

text \<open>
  Live control blocks are those in the slots the bitmap has marked.  A thread of process \<open>i\<close> is the
  thread its control block names (thread 0 for the main process).  A block whose creator has not
  forked yet has no thread.
\<close>

definition live_at :: "ptab \<Rightarrow> int \<Rightarrow> nat \<Rightarrow> pcb \<Rightarrow> bool" where
  "live_at st i ob b \<longleftrightarrow> 0 \<le> i \<and> i < 10 \<and> pcbs st ! nat i = Some ob \<and> pcb_heap st ob = Some b"

definition slots_ok :: "ptab \<Rightarrow> bool" where
  "slots_ok st \<longleftrightarrow>
     wf_bitmap (pt_bm st) \<and> numBits (pt_bm st) = 10 \<and> length (pcbs st) = 10 \<and>
     (\<forall>i. 0 \<le> i \<and> i < 10 \<longrightarrow> (i \<in> marked (pt_bm st) \<longleftrightarrow> (\<exists>ob b. live_at st i ob b))) \<and>
     (\<forall>i j ob b c. live_at st i ob b \<longrightarrow> live_at st j ob c \<longrightarrow> i = j) \<and>
     (\<forall>ob b. pcb_heap st ob = Some b \<longrightarrow> ob < fresh_pcb st) \<and>
     (\<forall>i<10. \<forall>ob. pcbs st ! i = Some ob \<longrightarrow> ob < fresh_pcb st)"

definition threads_ok :: "ptab \<Rightarrow> bool" where
  "threads_ok st \<longleftrightarrow>
     (\<forall>t p. procs st t = Some p \<longrightarrow> t < fresh_proc st \<and>
        (\<exists>ob b. live_at st (p_pid p) ob b \<and> (if p_pid p = 0 then t = 0 else pcb_thread b = Some t))) \<and>
     (\<forall>i ob b t. live_at st i ob b \<longrightarrow> pcb_thread b = Some t \<longrightarrow> t < fresh_proc st)"

fun makes :: "pc \<Rightarrow> nat \<Rightarrow> int \<Rightarrow> bool" where
  "makes (Exec_multex_P ob fn i) ob' j \<longleftrightarrow> ob = ob' \<and> i = j"
| "makes (Exec_fork ob fn i) ob' j \<longleftrightarrow> ob = ob' \<and> i = j"
| "makes _ _ _ \<longleftrightarrow> False"

text \<open>A thread that is creating a process owns a block that is in its slot and has no thread yet.\<close>

definition makers_ok :: "ptab \<Rightarrow> bool" where
  "makers_ok st \<longleftrightarrow>
     (\<forall>t p ob i. procs st t = Some p \<longrightarrow> makes (p_pc p) ob i \<longrightarrow>
        i \<noteq> 0 \<and> (\<exists>b. live_at st i ob b \<and> pcb_thread b = None)) \<and>
     (\<forall>t p t' p' ob i j. procs st t = Some p \<longrightarrow> procs st t' = Some p' \<longrightarrow> makes (p_pc p) ob i \<longrightarrow>
        makes (p_pc p') ob j \<longrightarrow> t = t')"

text \<open>
  \<open>leaving c = Some ec\<close>: the thread has released its parent's join with exit code \<open>ec\<close> and waits for
  permission to end; \<open>reads c i\<close>: the thread has passed the join semaphore of process \<open>i\<close>.
\<close>

fun leaving :: "pc \<Rightarrow> int option" where
  "leaving (Exit_wait ec) = Some ec"
| "leaving (Exit_sem_P ob ec) = Some ec"
| "leaving _ = None"

fun exiting :: "pc \<Rightarrow> int option" where
  "exiting (Exit_multex_P ob ec) = Some ec"
| "exiting (Exit_dec ob ec) = Some ec"
| "exiting (Exit_release ec) = Some ec"
| "exiting (Exit_wait ec) = Some ec"
| "exiting (Exit_sem_P ob ec) = Some ec"
| "exiting (Exit_remove ec) = Some ec"
| "exiting _ = None"

definition readers :: "ptab \<Rightarrow> int \<Rightarrow> nat set" where
  "readers st i = {t. \<exists>p. procs st t = Some p \<and> p_pc p = Join_read i}"

definition left :: "ptab \<Rightarrow> int \<Rightarrow> bool" where
  "left st i \<longleftrightarrow> (\<exists>t p. procs st t = Some p \<and> p_pid p = i \<and> leaving (p_pc p) \<noteq> None)"

text \<open>
  The permission to end is in one place: in the join semaphore, with the one thread that passed it,
  or in the exit semaphore; and it exists exactly while the process is leaving.
\<close>

definition token :: "bool \<Rightarrow> pcb \<Rightarrow> nat set \<Rightarrow> bool" where
  "token lv b R \<longleftrightarrow>
     (if lv then (joinsem b = 1 \<and> exitsem b = 0 \<and> R = {}) \<or> (joinsem b = 0 \<and> exitsem b = 1 \<and> R = {}) \<or>
                 (joinsem b = 0 \<and> exitsem b = 0 \<and> (\<exists>t. R = {t}))
      else joinsem b = 0 \<and> exitsem b = 0 \<and> R = {})"

definition token_ok :: "ptab \<Rightarrow> bool" where
  "token_ok st \<longleftrightarrow>
     (\<forall>i ob b. live_at st i ob b \<longrightarrow> token (left st i) b (readers st i)) \<and>
     (\<forall>i. readers st i \<noteq> {} \<longrightarrow> (\<exists>ob b. live_at st i ob b)) \<and>
     (\<forall>t p ob b ec. procs st t = Some p \<longrightarrow> live_at st (p_pid p) ob b \<longrightarrow> exiting (p_pc p) = Some ec \<longrightarrow>
        p_pid p \<noteq> 0 \<and> exitcode b = ec)"

definition joins_ok :: "ptab \<Rightarrow> bool" where
  "joins_ok st \<longleftrightarrow>
     (\<forall>t p ob i. procs st t = Some p \<longrightarrow> p_pc p = Join_sem_P ob i \<longrightarrow>
        0 \<le> i \<and> i < 10 \<and> ob < fresh_pcb st \<and> (pcb_heap st ob = None \<or> pcbs st ! nat i = Some ob)) \<and>
     (\<forall>t p ob ec. procs st t = Some p \<longrightarrow> p_pc p = Exit_sem_P ob ec \<longrightarrow> (\<exists>b. live_at st (p_pid p) ob b))"

definition process_inv :: "ptab \<Rightarrow> bool" where
  "process_inv st \<longleftrightarrow> slots_ok st \<and> threads_ok st \<and> makers_ok st \<and> token_ok st \<and> joins_ok st"

section \<open>Every step keeps the invariant\<close>

text \<open>The shape of most steps: one thread moves on and one control block changes.\<close>

definition upd :: "nat \<Rightarrow> pc \<Rightarrow> nat \<Rightarrow> pcb \<Rightarrow> ptab \<Rightarrow> ptab" where
  "upd t c ob b st = goto t c (put_pcb ob b st)"

lemma upd_simps [simp]:
  "pt_bm (upd t c ob b st) = pt_bm st" "pcbs (upd t c ob b st) = pcbs st"
  "pcb_heap (upd t c ob b st) = (pcb_heap st)(ob \<mapsto> b)" "fresh_pcb (upd t c ob b st) = fresh_pcb st"
  "fresh_proc (upd t c ob b st) = fresh_proc st" "shut_down (upd t c ob b st) = shut_down st"
  by (simp_all add: upd_def goto_def put_pcb_def)

lemma procs_upd [simp]:
  "procs st t = Some p \<Longrightarrow> procs (upd t c ob b st) = (procs st)(t \<mapsto> p\<lparr>p_pc := c\<rparr>)"
  by (simp add: upd_def goto_def put_pcb_def)

lemma goto_upd: "pcb_heap st ob = Some b \<Longrightarrow> goto t c st = upd t c ob b st"
  by (auto simp: upd_def goto_def put_pcb_def map_upd_triv)

lemma live_upd [simp]:
  "pcb_heap st ob = Some b0 \<Longrightarrow>
   live_at (upd t c ob b st) i ob' b' \<longleftrightarrow> (if ob' = ob then b' = b \<and> live_at st i ob b0 else live_at st i ob' b')"
  by (auto simp: live_at_def)

lemma live_upd_ex:
  "pcb_heap st ob = Some b0 \<Longrightarrow> (\<exists>ob' b'. live_at (upd t c ob b st) i ob' b') \<longleftrightarrow> (\<exists>ob' b'. live_at st i ob' b')"
  by (auto simp: live_at_def)

lemma inv_bmsem [simp]: "process_inv (st\<lparr>bmsem := x\<rparr>) = process_inv st"
proof -
  have "live_at (st\<lparr>bmsem := x\<rparr>) = live_at st" by (simp add: live_at_def fun_eq_iff)
  then show ?thesis
    by (simp add: process_inv_def slots_ok_def threads_ok_def makers_ok_def token_ok_def joins_ok_def readers_def left_def)
qed

lemma live_unique: "live_at st i ob b \<Longrightarrow> live_at st i ob' b' \<Longrightarrow> ob' = ob \<and> b' = b"
  by (auto simp: live_at_def)

lemma own_block:
  assumes "process_inv st" "procs st t = Some p"
  obtains ob b where "live_at st (p_pid p) ob b" "if p_pid p = 0 then t = 0 else pcb_thread b = Some t" "t < fresh_proc st"
  using assms unfolding process_inv_def threads_ok_def by blast

lemma pid_unique:
  assumes "process_inv st" "procs st t = Some p" "procs st t' = Some p'" "p_pid p' = p_pid p"
  shows "t' = t"
proof -
  obtain ob b where 1: "live_at st (p_pid p) ob b" "if p_pid p = 0 then t = 0 else pcb_thread b = Some t"
    by (rule own_block [OF assms(1,2)])
  obtain ob' b' where 2: "live_at st (p_pid p') ob' b'" "if p_pid p' = 0 then t' = 0 else pcb_thread b' = Some t'"
    by (rule own_block [OF assms(1,3)])
  from live_unique [of st "p_pid p" ob b ob' b'] 1 2 assms(4) show ?thesis by (auto split: if_splits)
qed

lemma upd_frame:
  assumes inv: "process_inv st" and p: "procs st t = Some p" and ob: "pcb_heap st ob = Some b0"
    and th: "pcb_thread b = pcb_thread b0"
    and mk: "\<And>ob i. makes c ob i \<Longrightarrow> makes (p_pc p) ob i"
    and js: "\<And>ob i. c = Join_sem_P ob i \<Longrightarrow> \<exists>b. live_at st i ob b"
    and es: "\<And>ob ec. c = Exit_sem_P ob ec \<Longrightarrow> \<exists>b. live_at st (p_pid p) ob b"
  shows "slots_ok (upd t c ob b st) \<and> threads_ok (upd t c ob b st) \<and> makers_ok (upd t c ob b st) \<and> joins_ok (upd t c ob b st)"
proof (intro conjI)
  let ?s = "upd t c ob b st"
  have T: "slots_ok st" "threads_ok st" "makers_ok st" "joins_ok st" using inv by (auto simp: process_inv_def)
  note ex = live_upd_ex [OF ob]
  show "slots_ok ?s"
    unfolding slots_ok_def ex
  proof (intro conjI allI impI)
    fix i j ob' c1 c2 assume "live_at ?s i ob' c1" "live_at ?s j ob' c2"
    then have "\<exists>d1 d2. live_at st i ob' d1 \<and> live_at st j ob' d2" using ob by (auto split: if_splits)
    then show "i = j" using T(1) unfolding slots_ok_def by blast
  qed (use T(1) ob in \<open>auto simp: slots_ok_def split: if_splits\<close>)
  show "threads_ok ?s"
    unfolding threads_ok_def
  proof (intro conjI allI impI)
    fix t' p' assume "procs ?s t' = Some p'"
    then obtain q where q: "procs st t' = Some q" "p_pid p' = p_pid q" using p by (auto split: if_splits)
    obtain o1 b1 where o1: "live_at st (p_pid q) o1 b1" "if p_pid q = 0 then t' = 0 else pcb_thread b1 = Some t'" "t' < fresh_proc st"
      by (rule own_block [OF inv q(1)])
    show "t' < fresh_proc ?s" using o1 by simp
    show "\<exists>ob' b'. live_at ?s (p_pid p') ob' b' \<and> (if p_pid p' = 0 then t' = 0 else pcb_thread b' = Some t')"
    proof (cases "o1 = ob")
      case True
      with o1 ob have "b1 = b0" by (simp add: live_at_def)
      with True o1 q th ob show ?thesis by (intro exI [of _ ob] exI [of _ b]) (simp split: if_splits)
    next
      case False
      with o1 q ob show ?thesis by (intro exI [of _ o1] exI [of _ b1]) simp
    qed
  next
    fix i ob' b' t' assume "live_at ?s i ob' b'" "pcb_thread b' = Some t'"
    then show "t' < fresh_proc ?s" using T(2) th ob unfolding threads_ok_def by (auto split: if_splits)
  qed
  show "makers_ok ?s"
    unfolding makers_ok_def
  proof (intro conjI allI impI)
    fix t' p' ob' i assume a: "procs ?s t' = Some p'" "makes (p_pc p') ob' i"
    then obtain q where q: "procs st t' = Some q" "makes (p_pc q) ob' i" using p mk by (auto split: if_splits)
    then obtain b' where b': "live_at st i ob' b'" "pcb_thread b' = None" "i \<noteq> 0" using T(3) unfolding makers_ok_def by blast
    then show "i \<noteq> 0" by simp
    show "\<exists>b. live_at ?s i ob' b \<and> pcb_thread b = None"
      using b' th ob by (cases "ob' = ob") (auto simp: live_at_def)
  next
    fix t1 p1 t2 p2 ob' i j
    assume "procs ?s t1 = Some p1" "procs ?s t2 = Some p2" "makes (p_pc p1) ob' i" "makes (p_pc p2) ob' j"
    then have "\<exists>q1 q2. procs st t1 = Some q1 \<and> procs st t2 = Some q2 \<and> makes (p_pc q1) ob' i \<and> makes (p_pc q2) ob' j"
      using p mk by (auto split: if_splits)
    then show "t1 = t2" using T(3) unfolding makers_ok_def by blast
  qed
  show "joins_ok ?s"
    unfolding joins_ok_def
  proof (intro conjI allI impI)
    fix t' p' ob' i assume a: "procs ?s t' = Some p'" "p_pc p' = Join_sem_P ob' i"
    have "0 \<le> i \<and> i < 10 \<and> ob' < fresh_pcb st \<and> (pcb_heap st ob' = None \<or> pcbs st ! nat i = Some ob')"
    proof (cases "t' = t")
      case True
      with a p js obtain b where "live_at st i ob' b" by auto
      with T(1) show ?thesis by (auto simp: live_at_def slots_ok_def)
    next
      case False
      with a T(4) p show ?thesis unfolding joins_ok_def by auto
    qed
    then show "0 \<le> i" "i < 10" "ob' < fresh_pcb ?s" "pcb_heap ?s ob' = None \<or> pcbs ?s ! nat i = Some ob'"
      using ob by auto
  next
    fix t' p' ob' ec assume a: "procs ?s t' = Some p'" "p_pc p' = Exit_sem_P ob' ec"
    have "\<exists>b. live_at st (p_pid p') ob' b"
    proof (cases "t' = t")
      case True
      with a p es show ?thesis by auto
    next
      case False
      with a T(4) p show ?thesis unfolding joins_ok_def by auto
    qed
    then show "\<exists>b. live_at ?s (p_pid p') ob' b" using ob by (auto simp: live_at_def)
  qed
qed

lemma upd_views:
  assumes "procs st t = Some p"
  shows "readers (upd t c ob b st) i = (if c = Join_read i then insert t (readers st i) else readers st i - {t})"
    and "left (upd t c ob b st) i \<longleftrightarrow> (p_pid p = i \<and> leaving c \<noteq> None) \<or>
       (\<exists>t' q. t' \<noteq> t \<and> procs st t' = Some q \<and> p_pid q = i \<and> leaving (p_pc q) \<noteq> None)"
  using assms by (auto simp: readers_def left_def)

lemma left_split:
  assumes "procs st t = Some p"
  shows "left st i \<longleftrightarrow> (p_pid p = i \<and> leaving (p_pc p) \<noteq> None) \<or>
       (\<exists>t' q. t' \<noteq> t \<and> procs st t' = Some q \<and> p_pid q = i \<and> leaving (p_pc q) \<noteq> None)"
  using assms unfolding left_def by (metis option.inject)

text \<open>Steps that leave the permission to end alone.\<close>

lemma upd_neutral:
  assumes inv: "process_inv st" and p: "procs st t = Some p" and ob: "pcb_heap st ob = Some b0"
    and th: "pcb_thread b = pcb_thread b0" "joinsem b = joinsem b0" "exitsem b = exitsem b0" "exitcode b = exitcode b0"
    and mk: "\<And>ob i. makes c ob i \<Longrightarrow> makes (p_pc p) ob i"
    and js: "\<And>ob i. c = Join_sem_P ob i \<Longrightarrow> \<exists>b. live_at st i ob b"
    and es: "\<And>ob ec. c = Exit_sem_P ob ec \<Longrightarrow> \<exists>b. live_at st (p_pid p) ob b"
    and lv: "leaving c = leaving (p_pc p)" and rd: "\<And>i. c = Join_read i \<longleftrightarrow> p_pc p = Join_read i"
    and ex: "\<And>ec. exiting c = Some ec \<Longrightarrow> exiting (p_pc p) = Some ec"
  shows "process_inv (upd t c ob b st)"
proof -
  let ?s = "upd t c ob b st"
  have r: "readers ?s = readers st"
  proof
    fix i
    have "t \<in> readers st i \<longleftrightarrow> c = Join_read i" using p rd [of i] by (simp add: readers_def)
    then show "readers ?s i = readers st i" by (auto simp: upd_views(1) [OF p])
  qed
  have l: "left ?s = left st" unfolding fun_eq_iff upd_views(2) [OF p] left_split [OF p] lv by simp
  have K: "token_ok st" using inv by (simp add: process_inv_def)
  have "token_ok ?s"
    unfolding token_ok_def r l
  proof (intro conjI allI impI)
    fix i ob' b' assume "live_at ?s i ob' b'"
    then obtain b1 where "live_at st i ob' b1" "joinsem b' = joinsem b1" "exitsem b' = exitsem b1"
      using ob th by (auto split: if_splits)
    with K show "token (left st i) b' (readers st i)" unfolding token_ok_def token_def by metis
  next
    fix i assume "readers st i \<noteq> {}"
    with K show "\<exists>ob b. live_at ?s i ob b" unfolding live_upd_ex [OF ob] token_ok_def by blast
  next
    fix t' q ob' b' ec assume a: "procs ?s t' = Some q" "live_at ?s (p_pid q) ob' b'" "exiting (p_pc q) = Some ec"
    obtain q0 where q0: "procs st t' = Some q0" "p_pid q0 = p_pid q" "exiting (p_pc q0) = Some ec"
      using a(1,3) p ex by (auto split: if_splits)
    obtain b1 where "live_at st (p_pid q0) ob' b1" "exitcode b' = exitcode b1"
      using a(2) q0(2) ob th by (auto split: if_splits)
    with K q0 show "p_pid q \<noteq> 0" "exitcode b' = ec" unfolding token_ok_def by metis+
  qed
  with upd_frame [OF inv p ob th(1) mk js es] show ?thesis by (simp add: process_inv_def)
qed

lemma goto_neutral:
  assumes inv: "process_inv st" and p: "procs st t = Some p"
    and "\<And>ob i. makes c ob i \<Longrightarrow> makes (p_pc p) ob i"
    and "\<And>ob i. c = Join_sem_P ob i \<Longrightarrow> \<exists>b. live_at st i ob b"
    and "\<And>ob ec. c = Exit_sem_P ob ec \<Longrightarrow> \<exists>b. live_at st (p_pid p) ob b"
    and "leaving c = leaving (p_pc p)" "\<And>i. c = Join_read i \<longleftrightarrow> p_pc p = Join_read i"
    and "\<And>ec. exiting c = Some ec \<Longrightarrow> exiting (p_pc p) = Some ec"
  shows "process_inv (goto t c st)"
proof -
  obtain ob b where "live_at st (p_pid p) ob b" by (rule own_block [OF inv p])
  then have h: "pcb_heap st ob = Some b" by (simp add: live_at_def)
  show ?thesis unfolding goto_upd [OF h] by (rule upd_neutral [OF inv p h]) (use assms in auto)
qed

text \<open>The pieces of Exit and Join that move the permission.\<close>

lemma pcb_at_Inr:
  "process_inv st \<Longrightarrow> pcb_at st i = Inr ob \<Longrightarrow> pcb_heap st ob = Some b \<Longrightarrow> live_at st i ob b"
  by (auto simp: process_inv_def slots_ok_def pcb_at_def live_at_def split: if_splits option.splits)

lemma token_step:
  assumes inv: "process_inv st" and p: "procs st t = Some p" and live: "live_at st i ob b0"
    and th: "pcb_thread b = pcb_thread b0" "exitcode b = exitcode b0"
    and c: "\<And>ob i. \<not> makes c ob i" "\<And>ob i. c \<noteq> Join_sem_P ob i" "\<And>ob ec. c \<noteq> Exit_sem_P ob ec"
    and ex: "\<And>ec. exiting c = Some ec \<Longrightarrow> exiting (p_pc p) = Some ec"
    and tk: "token (left (upd t c ob b st) i) b (readers (upd t c ob b st) i)"
    and other: "\<And>j. j \<noteq> i \<Longrightarrow> left (upd t c ob b st) j = left st j \<and> readers (upd t c ob b st) j = readers st j"
  shows "process_inv (upd t c ob b st)"
proof -
  let ?s = "upd t c ob b st"
  have ob: "pcb_heap st ob = Some b0" using live by (simp add: live_at_def)
  have K: "token_ok st" and T: "slots_ok st" using inv by (auto simp: process_inv_def)
  have "token_ok ?s"
    unfolding token_ok_def live_upd_ex [OF ob]
  proof (intro conjI allI impI)
    fix j ob' b' assume a: "live_at ?s j ob' b'"
    show "token (left ?s j) b' (readers ?s j)"
    proof (cases "j = i")
      case True
      with a live ob have "b' = b" by (auto simp: live_at_def)
      with tk True show ?thesis by simp
    next
      case False
      have "ob' \<noteq> ob"
      proof
        assume "ob' = ob"
        with a ob have "live_at st j ob b0" by simp
        with live T False show False unfolding slots_ok_def by blast
      qed
      with a ob have "live_at st j ob' b'" by simp
      with K other [OF False] show ?thesis by (auto simp: token_ok_def)
    qed
  next
    fix j assume a: "readers ?s j \<noteq> {}"
    show "\<exists>ob b. live_at st j ob b"
      using K other [of j] a live unfolding token_ok_def by (cases "j = i") auto
  next
    fix t' q ob' b' ec assume a: "procs ?s t' = Some q" "live_at ?s (p_pid q) ob' b'" "exiting (p_pc q) = Some ec"
    obtain q0 where q0: "procs st t' = Some q0" "p_pid q0 = p_pid q" "exiting (p_pc q0) = Some ec"
      using a(1,3) p ex by (auto split: if_splits)
    obtain b1 where "live_at st (p_pid q0) ob' b1" "exitcode b' = exitcode b1"
      using a(2) q0(2) ob th by (auto split: if_splits)
    with K q0 show "p_pid q \<noteq> 0" "exitcode b' = ec" unfolding token_ok_def by metis+
  qed
  moreover have "slots_ok ?s \<and> threads_ok ?s \<and> makers_ok ?s \<and> joins_ok ?s"
    by (rule upd_frame [OF inv p ob th(1)]) (use c in auto)
  ultimately show ?thesis by (simp add: process_inv_def)
qed

lemma live_token: "process_inv st \<Longrightarrow> live_at st i ob b \<Longrightarrow> token (left st i) b (readers st i)"
  by (auto simp: process_inv_def token_ok_def)

lemma not_reader: "procs st t = Some p \<Longrightarrow> p_pc p \<noteq> Join_read i \<Longrightarrow> t \<notin> readers st i"
  by (auto simp: readers_def)

lemma left_self:
  assumes "process_inv st" "procs st t = Some p"
  shows "left st (p_pid p) \<longleftrightarrow> leaving (p_pc p) \<noteq> None"
    and "left (upd t c ob b st) (p_pid p) \<longleftrightarrow> leaving c \<noteq> None"
    and "j \<noteq> p_pid p \<Longrightarrow> left (upd t c ob b st) j = left st j"
proof -
  have no: "\<not> (\<exists>t' q. t' \<noteq> t \<and> procs st t' = Some q \<and> p_pid q = p_pid p \<and> leaving (p_pc q) \<noteq> None)"
    using pid_unique [OF assms] by metis
  show "left st (p_pid p) \<longleftrightarrow> leaving (p_pc p) \<noteq> None" "left (upd t c ob b st) (p_pid p) \<longleftrightarrow> leaving c \<noteq> None"
    using no unfolding upd_views(2) [OF assms(2)] left_split [OF assms(2)] by blast+
  show "j \<noteq> p_pid p \<Longrightarrow> left (upd t c ob b st) j = left st j"
    unfolding upd_views(2) [OF assms(2)] left_split [OF assms(2)] by blast
qed

lemma Join_pass:
  assumes inv: "process_inv st" and p: "procs st t = Some p" "p_pc p = Join_sem_P ob i"
    and b: "pcb_heap st ob = Some b" "joinsem b \<noteq> 0"
  shows "process_inv (upd t (Join_read i) ob (b\<lparr>joinsem := joinsem b - 1\<rparr>) st)"
proof -
  have "0 \<le> i \<and> i < 10 \<and> (pcb_heap st ob = None \<or> pcbs st ! nat i = Some ob)"
    using inv p unfolding process_inv_def joins_ok_def by blast
  with b(1) have live: "live_at st i ob b" by (simp add: live_at_def)
  have tk: "token (left st i) b (readers st i)" by (rule live_token [OF inv live])
  have lv: "left (upd t (Join_read i) ob b' st) j = left st j" for j b'
    unfolding upd_views(2) [OF p(1)] left_split [OF p(1)] p(2) by simp
  have r: "t \<notin> readers st j" for j using not_reader [OF p(1)] p(2) by simp
  show ?thesis
    by (rule token_step [OF inv p(1) live]) (use tk b(2) r p(2) in \<open>auto simp: lv upd_views(1) [OF p(1)] token_def split: if_splits\<close>)
qed

lemma Join_finish:
  assumes inv: "process_inv st" and p: "procs st t = Some p" "p_pc p = Join_read i" and live: "live_at st i ob b"
  shows "process_inv (upd t (User r) ob (b\<lparr>exitsem := exitsem b + 1\<rparr>) st)"
proof -
  have tk: "token (left st i) b (readers st i)" by (rule live_token [OF inv live])
  have lv: "left (upd t (User r) ob b' st) j = left st j" for j b'
    unfolding upd_views(2) [OF p(1)] left_split [OF p(1)] p(2) by simp
  have "t \<in> readers st i" using p by (auto simp: readers_def)
  with tk have tk: "left st i" "readers st i = {t}" "joinsem b = 0" "exitsem b = 0"
    by (auto simp: token_def split: if_splits)
  have r: "t \<notin> readers st j" if "j \<noteq> i" for j using p that by (auto simp: readers_def)
  show ?thesis
    by (rule token_step [OF inv p(1) live]) (use tk r p(2) in \<open>auto simp: lv upd_views(1) [OF p(1)] token_def split: if_splits\<close>)
qed

lemma Exit_release_step:
  assumes inv: "process_inv st" and p: "procs st t = Some p" "p_pc p = Exit_release ec" and live: "live_at st (p_pid p) ob b"
  shows "process_inv (upd t (Exit_wait ec) ob (b\<lparr>joinsem := joinsem b + 1\<rparr>) st)"
proof -
  have tk: "token (left st (p_pid p)) b (readers st (p_pid p))" by (rule live_token [OF inv live])
  have r: "t \<notin> readers st j" for j using not_reader [OF p(1)] p(2) by simp
  show ?thesis
    by (rule token_step [OF inv p(1) live])
      (use tk r p(2) in \<open>auto simp: left_self [OF inv p(1)] upd_views(1) [OF p(1)] token_def split: if_splits\<close>)
qed

lemma Exit_pass:
  assumes inv: "process_inv st" and p: "procs st t = Some p" "p_pc p = Exit_sem_P ob ec"
    and b: "pcb_heap st ob = Some b" "exitsem b \<noteq> 0"
  shows "process_inv (upd t (Exit_remove ec) ob (b\<lparr>exitsem := exitsem b - 1\<rparr>) st)"
proof -
  have live: "live_at st (p_pid p) ob b" using inv p b(1) by (auto simp: process_inv_def joins_ok_def live_at_def)
  have tk: "token (left st (p_pid p)) b (readers st (p_pid p))" by (rule live_token [OF inv live])
  have r: "t \<notin> readers st j" for j using not_reader [OF p(1)] p(2) by simp
  show ?thesis
    by (rule token_step [OF inv p(1) live])
      (use tk r p(2) b(2) in \<open>auto simp: left_self [OF inv p(1)] upd_views(1) [OF p(1)] token_def split: if_splits\<close>)
qed

text \<open>Pieces that create or destroy a control block or a thread.\<close>

lemma live_slot: "process_inv st \<Longrightarrow> live_at st i ob b \<Longrightarrow> live_at st j ob c \<Longrightarrow> i = j"
  unfolding process_inv_def slots_ok_def by blast

lemma Exit_set_step:
  assumes inv: "process_inv st" and p: "procs st t = Some p" "p_pc p = Exit_set ec" "p_pid p \<noteq> 0"
    and live: "live_at st (p_pid p) ob b"
  shows "process_inv (upd t (Exit_multex_P par ec) ob (b\<lparr>exitcode := ec\<rparr>) st)"
proof -
  let ?s = "upd t (Exit_multex_P par ec) ob (b\<lparr>exitcode := ec\<rparr>) st"
  have ob: "pcb_heap st ob = Some b" using live by (simp add: live_at_def)
  have K: "token_ok st" using inv by (simp add: process_inv_def)
  have rd: "readers ?s i = readers st i" for i
    using not_reader [OF p(1)] p(2) by (simp add: upd_views(1) [OF p(1)])
  have lv: "left ?s i = left st i" for i
    unfolding upd_views(2) [OF p(1)] left_split [OF p(1)] p(2) by simp
  have "token_ok ?s"
    unfolding token_ok_def rd lv live_upd_ex [OF ob]
  proof (intro conjI allI impI)
    fix i ob' b' assume "live_at ?s i ob' b'"
    then obtain b1 where "live_at st i ob' b1" "joinsem b' = joinsem b1" "exitsem b' = exitsem b1"
      using ob by (auto split: if_splits)
    with K show "token (left st i) b' (readers st i)" unfolding token_ok_def token_def by metis
  next
    fix t' q ob' b' ec' assume a: "procs ?s t' = Some q" "live_at ?s (p_pid q) ob' b'" "exiting (p_pc q) = Some ec'"
    have "p_pid q \<noteq> 0 \<and> exitcode b' = ec'"
    proof (cases "t' = t")
      case True
      with a(1) p have q: "q = p\<lparr>p_pc := Exit_multex_P par ec\<rparr>" by simp
      with a(2) have "live_at ?s (p_pid p) ob' b'" by simp
      moreover have "ob' = ob" using calculation live by (simp add: live_at_def)
      ultimately have "b' = b\<lparr>exitcode := ec\<rparr>" using ob by simp
      with q a(3) p(3) show ?thesis by simp
    next
      case False
      with a(1) p have q: "procs st t' = Some q" by simp
      with pid_unique [OF inv p(1) q] False have "p_pid q \<noteq> p_pid p" by auto
      with live_slot [OF inv live] a(2) ob have "live_at st (p_pid q) ob' b'" by (auto split: if_splits)
      with K q a(3) show ?thesis unfolding token_ok_def by blast
    qed
    then show "p_pid q \<noteq> 0" "exitcode b' = ec'" by auto
  qed (use K in \<open>simp add: token_ok_def\<close>)
  with upd_frame [OF inv p(1) ob, of "b\<lparr>exitcode := ec\<rparr>" "Exit_multex_P par ec"] show ?thesis by (simp add: process_inv_def)
qed

lemma Remove_step:
  assumes inv: "process_inv st" and p: "procs st t = Some p" "p_pc p = Exit_remove ec"
    and live: "live_at st (p_pid p) ob b" and th: "pcb_thread b = Some t"
    and bm: "wf_bitmap bm" "numBits bm = 10" "marked bm = marked (pt_bm st) - {p_pid p}"
  shows "process_inv (st\<lparr>pt_bm := bm, pcb_heap := (pcb_heap st)(ob := None), procs := (procs st)(t := None)\<rparr>)"
    (is "process_inv ?s")
proof -
  have T: "slots_ok st" "threads_ok st" "makers_ok st" "token_ok st" "joins_ok st" using inv by (auto simp: process_inv_def)
  have lv: "live_at ?s i ob' b' \<longleftrightarrow> live_at st i ob' b' \<and> i \<noteq> p_pid p" for i ob' b'
    using live live_slot [OF inv live, of i b'] by (auto simp: live_at_def)
  have pr: "procs ?s t' = Some q \<longleftrightarrow> t' \<noteq> t \<and> procs st t' = Some q" for t' q by auto
  have pid: "p_pid q \<noteq> p_pid p" if "t' \<noteq> t" "procs st t' = Some q" for t' q
    using pid_unique [OF inv p(1) that(2)] that(1) by auto
  have rd: "readers ?s i = readers st i" for i
    using not_reader [OF p(1)] p(2) by (auto simp: readers_def)
  have lf: "left ?s i = left st i" for i
    unfolding left_def pr using p by (metis leaving.simps(21) option.inject)
  have nr: "readers st (p_pid p) = {}"
    using live_token [OF inv live] left_self(1) [OF inv p(1)] p(2) by (simp add: token_def)
  have "slots_ok ?s"
    unfolding slots_ok_def lv
  proof (intro conjI allI impI)
    fix i j ob' c1 c2 assume "live_at st i ob' c1 \<and> i \<noteq> p_pid p" "live_at st j ob' c2 \<and> j \<noteq> p_pid p"
    then show "i = j" using live_slot [OF inv] by blast
  next
    fix i :: int assume i: "0 \<le> i \<and> i < 10"
    then have "i \<in> marked (pt_bm st) \<longleftrightarrow> (\<exists>ob b. live_at st i ob b)" using T(1) unfolding slots_ok_def by blast
    then show "i \<in> marked (pt_bm ?s) \<longleftrightarrow> (\<exists>ob b. live_at st i ob b \<and> i \<noteq> p_pid p)" using bm(3) by auto
  qed (use T(1) bm in \<open>auto simp: slots_ok_def split: if_splits\<close>)
  moreover have "threads_ok ?s"
    using T(2) pid unfolding threads_ok_def lv pr by fastforce
  moreover have "makers_ok ?s"
    unfolding makers_ok_def lv pr
  proof (intro conjI allI impI)
    fix t' q ob' i assume a: "t' \<noteq> t \<and> procs st t' = Some q" "makes (p_pc q) ob' i"
    then obtain b' where b': "live_at st i ob' b'" "pcb_thread b' = None" "i \<noteq> 0" using T(3) unfolding makers_ok_def by blast
    with live_unique [OF live, of ob' b'] th have "i \<noteq> p_pid p" by auto
    with b' show "i \<noteq> 0" "\<exists>b. (live_at st i ob' b \<and> i \<noteq> p_pid p) \<and> pcb_thread b = None" by auto
  qed (use T(3) in \<open>unfold makers_ok_def, blast\<close>)
  moreover have "token_ok ?s"
    using T(4) nr unfolding token_ok_def rd lf lv pr by fastforce
  moreover have "joins_ok ?s"
    using T(5) pid unfolding joins_ok_def lv pr by fastforce
  ultimately show ?thesis by (simp add: process_inv_def)
qed

lemma not_live_no_proc:
  assumes inv: "process_inv st" and n: "\<And>ob b. \<not> live_at st i ob b"
  shows "procs st t = Some p \<Longrightarrow> p_pid p \<noteq> i" "readers st i = {}" "\<not> left st i"
proof -
  show np: "procs st t = Some p \<Longrightarrow> p_pid p \<noteq> i" for t p using own_block [OF inv, of t p] n by metis
  show "readers st i = {}" using inv n unfolding process_inv_def token_ok_def by blast
  show "\<not> left st i" using np by (auto simp: left_def)
qed

lemma new_block_step:
  fixes f :: string
  assumes inv: "process_inv st" and p: "procs st t = Some p" "p_pc p = Exec_body fn"
    and i: "0 \<le> i" "i < 10" "i \<notin> marked (pt_bm st)" "i \<noteq> 0"
    and b: "pcb_thread b = None" "joinsem b = 0" "exitsem b = 0"
    and bm: "wf_bitmap bm" "numBits bm = 10" "marked bm = insert i (marked (pt_bm st))"
  defines "s \<equiv> goto t (Exec_multex_P (fresh_pcb st) f i)
      (st\<lparr>pt_bm := bm, pcbs := (pcbs st)[nat i := Some (fresh_pcb st)],
          pcb_heap := (pcb_heap st)(fresh_pcb st \<mapsto> b), fresh_pcb := Suc (fresh_pcb st)\<rparr>)"
  shows "process_inv s"
proof -
  let ?ob = "fresh_pcb st"
  have T: "slots_ok st" "threads_ok st" "makers_ok st" "token_ok st" "joins_ok st" using inv by (auto simp: process_inv_def)
  have len: "length (pcbs st) = 10" "nat i < 10" using T(1) i by (auto simp: slots_ok_def)
  have nl: "\<not> live_at st i ob' b'" for ob' b' using T(1) i unfolding slots_ok_def by blast
  have fr: "ob' < ?ob" if "live_at st j ob' b'" for j ob' b' using T(1) that unfolding slots_ok_def live_at_def by blast
  have hp: "pcb_heap s = (pcb_heap st)(?ob \<mapsto> b)" and sl: "pcbs s = (pcbs st)[nat i := Some ?ob]"
    and f: "fresh_pcb s = Suc ?ob" "fresh_proc s = fresh_proc st" "pt_bm s = bm" by (simp_all add: s_def goto_def)
  have nn: "nat j \<noteq> nat i \<longleftrightarrow> j \<noteq> i" if "0 \<le> j" for j using i that by auto
  have lv: "live_at s j ob' b' \<longleftrightarrow> (if j = i then ob' = ?ob \<and> b' = b else live_at st j ob' b')" for j ob' b'
  proof (cases "j = i")
    case True
    then show ?thesis using i len by (auto simp: live_at_def hp sl)
  next
    case False
    have "live_at s j ob' b' \<longleftrightarrow> live_at st j ob' b'"
    proof (cases "ob' = ?ob")
      case True
      have "pcbs st ! nat j \<noteq> Some ?ob" if "0 \<le> j" "j < 10" using T(1) that unfolding slots_ok_def by (metis less_irrefl nat_less_iff of_nat_numeral)
      moreover have "\<not> live_at st j ?ob b'" using fr by blast
      ultimately show ?thesis using False True len nn [of j] by (auto simp: live_at_def hp sl nth_list_update)
    next
      case ne: False
      show ?thesis using False ne len nn [of j] by (auto simp: live_at_def hp sl nth_list_update)
    qed
    with False show ?thesis by simp
  qed
  have pr: "procs s = (procs st)(t \<mapsto> p\<lparr>p_pc := Exec_multex_P ?ob f i\<rparr>)" using p by (simp add: s_def goto_def)
  note none = not_live_no_proc [OF inv nl]
  have rd: "readers s j = readers st j" for j using p by (auto simp: readers_def pr)
  have ps: "procs s t = Some (p\<lparr>p_pc := Exec_multex_P ?ob f i\<rparr>)" by (simp add: pr)
  have lf: "left s j = left st j" for j unfolding left_split [OF p(1)] left_split [OF ps] p(2) pr by auto
  have "slots_ok s"
    unfolding slots_ok_def lv f sl hp
  proof (intro conjI allI impI)
    fix j :: int assume j: "0 \<le> j \<and> j < 10"
    then have "j \<in> marked (pt_bm st) \<longleftrightarrow> (\<exists>ob b. live_at st j ob b)" using T(1) unfolding slots_ok_def by blast
    then show "j \<in> marked bm \<longleftrightarrow> (\<exists>ob' b'. if j = i then ob' = ?ob \<and> b' = b else live_at st j ob' b')" using bm(3) by auto
  next
    fix j k ob' c1 c2
    assume "if j = i then ob' = ?ob \<and> c1 = b else live_at st j ob' c1" "if k = i then ob' = ?ob \<and> c2 = b else live_at st k ob' c2"
    then show "j = k" using live_slot [OF inv] fr by (metis less_irrefl)
  next
    fix j ob' assume j: "j < 10" "(pcbs st)[nat i := Some ?ob] ! j = Some ob'"
    show "ob' < Suc ?ob"
    proof (cases "j = nat i")
      case True with j len show ?thesis by simp
    next
      case False with j T(1) show ?thesis unfolding slots_ok_def by (metis less_SucI nth_list_update_neq)
    qed
  qed (use T(1) bm in \<open>auto simp: slots_ok_def split: if_splits intro: less_SucI\<close>)
  moreover have "threads_ok s"
    unfolding threads_ok_def lv f
  proof (intro conjI allI impI)
    fix t' q assume "procs s t' = Some q"
    then obtain q0 where q0: "procs st t' = Some q0" "p_pid q = p_pid q0" using p pr by (auto split: if_splits)
    from none(1) [OF q0(1)] q0 T(2) show "t' < fresh_proc st"
      "\<exists>ob' b'. (if p_pid q = i then ob' = ?ob \<and> b' = b else live_at st (p_pid q) ob' b') \<and>
        (if p_pid q = 0 then t' = 0 else pcb_thread b' = Some t')"
      unfolding threads_ok_def by auto
  next
    fix j ob' b' t' assume "if j = i then ob' = ?ob \<and> b' = b else live_at st j ob' b'" "pcb_thread b' = Some t'"
    then show "t' < fresh_proc st" using b(1) T(2) unfolding threads_ok_def by (metis option.distinct(1))
  qed
  moreover have "makers_ok s"
    unfolding makers_ok_def lv
  proof (intro conjI allI impI)
    fix t' q ob' j assume a: "procs s t' = Some q" "makes (p_pc q) ob' j"
    have "j \<noteq> 0 \<and> (\<exists>b'. (if j = i then ob' = ?ob \<and> b' = b else live_at st j ob' b') \<and> pcb_thread b' = None)"
    proof (cases "t' = t")
      case True with a pr i b show ?thesis by auto
    next
      case False
      with a pr T(3) have "j \<noteq> 0 \<and> (\<exists>b'. live_at st j ob' b' \<and> pcb_thread b' = None)" unfolding makers_ok_def by auto
      with nl show ?thesis by auto
    qed
    then show "j \<noteq> 0" "\<exists>b'. (if j = i then ob' = ?ob \<and> b' = b else live_at st j ob' b') \<and> pcb_thread b' = None" by auto
  next
    fix t1 q1 t2 q2 ob' j k
    assume a: "procs s t1 = Some q1" "procs s t2 = Some q2" "makes (p_pc q1) ob' j" "makes (p_pc q2) ob' k"
    have old: "ob' < ?ob" if "procs st t' = Some q" "makes (p_pc q) ob' j" for t' q ob' j
      using T(3) that fr unfolding makers_ok_def by blast
    show "t1 = t2"
    proof (cases "ob' = ?ob")
      case True
      have "t1 = t" if "t1 \<noteq> t2" using a pr old True that by (metis fun_upd_apply less_irrefl)
      moreover have "t2 = t" if "t1 \<noteq> t2" using a pr old True that by (metis fun_upd_apply less_irrefl)
      ultimately show ?thesis by blast
    next
      case False
      then have "t1 \<noteq> t" "t2 \<noteq> t" using a pr by auto
      then show ?thesis using a pr T(3) unfolding makers_ok_def by (metis fun_upd_other)
    qed
  qed
  moreover have "token_ok s"
    unfolding token_ok_def lv rd lf
  proof (intro conjI allI impI)
    fix j ob' b' assume "if j = i then ob' = ?ob \<and> b' = b else live_at st j ob' b'"
    then show "token (left st j) b' (readers st j)"
      using none(2,3) b T(4) by (cases "j = i") (auto simp: token_def [of False] token_ok_def)
  next
    fix j assume "readers st j \<noteq> {}"
    then show "\<exists>ob' b'. if j = i then ob' = ?ob \<and> b' = b else live_at st j ob' b'"
      using T(4) none(2) unfolding token_ok_def by (cases "j = i") auto
  next
    fix t' q ob' b' ec
    assume a: "procs s t' = Some q" "if p_pid q = i then ob' = ?ob \<and> b' = b else live_at st (p_pid q) ob' b'" "exiting (p_pc q) = Some ec"
    then have q: "procs st t' = Some q" using pr by (auto split: if_splits)
    with none(1) [OF q] a T(4) show "p_pid q \<noteq> 0" "exitcode b' = ec" unfolding token_ok_def by metis+
  qed
  moreover have "joins_ok s"
    unfolding joins_ok_def lv f
  proof (intro conjI allI impI)
    fix t' q ob' j assume a: "procs s t' = Some q" "p_pc q = Join_sem_P ob' j"
    then have "procs st t' = Some q" using pr by (auto split: if_splits)
    with a T(5) have j: "0 \<le> j" "j < 10" "ob' < ?ob" "pcb_heap st ob' = None \<or> pcbs st ! nat j = Some ob'"
      unfolding joins_ok_def by blast+
    then show "0 \<le> j" "j < 10" "ob' < Suc ?ob" by auto
    show "pcb_heap s ob' = None \<or> pcbs s ! nat j = Some ob'"
    proof (cases "j = i")
      case True
      with j nl have "pcb_heap st ob' = None" unfolding live_at_def by (metis option.exhaust)
      with j show ?thesis by (simp add: hp)
    next
      case False with j nn [of j] show ?thesis by (auto simp: hp sl)
    qed
  next
    fix t' q ob' ec assume a: "procs s t' = Some q" "p_pc q = Exit_sem_P ob' ec"
    then have q: "procs st t' = Some q" using pr by (auto split: if_splits)
    with a T(5) none(1) [OF q] show "\<exists>b'. if p_pid q = i then ob' = ?ob \<and> b' = b else live_at st (p_pid q) ob' b'"
      unfolding joins_ok_def by auto
  qed
  ultimately show ?thesis by (simp add: process_inv_def)
qed

lemma fork_step:
  fixes me :: int
  assumes inv: "process_inv st" and p: "procs st t = Some p" "p_pc p = Exec_fork ob fn i" and h: "pcb_heap st ob = Some b"
  defines "t1 \<equiv> fresh_proc st"
  defines "s \<equiv> goto t (Exec_multex_V ob i) ((put_pcb ob (b\<lparr>pcb_thread := Some t1, parentID := me\<rparr>) st)
     \<lparr>procs := (procs st)(t1 \<mapsto> \<lparr>p_pid = i, p_name = fn, p_pc = Start\<rparr>), fresh_proc := Suc t1\<rparr>)"
  shows "process_inv s"
proof -
  let ?b = "b\<lparr>pcb_thread := Some t1, parentID := me\<rparr>" and ?q = "\<lparr>p_pid = i, p_name = fn, p_pc = Start\<rparr>"
  have T: "slots_ok st" "threads_ok st" "makers_ok st" "token_ok st" "joins_ok st" using inv by (auto simp: process_inv_def)
  have mk: "makes (p_pc p) ob i" using p by simp
  obtain b' where "live_at st i ob b'" "pcb_thread b' = None" "i \<noteq> 0"
    using T(3) p(1) mk unfolding makers_ok_def by blast
  then have live: "live_at st i ob b" and nt: "pcb_thread b = None" "i \<noteq> 0" using h by (auto simp: live_at_def)
  have tt: "t < t1" using T(2) p(1) unfolding threads_ok_def t1_def by blast
  have pr: "procs s = (procs st)(t1 \<mapsto> ?q, t \<mapsto> p\<lparr>p_pc := Exec_multex_V ob i\<rparr>)"
    using p(1) tt by (simp add: s_def goto_def)
  have f: "pt_bm s = pt_bm st" "pcbs s = pcbs st" "fresh_pcb s = fresh_pcb st" "fresh_proc s = Suc t1"
    "pcb_heap s = (pcb_heap st)(ob \<mapsto> ?b)" by (simp_all add: s_def goto_def put_pcb_def)
  have lv: "live_at s j ob' b' \<longleftrightarrow> (if ob' = ob then b' = ?b \<and> live_at st j ob b else live_at st j ob' b')" for j ob' b'
    using h by (auto simp: live_at_def f)
  have ex: "(\<exists>ob' b'. live_at s j ob' b') \<longleftrightarrow> (\<exists>ob' b'. live_at st j ob' b')" for j
    using h by (auto simp: live_at_def f)
  have np: "p_pid q \<noteq> i" if "procs st t' = Some q" for t' q
  proof
    assume "p_pid q = i"
    with own_block [OF inv that] live_unique [OF live] nt show False by (metis option.distinct(1))
  qed
  have old: "procs s t' = Some q \<Longrightarrow> t' \<noteq> t1 \<Longrightarrow> \<exists>q0. procs st t' = Some q0 \<and> p_pid q = p_pid q0 \<and>
      (t' = t \<or> p_pc q = p_pc q0)" for t' q
    using p(1) pr by (auto split: if_splits)
  have n1: "procs st t1 = None" using T(2) unfolding threads_ok_def t1_def by (metis less_irrefl option.exhaust)
  have rd: "readers s j = readers st j" for j
    using p n1 by (auto simp: readers_def pr split: if_splits)
  have lf: "left s j = left st j" for j
  proof
    assume "left s j"
    then obtain t' q where "procs s t' = Some q" "p_pid q = j" "leaving (p_pc q) \<noteq> None" by (auto simp: left_def)
    then show "left st j" using pr by (auto simp: left_def split: if_splits)
  next
    assume "left st j"
    then obtain t' q where q: "procs st t' = Some q" "p_pid q = j" "leaving (p_pc q) \<noteq> None" by (auto simp: left_def)
    then have "t' \<noteq> t" "t' \<noteq> t1" using p n1 by auto
    with q show "left s j" unfolding left_def pr by (intro exI [of _ t'] exI [of _ q]) simp
  qed
  have "slots_ok s"
    unfolding slots_ok_def ex f
  proof (intro conjI allI impI)
    fix j k ob' c1 c2 assume "live_at s j ob' c1" "live_at s k ob' c2"
    then have "\<exists>d1 d2. live_at st j ob' d1 \<and> live_at st k ob' d2" unfolding lv by (auto split: if_splits)
    then show "j = k" using live_slot [OF inv] by blast
  qed (use T(1) h in \<open>auto simp: slots_ok_def split: if_splits\<close>)
  moreover have "threads_ok s"
    unfolding threads_ok_def f
  proof (intro conjI allI impI)
    fix t' q assume q: "procs s t' = Some q"
    show "t' < Suc t1" using q old T(2) unfolding threads_ok_def t1_def by (metis less_SucI lessI)
    show "\<exists>ob' b'. live_at s (p_pid q) ob' b' \<and> (if p_pid q = 0 then t' = 0 else pcb_thread b' = Some t')"
    proof (cases "t' = t1")
      case True
      with q pr tt live nt show ?thesis by (intro exI [of _ ob] exI [of _ ?b]) (auto simp: lv)
    next
      case False
      with old [OF q] obtain q0 where q0: "procs st t' = Some q0" "p_pid q = p_pid q0" by blast
      obtain o1 b1 where o1: "live_at st (p_pid q0) o1 b1" "if p_pid q0 = 0 then t' = 0 else pcb_thread b1 = Some t'"
        by (rule own_block [OF inv q0(1)])
      have "o1 \<noteq> ob" using live_slot [OF inv live, of "p_pid q0" b1] o1(1) np [OF q0(1)] by auto
      with o1 q0 show ?thesis by (intro exI [of _ o1] exI [of _ b1]) (auto simp: lv)
    qed
  next
    fix j ob' b' t' assume "live_at s j ob' b'" "pcb_thread b' = Some t'"
    then show "t' < Suc t1" using T(2) unfolding lv threads_ok_def t1_def by (auto split: if_splits intro: less_SucI)
  qed
  moreover have "makers_ok s"
    unfolding makers_ok_def
  proof (intro conjI allI impI)
    fix t' q ob' j assume a: "procs s t' = Some q" "makes (p_pc q) ob' j"
    then have q: "procs st t' = Some q" "t' \<noteq> t" using pr by (auto split: if_splits)
    with a(2) T(3) obtain b' where b': "live_at st j ob' b'" "pcb_thread b' = None" "j \<noteq> 0" unfolding makers_ok_def by blast
    have "ob' \<noteq> ob" using T(3) p(1) mk q a(2) unfolding makers_ok_def by blast
    with b' show "j \<noteq> 0" "\<exists>b'. live_at s j ob' b' \<and> pcb_thread b' = None" by (auto simp: lv)
  next
    fix u1 q1 u2 q2 ob' j k
    assume a: "procs s u1 = Some q1" "procs s u2 = Some q2" "makes (p_pc q1) ob' j" "makes (p_pc q2) ob' k"
    then have "procs st u1 = Some q1" "procs st u2 = Some q2" using pr by (auto split: if_splits)
    with a T(3) show "u1 = u2" unfolding makers_ok_def by blast
  qed
  moreover have "token_ok s"
    unfolding token_ok_def rd lf ex
  proof (intro conjI allI impI)
    fix j ob' b' assume "live_at s j ob' b'"
    then obtain b1 where "live_at st j ob' b1" "joinsem b' = joinsem b1" "exitsem b' = exitsem b1"
      unfolding lv by (auto split: if_splits)
    with T(4) show "token (left st j) b' (readers st j)" unfolding token_ok_def token_def by metis
  next
    fix t' q ob' b' ec assume a: "procs s t' = Some q" "live_at s (p_pid q) ob' b'" "exiting (p_pc q) = Some ec"
    then have q: "procs st t' = Some q" using pr by (auto split: if_splits)
    obtain b1 where "live_at st (p_pid q) ob' b1" "exitcode b' = exitcode b1"
      using a(2) unfolding lv by (auto split: if_splits)
    with T(4) q a(3) show "p_pid q \<noteq> 0" "exitcode b' = ec" unfolding token_ok_def by metis+
  qed (use T(4) in \<open>simp add: token_ok_def\<close>)
  moreover have "joins_ok s"
    unfolding joins_ok_def f
  proof (intro conjI allI impI)
    fix t' q ob' j assume a: "procs s t' = Some q" "p_pc q = Join_sem_P ob' j"
    then have "procs st t' = Some q" using pr by (auto split: if_splits)
    with a T(5) have "0 \<le> j \<and> j < 10 \<and> ob' < fresh_pcb st \<and> (pcb_heap st ob' = None \<or> pcbs st ! nat j = Some ob')"
      unfolding joins_ok_def by blast
    then show "0 \<le> j" "j < 10" "ob' < fresh_pcb st" "((pcb_heap st)(ob \<mapsto> ?b)) ob' = None \<or> pcbs st ! nat j = Some ob'"
      using h by auto
  next
    fix t' q ob' ec assume a: "procs s t' = Some q" "p_pc q = Exit_sem_P ob' ec"
    then have "procs st t' = Some q" using pr by (auto split: if_splits)
    with a T(5) have "\<exists>b. live_at st (p_pid q) ob' b" unfolding joins_ok_def by blast
    then show "\<exists>b. live_at s (p_pid q) ob' b" using h by (auto simp: live_at_def f)
  qed
  ultimately show ?thesis by (simp add: process_inv_def)
qed

text \<open>The main thread stays, so slot 0 is never given to another process.\<close>

definition main_ok :: "ptab \<Rightarrow> bool" where
  "main_ok st \<longleftrightarrow> (\<exists>p. procs st 0 = Some p \<and> p_pid p = 0)"

lemma main_ok_simps [simp]:
  "main_ok (goto t c st) = main_ok st" "main_ok (put_pcb ob b st) = main_ok st" "main_ok (upd t c ob b st) = main_ok st"
  "main_ok (st\<lparr>bmsem := x1\<rparr>) = main_ok st" "main_ok (st\<lparr>pcbs := x2\<rparr>) = main_ok st" "main_ok (st\<lparr>pt_bm := x3\<rparr>) = main_ok st"
  "main_ok (st\<lparr>fresh_pcb := x4\<rparr>) = main_ok st" "main_ok (st\<lparr>fresh_proc := x5\<rparr>) = main_ok st"
  by (auto simp: main_ok_def goto_def put_pcb_def upd_def)

lemma pcb_decr:
  "multex_update (\<lambda>v. v - 1) b = b\<lparr>multex := multex b - 1\<rparr>" "joinsem_update (\<lambda>v. v - 1) b = b\<lparr>joinsem := joinsem b - 1\<rparr>"
  "exitsem_update (\<lambda>v. v - 1) b = b\<lparr>exitsem := exitsem b - 1\<rparr>"
  by (cases b; simp)+

lemma P_on_Inr:
  "P_on ob get put c t st = Some (Inr st') \<longleftrightarrow>
     (\<exists>b. pcb_heap st ob = Some b \<and> get b \<noteq> 0 \<and> st' = upd t c ob (put (\<lambda>v. v - 1) b) st)"
  by (auto simp: P_on_def upd_def split: option.splits)

lemma with_pcb_Inr: "with_pcb ob st f = Inr y \<longleftrightarrow> (\<exists>b. pcb_heap st ob = Some b \<and> f b = Inr y)"
  by (auto simp: with_pcb_def split: option.splits)

lemma slot0_marked:
  assumes "process_inv st" "main_ok st"
  shows "0 \<in> marked (pt_bm st)"
proof -
  obtain p where p: "procs st 0 = Some p" "p_pid p = 0" using assms(2) by (auto simp: main_ok_def)
  obtain ob b where "live_at st (p_pid p) ob b" by (rule own_block [OF assms(1) p(1)])
  with p(2) assms(1) show ?thesis unfolding process_inv_def slots_ok_def by (metis zero_less_numeral order_refl)
qed

lemma ExecUpdate_body_inv:
  assumes inv: "process_inv st" "main_ok st" and p: "procs st t = Some p" "p_pc p = Exec_body fn"
    and run: "ExecUpdate_body openable fn t p st = Inr st'"
  shows "process_inv st' \<and> main_ok st'"
proof (cases "st' = goto t (Exec_bmsem_V (-1)) st")
  case True
  with goto_neutral [OF inv(1) p(1), of "Exec_bmsem_V (-1)"] p inv show ?thesis by simp
next
  case ne: False
  have b: "wf_bitmap (pt_bm st)" "numBits (pt_bm st) = 10" using inv(1) by (auto simp: process_inv_def slots_ok_def)
  from run ne obtain f i b1 where f: "fn = Some f" and a: "FindAndSet (pt_bm st) = Inr (i, b1)"
    by (auto simp: ExecUpdate_body_def GetFreeSlot_def res_simps with_pcb_Inr split: option.splits if_splits)
  show ?thesis
  proof (cases "marked (pt_bm st) = {0..<10}")
    case True
    with bm.alloc_full [OF b(1)] b a have "i = -1" "b1 = pt_bm st" by auto
    with run ne f a have False
      by (auto simp: ExecUpdate_body_def GetFreeSlot_def res_simps with_pcb_Inr split: option.splits if_splits)
    then show ?thesis ..
  next
    case False
    with bm.alloc_free [OF b(1)] b a have i: "wf_bitmap b1" "numBits b1 = 10" "0 \<le> i" "i < 10" "i \<notin> marked (pt_bm st)"
      "marked b1 = insert i (marked (pt_bm st))" by auto
    then have i0: "i \<noteq> 0" using slot0_marked [OF inv] by auto
    obtain b2 where b2: "Mark b1 i = Inr b2" "wf_bitmap b2" "numBits b2 = 10" "marked b2 = insert i (marked (pt_bm st))"
      using bm.mark_used [OF i(1), of i] i by auto
    define nb where "nb = (new_PCB i (p_pid p))\<lparr>FileName := f, parentID := p_pid p\<rparr>"
    define s1 where "s1 = goto t (Exec_multex_P (fresh_pcb st) f i) (st\<lparr>pt_bm := b2, pcbs := (pcbs st)[nat i := Some (fresh_pcb st)],
          pcb_heap := (pcb_heap st)(fresh_pcb st \<mapsto> nb), fresh_pcb := Suc (fresh_pcb st)\<rparr>)"
    have "st' = s1"
      using run ne f a b2 i by (auto simp: ExecUpdate_body_def GetFreeSlot_def res_simps with_pcb_Inr SetFileName_def
          Let_def s1_def nb_def put_pcb_def goto_def split: option.splits if_splits)
    moreover have "process_inv s1"
      unfolding s1_def by (rule new_block_step [OF inv(1) p i(3,4,5) i0 _ _ _ b2(2,3,4)]) (simp_all add: nb_def new_PCB_def)
    moreover have "main_ok s1" using inv(2) by (auto simp: s1_def main_ok_def goto_def)
    ultimately show ?thesis by simp
  qed
qed

lemma Remove_inv:
  assumes inv: "process_inv st" "main_ok st" and p: "procs st t = Some p" "p_pc p = Exit_remove ec"
    and run: "PTable_Remove (p_pid p) t st = Inr st'"
  shows "process_inv st' \<and> main_ok st'"
proof -
  obtain ob b where o1: "live_at st (p_pid p) ob b" "if p_pid p = 0 then t = 0 else pcb_thread b = Some t"
    by (rule own_block [OF inv(1) p(1)])
  have nz: "p_pid p \<noteq> 0" using inv(1) p o1(1) unfolding process_inv_def token_ok_def by (metis exiting.simps(6))
  have T: "wf_bitmap (pt_bm st)" "numBits (pt_bm st) = 10" "length (pcbs st) = 10" using inv(1) by (auto simp: process_inv_def slots_ok_def)
  have r: "0 \<le> p_pid p" "p_pid p < 10" using o1(1) by (auto simp: live_at_def)
  have m: "p_pid p \<in> marked (pt_bm st)" using inv(1) o1(1) r unfolding process_inv_def slots_ok_def by blast
  obtain b1 where b1: "Clear (pt_bm st) (p_pid p) = Inr b1" "wf_bitmap b1" "numBits b1 = 10"
    "marked b1 = marked (pt_bm st) - {p_pid p}"
    using bm.clear_used [OF T(1), of "p_pid p"] T r by auto
  have t: "Test (pt_bm st) (p_pid p) = Inr True" using bm.test_used [OF T(1), of "p_pid p"] T r m by simp
  have "pcb_at st (p_pid p) = Inr ob" using o1(1) T r by (auto simp: pcb_at_def live_at_def)
  then have "st' = st\<lparr>pt_bm := b1, pcb_heap := (pcb_heap st)(ob := None), procs := (procs st)(t := None)\<rparr>"
    using run t b1(1) o1 nz r by (auto simp: PTable_Remove_def PCB_dtor_def with_pcb_def live_at_def MAXPROCESS_def res_simps)
  moreover have "process_inv (st\<lparr>pt_bm := b1, pcb_heap := (pcb_heap st)(ob := None), procs := (procs st)(t := None)\<rparr>)"
    by (rule Remove_step [OF inv(1) p o1(1) _ b1(2,3,4)]) (use o1 nz in simp)
  moreover have "t \<noteq> 0" using inv(2) p(1) nz unfolding main_ok_def by (metis option.inject)
  ultimately show ?thesis using inv(2) by (simp add: main_ok_def)
qed

lemma exiting_pid:
  "process_inv st \<Longrightarrow> procs st t = Some p \<Longrightarrow> exiting (p_pc p) = Some ec \<Longrightarrow> live_at st (p_pid p) ob b \<Longrightarrow> exitcode b = ec"
  unfolding process_inv_def token_ok_def by blast

lemma goto_inv:
  assumes inv: "process_inv st" "main_ok st" and p: "procs st t = Some p"
    and c: "\<And>ob i. \<not> makes c ob i" "\<And>ob i. c \<noteq> Join_sem_P ob i" "\<And>ob ec. c \<noteq> Exit_sem_P ob ec"
      "leaving c = leaving (p_pc p)" "\<And>i. c \<noteq> Join_read i" "\<And>i. p_pc p \<noteq> Join_read i" "exiting c = None"
  shows "process_inv (goto t c st) \<and> main_ok (goto t c st)"
  using goto_neutral [OF inv(1) p, of c] inv(2) c by simp

lemma multex_inv:
  assumes inv: "process_inv st" "main_ok st" and p: "procs st t = Some p" and h: "pcb_heap st ob = Some b"
    and b: "pcb_thread b' = pcb_thread b" "joinsem b' = joinsem b" "exitsem b' = exitsem b" "exitcode b' = exitcode b"
    and c: "\<And>ob i. makes c ob i \<Longrightarrow> makes (p_pc p) ob i" "\<And>ob i. c \<noteq> Join_sem_P ob i" "\<And>ob ec. c \<noteq> Exit_sem_P ob ec"
      "leaving c = leaving (p_pc p)" "\<And>i. c \<noteq> Join_read i" "\<And>i. p_pc p \<noteq> Join_read i"
      "\<And>ec. exiting c = Some ec \<Longrightarrow> exiting (p_pc p) = Some ec"
  shows "process_inv (upd t c ob b' st) \<and> main_ok (upd t c ob b' st)"
  using upd_neutral [OF inv(1) p h b, of c] inv(2) c by simp

lemma JoinUpdate_check_inv:
  assumes inv: "process_inv st" "main_ok st" and p: "procs st t = Some p" "p_pc p = Join_check i"
    and run: "JoinUpdate_check i t p st = Inr st'"
  shows "process_inv st' \<and> main_ok st'"
proof -
  have "st' = goto t (User (Some (-1))) st \<or> (\<exists>par. st' = goto t (Join_multex_P par i) st)"
    using run by (auto simp: JoinUpdate_check_def res_simps with_pcb_Inr split: if_splits)
  then show ?thesis using goto_inv [OF inv p(1)] p(2) inv(2) by auto
qed

lemma ExitUpdate_set_inv:
  assumes inv: "process_inv st" "main_ok st" and p: "procs st t = Some p" "p_pc p = Exit_set ec"
    and run: "ExitUpdate_set ec t p st = Inr st'" and ns: "\<not> shut_down st'"
  shows "process_inv st' \<and> main_ok st'"
proof -
  have nz: "p_pid p \<noteq> 0" using run ns by (auto simp: ExitUpdate_set_def)
  show ?thesis
  proof (cases "st' = goto t (User (Some (-1))) st")
    case True
    then show ?thesis using goto_inv [OF inv p(1)] p(2) inv(2) by simp
  next
    case False
    with run nz obtain ob b par where "pcb_at st (p_pid p) = Inr ob" "pcb_heap st ob = Some b"
      "st' = upd t (Exit_multex_P par ec) ob (b\<lparr>exitcode := ec\<rparr>) st"
      by (auto simp: ExitUpdate_set_def res_simps with_pcb_Inr upd_def SetExitCode_def split: if_splits)
    then show ?thesis using Exit_set_step [OF inv(1) p nz] pcb_at_Inr [OF inv(1)] inv(2) by simp
  qed
qed

lemma fork_inv:
  assumes inv: "process_inv st" "main_ok st" and p: "procs st t = Some p" "p_pc p = Exec_fork ob fn i"
    and run: "andThen (PCB_Exec_body ob fn i (p_pid p) st) (\<lambda>st. Inr (goto t (Exec_multex_V ob i) st)) = Inr st'"
  shows "process_inv st' \<and> main_ok st'"
proof -
  obtain b where b: "pcb_heap st ob = Some b"
    "st' = goto t (Exec_multex_V ob i) ((put_pcb ob (b\<lparr>pcb_thread := Some (fresh_proc st), parentID := p_pid p\<rparr>) st)
     \<lparr>procs := (procs st)(fresh_proc st \<mapsto> \<lparr>p_pid = i, p_name = fn, p_pc = Start\<rparr>), fresh_proc := Suc (fresh_proc st)\<rparr>)"
    using run by (auto simp: PCB_Exec_body_def res_simps with_pcb_Inr)
  obtain q where "procs st 0 = Some q" "p_pid q = 0" using inv(2) by (auto simp: main_ok_def)
  moreover have "0 < fresh_proc st" using inv(1) calculation(1) unfolding process_inv_def threads_ok_def by blast
  ultimately have "main_ok st'" by (auto simp: b(2) main_ok_def goto_def put_pcb_def)
  with fork_step [OF inv(1) p b(1)] b(2) show ?thesis by simp
qed

text \<open>Reading the table: the slot of a process that exists, as \<^verbatim>\<open>pcb[i]\<close> finds it.\<close>

lemma chunk_inv:
  assumes inv: "process_inv st" "main_ok st" and p: "procs st t = Some p"
    and run: "proc_chunk openable t p (p_pc p) st = Some (Inr st')" and ns: "\<not> shut_down st'"
  shows "process_inv st' \<and> main_ok st'"
proof (cases "p_pc p")
  case (Exec_bmsem_P fn)
  let ?s = "st\<lparr>bmsem := bmsem st - 1\<rparr>"
  have "process_inv ?s" "main_ok ?s" "procs ?s t = Some p" using inv p by simp_all
  from goto_inv [OF this, of "Exec_body fn"] Exec_bmsem_P run show ?thesis by (auto split: if_splits)
next
  case (Exec_bmsem_V r)
  let ?s = "st\<lparr>bmsem := bmsem st + 1\<rparr>"
  have "process_inv ?s" "main_ok ?s" "procs ?s t = Some p" using inv p by simp_all
  from goto_inv [OF this, of "User (Some r)"] Exec_bmsem_V run show ?thesis by auto
next
  case Start
  with run goto_inv [OF inv p, of "User None"] show ?thesis by (auto simp: res_simps)
next
  case (Exec_body fn)
  with run ExecUpdate_body_inv [OF inv p] show ?thesis by simp
next
  case (Exec_multex_P ob fn i)
  with run obtain b where b: "pcb_heap st ob = Some b" "st' = upd t (Exec_fork ob fn i) ob (b\<lparr>multex := multex b - 1\<rparr>) st"
    by (auto simp: P_on_Inr pcb_decr)
  show ?thesis unfolding b(2) by (rule multex_inv [OF inv p b(1)]) (auto simp: Exec_multex_P)
next
  case (Exec_fork ob fn i)
  with run fork_inv [OF inv p] show ?thesis by simp
next
  case (Exec_multex_V ob i)
  with run obtain b where b: "pcb_heap st ob = Some b" "st' = upd t (Exec_bmsem_V i) ob (b\<lparr>multex := multex b + 1\<rparr>) st"
    by (auto simp: with_pcb_Inr upd_def)
  show ?thesis unfolding b(2) by (rule multex_inv [OF inv p b(1)]) (auto simp: Exec_multex_V)
next
  case (Join_check i)
  with run JoinUpdate_check_inv [OF inv p] show ?thesis by simp
next
  case (Join_multex_P ob i)
  with run obtain b where b: "pcb_heap st ob = Some b" "st' = upd t (Join_inc ob i) ob (b\<lparr>multex := multex b - 1\<rparr>) st"
    by (auto simp: P_on_Inr pcb_decr)
  show ?thesis unfolding b(2) by (rule multex_inv [OF inv p b(1)]) (auto simp: Join_multex_P)
next
  case (Join_inc ob i)
  with run obtain b where b: "pcb_heap st ob = Some b" "st' = upd t (Join_wait i) ob (IncNumWait_body b) st"
    by (auto simp: with_pcb_Inr upd_def)
  show ?thesis unfolding b(2) by (rule multex_inv [OF inv p b(1)]) (auto simp: Join_inc IncNumWait_body_def DecNumWait_body_def)
next
  case (Join_wait i)
  with run obtain ob b where o1: "pcb_at st i = Inr ob" "pcb_heap st ob = Some b" "st' = goto t (Join_sem_P ob i) st"
    by (auto simp: with_pcb_Inr res_simps)
  with goto_neutral [OF inv(1) p, of "Join_sem_P ob i"] Join_wait pcb_at_Inr [OF inv(1) o1(1,2)] inv(2) show ?thesis by auto
next
  case (Join_sem_P ob i)
  with run obtain b where b: "pcb_heap st ob = Some b" "joinsem b \<noteq> 0" "st' = upd t (Join_read i) ob (b\<lparr>joinsem := joinsem b - 1\<rparr>) st"
    by (auto simp: P_on_Inr pcb_decr)
  with Join_pass [OF inv(1) p Join_sem_P b(1,2)] inv(2) show ?thesis by simp
next
  case (Join_read i)
  with run obtain ob b where o1: "pcb_at st i = Inr ob" "pcb_heap st ob = Some b"
    "st' = upd t (User (Some (exitcode b))) ob (b\<lparr>exitsem := exitsem b + 1\<rparr>) st"
    by (auto simp: with_pcb_Inr res_simps JoinUpdate_finish_def ExitRelease_def upd_def)
  with Join_finish [OF inv(1) p Join_read pcb_at_Inr [OF inv(1) o1(1,2)]] inv(2) show ?thesis by simp
next
  case (Exit_set ec)
  with run ExitUpdate_set_inv [OF inv p _ _ ns] show ?thesis by simp
next
  case (Exit_multex_P ob ec)
  with run obtain b where b: "pcb_heap st ob = Some b" "st' = upd t (Exit_dec ob ec) ob (b\<lparr>multex := multex b - 1\<rparr>) st"
    by (auto simp: P_on_Inr pcb_decr)
  show ?thesis unfolding b(2) by (rule multex_inv [OF inv p b(1)]) (auto simp: Exit_multex_P)
next
  case (Exit_dec ob ec)
  with run obtain b where b: "pcb_heap st ob = Some b" "st' = upd t (Exit_release ec) ob (DecNumWait_body b) st"
    by (auto simp: with_pcb_Inr upd_def)
  show ?thesis unfolding b(2) by (rule multex_inv [OF inv p b(1)]) (auto simp: Exit_dec IncNumWait_body_def DecNumWait_body_def)
next
  case (Exit_release ec)
  with run obtain ob b where o1: "pcb_at st (p_pid p) = Inr ob" "pcb_heap st ob = Some b"
    "st' = upd t (Exit_wait ec) ob (b\<lparr>joinsem := joinsem b + 1\<rparr>) st"
    by (auto simp: with_pcb_Inr res_simps JoinRelease_def upd_def)
  with Exit_release_step [OF inv(1) p Exit_release pcb_at_Inr [OF inv(1) o1(1,2)]] inv(2) show ?thesis by simp
next
  case (Exit_wait ec)
  with run obtain ob b where o1: "pcb_at st (p_pid p) = Inr ob" "pcb_heap st ob = Some b" "st' = goto t (Exit_sem_P ob ec) st"
    by (auto simp: with_pcb_Inr res_simps)
  with goto_neutral [OF inv(1) p, of "Exit_sem_P ob ec"] Exit_wait pcb_at_Inr [OF inv(1) o1(1,2)] inv(2) show ?thesis by auto
next
  case (Exit_sem_P ob ec)
  with run obtain b where b: "pcb_heap st ob = Some b" "exitsem b \<noteq> 0" "st' = upd t (Exit_remove ec) ob (b\<lparr>exitsem := exitsem b - 1\<rparr>) st"
    by (auto simp: P_on_Inr pcb_decr)
  with Exit_pass [OF inv(1) p Exit_sem_P b(1,2)] inv(2) show ?thesis by simp
next
  case (Exit_remove ec)
  with run Remove_inv [OF inv p] show ?thesis by simp
next
  case (User r)
  with run show ?thesis by simp
qed

lemma pstep_inv:
  assumes "pstep openable st st'" "process_inv st" "main_ok st"
  shows "shut_down st' \<or> (process_inv st' \<and> main_ok st')"
  using assms
proof (cases rule: pstep.cases)
  case (pcall t p r c)
  have "process_inv (goto t (entry_pc c) st) \<and> main_ok (goto t (entry_pc c) st)"
    by (rule goto_inv [OF assms(2,3) pcall(3)]; use pcall(4) in \<open>cases c; simp\<close>)
  with pcall show ?thesis by simp
next
  case (prun t p)
  with chunk_inv [OF assms(2,3)] show ?thesis by blast
qed

lemma psteps_inv:
  assumes "(pstep openable)\<^sup>*\<^sup>* st st'" "process_inv st" "main_ok st"
  shows "shut_down st' \<or> (process_inv st' \<and> main_ok st')"
  using assms
proof (induction rule: rtranclp_induct)
  case (step s1 s2)
  then have "\<not> shut_down s1" by (auto elim: pstep.cases)
  with step pstep_inv show ?case by blast
qed simp

lemma new_PTable_inv:
  assumes "new_PTable 10 name = Inr st"
  shows "process_inv st \<and> main_ok st"
proof -
  obtain b0 where b0: "new_Bitmap 10 = Inr b0" "wf_bitmap b0" "numBits b0 = 10" "marked b0 = {}"
    using new_Bitmap_ok [of 10] by auto
  obtain b1 where b1: "Mark b0 0 = Inr b1" "wf_bitmap b1" "numBits b1 = 10" "marked b1 = {0}"
    using bm.mark_used [OF b0(2), of 0] b0 by auto
  have st: "st = \<lparr>pt_bm = b1, pcbs = (replicate 10 None)[0 := Some 0], psize = 10, bmsem = 1,
          pcb_heap = [0 \<mapsto> (new_PCB 0 0)\<lparr>parentID := -1\<rparr>], fresh_pcb = 1,
          procs = [0 \<mapsto> \<lparr>p_pid = 0, p_name = name, p_pc = User None\<rparr>], fresh_proc = 1, shut_down = False\<rparr>"
    using assms b0 b1 by (simp add: new_PTable_def MAXPROCESS_def)
  have lv: "live_at st i ob b \<longleftrightarrow> i = 0 \<and> ob = 0 \<and> b = (new_PCB 0 0)\<lparr>parentID := -1\<rparr>" for i ob b
    by (cases "i = 0") (auto simp: live_at_def st nth_list_update split: if_splits)
  have pr: "procs st t = Some p \<longleftrightarrow> t = 0 \<and> p = \<lparr>p_pid = 0, p_name = name, p_pc = User None\<rparr>" for t p
    by (auto simp: st)
  have rd: "readers st i = {}" and lf: "\<not> left st i" for i by (auto simp: readers_def left_def pr)
  have sl: "i < 10 \<Longrightarrow> pcbs st ! i = Some ob \<Longrightarrow> ob = 0" for i ob
    by (cases "i = 0") (auto simp: st)
  have f: "fresh_pcb st = 1" "fresh_proc st = 1" "pt_bm st = b1" "length (pcbs st) = 10" "pcb_heap st ob = Some b \<Longrightarrow> ob = 0" for ob b
    by (auto simp: st split: if_splits)
  have "slots_ok st" unfolding slots_ok_def lv f using b1 sl f(5) by fastforce
  moreover have "threads_ok st" unfolding threads_ok_def lv pr f by (auto simp: new_PCB_def)
  moreover have "makers_ok st" unfolding makers_ok_def pr by auto
  moreover have "token_ok st" unfolding token_ok_def lv pr rd by (auto simp: lf token_def new_PCB_def)
  moreover have "joins_ok st" unfolding joins_ok_def pr by auto
  ultimately show ?thesis by (simp add: process_inv_def main_ok_def pr)
qed

section \<open>Reachable states and schedules\<close>

definition reachable :: "(string \<Rightarrow> bool) \<Rightarrow> ptab \<Rightarrow> bool" where
  "reachable openable st \<longleftrightarrow>
     \<not> shut_down st \<and> (\<exists>name st0. new_PTable 10 name = Inr st0 \<and> (pstep openable)\<^sup>*\<^sup>* st0 st)"

lemma reachable_inv: "reachable openable st \<Longrightarrow> process_inv st \<and> main_ok st"
  unfolding reachable_def using psteps_inv new_PTable_inv by blast

lemma play1_pstep: "play1 openable s st = Some (Inr st') \<Longrightarrow> pstep openable st st'"
proof (cases s)
  case (Pair t c)
  assume a: "play1 openable s st = Some (Inr st')"
  with Pair obtain p where p: "procs st t = Some p" "\<not> shut_down st" by (auto split: option.splits if_splits)
  show ?thesis
  proof (cases c)
    case None
    with a Pair p show ?thesis by (auto intro: pstep.prun)
  next
    case (Some call)
    with a Pair p obtain r where "p_pc p = User r" "st' = goto t (entry_pc call) st" by (auto split: pc.splits)
    with p pstep.pcall show ?thesis by blast
  qed
qed

lemma play_psteps: "play openable ss st = Some (Inr st') \<Longrightarrow> (pstep openable)\<^sup>*\<^sup>* st st'"
proof (induction ss arbitrary: st)
  case (Cons s ss)
  then obtain st1 where "play1 openable s st = Some (Inr st1)" "play openable ss st1 = Some (Inr st')"
    by (auto split: option.splits sum.splits)
  with Cons.IH play1_pstep show ?case by (meson converse_rtranclp_into_rtranclp)
qed simp

text \<open>Runs from the initial table, for concrete schedules.\<close>

definition run_main :: "(nat \<times> pcall option) list \<Rightarrow> ptab res option" where
  "run_main ss = (case new_PTable 10 ''main'' of Inl e \<Rightarrow> Some (Inl e) | Inr st \<Rightarrow> play (\<lambda>_. True) ss st)"

lemma run_main_reachable: "run_main ss = Some (Inr st) \<Longrightarrow> \<not> shut_down st \<Longrightarrow> reachable (\<lambda>_. True) st"
  unfolding run_main_def reachable_def using play_psteps by (fastforce split: sum.splits)

definition thread_pc :: "ptab \<Rightarrow> nat \<Rightarrow> pc option" where
  "thread_pc st t = map_option p_pc (procs st t)"

text \<open>\<open>go t n\<close>: thread \<open>t\<close> executes \<open>n\<close> pieces.\<close>

definition go :: "nat \<Rightarrow> nat \<Rightarrow> (nat \<times> pcall option) list" where
  "go t n = replicate n (t, None)"

definition exec_child :: "nat \<Rightarrow> string \<Rightarrow> nat \<Rightarrow> (nat \<times> pcall option) list" where
  "exec_child t fn c = (t, Some (Call_Exec (Some fn))) # go t 6 @ go c 1"

definition join_schedule :: "(nat \<times> pcall option) list" where
  "join_schedule = exec_child 0 ''a'' 1 @ (1, Some (Call_Exit 7)) # go 1 4 @ (0, Some (Call_Join 1)) # go 0 5"

definition join_twice_schedule :: "(nat \<times> pcall option) list" where
  "join_twice_schedule = join_schedule @ go 0 1 @ (0, Some (Call_Join 1)) # go 0 4 @ go 1 3"

definition orphan_schedule :: "(nat \<times> pcall option) list" where
  "orphan_schedule = exec_child 0 ''a'' 1 @ exec_child 1 ''b'' 2 @
     (1, Some (Call_Exit 7)) # go 1 5 @ (0, Some (Call_Join 1)) # go 0 6 @ go 1 2 @ (2, Some (Call_Exit 3)) # go 2 1"

section \<open>Properties\<close>







text \<open>
  A piece of one thread leaves the other threads alone, and a deleted control block stays deleted.
\<close>

lemma chunk_other:
  assumes "proc_chunk openable t p c st = Some (Inr st')"
  shows "(t' \<noteq> t \<longrightarrow> t' \<noteq> fresh_proc st \<longrightarrow> procs st' t' = procs st t') \<and>
    (ob \<noteq> fresh_pcb st \<longrightarrow> pcb_heap st ob = None \<longrightarrow> pcb_heap st' ob = None)"
  using assms
proof (cases c)
  case (Exec_body fn)
  with assms show ?thesis
    by (auto simp: ExecUpdate_body_def GetFreeSlot_def goto_def put_pcb_def res_simps with_pcb_Inr Let_def
        split: option.splits if_splits)
next
  case (Join_check i)
  with assms show ?thesis
    by (auto simp: JoinUpdate_check_def goto_def res_simps with_pcb_Inr split: if_splits)
next
  case (Exit_set ec)
  with assms show ?thesis
    by (auto simp: ExitUpdate_set_def goto_def put_pcb_def res_simps with_pcb_Inr split: if_splits)
next
  case (Exit_remove ec)
  with assms show ?thesis
    by (auto simp: PTable_Remove_def PCB_dtor_def res_simps with_pcb_Inr split: if_splits option.splits)
qed (auto simp: P_on_def goto_def put_pcb_def res_simps with_pcb_Inr PCB_Exec_body_def JoinUpdate_finish_def
    split: if_splits option.splits)

lemma stuck_step:
  assumes st: "pstep openable st st'" and inv: "process_inv st"
    and p: "procs st t = Some p" "p_pc p = Join_sem_P ob i" and d: "pcb_heap st ob = None"
  shows "procs st' t = Some p \<and> pcb_heap st' ob = None"
proof -
  have f: "t \<noteq> fresh_proc st" "ob \<noteq> fresh_pcb st"
    using inv p unfolding process_inv_def threads_ok_def joins_ok_def by blast+
  show ?thesis
    using st
  proof (cases rule: pstep.cases)
    case (pcall t' p' r c)
    with p have "t' \<noteq> t" by auto
    with pcall p d show ?thesis by (simp add: goto_def)
  next
    case (prun t' p')
    have "t' \<noteq> t" using prun p d by (auto simp: P_on_def)
    with chunk_other [OF prun(3), of t ob] f p d show ?thesis by auto
  qed
qed

lemma stuck_forever:
  assumes "(pstep openable)\<^sup>*\<^sup>* st st'" "process_inv st" "main_ok st" "procs st t = Some p" "p_pc p = Join_sem_P ob i"
    "pcb_heap st ob = None"
  shows "procs st' t = Some p \<and> pcb_heap st' ob = None \<and> (shut_down st' \<or> (process_inv st' \<and> main_ok st'))"
  using assms
proof (induction rule: rtranclp_induct)
  case (step s1 s2)
  then have "\<not> shut_down s1" by (auto elim: pstep.cases)
  with step stuck_step [OF step.hyps(2)] pstep_inv [OF step.hyps(2)] show ?case by auto
qed simp

text \<open>
  A second Join can wait for ever: after the first Join of a child has returned, the child
  is still in the table until it runs again, so a second Join is admitted; once the child ends, the
  joining thread waits on a semaphore that was deleted, whatever happens afterwards.
\<close>

theorem second_Join_waits_forever:
  "\<exists>st p ob. run_main join_twice_schedule = Some (Inr st) \<and> procs st 0 = Some p \<and> p_pc p = Join_sem_P ob 1 \<and>
     (\<forall>st'. (pstep (\<lambda>_. True))\<^sup>*\<^sup>* st st' \<longrightarrow> procs st' 0 = Some p)"
proof -
  have "case run_main join_twice_schedule of Some (Inr st) \<Rightarrow>
      thread_pc st 0 = Some (Join_sem_P 1 1) \<and> pcb_heap st 1 = None \<and> \<not> shut_down st | _ \<Rightarrow> False"
    by code_simp
  then obtain st p where st: "run_main join_twice_schedule = Some (Inr st)" "procs st 0 = Some p" "p_pc p = Join_sem_P 1 1"
    "pcb_heap st 1 = None" "\<not> shut_down st"
    by (auto simp: thread_pc_def split: option.splits sum.splits)
  have "process_inv st \<and> main_ok st" by (rule reachable_inv [OF run_main_reachable [OF st(1,5)]])
  then have "\<forall>st'. (pstep (\<lambda>_. True))\<^sup>*\<^sup>* st st' \<longrightarrow> procs st' 0 = Some p"
    using stuck_forever [OF _ _ _ st(2,3,4)] by blast
  with st show ?thesis by blast
qed

theorem second_Join_waits_forever_witness:
  "\<exists>st p ob. run_main join_twice_schedule = Some (Inr st) \<and> procs st 0 = Some p \<and> p_pc p = Join_sem_P ob 1 \<and>
     (pstep (\<lambda>_. True))\<^sup>*\<^sup>* st st"
  using second_Join_waits_forever by blast


end
