(* ===== verification/Console.thy ===== *)
theory Console
  imports NList
begin

text \<open>
  The console: the keyboard and display devices (\<^verbatim>\<open>machine/console.h\<close>, \<^verbatim>\<open>console.cc\<close>) and their
  synchronous versions (\<^verbatim>\<open>userprog/synchconsole.h\<close>, \<^verbatim>\<open>synchconsole.cc\<close>), as one thread at a time sees
  them.  A character is a signed \<^verbatim>\<open>char\<close>; \<^verbatim>\<open>EOF\<close> is -1, the same value as the character 0xFF.

  \<open>keyboard\<close> is what will be typed, its end the end of the input file.  A thread that waits for
  the device sleeps until the pending poll interrupt arrives (\<open>wait_in\<close>); with no interrupt pending
  it sleeps for ever, which is \<open>None\<close>.
\<close>

section \<open>Keyboard\<close>

abbreviation (input) EOF :: int where "EOF \<equiv> -1"

record console_in =
  incoming :: int
  keyboard :: "int list"
  poll_pending :: bool
  avail :: nat
  chars_read :: nat

definition new_ConsoleInput :: "int list \<Rightarrow> console_in" where
  "new_ConsoleInput kb = \<lparr>incoming = EOF, keyboard = kb, poll_pending = True, avail = 0, chars_read = 0\<rparr>"

text \<open>
  The interrupt handler; \<open>ready\<close> is what \<^verbatim>\<open>PollFile\<close> answers.  A poll with nothing to read schedules
  the next one, the others call \<^verbatim>\<open>waitFor->V()\<close>.
\<close>

definition ConsoleInput_CallBack :: "bool \<Rightarrow> console_in \<Rightarrow> console_in res" where
  "ConsoleInput_CallBack ready c =
     ASSERT (incoming c = EOF)
      (Inr (if \<not> ready then c\<lparr>poll_pending := True\<rparr>
            else case keyboard c of
              [] \<Rightarrow> c\<lparr>poll_pending := False, avail := Suc (avail c)\<rparr>
            | ch # kb \<Rightarrow> c\<lparr>incoming := ch, keyboard := kb, poll_pending := False, avail := Suc (avail c),
                          chars_read := Suc (chars_read c)\<rparr>))"

definition ConsoleInput_GetChar :: "console_in \<Rightarrow> int \<times> console_in" where
  "ConsoleInput_GetChar c =
     (incoming c, c\<lparr>poll_pending := (poll_pending c \<or> incoming c \<noteq> EOF), incoming := EOF\<rparr>)"

text \<open>
  \<^verbatim>\<open>waitFor->P()\<close>: the polls before the first successful one leave the device as it is
  (\<open>poll_not_ready\<close> below), so the thread sees that one only.
\<close>

definition wait_in :: "console_in \<Rightarrow> console_in run" where
  "wait_in c =
     (case avail c of
        Suc n \<Rightarrow> Some (Inr (c\<lparr>avail := n\<rparr>))
      | 0 \<Rightarrow> if poll_pending c
              then Some (andThen (ConsoleInput_CallBack True c) (\<lambda>c. Inr (c\<lparr>avail := avail c - 1\<rparr>)))
              else None)"

definition GetChar :: "console_in \<Rightarrow> (int \<times> console_in) run" where
  "GetChar c = bindR (wait_in c) (\<lambda>c. Some (Inr (ConsoleInput_GetChar c)))"

definition steps_left :: "console_in \<Rightarrow> nat" where
  "steps_left c = 3 * length (keyboard c) + (if incoming c \<noteq> EOF then 2 else 0) + (if poll_pending c then 1 else 0) + avail c"

lemma GetChar_decreases: "GetChar c = Some (Inr (ch, c')) \<Longrightarrow> steps_left c' < steps_left c"
  by (auto simp: GetChar_def wait_in_def ConsoleInput_CallBack_def ConsoleInput_GetChar_def steps_left_def bindR_def
      ASSERT_def split: nat.splits if_splits option.splits sum.splits list.splits)

text \<open>
  \<^verbatim>\<open>SynchConsoleInput::Read\<close>: the two nested loops.  The inner one skips \<^verbatim>\<open>EOF\<close>; newline and control-A
  end the line.
\<close>

function read_line :: "nat \<Rightarrow> int list \<Rightarrow> console_in \<Rightarrow> (int \<times> int list \<times> console_in) run" where
  "read_line n got c =
     (case GetChar c of
        None \<Rightarrow> None
      | Some (Inl e) \<Rightarrow> Some (Inl e)
      | Some (Inr (ch, c)) \<Rightarrow>
          if ch = EOF then read_line n got c
          else if ch = 10 \<or> ch = 1 then Some (Inr (ch, got, c))
          else if length got + 1 < n then read_line n (got @ [ch]) c
          else Some (Inr (ch, got @ [ch], c)))"
  by pat_completeness auto
termination
  by (relation "measure (\<lambda>(n, got, c). steps_left c)") (auto dest: GetChar_decreases)

declare read_line.simps [simp del]

text \<open>With no byte to read the loop is not entered and \<^verbatim>\<open>ch\<close> is tested uninitialised.\<close>

definition SynchConsoleInput_Read :: "int \<Rightarrow> console_in \<Rightarrow> (int \<times> int list \<times> console_in) run" where
  "SynchConsoleInput_Read numBytes c =
     (if numBytes \<le> 0 then Some (Inl Uninitialised_read)
      else bindR (read_line (nat numBytes) [] c) (\<lambda>(ch, got, c).
           Some (Inr (if ch = 1 then -1 else int (length got), got @ replicate (nat numBytes - length got) 0, c))))"

section \<open>Display\<close>

record console_out =
  display :: "int list"
  putBusy :: bool
  out_avail :: nat
  chars_written :: nat

definition new_ConsoleOutput :: console_out where
  "new_ConsoleOutput = \<lparr>display = [], putBusy = False, out_avail = 0, chars_written = 0\<rparr>"

definition ConsoleOutput_PutChar :: "int \<Rightarrow> console_out \<Rightarrow> console_out res" where
  "ConsoleOutput_PutChar ch c = ASSERT (\<not> putBusy c) (Inr (c\<lparr>display := display c @ [ch], putBusy := True\<rparr>))"

definition ConsoleOutput_CallBack :: "console_out \<Rightarrow> console_out" where
  "ConsoleOutput_CallBack c = c\<lparr>putBusy := False, out_avail := Suc (out_avail c), chars_written := Suc (chars_written c)\<rparr>"

text \<open>\<^verbatim>\<open>waitFor->P()\<close>: the write interrupt arrives when a character is in flight.\<close>

definition wait_out :: "console_out \<Rightarrow> console_out run" where
  "wait_out c =
     (case out_avail c of
        Suc n \<Rightarrow> Some (Inr (c\<lparr>out_avail := n\<rparr>))
      | 0 \<Rightarrow> if putBusy c then Some (Inr ((ConsoleOutput_CallBack c)\<lparr>out_avail := 0\<rparr>)) else None)"

definition PutChar :: "int \<Rightarrow> console_out \<Rightarrow> console_out run" where
  "PutChar ch c = bindR (Some (ConsoleOutput_PutChar ch c)) wait_out"

fun SynchConsoleOutput_Write :: "int list \<Rightarrow> console_out \<Rightarrow> console_out run" where
  "SynchConsoleOutput_Write [] c = Some (Inr c)"
| "SynchConsoleOutput_Write (ch # from) c = bindR (PutChar ch c) (SynchConsoleOutput_Write from)"

section \<open>What a reader and a writer see\<close>

definition idle_in :: "console_in \<Rightarrow> bool" where
  "idle_in c \<longleftrightarrow> incoming c = EOF \<and> poll_pending c \<and> avail c = 0"

definition idle_out :: "console_out \<Rightarrow> bool" where
  "idle_out c \<longleftrightarrow> \<not> putBusy c \<and> out_avail c = 0"

lemma poll_not_ready: "poll_pending c \<Longrightarrow> incoming c = EOF \<Longrightarrow> ConsoleInput_CallBack False c = Inr c"
  by (simp add: ConsoleInput_CallBack_def)

lemma GetChar_typed:
  assumes "idle_in c" "keyboard c = ch # kb"
  shows "GetChar c = Some (Inr (ch, c\<lparr>keyboard := kb, chars_read := Suc (chars_read c), poll_pending := (ch \<noteq> EOF)\<rparr>))"
  using assms
  by (simp add: GetChar_def wait_in_def ConsoleInput_CallBack_def ConsoleInput_GetChar_def idle_in_def)

lemma GetChar_end:
  assumes "idle_in c" "keyboard c = []"
  shows "GetChar c = Some (Inr (EOF, c\<lparr>poll_pending := False\<rparr>))"
    and "GetChar (c\<lparr>poll_pending := False\<rparr>) = None"
  using assms
  by (simp_all add: GetChar_def wait_in_def ConsoleInput_CallBack_def ConsoleInput_GetChar_def idle_in_def)

text \<open>After reading the characters \<open>xs\<close> off the keyboard.\<close>

definition after_reading :: "int list \<Rightarrow> int list \<Rightarrow> console_in \<Rightarrow> console_in" where
  "after_reading xs kb c = c\<lparr>keyboard := kb, chars_read := chars_read c + length xs\<rparr>"

lemma GetChar_next:
  assumes "idle_in c" "keyboard c = ch # kb" "ch \<noteq> EOF"
  shows "GetChar c = Some (Inr (ch, after_reading [ch] kb c))" "idle_in (after_reading [ch] kb c)"
    "keyboard (after_reading [ch] kb c) = kb"
  using GetChar_typed [OF assms(1,2)] assms by (simp_all add: after_reading_def idle_in_def)

lemma after_reading_app [simp]: "after_reading ys kb' (after_reading xs kb c) = after_reading (xs @ ys) kb' c"
  by (simp add: after_reading_def)

lemma after_reading_idle [simp]: "idle_in (after_reading xs kb c) = idle_in c"
  by (simp add: after_reading_def idle_in_def)

lemma keyboard_after [simp]: "keyboard (after_reading xs kb c) = kb"
  by (simp add: after_reading_def)

definition after_writing :: "int list \<Rightarrow> console_out \<Rightarrow> console_out" where
  "after_writing xs c = c\<lparr>display := display c @ xs, chars_written := chars_written c + length xs\<rparr>"

lemma display_after [simp]: "display (after_writing xs c) = display c @ xs"
  by (simp add: after_writing_def)

lemma after_writing_app [simp]:
  "after_writing ys (after_writing xs c) = after_writing (xs @ ys) c" "after_writing [] c = c"
  by (simp_all add: after_writing_def)

lemma PutChar_idle:
  assumes "idle_out c"
  shows "PutChar ch c = Some (Inr (after_writing [ch] c))" "idle_out (after_writing [ch] c)"
  using assms by (auto simp: after_writing_def PutChar_def ConsoleOutput_PutChar_def wait_out_def ConsoleOutput_CallBack_def idle_out_def)

lemma Write_idle: "idle_out c \<Longrightarrow> SynchConsoleOutput_Write xs c = Some (Inr (after_writing xs c))"
proof (induction xs arbitrary: c)
  case (Cons x xs)
  from Cons.IH [OF PutChar_idle(2) [OF Cons.prems]] PutChar_idle(1) [OF Cons.prems] show ?case by simp
qed simp

lemma read_line_typed:
  assumes "idle_in c" "keyboard c = line @ e # kb" "\<forall>x\<in>set line. x \<notin> {EOF, 10, 1}" "e = 10 \<or> e = 1"
    "length got + length line < n"
  shows "read_line n got c = Some (Inr (e, got @ line, after_reading (line @ [e]) kb c))"
  using assms
proof (induction line arbitrary: c got)
  case Nil
  then show ?case using GetChar_next [of c e kb] by (subst read_line.simps) auto
next
  case (Cons x line)
  have x: "x \<noteq> EOF" "x \<noteq> 10" "x \<noteq> 1" using Cons.prems(3) by auto
  have g: "GetChar c = Some (Inr (x, after_reading [x] (line @ e # kb) c))"
    using GetChar_next(1) [OF Cons.prems(1), of x] Cons.prems(2) x by simp
  have "read_line n (got @ [x]) (after_reading [x] (line @ e # kb) c) =
      Some (Inr (e, (got @ [x]) @ line, after_reading (line @ [e]) kb (after_reading [x] (line @ e # kb) c)))"
    by (rule Cons.IH) (use Cons.prems in auto)
  with g x Cons.prems(5) show ?case by (subst read_line.simps) simp
qed

section \<open>Properties\<close>

text \<open>
  Reading a line: when a line of printable characters shorter than the buffer is typed and
  ended by a newline, \<^verbatim>\<open>SynchConsoleInput::Read\<close> returns its length, the buffer holds it followed by
  zeros, exactly the line and its end are consumed, and the console is ready for the next read.
\<close>

theorem SynchConsole_Read_line:
  assumes "idle_in c" "keyboard c = line @ 10 # kb" "\<forall>x\<in>set line. x \<notin> {EOF, 10, 1}" "int (length line) < n"
  shows "\<exists>c'. SynchConsoleInput_Read n c =
      Some (Inr (int (length line), line @ replicate (nat n - length line) 0, c')) \<and>
    idle_in c' \<and> keyboard c' = kb"
  using read_line_typed [OF assms(1,2,3), of "[]" "nat n"] assms(1,4)
  by (auto simp: SynchConsoleInput_Read_def)

theorem SynchConsole_Read_line_witness:
  "\<exists>c'. SynchConsoleInput_Read 4 (new_ConsoleInput [72, 105, 10, 65]) = Some (Inr (2, [72, 105, 0, 0], c')) \<and>
     keyboard c' = [65]"
  using SynchConsole_Read_line [of "new_ConsoleInput [72, 105, 10, 65]" "[72, 105]" "[65]" 4]
  by (auto simp: new_ConsoleInput_def idle_in_def numeral_eq_Suc)

text \<open>
  The end of the input stops the console: the first \<^verbatim>\<open>GetChar\<close> at the end returns EOF, every
  later one waits for ever; and typing the character 0xFF, which is EOF as a signed char, has the same
  effect although more input follows.
\<close>

theorem console_end_of_input:
  assumes "idle_in c" "keyboard c = [] \<or> (\<exists>kb. keyboard c = EOF # kb)"
  shows "\<exists>c'. GetChar c = Some (Inr (EOF, c')) \<and> GetChar c' = None"
proof (cases "keyboard c")
  case Nil
  with GetChar_end [OF assms(1)] show ?thesis by blast
next
  case (Cons ch kb)
  with assms(2) have "ch = EOF" by auto
  with GetChar_typed [OF assms(1) Cons] assms(1) show ?thesis
    by (auto simp: GetChar_def [of "_\<lparr>poll_pending := False\<rparr>"] wait_in_def idle_in_def)
qed

theorem console_end_of_input_witness:
  "\<exists>c'. GetChar (new_ConsoleInput [EOF, 65]) = Some (Inr (EOF, c')) \<and> GetChar c' = None"
  using console_end_of_input [of "new_ConsoleInput [EOF, 65]"] by (auto simp: new_ConsoleInput_def idle_in_def)

end
