(* ===== verification/HostFiles.thy ===== *)
theory HostFiles
  imports Nachos_Prelude
begin

text \<open>
  Files under the build flag \<^verbatim>\<open>FILESYS_STUB\<close>: the host files behind \<^verbatim>\<open>lib/sysdep.cc\<close>, open files
  (\<^verbatim>\<open>filesys/openfile.h\<close>) and the table of open files of a process (\<^verbatim>\<open>filesys/filesys.h\<close>).

  The host's \<^verbatim>\<open>open\<close>, \<^verbatim>\<open>read\<close>, \<^verbatim>\<open>write\<close>, \<^verbatim>\<open>lseek\<close>, \<^verbatim>\<open>close\<close> and \<^verbatim>\<open>unlink\<close> are the POSIX operations on
  regular files: names lead to inodes, a descriptor holds an inode, a position and whether it may
  write.  \<open>may_create\<close> is the host's decision whether a new file of that name can be made.
\<close>

section \<open>Host files\<close>

record host_fd =
  fd_inode :: nat
  fd_pos :: nat
  fd_writable :: bool

record host =
  h_names :: "string \<Rightarrow> nat option"
  h_data :: "nat \<Rightarrow> u8 list"
  h_fds :: "nat \<Rightarrow> host_fd option"
  h_next_inode :: nat
  h_next_fd :: nat
  may_create :: "string \<Rightarrow> bool"

definition new_fd :: "nat \<Rightarrow> bool \<Rightarrow> host \<Rightarrow> int \<times> host" where
  "new_fd ino wr h =
     (int (h_next_fd h),
      h\<lparr>h_fds := (h_fds h)(h_next_fd h \<mapsto> \<lparr>fd_inode = ino, fd_pos = 0, fd_writable = wr\<rparr>),
        h_next_fd := Suc (h_next_fd h)\<rparr>)"

text \<open>\<^verbatim>\<open>open(name, O_RDWR | O_CREAT | O_TRUNC)\<close> and \<^verbatim>\<open>open\<close> of an existing file.\<close>

definition open_create :: "string \<Rightarrow> host \<Rightarrow> int \<times> host" where
  "open_create name h =
     (case h_names h name of
        Some ino \<Rightarrow> new_fd ino True (h\<lparr>h_data := (h_data h)(ino := [])\<rparr>)
      | None \<Rightarrow>
          if may_create h name
          then new_fd (h_next_inode h) True
                 (h\<lparr>h_names := (h_names h)(name \<mapsto> h_next_inode h),
                    h_data := (h_data h)(h_next_inode h := []),
                    h_next_inode := Suc (h_next_inode h)\<rparr>)
          else (-1, h))"

definition open_existing :: "string \<Rightarrow> bool \<Rightarrow> host \<Rightarrow> int \<times> host" where
  "open_existing name wr h = (case h_names h name of Some ino \<Rightarrow> new_fd ino wr h | None \<Rightarrow> (-1, h))"

definition fd_of :: "int \<Rightarrow> host \<Rightarrow> host_fd option" where
  "fd_of f h = (if f < 0 then None else h_fds h (nat f))"

definition put_fd :: "int \<Rightarrow> host_fd \<Rightarrow> host \<Rightarrow> host" where
  "put_fd f d h = h\<lparr>h_fds := (h_fds h)(nat f \<mapsto> d)\<rparr>"

text \<open>Writing bytes at a position of a file; a gap reads as zeros.\<close>

definition patch :: "u8 list \<Rightarrow> nat \<Rightarrow> u8 list \<Rightarrow> u8 list" where
  "patch old pos new = take pos (old @ replicate (pos - length old) 0) @ new @ drop (pos + length new) old"

section \<open>The wrappers of sysdep\<close>

definition OpenForWrite :: "string \<Rightarrow> host \<Rightarrow> (int \<times> host) res" where
  "OpenForWrite name h = (let (f, h) = open_create name h in ASSERT (f \<ge> 0) (Inr (f, h)))"

definition OpenForReadWrite :: "string \<Rightarrow> bool \<Rightarrow> host \<Rightarrow> (int \<times> host) res" where
  "OpenForReadWrite name crashOnError h =
     (let (f, h) = open_existing name True h in ASSERT (\<not> crashOnError \<or> f \<ge> 0) (Inr (f, h)))"

definition OpenForRead :: "string \<Rightarrow> bool \<Rightarrow> host \<Rightarrow> (int \<times> host) res" where
  "OpenForRead name crashOnError h =
     (let (f, h) = open_existing name False h in ASSERT (\<not> crashOnError \<or> f \<ge> 0) (Inr (f, h)))"

text \<open>\<^verbatim>\<open>ReadPartial\<close>: the bytes read and their number; a bad descriptor gives -1.\<close>

definition ReadPartial :: "int \<Rightarrow> nat \<Rightarrow> host \<Rightarrow> int \<times> u8 list \<times> host" where
  "ReadPartial f nBytes h =
     (case fd_of f h of
        None \<Rightarrow> (-1, [], h)
      | Some d \<Rightarrow>
          (let got = take nBytes (drop (fd_pos d) (h_data h (fd_inode d)))
           in (int (length got), got, put_fd f (d\<lparr>fd_pos := fd_pos d + length got\<rparr>) h)))"

definition WriteFile :: "int \<Rightarrow> u8 list \<Rightarrow> host \<Rightarrow> host res" where
  "WriteFile f buf h =
     (case fd_of f h of
        None \<Rightarrow> Inl Assertion_failed
      | Some d \<Rightarrow>
          ASSERT (fd_writable d)
            (Inr (put_fd f (d\<lparr>fd_pos := fd_pos d + length buf\<rparr>)
                   (h\<lparr>h_data := (h_data h)(fd_inode d := (if buf = [] then h_data h (fd_inode d)
                                           else patch (h_data h (fd_inode d)) (fd_pos d) buf))\<rparr>))))"

text \<open>\<^verbatim>\<open>whence\<close> is 0 (from the start) or 2 (from the end) in the sources.\<close>

definition Lseek :: "int \<Rightarrow> int \<Rightarrow> nat \<Rightarrow> host \<Rightarrow> host res" where
  "Lseek f offset whence h =
     (case fd_of f h of
        None \<Rightarrow> Inl Assertion_failed
      | Some d \<Rightarrow>
          (let p = (if whence = 2 then int (length (h_data h (fd_inode d))) + offset else offset)
           in ASSERT (p \<ge> 0) (Inr (put_fd f (d\<lparr>fd_pos := nat p\<rparr>) h))))"

definition Tell :: "int \<Rightarrow> host \<Rightarrow> int" where
  "Tell f h = (case fd_of f h of None \<Rightarrow> -1 | Some d \<Rightarrow> int (fd_pos d))"

definition Close :: "int \<Rightarrow> host \<Rightarrow> host res" where
  "Close f h =
     (case fd_of f h of
        None \<Rightarrow> Inl Assertion_failed
      | Some d \<Rightarrow> Inr (h\<lparr>h_fds := (h_fds h)(nat f := None)\<rparr>))"

definition Unlink :: "string \<Rightarrow> host \<Rightarrow> bool \<times> host" where
  "Unlink name h =
     (case h_names h name of
        None \<Rightarrow> (True, h)
      | Some _ \<Rightarrow> (False, h\<lparr>h_names := (h_names h)(name := None)\<rparr>))"

section \<open>Open files\<close>

text \<open>\<open>of_type\<close> is \<open>None\<close> after the constructor that does not set it.\<close>

record openfile =
  of_file :: int
  currentOffset :: int
  of_type :: "int option"

definition new_OpenFile :: "int \<Rightarrow> int option \<Rightarrow> openfile" where
  "new_OpenFile f ty = \<lparr>of_file = f, currentOffset = 0, of_type = ty\<rparr>"

definition ReadAt :: "openfile \<Rightarrow> nat \<Rightarrow> int \<Rightarrow> host \<Rightarrow> (int \<times> u8 list \<times> host) res" where
  "ReadAt fi numBytes position h =
     andThen (Lseek (of_file fi) position 0 h) (\<lambda>h. Inr (ReadPartial (of_file fi) numBytes h))"

definition WriteAt :: "openfile \<Rightarrow> u8 list \<Rightarrow> int \<Rightarrow> host \<Rightarrow> (int \<times> host) res" where
  "WriteAt fi from position h =
     andThen (Lseek (of_file fi) position 0 h) (\<lambda>h.
     andThen (WriteFile (of_file fi) from h) (\<lambda>h. Inr (int (length from), h)))"

definition OpenFile_Read :: "openfile \<Rightarrow> nat \<Rightarrow> host \<Rightarrow> (int \<times> u8 list \<times> openfile \<times> host) res" where
  "OpenFile_Read fi numBytes h =
     andThen (ReadAt fi numBytes (currentOffset fi) h) (\<lambda>(numRead, got, h).
     Inr (numRead, got, fi\<lparr>currentOffset := currentOffset fi + numRead\<rparr>, h))"

definition OpenFile_Write :: "openfile \<Rightarrow> u8 list \<Rightarrow> host \<Rightarrow> (int \<times> openfile \<times> host) res" where
  "OpenFile_Write fi from h =
     andThen (WriteAt fi from (currentOffset fi) h) (\<lambda>(numWritten, h).
     Inr (numWritten, fi\<lparr>currentOffset := currentOffset fi + numWritten\<rparr>, h))"

definition OpenFile_Length :: "openfile \<Rightarrow> host \<Rightarrow> (int \<times> host) res" where
  "OpenFile_Length fi h = andThen (Lseek (of_file fi) 0 2 h) (\<lambda>h. Inr (Tell (of_file fi) h, h))"

definition getCurrentOffset :: "openfile \<Rightarrow> host \<Rightarrow> int \<times> openfile" where
  "getCurrentOffset fi h = (Tell (of_file fi) h, fi\<lparr>currentOffset := Tell (of_file fi) h\<rparr>)"

definition getType :: "openfile \<Rightarrow> int res" where
  "getType fi = (case of_type fi of None \<Rightarrow> Inl Uninitialised_read | Some t \<Rightarrow> Inr t)"

definition OpenFile_Seek :: "openfile \<Rightarrow> int \<Rightarrow> host \<Rightarrow> (openfile \<times> host) res" where
  "OpenFile_Seek fi position h =
     andThen (Lseek (of_file fi) position 0 h) (\<lambda>h.
     Inr (fi\<lparr>currentOffset := Tell (of_file fi) h\<rparr>, h))"

definition delete_OpenFile :: "openfile \<Rightarrow> host \<Rightarrow> host res" where
  "delete_OpenFile fi h = Close (of_file fi) h"

section \<open>The file table of a process\<close>

abbreviation (input) MAX_FILE_OPEN :: nat where "MAX_FILE_OPEN \<equiv> 10"
abbreviation (input) INPUT_TYPE :: int where "INPUT_TYPE \<equiv> 1"
abbreviation (input) OUTPUT_TYPE :: int where "OUTPUT_TYPE \<equiv> 0"
abbreviation (input) READONLY_TYPE :: int where "READONLY_TYPE \<equiv> 3"
abbreviation (input) READWRITE_TYPE :: int where "READWRITE_TYPE \<equiv> 2"
abbreviation (input) INDEX_STDIN :: nat where "INDEX_STDIN \<equiv> 1"
abbreviation (input) INDEX_STDOUT :: nat where "INDEX_STDOUT \<equiv> 0"

type_synonym file_table = "openfile option list"

definition FileSystem_Create :: "string \<Rightarrow> host \<Rightarrow> (bool \<times> host) res" where
  "FileSystem_Create name h =
     andThen (OpenForWrite name h) (\<lambda>(fileDescriptor, h).
     if fileDescriptor = -1 then Inr (False, h)
     else andThen (Close fileDescriptor h) (\<lambda>h. Inr (True, h)))"

definition FileSystem_Open :: "string \<Rightarrow> host \<Rightarrow> (openfile option \<times> host) res" where
  "FileSystem_Open name h =
     andThen (OpenForReadWrite name False h) (\<lambda>(fileDescriptor, h).
     if fileDescriptor = -1 then Inr (None, h) else Inr (Some (new_OpenFile fileDescriptor None), h))"

text \<open>The overload with a type; for any other type the descriptor is read uninitialised.\<close>

definition FileSystem_Open_type :: "string \<Rightarrow> int \<Rightarrow> host \<Rightarrow> (openfile option \<times> host) res" where
  "FileSystem_Open_type name ty h =
     andThen (if ty = OUTPUT_TYPE then OpenForWrite name h
              else if ty = INPUT_TYPE \<or> ty = READONLY_TYPE then OpenForRead name False h
              else if ty = READWRITE_TYPE then OpenForReadWrite name False h
              else Inl Uninitialised_read) (\<lambda>(fileDescriptor, h).
     if fileDescriptor = -1 then Inr (None, h) else Inr (Some (new_OpenFile fileDescriptor (Some ty)), h))"

definition new_FileSystem :: "host \<Rightarrow> (file_table \<times> host) res" where
  "new_FileSystem h =
     andThen (FileSystem_Create ''stdin'' h) (\<lambda>(_, h).
     andThen (FileSystem_Create ''stdout'' h) (\<lambda>(_, h).
     andThen (FileSystem_Open_type ''stdin'' INPUT_TYPE h) (\<lambda>(i, h).
     andThen (FileSystem_Open_type ''stdout'' OUTPUT_TYPE h) (\<lambda>(ou, h).
     Inr ((replicate MAX_FILE_OPEN None)[INDEX_STDIN := i, INDEX_STDOUT := ou], h)))))"

definition delete_FileSystem :: "file_table \<Rightarrow> host \<Rightarrow> host res" where
  "delete_FileSystem ft h =
     forRes (\<lambda>fi h. case fi of None \<Rightarrow> Inr h | Some fi \<Rightarrow> delete_OpenFile fi h) ft h"

fun free_slot :: "file_table \<Rightarrow> nat list \<Rightarrow> int res" where
  "free_slot ft [] = Inr (-1)"
| "free_slot ft (i # is) =
     (if i \<ge> length ft then Inl Out_of_bounds else if ft ! i = None then Inr (int i) else free_slot ft is)"

definition FindFreeSlot :: "file_table \<Rightarrow> int res" where
  "FindFreeSlot ft = free_slot ft [2..<MAX_FILE_OPEN]"

definition FileSystem_Remove :: "string \<Rightarrow> host \<Rightarrow> bool \<times> host" where
  "FileSystem_Remove name h = (let (e, h) = Unlink name h in (\<not> e, h))"

section \<open>What the operations do\<close>

definition file_of :: "openfile \<Rightarrow> host \<Rightarrow> (nat \<times> bool) option" where
  "file_of fi h = map_option (\<lambda>d. (fd_inode d, fd_writable d)) (fd_of (of_file fi) h)"

lemma fd_of_put [simp]: "fd_of f h \<noteq> None \<Longrightarrow> fd_of g (put_fd f d h) = (if g = f then Some d else fd_of g h)"
  by (auto simp: fd_of_def put_fd_def split: if_splits)

lemma fd_of_data [simp]: "fd_of f (h\<lparr>h_data := x\<rparr>) = fd_of f h"
  by (simp add: fd_of_def)

lemma h_data_put [simp]: "h_data (put_fd f d h) = h_data h" "h_names (put_fd f d h) = h_names h"
  by (simp_all add: put_fd_def)

lemma put_fd_data: "put_fd f d (h\<lparr>h_data := x\<rparr>) = (put_fd f d h)\<lparr>h_data := x\<rparr>"
  by (simp add: put_fd_def)

lemma length_patch: "new \<noteq> [] \<Longrightarrow> length (patch old pos new) = max (length old) (pos + length new)"
  by (auto simp: patch_def)

lemma take_drop_patch: "take (length new) (drop pos (patch old pos new)) = new"
  by (simp add: patch_def)

lemma nth_patch:
  "i < length old \<Longrightarrow> i < pos \<or> pos + length new \<le> i \<Longrightarrow> patch old pos new ! i = old ! i"
  by (auto simp: patch_def nth_append min_def)

lemma OpenFile_Write_ok:
  assumes d: "fd_of (of_file fi) h = Some d" "fd_writable d" and pos: "0 \<le> currentOffset fi" and ne: "from \<noteq> []"
  shows "\<exists>h'. OpenFile_Write fi from h =
      Inr (int (length from), fi\<lparr>currentOffset := currentOffset fi + int (length from)\<rparr>, h') \<and>
    h_data h' = (h_data h)(fd_inode d := patch (h_data h (fd_inode d)) (nat (currentOffset fi)) from) \<and>
    fd_of (of_file fi) h' = Some (d\<lparr>fd_pos := nat (currentOffset fi) + length from\<rparr>) \<and>
    h_names h' = h_names h \<and> (\<forall>g. g \<noteq> of_file fi \<longrightarrow> fd_of g h' = fd_of g h)"
  using assms by (auto simp: OpenFile_Write_def WriteAt_def Lseek_def WriteFile_def put_fd_data)

lemma OpenFile_Seek_ok:
  assumes "fd_of (of_file fi) h = Some d" "0 \<le> p"
  shows "OpenFile_Seek fi p h = Inr (fi\<lparr>currentOffset := p\<rparr>, put_fd (of_file fi) (d\<lparr>fd_pos := nat p\<rparr>) h)"
  using assms by (simp add: OpenFile_Seek_def Lseek_def Tell_def)

lemma OpenFile_Read_ok:
  assumes "fd_of (of_file fi) h = Some d" "0 \<le> currentOffset fi"
  shows "\<exists>h'. OpenFile_Read fi n h =
     (let got = take n (drop (nat (currentOffset fi)) (h_data h (fd_inode d)))
      in Inr (int (length got), got, fi\<lparr>currentOffset := currentOffset fi + int (length got)\<rparr>, h')) \<and>
     h_data h' = h_data h \<and> h_names h' = h_names h \<and>
     fd_of (of_file fi) h' = Some (d\<lparr>fd_pos := nat (currentOffset fi) + length (take n (drop (nat (currentOffset fi)) (h_data h (fd_inode d))))\<rparr>)"
  using assms by (simp add: OpenFile_Read_def ReadAt_def Lseek_def ReadPartial_def Let_def)

section \<open>Properties\<close>

text \<open>
  What is written to an open file is what is read back from the same position; the bytes of
  the file outside the written range and every other file are unchanged, and the file grows exactly to
  hold the new bytes.
\<close>

theorem OpenFile_write_then_read:
  assumes "fd_of (of_file fi) h = Some d" "fd_writable d" "0 \<le> currentOffset fi" "from \<noteq> []"
  shows "\<exists>fi1 h1 fi2 h2 fi3 h3.
    OpenFile_Write fi from h = Inr (int (length from), fi1, h1) \<and>
    OpenFile_Seek fi1 (currentOffset fi) h1 = Inr (fi2, h2) \<and>
    OpenFile_Read fi2 (length from) h2 = Inr (int (length from), from, fi3, h3) \<and>
    length (h_data h3 (fd_inode d)) = max (length (h_data h (fd_inode d))) (nat (currentOffset fi) + length from) \<and>
    (\<forall>i<length (h_data h (fd_inode d)). i < nat (currentOffset fi) \<or> nat (currentOffset fi) + length from \<le> i \<longrightarrow>
       h_data h3 (fd_inode d) ! i = h_data h (fd_inode d) ! i) \<and>
    (\<forall>ino. ino \<noteq> fd_inode d \<longrightarrow> h_data h3 ino = h_data h ino)"
proof -
  let ?p = "nat (currentOffset fi)" and ?new = "patch (h_data h (fd_inode d)) (nat (currentOffset fi)) from"
  obtain h1 where w: "OpenFile_Write fi from h =
      Inr (int (length from), fi\<lparr>currentOffset := currentOffset fi + int (length from)\<rparr>, h1)"
    "h_data h1 = (h_data h)(fd_inode d := ?new)" "fd_of (of_file fi) h1 = Some (d\<lparr>fd_pos := ?p + length from\<rparr>)"
    using OpenFile_Write_ok [OF assms] by blast
  let ?fi2 = "fi\<lparr>currentOffset := currentOffset fi\<rparr>" and ?h2 = "put_fd (of_file fi) (d\<lparr>fd_pos := ?p\<rparr>) h1"
  have s: "OpenFile_Seek (fi\<lparr>currentOffset := currentOffset fi + int (length from)\<rparr>) (currentOffset fi) h1 = Inr (?fi2, ?h2)"
    using OpenFile_Seek_ok [of "fi\<lparr>currentOffset := currentOffset fi + int (length from)\<rparr>"] w(3) assms(3) by simp
  have "fd_of (of_file ?fi2) ?h2 = Some (d\<lparr>fd_pos := ?p\<rparr>)" using w(3) by simp
  from OpenFile_Read_ok [OF this, of "length from"] assms(3) w(2) obtain h3 where
    "OpenFile_Read ?fi2 (length from) ?h2 =
      Inr (int (length from), from, ?fi2\<lparr>currentOffset := currentOffset ?fi2 + int (length from)\<rparr>, h3)"
    "h_data h3 = (h_data h)(fd_inode d := ?new)"
    by (auto simp: Let_def take_drop_patch)
  then show ?thesis using w(1) s length_patch [OF assms(4)] nth_patch by (intro exI conjI) (auto)
qed

definition sample_host :: host where
  "sample_host = \<lparr>h_names = [''f'' \<mapsto> 0], h_data = (\<lambda>_. [1, 2, 3]), h_fds = [0 \<mapsto> \<lparr>fd_inode = 0, fd_pos = 0, fd_writable = True\<rparr>],
     h_next_inode = 1, h_next_fd = 1, may_create = (\<lambda>_. True)\<rparr>"

theorem OpenFile_write_then_read_witness:
  "\<exists>fi1 h1 fi2 h2 fi3 h3.
    OpenFile_Write \<lparr>of_file = 0, currentOffset = 2, of_type = Some 2\<rparr> [7, 8] sample_host = Inr (2, fi1, h1) \<and>
    OpenFile_Seek fi1 2 h1 = Inr (fi2, h2) \<and> OpenFile_Read fi2 2 h2 = Inr (2, [7, 8], fi3, h3)"
proof -
  let ?fi = "\<lparr>of_file = 0, currentOffset = 2, of_type = Some 2\<rparr>"
  have "fd_of (of_file ?fi) sample_host = Some \<lparr>fd_inode = 0, fd_pos = 0, fd_writable = True\<rparr>"
    by (simp add: fd_of_def sample_host_def)
  from OpenFile_write_then_read [OF this, of "[7, 8]"] show ?thesis by (auto simp: numeral_2_eq_2)
qed

lemma free_slot_ok:
  "sorted is \<Longrightarrow> \<forall>i\<in>set is. i < length ft \<Longrightarrow>
   free_slot ft is = Inr (if \<forall>i\<in>set is. ft ! i \<noteq> None then -1 else int (Min {i \<in> set is. ft ! i = None}))"
proof (induction "is")
  case (Cons i "is")
  show ?case
  proof (cases "ft ! i = None")
    case True
    with Cons.prems have "Min {j \<in> set (i # is). ft ! j = None} = i"
      by (intro Min_eqI) auto
    with True Cons.prems show ?thesis by auto
  next
    case False
    then have e: "{j \<in> set (i # is). ft ! j = None} = {j \<in> set is. ft ! j = None}" by auto
    have "free_slot ft (i # is) = free_slot ft is" using False Cons.prems by auto
    also have "\<dots> = Inr (if \<forall>i\<in>set is. ft ! i \<noteq> None then -1 else int (Min {i \<in> set is. ft ! i = None}))"
      using Cons by simp
    finally show ?thesis unfolding e using False by simp
  qed
qed simp

text \<open>
  \<^verbatim>\<open>FindFreeSlot\<close> answers the lowest free entry of the file table at or above 2, and -1
  exactly when there is none; the entries of the console (0 and 1) are never given out.
\<close>

theorem FindFreeSlot_lowest:
  assumes "length ft = 10"
  shows "FindFreeSlot ft =
    Inr (if \<forall>i\<in>{2..<10}. ft ! i \<noteq> None then -1 else int (Min {i \<in> {2..<10}. ft ! i = None}))"
proof -
  have "set [2..<10] = {2..<10::nat}" by (rule set_upt)
  then show ?thesis
    using free_slot_ok [of "[2..<10]" ft] assms unfolding FindFreeSlot_def by (simp del: upt_rec_numeral set_upt)
qed

theorem FindFreeSlot_lowest_witness:
  "FindFreeSlot ((replicate 10 None)[2 := Some (new_OpenFile 5 (Some 2))]) = Inr 3"
proof -
  have "{i. (2 \<le> i \<and> i < 10) \<and> (replicate 10 None)[2 := Some (new_OpenFile 5 (Some 2))] ! i = None} = {3..<10}"
    by (auto simp: nth_list_update)
  moreover have "Min {3..<10::nat} = 3" by (rule Min_eqI) auto
  moreover have "\<not> (\<forall>i\<in>{2..<10}. (replicate 10 None)[2 := Some (new_OpenFile 5 (Some 2))] ! i \<noteq> None)"
    by (auto simp: nth_list_update intro!: bexI [of _ 3])
  ultimately show ?thesis
    using FindFreeSlot_lowest [of "(replicate 10 None)[2 := Some (new_OpenFile 5 (Some 2))]"] by simp
qed

text \<open>
  \<^verbatim>\<open>FileSystem::Create\<close> never reports a failure: the file exists and is empty afterwards, or
  the wrapper \<^verbatim>\<open>OpenForWrite\<close> aborts the kernel because the host refuses to make the file.
\<close>

theorem FileSystem_Create_succeeds_or_aborts:
  assumes "\<forall>f. h_next_fd h \<le> f \<longrightarrow> h_fds h f = None"
  shows "if h_names h name = None \<and> \<not> may_create h name
    then FileSystem_Create name h = Inl Assertion_failed
    else \<exists>h' ino. FileSystem_Create name h = Inr (True, h') \<and> h_names h' name = Some ino \<and> h_data h' ino = [] \<and>
      h_fds h' = h_fds h"
  using assms
  by (auto simp: FileSystem_Create_def OpenForWrite_def open_create_def new_fd_def Close_def fd_of_def fun_eq_iff
      split: option.splits)

theorem FileSystem_Create_succeeds_or_aborts_witness:
  "FileSystem_Create ''x'' (sample_host\<lparr>may_create := (\<lambda>_. False)\<rparr>) = Inl Assertion_failed"
  using FileSystem_Create_succeeds_or_aborts [of "sample_host\<lparr>may_create := (\<lambda>_. False)\<rparr>" "''x''"]
  by (simp add: sample_host_def)

end
