(* ===== verification/Syscall.thy ===== *)
theory Syscall
  imports AddrSpace Console HostFiles
begin

text \<open>
  The kernel's entry from user programs: \<^verbatim>\<open>userprog/exception.cc\<close>, with \<^verbatim>\<open>ksyscall.h\<close> and the system
  call codes of \<^verbatim>\<open>syscall.h\<close>.

  A handler works on the machine, the console, the host files and the file table of the calling
  process (record \<open>sys\<close>).  It ends in one of these ways (\<open>act\<close>): it returns to the user program, it
  halts the machine (\<^verbatim>\<open>SysHalt\<close>), it waits for input that never comes, or it calls into the process
  table or the semaphore table; those calls run interleaved with other threads (\<^verbatim>\<open>Process\<close>,
  \<^verbatim>\<open>STable\<close>), so the handler hands over a \<open>request\<close> and \<open>complete\<close> is what it does with the answer.
  A fault is the kernel aborting.  Text that the kernel prints with \<^verbatim>\<open>printf\<close> goes to the host's
  terminal and is left out.
\<close>

section \<open>State and outcomes\<close>

record sys =
  mach :: machine
  cin :: console_in
  cout :: console_out
  s_host :: host
  ftab :: file_table
  rand_value :: u32

datatype request =
    Req_Exec string | Req_Join int | Req_Exit int | Req_CreateSemaphore string int
  | Req_Wait string | Req_Signal string

datatype 'a act = Done 'a sys | Halted sys | Waits | Calls request sys

type_synonym 'a sysm = "sys \<Rightarrow> 'a act res"

definition retS :: "'a \<Rightarrow> 'a sysm" where
  "retS x s = Inr (Done x s)"

definition failS :: "fault \<Rightarrow> 'a sysm" where
  "failS e s = Inl e"

definition bindS :: "'a sysm \<Rightarrow> ('a \<Rightarrow> 'b sysm) \<Rightarrow> 'b sysm" where
  "bindS m f s =
     (case m s of
        Inl e \<Rightarrow> Inl e
      | Inr (Done x s') \<Rightarrow> f x s'
      | Inr (Halted s') \<Rightarrow> Inr (Halted s')
      | Inr Waits \<Rightarrow> Inr Waits
      | Inr (Calls r s') \<Rightarrow> Inr (Calls r s'))"

definition SysHalt :: "'a sysm" where
  "SysHalt s = Inr (Halted s)"

definition requestS :: "request \<Rightarrow> 'a sysm" where
  "requestS r s = Inr (Calls r s)"

definition SysAdd :: "u32 \<Rightarrow> u32 \<Rightarrow> u32" where
  "SysAdd op1 op2 = op1 + op2"

section \<open>Registers and user memory\<close>

definition getR :: "nat \<Rightarrow> u32 sysm" where
  "getR r s = andThen (ReadRegister (mach s) (int r)) (\<lambda>v. Inr (Done v s))"

definition setR :: "nat \<Rightarrow> u32 \<Rightarrow> unit sysm" where
  "setR r v s = andThen (WriteRegister (mach s) (int r) v) (\<lambda>m. Inr (Done () (s\<lparr>mach := m\<rparr>)))"

definition increasePC :: "unit sysm" where
  "increasePC =
     bindS (getR PCReg) (\<lambda>pc.
     bindS (setR PrevPCReg pc) (\<lambda>_.
     bindS (getR PCReg) (\<lambda>pc.
     bindS (setR PCReg (pc + 4)) (\<lambda>_.
     bindS (getR PCReg) (\<lambda>pc.
     setR NextPCReg (pc + 4))))))"

definition finish :: "u32 \<Rightarrow> unit sysm" where
  "finish v = bindS (setR 2 v) (\<lambda>_. increasePC)"

text \<open>
  The exceptions that can happen while the kernel touches user memory enter the handler again, and
  each of them halts the machine.
\<close>

definition user_load :: "u32 \<Rightarrow> u32 sysm" where
  "user_load addr s =
     andThen (ReadMem (mach s) addr 1) (\<lambda>(exc, v, m).
     if exc = NoException then Inr (Done v (s\<lparr>mach := m\<rparr>)) else Inr (Halted (s\<lparr>mach := m\<rparr>)))"

definition user_store :: "u32 \<Rightarrow> u32 \<Rightarrow> unit sysm" where
  "user_store addr v s =
     andThen (WriteMem (mach s) addr 1 v) (\<lambda>(exc, m).
     if exc = NoException then Inr (Done () (s\<lparr>mach := m\<rparr>)) else Inr (Halted (s\<lparr>mach := m\<rparr>)))"

fun u2s_loop :: "nat \<Rightarrow> u32 \<Rightarrow> u8 list sysm" where
  "u2s_loop 0 addr = retS []"
| "u2s_loop (Suc n) addr =
     bindS (user_load addr) (\<lambda>oneChar.
     if oneChar = 0 then retS [0]
     else bindS (u2s_loop n (addr + 1)) (\<lambda>rest. retS (ucast oneChar # rest)))"

text \<open>
  A negative array size (\<^verbatim>\<open>limit + 1\<close> is an \<^verbatim>\<open>int\<close>, which wraps) makes \<^verbatim>\<open>new\<close> throw, which nothing
  catches.  The host is taken to have memory for every other size.
\<close>

definition User2System :: "u32 \<Rightarrow> int \<Rightarrow> u8 list sysm" where
  "User2System virAddr limit =
     (if limit + 1 < 0 \<or> limit + 1 > 2147483647 then failS Host_trap
      else bindS (u2s_loop (nat limit) virAddr) (\<lambda>got.
           retS (got @ replicate (nat (limit + 1) - length got) 0)))"

text \<open>The do-while loop of \<^verbatim>\<open>System2User\<close>: \<open>n\<close> bytes at most, up to the first zero.\<close>

fun s2u_loop :: "nat \<Rightarrow> u32 \<Rightarrow> u8 list \<Rightarrow> int \<Rightarrow> int sysm" where
  "s2u_loop 0 addr buf i = retS i"
| "s2u_loop (Suc n) addr [] i = failS Out_of_bounds"
| "s2u_loop (Suc n) addr (b # buf) i =
     bindS (user_store addr (scast b)) (\<lambda>_.
     if b \<noteq> 0 then s2u_loop n (addr + 1) buf (i + 1) else retS (i + 1))"

definition System2User :: "u32 \<Rightarrow> int \<Rightarrow> u8 list \<Rightarrow> int sysm" where
  "System2User virtAddr len buffer =
     (if len < 0 then retS (-1) else if len = 0 then retS 0 else s2u_loop (nat len) virtAddr buffer 0)"

text \<open>The C string in a buffer.\<close>

definition c_string :: "u8 list \<Rightarrow> string" where
  "c_string buf = map (\<lambda>b. char_of (unat b)) (takeWhile (\<lambda>b. b \<noteq> 0) buf)"

definition char_code :: "u8 \<Rightarrow> int" where
  "char_code b = sint b"

section \<open>Console\<close>

definition with_cin :: "(console_in \<Rightarrow> ('a \<times> console_in) run) \<Rightarrow> 'a sysm" where
  "with_cin f s =
     (case f (cin s) of
        None \<Rightarrow> Inr Waits
      | Some (Inl e) \<Rightarrow> Inl e
      | Some (Inr (x, c)) \<Rightarrow> Inr (Done x (s\<lparr>cin := c\<rparr>)))"

definition with_cout :: "(console_out \<Rightarrow> console_out run) \<Rightarrow> unit sysm" where
  "with_cout f s =
     (case f (cout s) of
        None \<Rightarrow> Inr Waits
      | Some (Inl e) \<Rightarrow> Inl e
      | Some (Inr c) \<Rightarrow> Inr (Done () (s\<lparr>cout := c\<rparr>)))"

function clearInputBuffer :: "console_in \<Rightarrow> (unit \<times> console_in) run" where
  "clearInputBuffer c =
     (case GetChar c of
        None \<Rightarrow> None
      | Some (Inl e) \<Rightarrow> Some (Inl e)
      | Some (Inr (ch, c)) \<Rightarrow> if ch \<noteq> 10 \<and> ch \<noteq> EOF then clearInputBuffer c else Some (Inr ((), c)))"
  by pat_completeness auto
termination
  by (relation "measure steps_left") (auto dest: GetChar_decreases)

declare clearInputBuffer.simps [simp del]

section \<open>Numbers\<close>

text \<open>\<^verbatim>\<open>ReadNum\<close>: leading blanks.\<close>

function skip_spaces :: "console_in \<Rightarrow> (int \<times> console_in) run" where
  "skip_spaces c =
     (case GetChar c of
        None \<Rightarrow> None
      | Some (Inl e) \<Rightarrow> Some (Inl e)
      | Some (Inr (ch, c)) \<Rightarrow> if ch = 32 then skip_spaces c else Some (Inr (ch, c)))"
  by pat_completeness auto
termination
  by (relation "measure steps_left") (auto dest: GetChar_decreases)

declare skip_spaces.simps [simp del]

definition is_digit :: "int \<Rightarrow> bool" where
  "is_digit c \<longleftrightarrow> 48 \<le> c \<and> c \<le> 57"

text \<open>
  The main loop, up to the newline: \<open>r\<close> is the \<^verbatim>\<open>long long\<close> accumulator, which wraps around;
  \<open>None\<close> is the branch for a character that is neither a digit nor a blank.
\<close>

function read_digits :: "64 word \<Rightarrow> bool \<Rightarrow> bool \<Rightarrow> console_in \<Rightarrow> ((64 word \<times> bool) option \<times> console_in) run" where
  "read_digits r isEnd flagZero c =
     (case GetChar c of
        None \<Rightarrow> None
      | Some (Inl e) \<Rightarrow> Some (Inl e)
      | Some (Inr (ch, c)) \<Rightarrow>
          if ch = 10 then Some (Inr (Some (r, flagZero), c))
          else if is_digit ch \<and> \<not> isEnd then read_digits (r * 10 + word_of_int (ch - 48)) isEnd True c
          else if ch = 32 then read_digits r True flagZero c
          else Some (Inr (None, c)))"
  by pat_completeness auto
termination
  by (relation "measure (\<lambda>(r, isEnd, flagZero, c). steps_left c)") (auto dest: GetChar_decreases)

declare read_digits.simps [simp del]

text \<open>The checks after the loop; every failure answers 0.\<close>

definition check_number :: "bool \<Rightarrow> 64 word \<Rightarrow> bool \<Rightarrow> u32" where
  "check_number isNegative r flagZero =
     (let r = (if isNegative then - r else r)
      in if sint r > 2147483647 then 0
         else if sint r < -2147483647 then 0
         else if isNegative \<and> r = 0 \<and> \<not> flagZero then 0
         else ucast r)"

definition ReadNum :: "console_in \<Rightarrow> (u32 \<times> console_in) run" where
  "ReadNum c =
     bindR (skip_spaces c) (\<lambda>(ch, c).
     let go = (\<lambda>isNegative r.
           bindR (read_digits r False False c) (\<lambda>(res, c).
           case res of
             None \<Rightarrow> bindR (clearInputBuffer c) (\<lambda>(_, c). Some (Inr (0, c)))
           | Some (r, flagZero) \<Rightarrow> Some (Inr (check_number isNegative r flagZero, c))))
     in if ch = 45 then go True 0
        else if is_digit ch then go False (word_of_int (ch - 48))
        else if ch = 10 then Some (Inr (0, c))
        else bindR (clearInputBuffer c) (\<lambda>(_, c). Some (Inr (0, c))))"

text \<open>\<^verbatim>\<open>PrintNum\<close>: number of digits, then the digits from the last to the first.\<close>

function countDigits :: "int \<Rightarrow> nat" where
  "countDigits temp = (if temp > 0 then Suc (countDigits (temp div 10)) else 0)"
  by pat_completeness auto
termination
  by (relation "measure nat") auto

declare countDigits.simps [simp del]

fun fill_digits :: "nat \<Rightarrow> int \<Rightarrow> int list \<Rightarrow> int list" where
  "fill_digits 0 number acc = acc"
| "fill_digits (Suc k) number acc = fill_digits k (cdiv number 10) ((cmod number 10 + 48) # acc)"

definition print_chars :: "u32 \<Rightarrow> int list" where
  "print_chars w =
     (if w = 0 then [48]
      else let neg = sint w < 0; number = sint (if neg then - w else w)
           in (if neg then [45] else []) @ fill_digits (countDigits number) number [])"

section \<open>System calls on numbers, characters and strings\<close>

abbreviation (input) MAX_LENGTH_FILENAME :: int where "MAX_LENGTH_FILENAME \<equiv> 32"
abbreviation (input) RW_ERROR_FILE :: u32 where "RW_ERROR_FILE \<equiv> -1"
abbreviation (input) RW_END_FILE :: u32 where "RW_END_FILE \<equiv> -2"

definition SC_Add :: "unit sysm" where
  "SC_Add = bindS (getR 4) (\<lambda>a. bindS (getR 5) (\<lambda>b. finish (SysAdd a b)))"

definition SC_ReadNum :: "unit sysm" where
  "SC_ReadNum = bindS (with_cin ReadNum) finish"

text \<open>The characters go out one \<^verbatim>\<open>PutChar\<close> at a time; register 2 is not written.\<close>

definition SC_PrintNum :: "unit sysm" where
  "SC_PrintNum =
     bindS (getR 4) (\<lambda>number.
     bindS (with_cout (SynchConsoleOutput_Write (print_chars number))) (\<lambda>_. increasePC))"

definition strlen :: "u8 list \<Rightarrow> nat" where
  "strlen buf = length (takeWhile (\<lambda>b. b \<noteq> 0) buf)"

text \<open>The terminating zero is written to the console too.\<close>

definition SC_PrintString :: "unit sysm" where
  "SC_PrintString =
     bindS (getR 4) (\<lambda>virtAddr.
     bindS (User2System virtAddr 255) (\<lambda>buffer.
     bindS (with_cout (SynchConsoleOutput_Write (map char_code (take (strlen buffer + 1) buffer)))) (\<lambda>_.
     increasePC)))"

text \<open>
  The loop of \<^verbatim>\<open>SC_ReadString\<close>: it stores each character at \<^verbatim>\<open>strName[inputLength]\<close>, in a buffer of
  \<open>n\<close> bytes, without comparing the two.
\<close>

function read_string :: "nat \<Rightarrow> int list \<Rightarrow> console_in \<Rightarrow> (int list \<times> console_in) run" where
  "read_string n got c =
     (case GetChar c of
        None \<Rightarrow> None
      | Some (Inl e) \<Rightarrow> Some (Inl e)
      | Some (Inr (ch, c)) \<Rightarrow>
          if length got \<ge> n then Some (Inl Out_of_bounds)
          else if ch \<noteq> 10 then read_string n (got @ [ch]) c
          else Some (Inr (got, c)))"
  by pat_completeness auto
termination
  by (relation "measure (\<lambda>(n, got, c). steps_left c)") (auto dest: GetChar_decreases)

declare read_string.simps [simp del]

definition SC_ReadString :: "unit sysm" where
  "SC_ReadString =
     bindS (getR 4) (\<lambda>virAddr.
     bindS (getR 5) (\<lambda>len.
     if sint len < 0 then failS Host_trap
     else bindS (with_cin (read_string (nat (sint len)) [])) (\<lambda>strName.
          bindS (System2User virAddr (int (length strName)) (map word_of_int strName)) (\<lambda>numBytes.
          increasePC))))"

definition SC_RandomNum :: "unit sysm" where
  "SC_RandomNum = (\<lambda>s. finish (rand_value s) s)"

definition read_one_char :: "console_in \<Rightarrow> (int \<times> console_in) run" where
  "read_one_char c =
     bindR (GetChar c) (\<lambda>(result, c).
     if result = 10 then Some (Inr (result, c))
     else bindR (GetChar c) (\<lambda>(ch, c).
          if ch \<noteq> 10 then bindR (clearInputBuffer c) (\<lambda>(_, c). Some (Inr (0, c)))
          else Some (Inr (result, c))))"

definition SC_ReadChar :: "unit sysm" where
  "SC_ReadChar = bindS (with_cin read_one_char) (\<lambda>result. finish (word_of_int result))"

definition SC_PrintChar :: "unit sysm" where
  "SC_PrintChar =
     bindS (getR 4) (\<lambda>r.
     bindS (with_cout (SynchConsoleOutput_Write [char_code (ucast r)])) (\<lambda>_. increasePC))"

section \<open>System calls on files\<close>

definition host_call :: "(host \<Rightarrow> ('a \<times> host) res) \<Rightarrow> 'a sysm" where
  "host_call f s = andThen (f (s_host s)) (\<lambda>(x, h). Inr (Done x (s\<lparr>s_host := h\<rparr>)))"

text \<open>\<^verbatim>\<open>fileTable[id]\<close>, read and written; an index outside the array is undefined behaviour.\<close>

definition slot :: "int \<Rightarrow> openfile option sysm" where
  "slot i s = (if 0 \<le> i \<and> i < int (length (ftab s)) then Inr (Done (ftab s ! nat i) s) else Inl Out_of_bounds)"

definition set_slot :: "int \<Rightarrow> openfile option \<Rightarrow> unit sysm" where
  "set_slot i fi s =
     (if 0 \<le> i \<and> i < int (length (ftab s)) then Inr (Done () (s\<lparr>ftab := (ftab s)[nat i := fi]\<rparr>))
      else Inl Out_of_bounds)"

definition SC_CreateFile :: "unit sysm" where
  "SC_CreateFile =
     bindS (getR 4) (\<lambda>virAddr.
     bindS (User2System virAddr MAX_LENGTH_FILENAME) (\<lambda>filename.
     bindS (host_call (FileSystem_Create (c_string filename))) (\<lambda>ok.
     finish (if ok then 0 else -1))))"

definition find_free :: "int sysm" where
  "find_free s = andThen (FindFreeSlot (ftab s)) (\<lambda>i. Inr (Done i s))"

text \<open>
  The console types and a full table leave the \<^verbatim>\<open>switch\<close> by \<^verbatim>\<open>break\<close>, which leads to
  \<^verbatim>\<open>ASSERTNOTREACHED\<close>; a file that does not open leaves register 2 as it was.
\<close>

definition SC_Open :: "unit sysm" where
  "SC_Open =
     bindS (getR 4) (\<lambda>virAddr.
     bindS (getR 5) (\<lambda>ty.
     bindS (User2System virAddr MAX_LENGTH_FILENAME) (\<lambda>fileName.
     bindS find_free (\<lambda>freeSlot.
     if sint ty = INPUT_TYPE then failS Assertion_failed
     else if sint ty = OUTPUT_TYPE then failS Assertion_failed
     else if freeSlot \<noteq> -1 then
       bindS (host_call (FileSystem_Open_type (c_string fileName) (sint ty))) (\<lambda>file.
       bindS (case file of
                None \<Rightarrow> retS ()
              | Some fi \<Rightarrow> bindS (set_slot freeSlot file) (\<lambda>_. setR 2 (word_of_int freeSlot))) (\<lambda>_.
       increasePC))
     else failS Assertion_failed))))"

definition SC_Close :: "unit sysm" where
  "SC_Close =
     bindS (getR 4) (\<lambda>file_Id.
     if sint file_Id \<ge> 2 \<and> sint file_Id \<le> int MAX_FILE_OPEN - 1 then
       bindS (slot (sint file_Id)) (\<lambda>file.
       case file of
         Some fi \<Rightarrow>
           bindS (host_call (\<lambda>h. andThen (delete_OpenFile fi h) (\<lambda>h. Inr ((), h)))) (\<lambda>_.
           bindS (set_slot (sint file_Id) None) (\<lambda>_. finish 0))
       | None \<Rightarrow> finish (-1))
     else failS Assertion_failed)"

definition SC_Seek :: "unit sysm" where
  "SC_Seek =
     bindS (getR 4) (\<lambda>position.
     bindS (getR 5) (\<lambda>id.
     if sint id < 0 \<or> sint id \<ge> int MAX_FILE_OPEN then finish (-1)
     else bindS (slot (sint id)) (\<lambda>file.
     case file of
       None \<Rightarrow> finish (-1)
     | Some fi \<Rightarrow>
         if sint id = 0 \<or> sint id = 1 then finish (-1)
         else
           bindS (if sint position = -1 then host_call (OpenFile_Length fi) else retS (sint position)) (\<lambda>pos.
           bindS (host_call (OpenFile_Length fi)) (\<lambda>len.
           if pos > len \<or> pos < 0 then finish (-1)
           else
             bindS (host_call (OpenFile_Seek fi pos)) (\<lambda>fi.
             bindS (set_slot (sint id) (Some fi)) (\<lambda>_. finish (word_of_int pos))))))))"

text \<open>\<^verbatim>\<open>fileTable[id]->getCurrentOffset()\<close>, which also sets the member.\<close>

definition offset_of :: "int \<Rightarrow> openfile \<Rightarrow> (int \<times> openfile) sysm" where
  "offset_of fid fi =
     bindS (host_call (\<lambda>h. Inr (getCurrentOffset fi h, h))) (\<lambda>(pos, fi).
     bindS (set_slot fid (Some fi)) (\<lambda>_. retS (pos, fi)))"

definition SC_Read :: "unit sysm" where
  "SC_Read =
     bindS (getR 4) (\<lambda>virAddr.
     bindS (getR 5) (\<lambda>charcount.
     bindS (getR 6) (\<lambda>id.
     if sint id < 0 \<or> sint id > int MAX_FILE_OPEN then finish RW_ERROR_FILE
     else bindS (slot (sint id)) (\<lambda>file.
     case file of
       None \<Rightarrow> finish RW_ERROR_FILE
     | Some fi \<Rightarrow>
         if sint id = int INDEX_STDOUT then finish RW_ERROR_FILE
         else bindS (offset_of (sint id) fi) (\<lambda>(curPosition, fi).
         if sint charcount < 0 then failS Host_trap
         else if sint id = int INDEX_STDIN then
           bindS (with_cin (\<lambda>c. bindR (SynchConsoleInput_Read (sint charcount) c)
                     (\<lambda>(sz, buffer, c). Some (Inr ((sz, buffer), c))))) (\<lambda>(sz, buffer).
           bindS (System2User virAddr sz (map word_of_int buffer)) (\<lambda>_. finish (word_of_int sz)))
         else
           bindS (host_call (\<lambda>h. andThen (OpenFile_Read fi (nat (sint charcount)) h)
                     (\<lambda>(n, got, fi, h). Inr ((n, got, fi), h)))) (\<lambda>(n, buffer, fi).
           bindS (set_slot (sint id) (Some fi)) (\<lambda>_.
           if n > 0 then
             bindS (offset_of (sint id) fi) (\<lambda>(newPosition, fi).
             bindS (System2User virAddr (newPosition - curPosition) buffer) (\<lambda>_.
             finish (word_of_int (newPosition - curPosition))))
           else finish RW_END_FILE)))))))"

section \<open>Processes and semaphores\<close>

definition SC_Join :: "unit sysm" where
  "SC_Join = bindS (getR 4) (\<lambda>pID. requestS (Req_Join (sint pID)))"

text \<open>
  \<^verbatim>\<open>write\<close> with the length -1 fails with -1, which is the number of bytes \<^verbatim>\<open>WriteFile\<close> expects: its
  assertion holds and the offset moves back by one.
\<close>

definition file_write :: "openfile \<Rightarrow> int \<Rightarrow> u8 list \<Rightarrow> host \<Rightarrow> ((int \<times> openfile) \<times> host) res" where
  "file_write fi charcount buffer h =
     (if charcount < 0
      then andThen (Lseek (of_file fi) (currentOffset fi) 0 h) (\<lambda>h.
           Inr ((charcount, fi\<lparr>currentOffset := currentOffset fi + charcount\<rparr>), h))
      else andThen (OpenFile_Write fi (take (nat charcount) buffer) h) (\<lambda>(n, fi, h). Inr ((n, fi), h)))"

text \<open>After a write of no bytes the code runs on into the next case, \<^verbatim>\<open>SC_Join\<close>.\<close>

definition SC_Write :: "unit sysm" where
  "SC_Write =
     bindS (getR 4) (\<lambda>virAddr.
     bindS (getR 5) (\<lambda>charcount.
     bindS (getR 6) (\<lambda>id.
     if sint id < 0 \<or> sint id > int MAX_FILE_OPEN then finish RW_ERROR_FILE
     else bindS (slot (sint id)) (\<lambda>file.
     case file of
       None \<Rightarrow> finish RW_ERROR_FILE
     | Some fi \<Rightarrow>
         bindS (\<lambda>s. andThen (getType fi) (\<lambda>ty. Inr (Done ty s))) (\<lambda>ty.
         if ty = READONLY_TYPE \<or> sint id = int INDEX_STDIN then finish RW_ERROR_FILE
         else bindS (offset_of (sint id) fi) (\<lambda>(curPosition, fi).
         bindS (User2System virAddr (sint charcount)) (\<lambda>buffer.
         if sint id = int INDEX_STDOUT then
           if 0 \<notin> set buffer then failS Out_of_bounds
           else
             bindS (with_cout (SynchConsoleOutput_Write (map char_code (take (strlen buffer) buffer)))) (\<lambda>_.
             finish (word_of_int (int (strlen buffer) - 1)))
         else if ty = READWRITE_TYPE then
           bindS (host_call (file_write fi (sint charcount) buffer)) (\<lambda>(n, fi).
           bindS (set_slot (sint id) (Some fi)) (\<lambda>_.
           if n > 0 then
             bindS (offset_of (sint id) fi) (\<lambda>(newPosition, fi).
             finish (word_of_int (newPosition - curPosition)))
           else bindS (setR 2 RW_END_FILE) (\<lambda>_. SC_Join)))
         else SC_Join)))))))"

definition SC_Exec :: "unit sysm" where
  "SC_Exec =
     bindS (getR 4) (\<lambda>virtAddr.
     bindS (User2System virtAddr (MAX_LENGTH_FILENAME + 1)) (\<lambda>name.
     bindS (host_call (FileSystem_Open (c_string name))) (\<lambda>oFile.
     case oFile of
       None \<Rightarrow> finish (-1)
     | Some fi \<Rightarrow>
         bindS (host_call (\<lambda>h. andThen (delete_OpenFile fi h) (\<lambda>h. Inr ((), h)))) (\<lambda>_.
         requestS (Req_Exec (c_string name))))))"

definition SC_Exit :: "unit sysm" where
  "SC_Exit = bindS (getR 4) (\<lambda>exitStatus. requestS (Req_Exit (sint exitStatus)))"

definition SC_CreateSemaphore :: "unit sysm" where
  "SC_CreateSemaphore =
     bindS (getR 4) (\<lambda>virtAddr.
     bindS (getR 5) (\<lambda>semval.
     bindS (User2System virtAddr (MAX_LENGTH_FILENAME + 1)) (\<lambda>name.
     requestS (Req_CreateSemaphore (c_string name) (sint semval)))))"

definition SC_Wait :: "unit sysm" where
  "SC_Wait =
     bindS (getR 4) (\<lambda>virtAddr.
     bindS (User2System virtAddr (MAX_LENGTH_FILENAME + 1)) (\<lambda>name.
     requestS (Req_Wait (c_string name))))"

definition SC_Signal :: "unit sysm" where
  "SC_Signal =
     bindS (getR 4) (\<lambda>virtAddr.
     bindS (User2System virtAddr (MAX_LENGTH_FILENAME + 1)) (\<lambda>name.
     requestS (Req_Signal (c_string name))))"

text \<open>What the handler does with the answer; the result of \<^verbatim>\<open>ExitUpdate\<close> is not written back.\<close>

definition complete :: "request \<Rightarrow> int \<Rightarrow> unit sysm" where
  "complete r result = (case r of Req_Exit _ \<Rightarrow> increasePC | _ \<Rightarrow> finish (word_of_int result))"

section \<open>The handler\<close>

definition syscall :: "int \<Rightarrow> unit sysm" where
  "syscall ty =
     (if ty = 0 then SysHalt else if ty = 42 then SC_Add else if ty = 43 then SC_ReadNum
      else if ty = 47 then SC_PrintNum else if ty = 51 then SC_PrintString
      else if ty = 50 then SC_ReadString else if ty = 44 then SC_RandomNum
      else if ty = 45 then SC_ReadChar else if ty = 46 then SC_PrintChar
      else if ty = 4 then SC_CreateFile else if ty = 6 then SC_Open else if ty = 10 then SC_Close
      else if ty = 9 then SC_Seek else if ty = 7 then SC_Read else if ty = 8 then SC_Write
      else if ty = 3 then SC_Join else if ty = 2 then SC_Exec else if ty = 1 then SC_Exit
      else if ty = 60 then SC_CreateSemaphore else if ty = 61 then SC_Wait
      else if ty = 62 then SC_Signal else failS Assertion_failed)"

definition ExceptionHandler :: "ExceptionType \<Rightarrow> unit sysm" where
  "ExceptionHandler which =
     bindS (getR 2) (\<lambda>ty.
     case which of
       NoException \<Rightarrow> retS ()
     | PageFaultException \<Rightarrow> SysHalt
     | ReadOnlyException \<Rightarrow> SysHalt
     | BusErrorException \<Rightarrow> SysHalt
     | AddressErrorException \<Rightarrow> SysHalt
     | OverflowException \<Rightarrow> SysHalt
     | IllegalInstrException \<Rightarrow> SysHalt
     | NumExceptionTypes \<Rightarrow> SysHalt
     | SyscallException \<Rightarrow> syscall (sint ty))"

section \<open>What a handler may change\<close>

text \<open>
  \<open>only2\<close> relates register files that differ in register 2 at most, \<open>resumed\<close> those before and after
  a completed system call.  \<open>confined R m\<close>: from a well-formed machine, whatever way \<open>m\<close> ends,
  the machine is well formed, memory the process may not write is untouched and its page table
  gives the same rights; when \<open>m\<close> returns, the registers are related by \<open>R\<close>.
\<close>

definition only2 :: "(nat \<Rightarrow> u32) \<Rightarrow> (nat \<Rightarrow> u32) \<Rightarrow> bool" where
  "only2 f g \<longleftrightarrow> (\<forall>r. r \<noteq> 2 \<longrightarrow> g r = f r)"

definition resumed :: "(nat \<Rightarrow> u32) \<Rightarrow> (nat \<Rightarrow> u32) \<Rightarrow> bool" where
  "resumed f g \<longleftrightarrow> g PCReg = f PCReg + 4 \<and> g PrevPCReg = f PCReg \<and> g NextPCReg = f PCReg + 8 \<and>
     (\<forall>r. r \<notin> {2, PCReg, PrevPCReg, NextPCReg} \<longrightarrow> g r = f r)"

definition same_space :: "sys \<Rightarrow> sys \<Rightarrow> bool" where
  "same_space s s' \<longleftrightarrow> machine_ok (mach s') \<and> keeps (mach s) (mach s')"

definition outcome_ok :: "((nat \<Rightarrow> u32) \<Rightarrow> (nat \<Rightarrow> u32) \<Rightarrow> bool) \<Rightarrow> sys \<Rightarrow> 'a act res \<Rightarrow> bool" where
  "outcome_ok R s r =
     (case r of
        Inl e \<Rightarrow> True
      | Inr (Done x s') \<Rightarrow> same_space s s' \<and> R (registers (mach s)) (registers (mach s'))
      | Inr (Halted s') \<Rightarrow> same_space s s'
      | Inr Waits \<Rightarrow> True
      | Inr (Calls r s') \<Rightarrow> same_space s s' \<and> only2 (registers (mach s)) (registers (mach s')))"

definition confined :: "((nat \<Rightarrow> u32) \<Rightarrow> (nat \<Rightarrow> u32) \<Rightarrow> bool) \<Rightarrow> 'a sysm \<Rightarrow> bool" where
  "confined R m \<longleftrightarrow> (\<forall>s. machine_ok (mach s) \<longrightarrow> outcome_ok R s (m s))"

named_theorems confined_intros \<open>handlers touch only their own address space\<close>

lemma only2_refl [simp]: "only2 f f"
  by (simp add: only2_def)

lemma only2_trans: "only2 f g \<Longrightarrow> only2 g h \<Longrightarrow> only2 f h"
  by (simp add: only2_def)

lemma only2_resumed: "only2 f g \<Longrightarrow> resumed g h \<Longrightarrow> resumed f h"
  by (simp add: only2_def resumed_def)

lemma same_space_refl: "machine_ok (mach s) \<Longrightarrow> same_space s s"
  by (simp add: same_space_def machine_ok_def keeps_refl)

lemma same_space_trans: "same_space s s' \<Longrightarrow> same_space s' s'' \<Longrightarrow> same_space s s''"
  by (auto simp: same_space_def intro: keeps_trans)

lemma confined_bind_gen:
  assumes "\<And>f g h. only2 f g \<Longrightarrow> R g h \<Longrightarrow> R f h" "confined only2 m" "\<And>x. confined R (f x)"
  shows "confined R (bindS m f)"
  unfolding confined_def
proof (intro allI impI)
  fix s :: sys assume ok: "machine_ok (mach s)"
  show "outcome_ok R s (bindS m f s)"
  proof (cases "\<exists>x s'. m s = Inr (Done x s')")
    case True
    then obtain x s' where m: "m s = Inr (Done x s')" by blast
    with assms(2) ok have s': "same_space s s'" "only2 (registers (mach s)) (registers (mach s'))"
      by (auto simp: confined_def outcome_ok_def dest!: spec [of _ s])
    then have "machine_ok (mach s')" by (simp add: same_space_def)
    with assms(3) [of x] m s' show ?thesis
      by (auto simp: confined_def outcome_ok_def bindS_def dest!: spec [of _ s'] split: sum.splits act.splits
          intro: same_space_trans only2_trans assms(1))
  next
    case False
    with assms(2) ok show ?thesis
      by (auto simp: confined_def outcome_ok_def bindS_def dest!: spec [of _ s] split: sum.splits act.splits)
  qed
qed

lemmas confined_bind [confined_intros] =
  confined_bind_gen [where R = only2, OF only2_trans]
  confined_bind_gen [where R = resumed, OF only2_resumed]

lemma confined_cases [confined_intros]:
  "confined R a \<Longrightarrow> confined R b \<Longrightarrow> confined R (if c then a else b)"
  "confined R n \<Longrightarrow> (\<And>y. confined R (k y)) \<Longrightarrow> confined R (case z of None \<Rightarrow> n | Some y \<Rightarrow> k y)"
  "(\<And>x y. confined R (g x y)) \<Longrightarrow> confined R (case p of (x, y) \<Rightarrow> g x y)"
  by (auto split: option.splits prod.splits)

lemma confined_basic [confined_intros]:
  "confined only2 (retS x)" "confined R (failS e)" "confined R SysHalt" "confined R (requestS r)"
  "confined only2 (getR n)" "confined only2 (setR 2 v)" "confined only2 (with_cin f)"
  "confined only2 (with_cout g)" "confined only2 (host_call h)" "confined only2 (slot i)"
  "confined only2 (set_slot i fi)" "confined only2 find_free"
  by (auto simp: confined_def outcome_ok_def retS_def failS_def SysHalt_def requestS_def getR_def setR_def with_cin_def
      with_cout_def host_call_def slot_def set_slot_def find_free_def ReadRegister_def WriteRegister_def
      ASSERT_def andThen_def same_space_def machine_ok_def keeps_refl only2_def
      split: sum.splits option.splits)

lemma confined_user_load [confined_intros]: "confined only2 (user_load a)"
  unfolding confined_def
proof (intro allI impI)
  fix s :: sys assume "machine_ok (mach s)"
  then obtain exc v m' where "ReadMem (mach s) a 1 = Inr (exc, v, m')" "machine_ok m'" "keeps (mach s) m'"
    "exc = NoException \<longrightarrow> registers m' = registers (mach s)"
    by (rule ReadMem_ok [of _ 1 a]) auto
  then show "outcome_ok only2 s (user_load a s)"
    by (auto simp: outcome_ok_def user_load_def same_space_def)
qed

lemma confined_user_store [confined_intros]: "confined only2 (user_store a v)"
  unfolding confined_def
proof (intro allI impI)
  fix s :: sys assume "machine_ok (mach s)"
  then obtain exc m' where "WriteMem (mach s) a 1 v = Inr (exc, m')" "machine_ok m'" "keeps (mach s) m'"
    "exc = NoException \<longrightarrow> registers m' = registers (mach s)"
    by (rule WriteMem_ok [of _ 1 a v]) auto
  then show "outcome_ok only2 s (user_store a v s)"
    by (auto simp: outcome_ok_def user_store_def same_space_def)
qed

lemma confined_u2s_loop [confined_intros]: "confined only2 (u2s_loop n a)"
  by (induction n arbitrary: a) (auto intro!: confined_intros)

lemma confined_s2u_loop [confined_intros]: "confined only2 (s2u_loop n a buf i)"
  by (induction n a buf i rule: s2u_loop.induct) (auto intro!: confined_intros)

lemma confined_copy [confined_intros]:
  "confined only2 (User2System a lim)" "confined only2 (System2User a len buf)" "confined only2 (offset_of i fi)"
  unfolding User2System_def System2User_def offset_of_def
  subgoal by (intro confined_intros)
  subgoal by (intro confined_intros)
  subgoal by (intro confined_intros)
  done

lemma confined_increasePC [confined_intros]: "confined resumed increasePC"
  by (auto simp: confined_def outcome_ok_def increasePC_def bindS_def getR_def setR_def ReadRegister_def WriteRegister_def
      same_space_def machine_ok_def keeps_refl resumed_def)

lemma confined_finish [confined_intros]: "confined resumed (finish v)"
  unfolding finish_def by (intro confined_intros)

lemma confined_state_result [confined_intros]: "confined only2 (\<lambda>s. andThen r (\<lambda>x. Inr (Done x s)))"
  by (cases r) (auto simp: confined_def outcome_ok_def same_space_refl)

lemma confined_RandomNum [confined_intros]: "confined resumed SC_RandomNum"
  using confined_finish by (simp add: confined_def SC_RandomNum_def)

lemmas syscall_defs = SC_Add_def SC_ReadNum_def SC_PrintNum_def SC_PrintString_def SC_ReadString_def
  SC_ReadChar_def SC_PrintChar_def SC_CreateFile_def SC_Open_def SC_Close_def SC_Seek_def SC_Read_def
  SC_Exec_def SC_Exit_def SC_CreateSemaphore_def SC_Wait_def SC_Signal_def

lemma confined_Join [confined_intros]: "confined resumed SC_Join"
  unfolding SC_Join_def by (intro confined_intros)

lemma confined_Write [confined_intros]: "confined resumed SC_Write"
  unfolding SC_Write_def by (intro confined_intros)

lemma confined_syscall [confined_intros]: "confined resumed (syscall ty)"
  unfolding syscall_def syscall_defs by (intro confined_intros)

section \<open>Numbers in decimal\<close>

definition dec_step :: "int \<Rightarrow> int \<Rightarrow> int" where
  "dec_step r ch = r * 10 + (ch - 48)"

lemma countDigits_bound: "n < 10 ^ countDigits n"
proof (induction n rule: countDigits.induct)
  case (1 n)
  show ?case
  proof (cases "n > 0")
    case True
    with 1 have "n div 10 < 10 ^ countDigits (n div 10)" by simp
    then have "n < 10 * 10 ^ countDigits (n div 10)" by linarith
    with True show ?thesis by (subst countDigits.simps) simp
  qed (subst countDigits.simps; simp)
qed

lemma countDigits_pos: "0 < n \<Longrightarrow> 0 < countDigits n"
  by (subst countDigits.simps) simp

lemma fill_digits_value:
  "0 \<le> n \<Longrightarrow> n < 10 ^ k \<Longrightarrow>
     \<exists>ds. fill_digits k n acc = ds @ acc \<and> length ds = k \<and> (\<forall>d\<in>set ds. is_digit d) \<and> foldl dec_step 0 ds = n"
proof (induction k arbitrary: n acc)
  case (Suc k)
  then have "0 \<le> n div 10" "n div 10 < 10 ^ k" by auto
  with Suc.IH [of "n div 10" "(n mod 10 + 48) # acc"] obtain ds where
    ds: "fill_digits k (n div 10) ((n mod 10 + 48) # acc) = ds @ (n mod 10 + 48) # acc" "length ds = k"
      "\<forall>d\<in>set ds. is_digit d" "foldl dec_step 0 ds = n div 10" by blast
  have "is_digit (n mod 10 + 48)" "foldl dec_step 0 (ds @ [n mod 10 + 48]) = n"
    using ds(4) pos_mod_bound [of 10 n] by (auto simp: is_digit_def dec_step_def)
  with ds Suc.prems(1) show ?case by (intro exI [of _ "ds @ [n mod 10 + 48]"]) auto
qed simp

lemma read_digits_typed:
  assumes "idle_in c" "keyboard c = ds @ 10 # kb" "\<forall>d\<in>set ds. is_digit d"
  shows "read_digits (word_of_int r) False z c =
    Some (Inr (Some (word_of_int (foldl dec_step r ds), z \<or> ds \<noteq> []), after_reading (ds @ [10]) kb c))"
  using assms
proof (induction ds arbitrary: c r z)
  case Nil
  then show ?case using GetChar_next [of c 10 kb] by (subst read_digits.simps) simp
next
  case (Cons d ds)
  have d: "is_digit d" "d \<noteq> 10" "d \<noteq> EOF" using Cons.prems(3) by (auto simp: is_digit_def)
  have g: "GetChar c = Some (Inr (d, after_reading [d] (ds @ 10 # kb) c))"
    using GetChar_next(1) [OF Cons.prems(1), of d] Cons.prems(2) d by simp
  have w: "word_of_int r * 10 + word_of_int (d - 48) = (word_of_int (dec_step r d) :: 64 word)"
    by (simp add: dec_step_def)
  have "read_digits (word_of_int (dec_step r d)) False True (after_reading [d] (ds @ 10 # kb) c) =
      Some (Inr (Some (word_of_int (foldl dec_step (dec_step r d) ds), True \<or> ds \<noteq> []),
        after_reading (ds @ [10]) kb (after_reading [d] (ds @ 10 # kb) c)))"
    by (rule Cons.IH) (use Cons.prems in auto)
  with g d w show ?case by (subst read_digits.simps) simp
qed

lemma skip_spaces_typed:
  assumes "idle_in c" "keyboard c = ch # kb" "ch \<noteq> 32" "ch \<noteq> EOF"
  shows "skip_spaces c = Some (Inr (ch, after_reading [ch] kb c))"
  using GetChar_next [OF assms(1,2,4)] assms(3) by (subst skip_spaces.simps) simp

lemma ucast_of_int: "(ucast (word_of_int k :: 64 word) :: u32) = word_of_int k"
  by (simp add: unsigned_of_int word_of_int_eq_iff)

lemma sint_long: "\<bar>n\<bar> \<le> 2147483647 \<Longrightarrow> sint (word_of_int n :: 64 word) = n"
  by (simp add: signed_of_int signed_take_bit_int_eq_self_iff) arith

lemma sint_uminus:
  fixes w :: u32
  assumes "sint w \<noteq> - 2147483648"
  shows "sint (- w) = - sint w"
proof -
  have "sint (word_of_int (- sint w) :: u32) = - sint w"
    using sint_greater_eq [of w] sint_less [of w] assms
    by (simp only: signed_of_int) (simp add: signed_take_bit_int_eq_self_iff)
  then show ?thesis by simp
qed

lemma check_number_pos:
  "0 \<le> n \<Longrightarrow> n \<le> 2147483647 \<Longrightarrow> check_number False (word_of_int n) z = word_of_int n"
  using sint_long [of n] ucast_of_int [of n] by (simp add: check_number_def)

lemma check_number_neg:
  assumes "0 < n" "n \<le> 2147483647"
  shows "check_number True (word_of_int n) z = word_of_int (- n)"
proof -
  have "- (word_of_int n :: 64 word) = word_of_int (- n)" by simp
  moreover have "sint (word_of_int (- n) :: 64 word) = - n" using assms by (intro sint_long) simp
  moreover from this have "(word_of_int (- n) :: 64 word) \<noteq> 0" using assms(1) by (metis neg_equal_0_iff_equal order_less_irrefl signed_0)
  ultimately show ?thesis using assms ucast_of_int [of "- n"] by (simp add: check_number_def Let_def del: of_int_minus)
qed

lemma print_chars_cases:
  assumes "sint w \<noteq> - 2147483648"
  obtains "w = 0" "print_chars w = [48]"
  | d ds where "sint w > 0" "print_chars w = d # ds" "is_digit d" "\<forall>d\<in>set ds. is_digit d"
      "foldl dec_step (d - 48) ds = sint w"
  | ds where "sint w < 0" "print_chars w = 45 # ds" "\<forall>d\<in>set ds. is_digit d"
      "foldl dec_step 0 ds = - sint w"
proof -
  have dig: "\<exists>d ds. fill_digits (countDigits n) n [] = d # ds \<and> (\<forall>x\<in>set (d # ds). is_digit x) \<and>
      foldl dec_step 0 (d # ds) = n" if "0 < n" for n
    using fill_digits_value [of n "countDigits n" "[]"] countDigits_bound [of n] countDigits_pos [OF that] that
    by (metis append_Nil2 length_greater_0_conv less_imp_le list.exhaust_sel)
  consider "w = 0" | "sint w > 0" | "sint w < 0" by (metis linorder_neqE signed_eq_0_iff)
  then show thesis
  proof cases
    case 1
    then show thesis using that(1) by (simp add: print_chars_def)
  next
    case 2
    then obtain d ds where "fill_digits (countDigits (sint w)) (sint w) [] = d # ds"
      "\<forall>x\<in>set (d # ds). is_digit x" "foldl dec_step 0 (d # ds) = sint w" using dig by blast
    with 2 show thesis by (intro that(2) [of d ds]) (auto simp: print_chars_def dec_step_def)
  next
    case 3
    then obtain d ds where "fill_digits (countDigits (- sint w)) (- sint w) [] = d # ds"
      "\<forall>x\<in>set (d # ds). is_digit x" "foldl dec_step 0 (d # ds) = - sint w"
      using dig [of "- sint w"] by auto
    with 3 sint_uminus [OF assms] show thesis by (intro that(3) [of "d # ds"]) (auto simp: print_chars_def)
  qed
qed

lemma ReadNum_typed:
  assumes "idle_in c" "keyboard c = print_chars w @ 10 # kb" "sint w \<noteq> - 2147483648"
  shows "ReadNum c = Some (Inr (w, after_reading (print_chars w @ [10]) kb c))"
  using assms(3)
proof (cases rule: print_chars_cases)
  case 1
  with skip_spaces_typed [of c 48 "10 # kb"] read_digits_typed [of "after_reading [48] (10 # kb) c" "[]" kb 0 False] assms
  show ?thesis by (simp add: ReadNum_def is_digit_def check_number_def)
next
  case (2 d ds)
  have d: "d \<noteq> 32" "d \<noteq> EOF" "d \<noteq> 45" using 2(3) by (auto simp: is_digit_def)
  have "check_number False (word_of_int (sint w)) (ds \<noteq> []) = w"
    using check_number_pos [of "sint w"] 2(1) sint_less [of w] by simp
  with 2 d skip_spaces_typed [OF assms(1), of d "ds @ 10 # kb"]
    read_digits_typed [of "after_reading [d] (ds @ 10 # kb) c" ds kb "d - 48" False] assms
  show ?thesis by (simp add: ReadNum_def del: of_int_diff)
next
  case (3 ds)
  have "check_number True (word_of_int (- sint w)) (ds \<noteq> []) = w"
    using check_number_neg [of "- sint w"] 3(1) sint_greater_eq [of w] assms(3) by simp
  with 3 skip_spaces_typed [OF assms(1), of 45 "ds @ 10 # kb"]
    read_digits_typed [of "after_reading [45] (ds @ 10 # kb) c" ds kb 0 False] assms
  show ?thesis by (simp add: ReadNum_def del: of_int_minus)
qed

section \<open>Properties\<close>

lemma confined_handler: "confined resumed (ExceptionHandler SyscallException)"
  unfolding ExceptionHandler_def by (auto intro!: confined_intros)

lemma confined_exception:
  assumes "which \<noteq> SyscallException"
  shows "confined only2 (ExceptionHandler which)"
  using assms unfolding ExceptionHandler_def by (cases which) (auto intro!: confined_intros)

lemma handler_same_space:
  assumes "machine_ok (mach s)"
  shows "\<exists>R. outcome_ok R s (ExceptionHandler which s)"
  using confined_handler confined_exception [of which] assms by (cases "which = SyscallException") (auto simp: confined_def)


definition file_host :: host where
  "file_host = \<lparr>h_names = (\<lambda>n. if n = ''a'' then Some 0 else None), h_data = (\<lambda>i. if i = 0 then [65, 66, 67] else []),
     h_fds = (\<lambda>f. if f = 0 then Some \<lparr>fd_inode = 0, fd_pos = 1, fd_writable = True\<rparr> else None),
     h_next_inode = 1, h_next_fd = 1, may_create = (\<lambda>_. False)\<rparr>"

definition sample_sys :: "(nat \<Rightarrow> u32) \<Rightarrow> int list \<Rightarrow> sys" where
  "sample_sys regs kb =
     \<lparr>mach = sample_machine\<lparr>registers := regs\<rparr>, cin = new_ConsoleInput kb, cout = new_ConsoleOutput,
      s_host = file_host,
      ftab = (replicate 10 None)[2 := Some \<lparr>of_file = 0, currentOffset = 1, of_type = Some 2\<rparr>], rand_value = 7\<rparr>"

definition call_regs :: "u32 \<Rightarrow> u32 \<Rightarrow> u32 \<Rightarrow> u32 \<Rightarrow> nat \<Rightarrow> u32" where
  "call_regs r2 r4 r5 r6 =
     (\<lambda>r. if r = 2 then r2 else if r = 4 then r4 else if r = 5 then r5 else if r = 6 then r6
           else if r = PCReg then 100 else 0)"

lemma sample_sys_ok: "machine_ok (mach (sample_sys (call_regs a b c d) kb))"
  using sample_machine_ok by (simp add: sample_sys_def machine_ok_def call_regs_def)


text \<open>The handler with the calls it makes answered by \<open>answer\<close>.\<close>

definition answered :: "(request \<Rightarrow> int) \<Rightarrow> unit act res \<Rightarrow> unit act res" where
  "answered answer r = (case r of Inr (Calls q s') \<Rightarrow> complete q (answer q) s' | _ \<Rightarrow> r)"

lemma confined_complete: "confined resumed (complete q v)"
  by (cases q) (auto simp: complete_def intro: confined_intros)

text \<open>
  Property C14.  A system call that returns, directly or after the process or semaphore table has
  answered, resumes the program behind it: the program counter is four further, the previous one
  is the system call, the next one eight further, and of the other registers only register 2, the
  result, may differ.
\<close>

theorem system_call_resumes:
  assumes ok: "machine_ok (mach s)"
    and ret: "answered answer (ExceptionHandler SyscallException s) = Inr (Done () s')"
  shows "registers (mach s') PCReg = registers (mach s) PCReg + 4 \<and>
    registers (mach s') PrevPCReg = registers (mach s) PCReg \<and>
    registers (mach s') NextPCReg = registers (mach s) PCReg + 8 \<and>
    (\<forall>r. r \<notin> {2, PCReg, PrevPCReg, NextPCReg} \<longrightarrow> registers (mach s') r = registers (mach s) r)"
proof -
  have o1: "outcome_ok resumed s (ExceptionHandler SyscallException s)"
    using confined_handler ok by (simp add: confined_def)
  have "resumed (registers (mach s)) (registers (mach s'))"
  proof (cases "\<exists>q s1. ExceptionHandler SyscallException s = Inr (Calls q s1)")
    case True
    then obtain q s1 where q: "ExceptionHandler SyscallException s = Inr (Calls q s1)" by blast
    with o1 have s1: "machine_ok (mach s1)" "only2 (registers (mach s)) (registers (mach s1))"
      by (auto simp: outcome_ok_def same_space_def)
    with confined_complete [of q "answer q"] ret q have "resumed (registers (mach s1)) (registers (mach s'))"
      by (auto simp: confined_def outcome_ok_def answered_def dest!: spec [of _ s1])
    with s1 show ?thesis by (blast intro: only2_resumed)
  next
    case False
    with ret o1 show ?thesis by (auto simp: answered_def outcome_ok_def split: sum.splits act.splits)
  qed
  then show ?thesis by (simp add: resumed_def)
qed

theorem system_call_resumes_witness:
  "\<exists>s'. answered (\<lambda>_. 5) (ExceptionHandler SyscallException (sample_sys (call_regs 3 1 0 0) [])) = Inr (Done () s') \<and>
     registers (mach s') PCReg = 104 \<and> registers (mach s') 2 = 5 \<and> registers (mach s') 4 = 1"
proof -
  let ?s = "sample_sys (call_regs 3 1 0 0) []"
  have "case answered (\<lambda>_. 5) (ExceptionHandler SyscallException ?s) of
      Inr (Done u s') \<Rightarrow> registers (mach s') 2 = 5 | _ \<Rightarrow> False" by code_simp
  then obtain s' where s': "answered (\<lambda>_. 5) (ExceptionHandler SyscallException ?s) = Inr (Done () s')"
    "registers (mach s') 2 = 5" by (auto split: sum.splits act.splits)
  with system_call_resumes [OF sample_sys_ok s'(1)] show ?thesis
    by (intro exI [of _ s']) (auto simp: sample_sys_def call_regs_def)
qed

text \<open>
  Property C38.  Decimal numbers survive the console: \<^verbatim>\<open>SC_PrintNum\<close> of any number other than -2147483648
  displays a text, and when that text and a newline are typed, \<^verbatim>\<open>SC_ReadNum\<close> consumes exactly them and
  returns the number.
\<close>

theorem PrintNum_ReadNum:
  assumes "idle_out (cout s)" "registers (mach s) 4 = w" "sint w \<noteq> - 2147483648"
  shows "\<exists>txt s'. SC_PrintNum s = Inr (Done () s') \<and> display (cout s') = display (cout s) @ txt \<and>
    (\<forall>t kb. idle_in (cin t) \<and> keyboard (cin t) = txt @ 10 # kb \<longrightarrow>
       (\<exists>t'. SC_ReadNum t = Inr (Done () t') \<and> registers (mach t') 2 = w \<and> keyboard (cin t') = kb \<and> idle_in (cin t')))"
proof -
  have "\<exists>s'. SC_PrintNum s = Inr (Done () s') \<and> cout s' = after_writing (print_chars w) (cout s)"
    using assms Write_idle [OF assms(1), of "print_chars w"]
    by (simp add: SC_PrintNum_def bindS_def getR_def ReadRegister_def with_cout_def increasePC_def setR_def WriteRegister_def)
  moreover have "\<exists>t'. SC_ReadNum t = Inr (Done () t') \<and> registers (mach t') 2 = w \<and> keyboard (cin t') = kb \<and> idle_in (cin t')"
    if "idle_in (cin t)" "keyboard (cin t) = print_chars w @ 10 # kb" for t kb
    using ReadNum_typed [OF that assms(3)] that
    by (simp add: SC_ReadNum_def bindS_def with_cin_def finish_def increasePC_def getR_def setR_def ReadRegister_def
        WriteRegister_def)
  ultimately show ?thesis by (intro exI [of _ "print_chars w"]) (auto; fastforce)
qed

theorem PrintNum_ReadNum_witness:
  "\<exists>txt s'. SC_PrintNum (sample_sys (call_regs 47 (-150) 0 0) []) = Inr (Done () s') \<and> display (cout s') = txt \<and>
    (\<forall>t kb. idle_in (cin t) \<and> keyboard (cin t) = txt @ 10 # kb \<longrightarrow>
       (\<exists>t'. SC_ReadNum t = Inr (Done () t') \<and> registers (mach t') 2 = - 150 \<and> keyboard (cin t') = kb \<and> idle_in (cin t')))"
  using PrintNum_ReadNum [of "sample_sys (call_regs 47 (-150) 0 0) []" "- 150"]
  by (auto simp: sample_sys_def call_regs_def idle_out_def new_ConsoleOutput_def)

lemmas run_simps = bindS_def getR_def setR_def ReadRegister_def WriteRegister_def finish_def increasePC_def
  slot_def set_slot_def host_call_def retS_def requestS_def

text \<open>
  A refused \<^verbatim>\<open>SC_Seek\<close> is not without effect: asked for a position behind the end of the file it
  answers -1, but \<^verbatim>\<open>Length\<close> has moved the file's position to the end, so the next \<^verbatim>\<open>SC_Read\<close> finds the
  end of the file and answers -2.
\<close>

theorem refused_Seek_moves_to_end:
  assumes fid: "2 \<le> sint (registers (mach s) 5)" "sint (registers (mach s) 5) < 10" "length (ftab s) = 10"
    and fi: "ftab s ! nat (sint (registers (mach s) 5)) = Some fi" "fd_of (of_file fi) (s_host s) = Some d"
    and far: "sint (registers (mach s) 4) > int (length (h_data (s_host s) (fd_inode d)))"
  shows "\<exists>s'. SC_Seek s = Inr (Done () s') \<and> registers (mach s') 2 = - 1 \<and>
    Tell (of_file fi) (s_host s') = int (length (h_data (s_host s) (fd_inode d))) \<and>
    (\<forall>s1. s_host s1 = s_host s' \<and> ftab s1 = ftab s' \<and> registers (mach s1) 6 = registers (mach s) 5 \<and>
        0 \<le> sint (registers (mach s1) 5) \<longrightarrow>
      (\<exists>s2. SC_Read s1 = Inr (Done () s2) \<and> registers (mach s2) 2 = - 2))"
proof -
  let ?len = "length (h_data (s_host s) (fd_inode d))"
  let ?h = "put_fd (of_file fi) (d\<lparr>fd_pos := ?len\<rparr>) (s_host s)"
  have L: "OpenFile_Length fi (s_host s) = Inr (int ?len, ?h)"
    using fi(2) by (simp add: OpenFile_Length_def Lseek_def Tell_def)
  have "SC_Seek s = Inr (Done () (s\<lparr>s_host := ?h, mach := (mach s)\<lparr>registers :=
      (registers (mach s))(2 := - 1, PrevPCReg := registers (mach s) PCReg, PCReg := registers (mach s) PCReg + 4,
        NextPCReg := 8 + registers (mach s) PCReg)\<rparr>\<rparr>))"
    using fid fi far L by (simp add: SC_Seek_def run_simps)
  moreover have "\<exists>s2. SC_Read s1 = Inr (Done () s2) \<and> registers (mach s2) 2 = - 2"
    if "s_host s1 = ?h" "ftab s1 = ftab s" "registers (mach s1) 6 = registers (mach s) 5"
      "0 \<le> sint (registers (mach s1) 5)" for s1
    using that fid fi
    by (simp add: SC_Read_def run_simps offset_of_def getCurrentOffset_def OpenFile_Read_def ReadAt_def Lseek_def
        Tell_def ReadPartial_def)
  moreover have "Tell (of_file fi) ?h = int ?len" using fi(2) by (simp add: Tell_def)
  ultimately show ?thesis by simp
qed

theorem refused_Seek_moves_to_end_witness:
  "\<exists>s'. SC_Seek (sample_sys (call_regs 9 8 2 0) []) = Inr (Done () s') \<and> registers (mach s') 2 = - 1 \<and>
     Tell 0 (s_host s') = 3"
proof -
  let ?s = "sample_sys (call_regs 9 8 2 0) []"
  let ?fi = "\<lparr>of_file = 0, currentOffset = 1, of_type = Some 2\<rparr>"
  let ?d = "\<lparr>fd_inode = 0, fd_pos = 1, fd_writable = True\<rparr>"
  have "ftab ?s ! 2 = Some ?fi" "fd_of (of_file ?fi) (s_host ?s) = Some ?d" "length (ftab ?s) = 10"
    "registers (mach ?s) 5 = 2" "registers (mach ?s) 4 = 8" "h_data (s_host ?s) 0 = [65, 66, 67]"
    by (simp_all add: sample_sys_def file_host_def call_regs_def fd_of_def)
  with refused_Seek_moves_to_end [of ?s ?fi ?d] show ?thesis by auto
qed

text \<open>
  A write of no bytes does not return to the program: the code runs on into \<^verbatim>\<open>SC_Join\<close> and
  joins the process whose number is the address of the buffer.
\<close>

theorem Write_of_nothing_joins:
  assumes fid: "2 \<le> sint (registers (mach s) 6)" "sint (registers (mach s) 6) < 10" "length (ftab s) = 10"
    and fi: "ftab s ! nat (sint (registers (mach s) 6)) = Some fi" "of_type fi = Some READWRITE_TYPE"
      "fd_of (of_file fi) (s_host s) = Some d" "fd_writable d"
    and none: "registers (mach s) 5 = 0"
  shows "\<exists>s'. SC_Write s = Inr (Calls (Req_Join (sint (registers (mach s) 4))) s')"
  using assms
  by (simp add: SC_Write_def SC_Join_def run_simps User2System_def getType_def offset_of_def getCurrentOffset_def
      file_write_def OpenFile_Write_def WriteAt_def Lseek_def Tell_def WriteFile_def)

theorem Write_of_nothing_joins_witness:
  "\<exists>s'. SC_Write (sample_sys (call_regs 8 16 0 2) []) = Inr (Calls (Req_Join 16) s')"
  using Write_of_nothing_joins [of "sample_sys (call_regs 8 16 0 2) []"]
  by (simp add: sample_sys_def call_regs_def fd_of_def file_host_def)

end
