(* ===== verification/Disk.thy ===== *)
theory Disk
  imports Interrupt HostFiles
begin

text \<open>
  The simulated disk (\<^verbatim>\<open>machine/disk.h\<close>, \<^verbatim>\<open>disk.cc\<close>) and the synchronous disk over it
  (\<^verbatim>\<open>filesys/synchdisk.cc\<close>), as one thread at a time sees them; the lock of the synchronous disk
  keeps other threads out.  The disk is a host file; a request moves the data at once and schedules an
  interrupt, whose time the device computes from the position of the head and the track buffer.
  \<open>sector\<close> reads the disk as an array of sectors, and the synchronous operations implement
  reading and writing that array.
\<close>

section \<open>Integers in memory\<close>

text \<open>The four bytes of an \<^verbatim>\<open>int\<close> on the (little endian) host.\<close>

definition word_bytes :: "u32 \<Rightarrow> u8 list" where
  "word_bytes w = map (\<lambda>i. ucast (drop_bit (8 * i) w)) [0, 1, 2, 3]"

fun bytes_word :: "u8 list \<Rightarrow> u32" where
  "bytes_word [] = 0"
| "bytes_word (b # bs) = ucast b OR push_bit 8 (bytes_word bs)"

definition int_bytes :: "int \<Rightarrow> u8 list" where
  "int_bytes i = word_bytes (word_of_int i)"

definition bytes_int :: "u8 list \<Rightarrow> int" where
  "bytes_int bs = sint (bytes_word (take 4 bs))"

lemma length_word_bytes [simp]: "length (word_bytes w) = 4"
  by (simp add: word_bytes_def)

lemma length_int_bytes [simp]: "length (int_bytes i) = 4"
  by (simp add: int_bytes_def)

lemma bytes_word_word_bytes: "bytes_word (word_bytes w) = w"
proof (rule bit_word_eqI)
  fix n assume n: "n < LENGTH(32)"
  then consider "n < 8" | "8 \<le> n \<and> n < 16" | "16 \<le> n \<and> n < 24" | "24 \<le> n" by linarith
  then show "bit (bytes_word (word_bytes w)) n = bit w n"
    using n by cases (auto simp: word_bytes_def bit_simps)
qed

lemma bytes_int_int_bytes:
  assumes "- (2 ^ 31) \<le> i" "i < 2 ^ 31"
  shows "bytes_int (int_bytes i @ rest) = i"
proof -
  have "bytes_int (int_bytes i @ rest) = sint (word_of_int i :: u32)"
    by (simp add: bytes_int_def int_bytes_def bytes_word_word_bytes)
  also have "\<dots> = i" using assms by (simp only: signed_of_int) (simp add: signed_take_bit_int_eq_self_iff)
  finally show ?thesis .
qed

section \<open>Geometry and state\<close>

abbreviation (input) SectorSize :: nat where "SectorSize \<equiv> 128"
abbreviation (input) SectorsPerTrack :: int where "SectorsPerTrack \<equiv> 32"
abbreviation (input) NumTracks :: int where "NumTracks \<equiv> 32"
abbreviation (input) NumSectors :: int where "NumSectors \<equiv> 1024"
abbreviation (input) RotationTime :: int where "RotationTime \<equiv> 500"
abbreviation (input) SeekTime :: int where "SeekTime \<equiv> 500"
abbreviation (input) MagicNumber :: int where "MagicNumber \<equiv> 0x456789ab"
abbreviation (input) MagicSize :: nat where "MagicSize \<equiv> 4"

definition DiskSize :: nat where
  "DiskSize = MagicSize + nat NumSectors * SectorSize"

text \<open>
  \<open>dk_due\<close> is the time of the disk interrupt that is pending, \<open>dk_sem\<close> the value of the semaphore
  of the synchronous disk; \<open>dk_host\<close> and \<open>dk_stats\<close> are the host's files and \<^verbatim>\<open>kernel->stats\<close>.
\<close>

record disk_dev =
  dk_fileno :: int
  dk_active :: bool
  lastSector :: int
  bufferInit :: int
  dk_host :: host
  dk_stats :: statistics
  dk_due :: "int option"
  dk_sem :: nat

section \<open>Time of a request\<close>

definition TimeToSeek :: "int \<Rightarrow> disk_dev \<Rightarrow> int \<times> int" where
  "TimeToSeek newSector d =
     (let newTrack = cdiv newSector SectorsPerTrack;
          oldTrack = cdiv (lastSector d) SectorsPerTrack;
          seek = \<bar>newTrack - oldTrack\<bar> * SeekTime;
          over = cmod (totalTicks (dk_stats d) + seek) RotationTime
      in (seek, if over > 0 then RotationTime - over else 0))"

definition ModuloDiff :: "int \<Rightarrow> int \<Rightarrow> int" where
  "ModuloDiff to from =
     cmod ((cmod to SectorsPerTrack - cmod from SectorsPerTrack) + SectorsPerTrack) SectorsPerTrack"

definition ComputeLatency :: "int \<Rightarrow> bool \<Rightarrow> disk_dev \<Rightarrow> int" where
  "ComputeLatency newSector writing d =
     (let (seek, rotation) = TimeToSeek newSector d;
          timeAfter = totalTicks (dk_stats d) + seek + rotation
      in if \<not> writing \<and> seek = 0 \<and>
            cdiv (timeAfter - bufferInit d) RotationTime > ModuloDiff newSector (cdiv (bufferInit d) RotationTime)
         then RotationTime
         else seek + (rotation + ModuloDiff newSector (cdiv timeAfter RotationTime) * RotationTime) + RotationTime)"

definition UpdateLast :: "int \<Rightarrow> disk_dev \<Rightarrow> disk_dev" where
  "UpdateLast newSector d =
     (let (seek, rotate) = TimeToSeek newSector d
      in d\<lparr>bufferInit := (if seek \<noteq> 0 then totalTicks (dk_stats d) + seek + rotate else bufferInit d),
           lastSector := newSector\<rparr>)"

section \<open>Requests\<close>

text \<open>\<^verbatim>\<open>Read\<close> of \<^verbatim>\<open>lib/sysdep.cc\<close>: all the bytes, or the assertion fails.\<close>

definition Read_all :: "int \<Rightarrow> nat \<Rightarrow> host \<Rightarrow> (u8 list \<times> host) res" where
  "Read_all f nBytes h =
     (let (n, got, h) = ReadPartial f nBytes h in ASSERT (n = int nBytes) (Inr (got, h)))"

definition new_Disk :: "string \<Rightarrow> host \<Rightarrow> statistics \<Rightarrow> disk_dev res" where
  "new_Disk diskname h st =
     andThen (OpenForReadWrite diskname False h) (\<lambda>(fileno, h).
     andThen (if fileno \<ge> 0
              then andThen (Read_all fileno MagicSize h) (\<lambda>(magicNum, h).
                   ASSERT (bytes_int magicNum = sint (word_of_int MagicNumber :: u32)) (Inr (fileno, h)))
              else andThen (OpenForWrite diskname h) (\<lambda>(fileno, h).
                   andThen (WriteFile fileno (int_bytes MagicNumber) h) (\<lambda>h.
                   andThen (Lseek fileno (int DiskSize - 4) 0 h) (\<lambda>h.
                   andThen (WriteFile fileno (int_bytes 0) h) (\<lambda>h. Inr (fileno, h)))))) (\<lambda>(fileno, h).
     Inr \<lparr>dk_fileno = fileno, dk_active = False, lastSector = 0, bufferInit = 0, dk_host = h, dk_stats = st,
          dk_due = None, dk_sem = 0\<rparr>))"

text \<open>\<^verbatim>\<open>interrupt->Schedule(this, ticks, DiskInt)\<close>, which asserts that the time is in the future.\<close>

definition schedule_disk :: "int \<Rightarrow> disk_dev \<Rightarrow> disk_dev res" where
  "schedule_disk ticks d =
     ASSERT (ticks > 0) (Inr (d\<lparr>dk_due := Some (totalTicks (dk_stats d) + ticks)\<rparr>))"

definition ReadRequest :: "int \<Rightarrow> disk_dev \<Rightarrow> (u8 list \<times> disk_dev) res" where
  "ReadRequest sectorNumber d =
     (let ticks = ComputeLatency sectorNumber False d
      in ASSERT (\<not> dk_active d)
        (ASSERT (sectorNumber \<ge> 0 \<and> sectorNumber < NumSectors)
          (andThen (Lseek (dk_fileno d) (int SectorSize * sectorNumber + int MagicSize) 0 (dk_host d)) (\<lambda>h.
           andThen (Read_all (dk_fileno d) SectorSize h) (\<lambda>(data, h).
           let d = UpdateLast sectorNumber (d\<lparr>dk_host := h, dk_active := True\<rparr>)
           in andThen (schedule_disk ticks
                (d\<lparr>dk_stats := (dk_stats d)\<lparr>numDiskReads := numDiskReads (dk_stats d) + 1\<rparr>\<rparr>)) (\<lambda>d.
              Inr (data, d)))))))"

definition WriteRequest :: "int \<Rightarrow> u8 list \<Rightarrow> disk_dev \<Rightarrow> disk_dev res" where
  "WriteRequest sectorNumber data d =
     (let ticks = ComputeLatency sectorNumber True d
      in ASSERT (\<not> dk_active d)
        (ASSERT (sectorNumber \<ge> 0 \<and> sectorNumber < NumSectors)
          (andThen (Lseek (dk_fileno d) (int SectorSize * sectorNumber + int MagicSize) 0 (dk_host d)) (\<lambda>h.
           andThen (WriteFile (dk_fileno d) data h) (\<lambda>h.
           let d = UpdateLast sectorNumber (d\<lparr>dk_host := h, dk_active := True\<rparr>)
           in schedule_disk ticks
                (d\<lparr>dk_stats := (dk_stats d)\<lparr>numDiskWrites := numDiskWrites (dk_stats d) + 1\<rparr>\<rparr>))))))"

text \<open>The interrupt handlers: \<^verbatim>\<open>Disk::CallBack\<close> calls \<^verbatim>\<open>SynchDisk::CallBack\<close>, which does \<^verbatim>\<open>semaphore->V()\<close>.\<close>

definition Disk_CallBack :: "disk_dev \<Rightarrow> disk_dev" where
  "Disk_CallBack d = d\<lparr>dk_active := False, dk_sem := Suc (dk_sem d)\<rparr>"

text \<open>
  \<^verbatim>\<open>semaphore->P()\<close>: with nothing to take, the thread sleeps until the pending interrupt, by when the
  clock has reached its time; with no interrupt pending it sleeps for ever.
\<close>

definition wait_disk :: "disk_dev \<Rightarrow> disk_dev run" where
  "wait_disk d =
     (case dk_sem d of
        Suc n \<Rightarrow> Some (Inr (d\<lparr>dk_sem := n\<rparr>))
      | 0 \<Rightarrow> (case dk_due d of
                None \<Rightarrow> None
              | Some t \<Rightarrow>
                  (let d = Disk_CallBack (d\<lparr>dk_due := None,
                         dk_stats := (dk_stats d)\<lparr>totalTicks := max (totalTicks (dk_stats d)) t\<rparr>\<rparr>)
                   in Some (Inr (d\<lparr>dk_sem := dk_sem d - 1\<rparr>)))))"

definition ReadSector :: "int \<Rightarrow> disk_dev \<Rightarrow> (u8 list \<times> disk_dev) run" where
  "ReadSector sectorNumber d =
     bindR (Some (ReadRequest sectorNumber d)) (\<lambda>(data, d).
     bindR (wait_disk d) (\<lambda>d. Some (Inr (data, d))))"

definition WriteSector :: "int \<Rightarrow> u8 list \<Rightarrow> disk_dev \<Rightarrow> disk_dev run" where
  "WriteSector sectorNumber data d =
     bindR (Some (WriteRequest sectorNumber data d)) wait_disk"

section \<open>Latency\<close>

lemma ModuloDiff_range: "0 \<le> to \<Longrightarrow> 0 \<le> from \<Longrightarrow> 0 \<le> ModuloDiff to from \<and> ModuloDiff to from \<le> 31"
  using pos_mod_bound [of 32 "to"] pos_mod_sign [of 32 "to"] pos_mod_bound [of 32 "from"] pos_mod_sign [of 32 "from"]
  by (simp add: ModuloDiff_def)

lemma TimeToSeek_range:
  assumes "TimeToSeek s d = (seek, rot)" "0 \<le> s" "s < NumSectors" "0 \<le> lastSector d" "lastSector d < NumSectors"
    "0 \<le> totalTicks (dk_stats d)"
  shows "0 \<le> seek \<and> seek \<le> 31 * SeekTime \<and> 0 \<le> rot \<and> rot < RotationTime"
proof -
  have "0 \<le> s div 32" "s div 32 \<le> 31" "0 \<le> lastSector d div 32" "lastSector d div 32 \<le> 31" using assms(2-5) by simp_all
  then have "\<bar>s div 32 - lastSector d div 32\<bar> \<le> 31" by linarith
  moreover have "cmod (totalTicks (dk_stats d) + \<bar>s div 32 - lastSector d div 32\<bar> * 500) 500 < 500"
    using assms(6) pos_mod_bound [of 500] by simp
  ultimately show ?thesis using assms by (auto simp: TimeToSeek_def Let_def split: if_splits)
qed

text \<open>Whatever the head's position, a request takes at least one sector's rotation and less than 64.\<close>

lemma ComputeLatency_range:
  assumes "0 \<le> s" "s < NumSectors" "0 \<le> lastSector d" "lastSector d < NumSectors"
    "0 \<le> totalTicks (dk_stats d)"
  shows "RotationTime \<le> ComputeLatency s w d" "ComputeLatency s w d < 64 * RotationTime"
proof -
  obtain seek rot where tr: "TimeToSeek s d = (seek, rot)" by (cases "TimeToSeek s d")
  note r = TimeToSeek_range [OF this assms]
  then have "0 \<le> cdiv (totalTicks (dk_stats d) + seek + rot) 500" using assms(5) by (simp add: pos_imp_zdiv_nonneg_iff)
  from ModuloDiff_range [OF assms(1) this] r show "RotationTime \<le> ComputeLatency s w d"
    "ComputeLatency s w d < 64 * RotationTime"
    by (auto simp: ComputeLatency_def tr Let_def)
qed

section \<open>The disk as an array of sectors\<close>

definition disk_ok :: "disk_dev \<Rightarrow> bool" where
  "disk_ok d \<longleftrightarrow>
     (\<exists>fd. fd_of (dk_fileno d) (dk_host d) = Some fd \<and> fd_writable fd \<and>
        DiskSize \<le> length (h_data (dk_host d) (fd_inode fd))) \<and>
     \<not> dk_active d \<and> dk_due d = None \<and> dk_sem d = 0 \<and>
     0 \<le> lastSector d \<and> lastSector d < NumSectors \<and> 0 \<le> totalTicks (dk_stats d)"

definition sector_at :: "u8 list \<Rightarrow> int \<Rightarrow> u8 list" where
  "sector_at bytes s =
     (if 0 \<le> s \<and> s < NumSectors then take SectorSize (drop (SectorSize * nat s + MagicSize) bytes) else [])"

definition sector :: "disk_dev \<Rightarrow> int \<Rightarrow> u8 list" where
  "sector d s =
     (case fd_of (dk_fileno d) (dk_host d) of
        None \<Rightarrow> []
      | Some fd \<Rightarrow> sector_at (h_data (dk_host d) (fd_inode fd)) s)"

lemma length_sector: "disk_ok d \<Longrightarrow> 0 \<le> s \<Longrightarrow> s < NumSectors \<Longrightarrow> length (sector d s) = SectorSize"
  by (auto simp: disk_ok_def sector_def sector_at_def DiskSize_def)

lemma sector_at_patch:
  assumes "length new = SectorSize" "DiskSize \<le> length bytes" "0 \<le> s" "s < NumSectors"
  shows "sector_at (patch bytes (SectorSize * nat s + MagicSize) new) s' =
    (if s' = s then new else sector_at bytes s')"
proof (cases "s' = s")
  case True
  then show ?thesis using take_drop_patch [of new "SectorSize * nat s + MagicSize" bytes] assms by (simp add: sector_at_def)
next
  case False
  show ?thesis
  proof (cases "0 \<le> s' \<and> s' < NumSectors")
    case True
    let ?p = "128 * nat s + 4" and ?p' = "128 * nat s' + 4"
    have "nat s' \<noteq> nat s" using False True assms by auto
    then have off: "?p' + i < ?p \<or> ?p + 128 \<le> ?p' + i" if "i < 128" for i using that by linarith
    have len: "?p' + 128 \<le> length bytes" using True assms(2) by (simp add: DiskSize_def) linarith
    have "patch bytes ?p new ! (?p' + i) = bytes ! (?p' + i)" if "i < 128" for i
      using off [OF that] len that assms(1) by (intro nth_patch) auto
    moreover have "length (patch bytes ?p new) = length bytes"
      using assms by (subst length_patch) (auto simp: DiskSize_def)
    ultimately have "take 128 (drop ?p' (patch bytes ?p new)) = take 128 (drop ?p' bytes)"
      using len by (intro nth_equalityI) auto
    with False True show ?thesis by (simp add: sector_at_def)
  qed (auto simp: sector_at_def False)
qed

lemma length_patch_inside:
  "new \<noteq> [] \<Longrightarrow> pos + length new \<le> length old \<Longrightarrow> length (patch old pos new) = length old"
  by (simp add: length_patch)

text \<open>The rest of a request, after the data have moved: the interrupt is scheduled and arrives.\<close>

lemma wait_after_request:
  assumes "disk_ok d" "0 \<le> s" "s < NumSectors" "ticks > 0"
    "fd_of (dk_fileno d) h = Some fd" "fd_writable fd" "DiskSize \<le> length (h_data h (fd_inode fd))"
    "totalTicks st = totalTicks (dk_stats d)"
  shows "\<exists>d'. bindR (Some (schedule_disk ticks ((UpdateLast s (d\<lparr>dk_host := h, dk_active := True\<rparr>))\<lparr>dk_stats := st\<rparr>))) wait_disk
      = Some (Inr d') \<and> disk_ok d' \<and> dk_host d' = h \<and> dk_fileno d' = dk_fileno d"
  using assms
  by (cases "TimeToSeek s (d\<lparr>dk_host := h, dk_active := True\<rparr>)")
     (auto simp: schedule_disk_def wait_disk_def UpdateLast_def Disk_CallBack_def disk_ok_def Let_def)

lemma put_fd_again [simp]:
  "put_fd f a (put_fd f b h) = put_fd f a h"
  "put_fd f a ((put_fd f b h)\<lparr>h_data := x\<rparr>) = put_fd f a (h\<lparr>h_data := x\<rparr>)"
  by (simp_all add: put_fd_def)

lemma UpdateLast_stats [simp]: "dk_stats (UpdateLast s d) = dk_stats d"
  by (simp add: UpdateLast_def split: prod.splits)

lemma Lseek_sector:
  assumes "fd_of f h = Some fd" "0 \<le> s"
  shows "Lseek f (128 * s + 4) 0 h = Inr (put_fd f (fd\<lparr>fd_pos := 128 * nat s + 4\<rparr>) h)"
proof -
  have "nat (128 * s + 4) = 128 * nat s + 4" using assms(2) by linarith
  with assms show ?thesis by (simp add: Lseek_def)
qed

lemma ReadSector_ok:
  assumes ok: "disk_ok d" and s: "0 \<le> s" "s < NumSectors"
  shows "\<exists>d'. ReadSector s d = Some (Inr (sector d s, d')) \<and> disk_ok d' \<and> sector d' = sector d"
proof -
  from ok obtain fd where fd: "fd_of (dk_fileno d) (dk_host d) = Some fd" "fd_writable fd"
    "DiskSize \<le> length (h_data (dk_host d) (fd_inode fd))" "\<not> dk_active d" by (auto simp: disk_ok_def)
  have lat: "ComputeLatency s False d > 0"
    using ComputeLatency_range(1) [OF s, of d False] ok by (simp add: disk_ok_def)
  let ?p = "128 * nat s + 4"
  let ?h = "put_fd (dk_fileno d) (fd\<lparr>fd_pos := ?p + 128\<rparr>) (dk_host d)"
  have len: "length (sector_at (h_data (dk_host d) (fd_inode fd)) s) = 128"
    using length_sector [OF ok s] fd by (simp add: sector_def)
  have "Lseek (dk_fileno d) (128 * s + 4) 0 (dk_host d) = Inr (put_fd (dk_fileno d) (fd\<lparr>fd_pos := ?p\<rparr>) (dk_host d))"
    by (rule Lseek_sector [OF fd(1) s(1)])
  moreover have "Read_all (dk_fileno d) 128 (put_fd (dk_fileno d) (fd\<lparr>fd_pos := ?p\<rparr>) (dk_host d)) = Inr (sector d s, ?h)"
    using fd len s by (auto simp: Read_all_def ReadPartial_def Let_def sector_def sector_at_def)
  moreover have "fd_of (dk_fileno d) ?h = Some (fd\<lparr>fd_pos := ?p + 128\<rparr>)" using fd by simp
  moreover obtain d' where "bindR (Some (schedule_disk (ComputeLatency s False d)
      ((UpdateLast s (d\<lparr>dk_host := ?h, dk_active := True\<rparr>))\<lparr>dk_stats := (dk_stats d)\<lparr>numDiskReads := numDiskReads (dk_stats d) + 1\<rparr>\<rparr>))) wait_disk
      = Some (Inr d')" "disk_ok d'" "dk_host d' = ?h" "dk_fileno d' = dk_fileno d"
    using wait_after_request [OF ok s lat, of ?h "fd\<lparr>fd_pos := ?p + 128\<rparr>" "(dk_stats d)\<lparr>numDiskReads := numDiskReads (dk_stats d) + 1\<rparr>"] fd by auto
  ultimately show ?thesis
    using fd s by (intro exI [of _ d']) (auto simp: ReadSector_def ReadRequest_def sector_def fun_eq_iff bindR_def andThen_def
        split: option.splits sum.splits)
qed

lemma WriteSector_ok:
  assumes ok: "disk_ok d" and s: "0 \<le> s" "s < NumSectors" and data: "length data = SectorSize"
  shows "\<exists>d'. WriteSector s data d = Some (Inr d') \<and> disk_ok d' \<and> sector d' = (sector d)(s := data)"
proof -
  from ok obtain fd where fd: "fd_of (dk_fileno d) (dk_host d) = Some fd" "fd_writable fd"
    "DiskSize \<le> length (h_data (dk_host d) (fd_inode fd))" "\<not> dk_active d" by (auto simp: disk_ok_def)
  have lat: "ComputeLatency s True d > 0"
    using ComputeLatency_range(1) [OF s, of d True] ok by (simp add: disk_ok_def)
  let ?p = "128 * nat s + 4"
  let ?bytes = "h_data (dk_host d) (fd_inode fd)"
  let ?fd = "fd\<lparr>fd_pos := ?p + 128\<rparr>"
  let ?h = "put_fd (dk_fileno d) ?fd ((dk_host d)\<lparr>h_data := (h_data (dk_host d))(fd_inode fd := patch ?bytes ?p data)\<rparr>)"
  have inside: "?p + length data \<le> length ?bytes" using fd(3) data s by (simp add: DiskSize_def)
  have ne: "data \<noteq> []" using data by auto
  have "Lseek (dk_fileno d) (128 * s + 4) 0 (dk_host d) = Inr (put_fd (dk_fileno d) (fd\<lparr>fd_pos := ?p\<rparr>) (dk_host d))"
    by (rule Lseek_sector [OF fd(1) s(1)])
  moreover have "WriteFile (dk_fileno d) data (put_fd (dk_fileno d) (fd\<lparr>fd_pos := ?p\<rparr>) (dk_host d)) = Inr ?h"
    using fd ne data by (simp add: WriteFile_def)
  moreover have h: "fd_of (dk_fileno d) ?h = Some ?fd" "h_data ?h (fd_inode fd) = patch ?bytes ?p data"
    using fd by simp_all
  moreover obtain d' where "bindR (Some (schedule_disk (ComputeLatency s True d)
      ((UpdateLast s (d\<lparr>dk_host := ?h, dk_active := True\<rparr>))\<lparr>dk_stats := (dk_stats d)\<lparr>numDiskWrites := numDiskWrites (dk_stats d) + 1\<rparr>\<rparr>))) wait_disk
      = Some (Inr d')" "disk_ok d'" "dk_host d' = ?h" "dk_fileno d' = dk_fileno d"
    using wait_after_request [OF ok s lat, of ?h ?fd "(dk_stats d)\<lparr>numDiskWrites := numDiskWrites (dk_stats d) + 1\<rparr>"]
      fd h length_patch_inside [OF ne inside] by auto
  ultimately show ?thesis
    using fd s data sector_at_patch [OF data fd(3) s]
    by (intro exI [of _ d']) (auto simp: WriteSector_def WriteRequest_def sector_def fun_eq_iff)
qed

lemma Sector_out_of_range:
  assumes "disk_ok d" "\<not> (0 \<le> s \<and> s < NumSectors)"
  shows "ReadSector s d = Some (Inl Assertion_failed)" "WriteSector s data d = Some (Inl Assertion_failed)"
  using assms(2) by (auto simp: ReadSector_def ReadRequest_def WriteSector_def WriteRequest_def ASSERT_def)

section \<open>Properties\<close>

text \<open>
  The synchronous disk is an array of sectors: reading a sector returns its contents
  and changes no sector, writing replaces that sector and no other, a sector number outside the
  disk fails the assertion.  In particular the interrupt of every request is in the future and
  arrives, and the device is idle again when the operation returns.
\<close>

theorem SynchDisk_is_array:
  assumes ok: "disk_ok d"
  shows "(0 \<le> s \<and> s < NumSectors \<longrightarrow>
      (\<exists>d'. ReadSector s d = Some (Inr (sector d s, d')) \<and> disk_ok d' \<and> sector d' = sector d) \<and>
      (length data = SectorSize \<longrightarrow>
        (\<exists>d'. WriteSector s data d = Some (Inr d') \<and> disk_ok d' \<and> sector d' = (sector d)(s := data)))) \<and>
    (\<not> (0 \<le> s \<and> s < NumSectors) \<longrightarrow>
      ReadSector s d = Some (Inl Assertion_failed) \<and> WriteSector s data d = Some (Inl Assertion_failed))"
  using ReadSector_ok [OF ok, of s] WriteSector_ok [OF ok, of s data] Sector_out_of_range [OF ok] by blast

text \<open>A disk on a fresh host file, as the constructor makes it.\<close>

definition sample_disk :: disk_dev where
  "sample_disk =
     \<lparr>dk_fileno = 3, dk_active = False, lastSector = 0, bufferInit = 0,
      dk_host = \<lparr>h_names = (\<lambda>_. Some 0), h_data = (\<lambda>_. replicate 131076 0),
         h_fds = (\<lambda>f. if f = 3 then Some \<lparr>fd_inode = 0, fd_pos = 0, fd_writable = True\<rparr> else None),
         h_next_inode = 1, h_next_fd = 4, may_create = (\<lambda>_. True)\<rparr>,
      dk_stats = new_Statistics, dk_due = None, dk_sem = 0\<rparr>"

lemma sample_disk_ok: "disk_ok sample_disk"
  by (simp add: disk_ok_def sample_disk_def fd_of_def DiskSize_def new_Statistics_def)

theorem SynchDisk_is_array_witness:
  "\<exists>d'. WriteSector 7 (replicate 128 65) sample_disk = Some (Inr d') \<and> sector d' 7 = replicate 128 65 \<and>
     sector d' 8 = sector sample_disk 8"
  using SynchDisk_is_array [OF sample_disk_ok, of 7 "replicate 128 65"] by auto

lemma new_Disk_fresh:
  assumes "h_names h name = None" "may_create h name" "0 \<le> totalTicks st"
  shows "\<exists>d. new_Disk name h st = Inr d \<and> disk_ok d"
proof -
  define ino where "ino = h_next_inode h"
  define h1 where "h1 = h\<lparr>h_names := (h_names h)(name \<mapsto> ino), h_data := (h_data h)(ino := []), h_next_inode := Suc ino,
      h_fds := (h_fds h)(h_next_fd h \<mapsto> \<lparr>fd_inode = ino, fd_pos = 0, fd_writable = True\<rparr>),
      h_next_fd := Suc (h_next_fd h)\<rparr>"
  let ?f = "int (h_next_fd h)"
  have fd: "fd_of ?f h1 = Some \<lparr>fd_inode = ino, fd_pos = 0, fd_writable = True\<rparr>" "h_data h1 ino = []"
    by (simp_all add: h1_def fd_of_def)
  have op: "OpenForReadWrite name False h = Inr (-1, h)" "OpenForWrite name h = Inr (?f, h1)"
    using assms by (simp_all add: OpenForReadWrite_def open_existing_def OpenForWrite_def open_create_def new_fd_def h1_def ino_def)
  have ib: "int_bytes k \<noteq> []" for k by (simp add: int_bytes_def word_bytes_def)
  show ?thesis
    using fd ib assms(3)
    by (simp add: new_Disk_def op WriteFile_def Lseek_def disk_ok_def DiskSize_def length_patch)
qed

end
