(* ===== verification/DiskFile.thy ===== *)
theory DiskFile
  imports Disk Bitmap
begin

text \<open>
  Files on the simulated disk, for builds without \<^verbatim>\<open>FILESYS_STUB\<close>: file headers
  (\<^verbatim>\<open>filesys/filehdr.h\<close>, \<^verbatim>\<open>filehdr.cc\<close>), open files (\<^verbatim>\<open>filesys/openfile.cc\<close>) and the bitmap of free
  sectors that is kept in a file (\<^verbatim>\<open>filesys/pbitmap.cc\<close>).

  A header is one sector: the length of the file, the number of its data sectors, and an array of
  30 sector numbers.  \<open>content\<close> is the file as a sequence of bytes; reading and writing at a
  position, which work sector by sector through a buffer, implement the operations on that sequence.
\<close>

section \<open>File headers\<close>

abbreviation (input) NumDirect :: nat where "NumDirect \<equiv> 30"

record filehdr =
  numBytes :: int
  numSectors :: int
  dataSectors :: "int list"

text \<open>\<^verbatim>\<open>new FileHeader\<close>; the memory is not initialised, and zeros stand for whatever it holds.\<close>

definition new_FileHeader :: filehdr where
  "new_FileHeader = \<lparr>numBytes = 0, numSectors = 0, dataSectors = replicate NumDirect 0\<rparr>"

definition Allocate_one :: "int \<Rightarrow> filehdr \<times> bitmap \<Rightarrow> (filehdr \<times> bitmap) res" where
  "Allocate_one i = (\<lambda>(hdr, freeMap).
     andThen (FindAndSet freeMap) (\<lambda>(s, freeMap).
     if 0 \<le> i \<and> i < int (length (dataSectors hdr))
     then ASSERT (s \<ge> 0) (Inr (hdr\<lparr>dataSectors := (dataSectors hdr)[nat i := s]\<rparr>, freeMap))
     else Inl Out_of_bounds))"

definition Allocate :: "bitmap \<Rightarrow> int \<Rightarrow> filehdr \<Rightarrow> (bool \<times> filehdr \<times> bitmap) res" where
  "Allocate freeMap fileSize hdr =
     (let hdr = hdr\<lparr>numBytes := fileSize, numSectors := divRoundUp fileSize (int SectorSize)\<rparr>
      in andThen (NumClear freeMap) (\<lambda>c.
         if c < numSectors hdr then Inr (False, hdr, freeMap)
         else andThen (forRes Allocate_one [0..numSectors hdr - 1] (hdr, freeMap)) (\<lambda>(hdr, freeMap).
              Inr (True, hdr, freeMap))))"

definition data_sector :: "filehdr \<Rightarrow> int \<Rightarrow> int res" where
  "data_sector hdr i =
     (if 0 \<le> i \<and> i < int (length (dataSectors hdr)) then Inr (dataSectors hdr ! nat i) else Inl Out_of_bounds)"

definition Deallocate :: "bitmap \<Rightarrow> filehdr \<Rightarrow> bitmap res" where
  "Deallocate freeMap hdr =
     forRes (\<lambda>i freeMap.
       andThen (data_sector hdr i) (\<lambda>s.
       andThen (Test freeMap s) (\<lambda>t. ASSERT t (Clear freeMap s)))) [0..numSectors hdr - 1] freeMap"

text \<open>The 128 bytes of a header in memory, which is what goes to the disk.\<close>

definition hdr_bytes :: "filehdr \<Rightarrow> u8 list" where
  "hdr_bytes hdr = concat (map int_bytes (numBytes hdr # numSectors hdr # dataSectors hdr))"

definition bytes_hdr :: "u8 list \<Rightarrow> filehdr" where
  "bytes_hdr bs =
     \<lparr>numBytes = bytes_int bs, numSectors = bytes_int (drop 4 bs),
      dataSectors = map (\<lambda>i. bytes_int (drop (8 + 4 * i) bs)) [0..<NumDirect]\<rparr>"

definition Header_FetchFrom :: "int \<Rightarrow> disk_dev \<Rightarrow> (filehdr \<times> disk_dev) run" where
  "Header_FetchFrom s d = bindR (ReadSector s d) (\<lambda>(data, d). Some (Inr (bytes_hdr data, d)))"

definition Header_WriteBack :: "int \<Rightarrow> filehdr \<Rightarrow> disk_dev \<Rightarrow> disk_dev run" where
  "Header_WriteBack s hdr d = WriteSector s (hdr_bytes hdr) d"

definition ByteToSector :: "filehdr \<Rightarrow> int \<Rightarrow> int res" where
  "ByteToSector hdr offset = data_sector hdr (cdiv offset (int SectorSize))"

definition FileLength :: "filehdr \<Rightarrow> int" where
  "FileLength hdr = numBytes hdr"

section \<open>Open files\<close>

record dfile =
  df_hdr :: filehdr
  seekPosition :: int
  df_type :: "int option"

definition open_sector :: "int \<Rightarrow> int option \<Rightarrow> disk_dev \<Rightarrow> (dfile \<times> disk_dev) run" where
  "open_sector s ty d =
     bindR (Header_FetchFrom s d) (\<lambda>(hdr, d). Some (Inr (\<lparr>df_hdr = hdr, seekPosition = 0, df_type = ty\<rparr>, d)))"

definition disk_Seek :: "int \<Rightarrow> dfile \<Rightarrow> dfile" where
  "disk_Seek position f = f\<lparr>seekPosition := position\<rparr>"

definition disk_Length :: "dfile \<Rightarrow> int" where
  "disk_Length f = FileLength (df_hdr f)"

text \<open>C's \<^verbatim>\<open>int\<close> addition.\<close>

definition add32 :: "int \<Rightarrow> int \<Rightarrow> int" where
  "add32 a b = sint (word_of_int (a + b) :: u32)"

text \<open>The loop of \<^verbatim>\<open>ReadAt\<close> over the sectors of the request, filling the buffer.\<close>

fun read_sectors :: "filehdr \<Rightarrow> int list \<Rightarrow> disk_dev \<Rightarrow> (u8 list \<times> disk_dev) run" where
  "read_sectors hdr [] d = Some (Inr ([], d))"
| "read_sectors hdr (i # is) d =
     bindR (Some (ByteToSector hdr (i * int SectorSize))) (\<lambda>s.
     bindR (ReadSector s d) (\<lambda>(data, d).
     bindR (read_sectors hdr is d) (\<lambda>(rest, d). Some (Inr (data @ rest, d)))))"

text \<open>\<^verbatim>\<open>bcopy\<close> out of and into a buffer at an index.\<close>

definition copy_out :: "u8 list \<Rightarrow> int \<Rightarrow> int \<Rightarrow> u8 list res" where
  "copy_out buf i n =
     (if 0 \<le> i \<and> i + n \<le> int (length buf) then Inr (take (nat n) (drop (nat i) buf)) else Inl Out_of_bounds)"

definition copy_in :: "u8 list \<Rightarrow> int \<Rightarrow> u8 list \<Rightarrow> u8 list res" where
  "copy_in bytes i buf =
     (if 0 \<le> i \<and> i + int (length bytes) \<le> int (length buf)
      then Inr (take (nat i) buf @ bytes @ drop (nat i + length bytes) buf) else Inl Out_of_bounds)"

text \<open>\<^verbatim>\<open>ReadAt\<close>: the bytes copied; their number is the result.  A negative buffer size traps.\<close>

definition disk_ReadAt :: "dfile \<Rightarrow> int \<Rightarrow> int \<Rightarrow> disk_dev \<Rightarrow> (u8 list \<times> disk_dev) run" where
  "disk_ReadAt f n position d =
     (let fileLength = FileLength (df_hdr f)
      in if n \<le> 0 \<or> position \<ge> fileLength then Some (Inr ([], d))
         else
           let n = (if add32 position n > fileLength then fileLength - position else n);
               firstSector = divRoundDown position (int SectorSize);
               lastSec = divRoundDown (add32 position n - 1) (int SectorSize);
               count = 1 + lastSec - firstSector
           in if count < 0 then Some (Inl Host_trap)
              else bindR (read_sectors (df_hdr f) [firstSector..lastSec] d) (\<lambda>(buf, d).
                   bindR (Some (copy_out buf (position - firstSector * int SectorSize) n)) (\<lambda>bytes.
                   Some (Inr (bytes, d)))))"

definition disk_Read :: "dfile \<Rightarrow> int \<Rightarrow> disk_dev \<Rightarrow> (u8 list \<times> dfile \<times> disk_dev) run" where
  "disk_Read f n d =
     bindR (disk_ReadAt f n (seekPosition f) d) (\<lambda>(bytes, d).
     Some (Inr (bytes, f\<lparr>seekPosition := seekPosition f + int (length bytes)\<rparr>, d)))"

text \<open>The loop of \<^verbatim>\<open>WriteAt\<close> that writes the buffer back sector by sector.\<close>

fun write_sectors :: "filehdr \<Rightarrow> int list \<Rightarrow> u8 list \<Rightarrow> disk_dev \<Rightarrow> disk_dev run" where
  "write_sectors hdr [] buf d = Some (Inr d)"
| "write_sectors hdr (i # is) buf d =
     bindR (Some (ByteToSector hdr (i * int SectorSize))) (\<lambda>s.
     bindR (WriteSector s (take SectorSize buf) d) (\<lambda>d.
     write_sectors hdr is (drop SectorSize buf) d))"

text \<open>
  The buffer of \<^verbatim>\<open>WriteAt\<close>: the first and the last sector are read when the request covers them in part.
  What the new buffer holds beyond the end of the file is not initialised; zeros stand for it.
\<close>

definition prepare_buffer :: "dfile \<Rightarrow> int \<Rightarrow> int \<Rightarrow> int \<Rightarrow> int \<Rightarrow> disk_dev \<Rightarrow> (u8 list \<times> disk_dev) run" where
  "prepare_buffer f position n firstSector lastSec d =
     (let firstAligned = (position = firstSector * int SectorSize);
          lastAligned = (add32 position n = (lastSec + 1) * int SectorSize);
          buf = replicate (nat (1 + lastSec - firstSector) * SectorSize) 0
      in bindR (if \<not> firstAligned
                then bindR (disk_ReadAt f (int SectorSize) (firstSector * int SectorSize) d) (\<lambda>(bytes, d).
                     bindR (Some (copy_in bytes 0 buf)) (\<lambda>buf. Some (Inr (buf, d))))
                else Some (Inr (buf, d))) (\<lambda>(buf, d).
         if \<not> lastAligned \<and> (firstSector \<noteq> lastSec \<or> firstAligned)
         then bindR (disk_ReadAt f (int SectorSize) (lastSec * int SectorSize) d) (\<lambda>(bytes, d).
              bindR (Some (copy_in bytes ((lastSec - firstSector) * int SectorSize) buf)) (\<lambda>buf.
              Some (Inr (buf, d))))
         else Some (Inr (buf, d))))"

definition disk_WriteAt :: "dfile \<Rightarrow> u8 list \<Rightarrow> int \<Rightarrow> int \<Rightarrow> disk_dev \<Rightarrow> (int \<times> disk_dev) run" where
  "disk_WriteAt f from n position d =
     (let fileLength = FileLength (df_hdr f)
      in if n \<le> 0 \<or> position \<ge> fileLength then Some (Inr (0, d))
         else
           let n = (if add32 position n > fileLength then fileLength - position else n);
               firstSector = divRoundDown position (int SectorSize);
               lastSec = divRoundDown (add32 position n - 1) (int SectorSize)
           in if 1 + lastSec - firstSector < 0 then Some (Inl Host_trap)
              else bindR (prepare_buffer f position n firstSector lastSec d) (\<lambda>(buf, d).
                   bindR (Some (copy_out from 0 n)) (\<lambda>bytes.
                   bindR (Some (copy_in bytes (position - firstSector * int SectorSize) buf)) (\<lambda>buf.
                   bindR (write_sectors (df_hdr f) [firstSector..lastSec] buf d) (\<lambda>d.
                   Some (Inr (n, d)))))))"

definition disk_Write :: "dfile \<Rightarrow> u8 list \<Rightarrow> int \<Rightarrow> disk_dev \<Rightarrow> (int \<times> dfile \<times> disk_dev) run" where
  "disk_Write f from n d =
     bindR (disk_WriteAt f from n (seekPosition f) d) (\<lambda>(result, d).
     Some (Inr (result, f\<lparr>seekPosition := seekPosition f + result\<rparr>, d)))"

section \<open>The bitmap in a file\<close>

definition map_bytes :: "bitmap \<Rightarrow> u8 list" where
  "map_bytes bm = concat (map word_bytes (bm_map bm))"

definition bytes_map :: "u8 list \<Rightarrow> u32 list" where
  "bytes_map bs = map (\<lambda>i. bytes_word (take 4 (drop (4 * i) bs))) [0..<length bs div 4]"

text \<open>The bytes read overwrite the map from its start; the rest stays.\<close>

definition Map_FetchFrom :: "dfile \<Rightarrow> bitmap \<Rightarrow> disk_dev \<Rightarrow> (bitmap \<times> disk_dev) run" where
  "Map_FetchFrom f bm d =
     bindR (disk_ReadAt f (numWords bm * 4) 0 d) (\<lambda>(bytes, d).
     Some (Inr (bm\<lparr>bm_map := bytes_map (bytes @ drop (length bytes) (map_bytes bm))\<rparr>, d)))"

definition new_PersistentBitmap :: "dfile \<Rightarrow> int \<Rightarrow> disk_dev \<Rightarrow> (bitmap \<times> disk_dev) run" where
  "new_PersistentBitmap f numItems d = bindR (Some (new_Bitmap numItems)) (\<lambda>bm. Map_FetchFrom f bm d)"

definition Map_WriteBack :: "dfile \<Rightarrow> bitmap \<Rightarrow> disk_dev \<Rightarrow> disk_dev run" where
  "Map_WriteBack f bm d =
     bindR (disk_WriteAt f (map_bytes bm) (numWords bm * 4) 0 d) (\<lambda>(_, d). Some (Inr d))"

section \<open>Files as byte sequences\<close>

definition blocks :: "filehdr \<Rightarrow> int list" where
  "blocks hdr = take (nat (numSectors hdr)) (dataSectors hdr)"

definition hdr_ok :: "filehdr \<Rightarrow> bool" where
  "hdr_ok hdr \<longleftrightarrow> length (dataSectors hdr) = NumDirect \<and> 0 \<le> numBytes hdr \<and>
     numSectors hdr = divRoundUp (numBytes hdr) (int SectorSize) \<and> numSectors hdr \<le> int NumDirect \<and>
     distinct (blocks hdr) \<and> set (blocks hdr) \<subseteq> {0..<NumSectors}"

definition fbyte :: "disk_dev \<Rightarrow> filehdr \<Rightarrow> nat \<Rightarrow> u8" where
  "fbyte d hdr j = sector d (dataSectors hdr ! (j div SectorSize)) ! (j mod SectorSize)"

definition content :: "disk_dev \<Rightarrow> filehdr \<Rightarrow> u8 list" where
  "content d hdr = map (fbyte d hdr) [0..<nat (numBytes hdr)]"

lemma length_content [simp]: "length (content d hdr) = nat (numBytes hdr)"
  by (simp add: content_def)

lemma hdr_ok_bounds:
  assumes "hdr_ok hdr"
  shows "0 \<le> numSectors hdr" "nat (numSectors hdr) \<le> 30" "nat (numBytes hdr) \<le> 128 * nat (numSectors hdr)"
    "nat (numBytes hdr) \<le> 3840"
proof -
  from assms have n: "0 \<le> numBytes hdr" "numSectors hdr = divRoundUp (numBytes hdr) 128" "numSectors hdr \<le> 30"
    by (auto simp: hdr_ok_def)
  from divRoundUp_bounds(1,3) [of "numBytes hdr" 128] n show "0 \<le> numSectors hdr" "nat (numSectors hdr) \<le> 30"
    "nat (numBytes hdr) \<le> 128 * nat (numSectors hdr)" "nat (numBytes hdr) \<le> 3840" by auto
qed

lemma byte_block: "hdr_ok hdr \<Longrightarrow> j < nat (numBytes hdr) \<Longrightarrow> j div 128 < nat (numSectors hdr)"
  using hdr_ok_bounds(3) [of hdr] by (auto simp: less_mult_imp_div_less mult.commute)

lemma length_blocks:
  assumes "hdr_ok hdr"
  shows "length (blocks hdr) = nat (numSectors hdr)"
proof -
  have "length (dataSectors hdr) = 30" using assms by (simp add: hdr_ok_def)
  with hdr_ok_bounds(2) [OF assms] show ?thesis by (simp add: blocks_def)
qed

lemma blocks_nth: "i < nat (numSectors hdr) \<Longrightarrow> blocks hdr ! i = dataSectors hdr ! i"
  by (simp add: blocks_def)

lemma nth_blocks: "hdr_ok hdr \<Longrightarrow> i < nat (numSectors hdr) \<Longrightarrow> dataSectors hdr ! i \<in> set (blocks hdr)"
  using nth_mem [of i "blocks hdr"] by (simp add: length_blocks blocks_nth)

lemma blocks_inj:
  assumes "hdr_ok hdr" "i < nat (numSectors hdr)" "j < nat (numSectors hdr)"
  shows "dataSectors hdr ! i = dataSectors hdr ! j \<longleftrightarrow> i = j"
proof -
  have "distinct (blocks hdr)" using assms by (simp add: hdr_ok_def)
  with nth_eq_iff_index_eq [of "blocks hdr" i j] assms show ?thesis by (simp add: length_blocks blocks_nth)
qed

lemma ByteToSector_ok:
  assumes "hdr_ok hdr" "i < nat (numSectors hdr)"
  shows "ByteToSector hdr (int i * 128) = Inr (dataSectors hdr ! i)"
    "0 \<le> dataSectors hdr ! i" "dataSectors hdr ! i < NumSectors"
  using assms hdr_ok_bounds(2) [OF assms(1)] nth_blocks [OF assms]
  by (auto simp: ByteToSector_def data_sector_def hdr_ok_def)

lemma int_range_nat: "[int f..int l] = map int [f..<Suc l]"
proof (induction l)
  case 0
  then show ?case by (cases f) auto
next
  case (Suc l)
  show ?case
  proof (cases "f \<le> Suc l")
    case True
    then have "[int f..int (Suc l)] = [int f..int l] @ [int (Suc l)]"
      using upto_rec2 [of "int f" "int (Suc l)"] by simp
    with Suc True show ?thesis by simp
  qed simp
qed

lemma fbyte_in_block: "j < 128 \<Longrightarrow> fbyte d hdr (128 * i + j) = sector d (dataSectors hdr ! i) ! j"
  by (simp add: fbyte_def)

lemma read_sectors_ok:
  assumes "hdr_ok hdr" "disk_ok d" "f + k \<le> nat (numSectors hdr)"
  shows "\<exists>buf d'. read_sectors hdr (map int [f..<f + k]) d = Some (Inr (buf, d')) \<and> disk_ok d' \<and>
    sector d' = sector d \<and> length buf = 128 * k \<and> (\<forall>j < 128 * k. buf ! j = fbyte d hdr (128 * f + j))"
  using assms
proof (induction k arbitrary: f d)
  case (Suc k)
  let ?s = "dataSectors hdr ! f"
  have f: "f < nat (numSectors hdr)" using Suc.prems by simp
  note s = ByteToSector_ok [OF Suc.prems(1) f]
  obtain d1 where d1: "ReadSector ?s d = Some (Inr (sector d ?s, d1))" "disk_ok d1" "sector d1 = sector d"
    using ReadSector_ok [OF Suc.prems(2) s(2,3)] by blast
  have len: "length (sector d ?s) = 128" by (rule length_sector [OF Suc.prems(2) s(2,3)])
  from Suc.IH [OF Suc.prems(1) d1(2), of "Suc f"] Suc.prems(3) obtain buf d' where
    ih: "read_sectors hdr (map int [Suc f..<Suc f + k]) d1 = Some (Inr (buf, d'))" "disk_ok d'"
      "sector d' = sector d1" "length buf = 128 * k" "\<forall>j < 128 * k. buf ! j = fbyte d1 hdr (128 * Suc f + j)" by auto
  have cons: "[f..<f + Suc k] = f # [Suc f..<Suc f + k]" by (simp add: upt_rec)
  have "(sector d ?s @ buf) ! j = fbyte d hdr (128 * f + j)" if "j < 128 * Suc k" for j
  proof (cases "j < 128")
    case True
    then show ?thesis using len by (simp add: nth_append fbyte_in_block)
  next
    case False
    with that have "buf ! (j - 128) = fbyte d1 hdr (128 * Suc f + (j - 128))" using ih(5) by simp
    also have "\<dots> = fbyte d hdr (128 * f + j)" using False d1(3) by (simp add: fbyte_def)
    finally show ?thesis using len False by (simp add: nth_append)
  qed
  with cons s d1 ih len show ?case by (intro exI [of _ "sector d ?s @ buf"] exI [of _ d']) simp
qed auto

text \<open>The sectors of a request and its place in them.\<close>

lemma add32_small [simp]: "0 \<le> a + b \<Longrightarrow> a + b < 2 ^ 31 \<Longrightarrow> add32 a b = a + b"
  by (simp only: add32_def signed_of_int) (simp add: signed_take_bit_int_eq_self_iff)

lemma request_sectors:
  assumes ok: "hdr_ok hdr" and len: "p < nat (numBytes hdr)" "0 < m" "p + m < 2 ^ 31"
  obtains n a b where "n = min m (nat (numBytes hdr) - p)" "0 < n" "p + n \<le> nat (numBytes hdr)"
    "(if add32 (int p) (int m) > numBytes hdr then numBytes hdr - int p else int m) = int n"
    "add32 (int p) (int n) = int (p + n)" "divRoundDown (int p) 128 = int a"
    "divRoundDown (int (p + n) - 1) 128 = int b" "a \<le> b" "b < nat (numSectors hdr)"
    "128 * a \<le> p" "p < 128 * Suc a" "128 * b < p + n" "p + n \<le> 128 * Suc b"
proof -
  define n where "n = min m (nat (numBytes hdr) - p)"
  have n: "0 < n" "p + n \<le> nat (numBytes hdr)" "p + n < 2 ^ 31" using len by (auto simp: n_def min_def)
  have int_n: "(if add32 (int p) (int m) > numBytes hdr then numBytes hdr - int p else int m) = int n"
    using len by (auto simp: n_def min_def)
  have "int p + int n - 1 = int (p + n - 1)" using n by simp
  then have lst: "divRoundDown (int (p + n) - 1) 128 = int ((p + n - 1) div 128)"
    using n by (simp add: divRoundDown_def zdiv_int)
  have b: "(p + n - 1) div 128 < nat (numSectors hdr)" using byte_block [OF ok, of "p + n - 1"] n by simp
  have add: "add32 (int p) (int n) = int (p + n)" using n by simp
  have first: "divRoundDown (int p) 128 = int (p div 128)" by (simp add: divRoundDown_def zdiv_int)
  have p: "128 * (p div 128) \<le> p" "p < 128 * Suc (p div 128)"
    using dividend_less_times_div [of 128 p] by simp_all
  have e: "128 * ((p + n - 1) div 128) < p + n" "p + n \<le> 128 * Suc ((p + n - 1) div 128)"
    using times_div_less_eq_dividend [of 128 "p + n - 1"] dividend_less_times_div [of 128 "p + n - 1"] n(1)
    by (linarith, simp)
  have ab: "p div 128 \<le> (p + n - 1) div 128" using n by (intro div_le_mono) simp
  show thesis by (rule that [OF n_def n(1,2) int_n add first lst ab b p e])
qed

lemma disk_ReadAt_ok:
  assumes ok: "hdr_ok (df_hdr f)" "disk_ok d" and len: "p < nat (numBytes (df_hdr f))" "0 < m" "p + m < 2 ^ 31"
  shows "\<exists>d'. disk_ReadAt f (int m) (int p) d = Some (Inr (take m (drop p (content d (df_hdr f))), d')) \<and>
    disk_ok d' \<and> sector d' = sector d"
proof -
  let ?hdr = "df_hdr f"
  obtain n a b where q: "n = min m (nat (numBytes ?hdr) - p)" "0 < n" "p + n \<le> nat (numBytes ?hdr)"
    "(if add32 (int p) (int m) > numBytes ?hdr then numBytes ?hdr - int p else int m) = int n"
    "add32 (int p) (int n) = int (p + n)" "divRoundDown (int p) 128 = int a"
    "divRoundDown (int (p + n) - 1) 128 = int b" "a \<le> b" "b < nat (numSectors ?hdr)"
    "128 * a \<le> p" "p < 128 * Suc a" "128 * b < p + n" "p + n \<le> 128 * Suc b"
    using request_sectors [OF ok(1) len] .
  have "a + (Suc b - a) \<le> nat (numSectors ?hdr)" using q(8,9) by simp
  from read_sectors_ok [OF ok this] obtain buf d' where
    r: "read_sectors ?hdr [int a..int b] d = Some (Inr (buf, d'))" "disk_ok d'" "sector d' = sector d"
      "length buf = 128 * (Suc b - a)" "\<forall>j < 128 * (Suc b - a). buf ! j = fbyte d ?hdr (128 * a + j)"
    using q(8) by (auto simp: int_range_nat)
  have off: "p - 128 * a + n \<le> length buf" "int p - int a * 128 = int (p - 128 * a)"
    using q(8,10,13) r(4) by (simp_all add: diff_mult_distrib2)
  have "take n (drop (p - 128 * a) buf) = take m (drop p (content d ?hdr))"
  proof (rule nth_equalityI)
    have "length (take n (drop (p - 128 * a) buf)) = n" using off(1) by simp
    moreover have "length (take m (drop p (content d ?hdr))) = n" by (simp add: q(1) min.commute)
    ultimately show "length (take n (drop (p - 128 * a) buf)) = length (take m (drop p (content d ?hdr)))" by simp
    fix i assume "i < length (take n (drop (p - 128 * a) buf))"
    then have i: "i < n" by simp
    then have "p - 128 * a + i < 128 * (Suc b - a)" using off(1) r(4) by simp
    then have "buf ! (p - 128 * a + i) = fbyte d ?hdr (128 * a + (p - 128 * a + i))" using r(5) by blast
    moreover have "128 * a + (p - 128 * a + i) = p + i" using q(10) by simp
    moreover have "i < m" using i q(1) by simp
    moreover have "p + i < nat (numBytes ?hdr)" using i q(3) by linarith
    ultimately show "take n (drop (p - 128 * a) buf) ! i = take m (drop p (content d ?hdr)) ! i"
      using i off(1) by (simp add: content_def)
  qed
  then have "copy_out buf (int p - int a * 128) (int n) = Inr (take m (drop p (content d ?hdr)))"
    unfolding off(2) using off(1) by (simp add: copy_out_def)
  moreover have "\<not> (int m \<le> 0 \<or> numBytes ?hdr \<le> int p)" using len by linarith
  ultimately show ?thesis using r q(4-8)
    by (intro exI [of _ d']) (simp add: disk_ReadAt_def FileLength_def Let_def)
qed

lemma copy_in_ok:
  assumes "i + length bytes \<le> length buf"
  shows "\<exists>buf'. copy_in bytes (int i) buf = Inr buf' \<and> length buf' = length buf \<and>
    (\<forall>j < length buf. buf' ! j = (if i \<le> j \<and> j < i + length bytes then bytes ! (j - i) else buf ! j))"
  using assms by (auto simp: copy_in_def nth_append min_def)

text \<open>Filling one sector of the buffer of \<^verbatim>\<open>WriteAt\<close> from the file.\<close>

lemma fill_sector:
  assumes ok: "hdr_ok (df_hdr f)" "disk_ok d" and c: "128 * c < nat (numBytes (df_hdr f))" "i + 128 \<le> length buf"
  shows "\<exists>buf' d'. bindR (disk_ReadAt f 128 (int c * 128) d) (\<lambda>(bytes, d).
        bindR (Some (copy_in bytes (int i) buf)) (\<lambda>buf. Some (Inr (buf, d)))) = Some (Inr (buf', d')) \<and>
    disk_ok d' \<and> sector d' = sector d \<and> length buf' = length buf \<and>
    (\<forall>j < length buf. buf' ! j =
      (if i \<le> j \<and> j < i + 128 \<and> 128 * c + (j - i) < nat (numBytes (df_hdr f))
       then fbyte d (df_hdr f) (128 * c + (j - i)) else buf ! j))"
proof -
  let ?N = "nat (numBytes (df_hdr f))"
  let ?bytes = "take 128 (drop (128 * c) (content d (df_hdr f)))"
  have "128 * c + 128 < 2 ^ 31" using hdr_ok_bounds(4) [OF ok(1)] c(1) by simp
  with disk_ReadAt_ok [OF ok c(1), of 128] obtain d' where
    d': "disk_ReadAt f 128 (int c * 128) d = Some (Inr (?bytes, d'))" "disk_ok d'" "sector d' = sector d"
    by (auto simp: mult.commute)
  have "i + length ?bytes \<le> length buf" using c(2) by simp
  from copy_in_ok [OF this] obtain buf' where b: "copy_in ?bytes (int i) buf = Inr buf'" "length buf' = length buf"
    "\<forall>j < length buf. buf' ! j = (if i \<le> j \<and> j < i + length ?bytes then ?bytes ! (j - i) else buf ! j)"
    by blast
  have "buf' ! j = (if i \<le> j \<and> j < i + 128 \<and> 128 * c + (j - i) < ?N
       then fbyte d (df_hdr f) (128 * c + (j - i)) else buf ! j)" if "j < length buf" for j
    using b(3) that by (auto simp: content_def)
  with d' b(1,2) show ?thesis by auto
qed

lemma write_sectors_ok:
  assumes "hdr_ok hdr" "disk_ok d" "f + k \<le> nat (numSectors hdr)" "length buf = 128 * k"
  shows "\<exists>d'. write_sectors hdr (map int [f..<f + k]) buf d = Some (Inr d') \<and> disk_ok d' \<and>
    (\<forall>s. s \<notin> set (blocks hdr) \<longrightarrow> sector d' s = sector d s) \<and>
    (\<forall>i < nat (numSectors hdr). sector d' (dataSectors hdr ! i) =
       (if f \<le> i \<and> i < f + k then take 128 (drop (128 * (i - f)) buf) else sector d (dataSectors hdr ! i)))"
  using assms
proof (induction k arbitrary: f d buf)
  case (Suc k)
  let ?s = "dataSectors hdr ! f"
  have f: "f < nat (numSectors hdr)" using Suc.prems by simp
  note s = ByteToSector_ok [OF Suc.prems(1) f]
  have "length (take 128 buf) = 128" using Suc.prems(4) by simp
  from WriteSector_ok [OF Suc.prems(2) s(2,3) this] obtain d1 where
    d1: "WriteSector ?s (take 128 buf) d = Some (Inr d1)" "disk_ok d1" "sector d1 = (sector d)(?s := take 128 buf)" by blast
  from Suc.IH [OF Suc.prems(1) d1(2), of "Suc f" "drop 128 buf"] Suc.prems(3,4) obtain d' where
    ih: "write_sectors hdr (map int [Suc f..<Suc f + k]) (drop 128 buf) d1 = Some (Inr d')" "disk_ok d'"
      "\<forall>s. s \<notin> set (blocks hdr) \<longrightarrow> sector d' s = sector d1 s"
      "\<forall>i < nat (numSectors hdr). sector d' (dataSectors hdr ! i) =
        (if Suc f \<le> i \<and> i < Suc f + k then take 128 (drop (128 * (i - Suc f)) (drop 128 buf)) else sector d1 (dataSectors hdr ! i))"
    by auto
  have cons: "[f..<f + Suc k] = f # [Suc f..<Suc f + k]" by (simp add: upt_rec)
  have "sector d' s = sector d s" if "s \<notin> set (blocks hdr)" for s
    using that ih(3) d1(3) nth_blocks [OF Suc.prems(1) f] by auto
  moreover have "sector d' (dataSectors hdr ! i) =
      (if f \<le> i \<and> i < f + Suc k then take 128 (drop (128 * (i - f)) buf) else sector d (dataSectors hdr ! i))"
    if "i < nat (numSectors hdr)" for i
  proof (cases "Suc f \<le> i \<and> i < Suc f + k")
    case True
    then have "128 * (i - Suc f) + 128 = 128 * (i - f)" by (simp add: Suc_diff_Suc diff_mult_distrib2)
    with True ih(4) that show ?thesis by (simp add: add.commute)
  next
    case False
    with ih(4) that have "sector d' (dataSectors hdr ! i) = sector d1 (dataSectors hdr ! i)" by (auto simp del: drop_drop)
    with False d1(3) blocks_inj [OF Suc.prems(1) that f] show ?thesis by (cases "i = f") auto
  qed
  ultimately show ?case using cons s d1(1) ih(1,2) by (intro exI [of _ d']) simp
qed auto

text \<open>The buffer before the new bytes go in: the parts of the request's sectors that stay are those of the file.\<close>

definition keeps_around :: "disk_dev \<Rightarrow> filehdr \<Rightarrow> nat \<Rightarrow> nat \<Rightarrow> nat \<Rightarrow> u8 list \<Rightarrow> bool" where
  "keeps_around d hdr a lo hi buf \<longleftrightarrow>
     (\<forall>j < length buf. 128 * a + j < nat (numBytes hdr) \<longrightarrow> (128 * a + j < lo \<or> hi \<le> 128 * a + j) \<longrightarrow>
        buf ! j = fbyte d hdr (128 * a + j))"

lemma prepare_buffer_ok:
  assumes ok: "hdr_ok (df_hdr f)" "disk_ok d"
    and q: "add32 (int p) (int n) = int (p + n)" "a \<le> b" "p + n \<le> nat (numBytes (df_hdr f))" "0 < n"
      "128 * a \<le> p" "p < 128 * Suc a" "128 * b < p + n" "p + n \<le> 128 * Suc b"
  shows "\<exists>buf d'. prepare_buffer f (int p) (int n) (int a) (int b) d = Some (Inr (buf, d')) \<and> disk_ok d' \<and>
    sector d' = sector d \<and> length buf = 128 * (Suc b - a) \<and> keeps_around d (df_hdr f) a p (p + n) buf"
proof -
  let ?hdr = "df_hdr f" and ?N = "nat (numBytes (df_hdr f))"
  let ?buf0 = "replicate (nat (1 + int b - int a) * 128) 0 :: u8 list"
  have len0: "length ?buf0 = 128 * (Suc b - a)" using q(2) by (simp add: nat_diff_distrib)
  have room: "0 + 128 \<le> length ?buf0" "128 * (b - a) + 128 \<le> length ?buf0" using len0 q(2) by auto
  have inN: "128 * a < ?N" "128 * b < ?N" using q by linarith+
  define first where "first = (if int p \<noteq> int a * 128
      then bindR (disk_ReadAt f 128 (int a * 128) d) (\<lambda>(bytes, d).
           bindR (Some (copy_in bytes 0 ?buf0)) (\<lambda>buf. Some (Inr (buf, d)))) else Some (Inr (?buf0, d)))"
  have pb: "prepare_buffer f (int p) (int n) (int a) (int b) d = bindR first (\<lambda>(buf, d).
      if int (p + n) \<noteq> (int b + 1) * 128 \<and> (int a \<noteq> int b \<or> int p = int a * 128)
      then bindR (disk_ReadAt f 128 (int b * 128) d) (\<lambda>(bytes, d).
           bindR (Some (copy_in bytes ((int b - int a) * 128) buf)) (\<lambda>buf. Some (Inr (buf, d))))
      else Some (Inr (buf, d)))"
    unfolding prepare_buffer_def first_def Let_def q(1) by (simp only: of_nat_numeral simp_thms)
  have "(int b + 1) * 128 = int (128 * Suc b)" "int a * 128 = int (128 * a)" by simp_all
  then have last_part: "int (p + n) \<noteq> (int b + 1) * 128 \<and> (int a \<noteq> int b \<or> int p = int a * 128) \<longleftrightarrow>
      p + n \<noteq> 128 * Suc b \<and> (a \<noteq> b \<or> p = 128 * a)" by (simp only: of_nat_eq_iff)
  obtain buf1 d1 where 1: "first = Some (Inr (buf1, d1))" "disk_ok d1" "sector d1 = sector d"
    "length buf1 = 128 * (Suc b - a)"
    "\<forall>j < 128. 128 * a + j < ?N \<longrightarrow> p \<noteq> 128 * a \<longrightarrow> buf1 ! j = fbyte d ?hdr (128 * a + j)"
  proof (cases "p = 128 * a")
    case True
    then have "first = Some (Inr (?buf0, d))" by (simp add: first_def)
    with that True len0 ok show thesis by blast
  next
    case False
    then have "int p \<noteq> int a * 128" by linarith
    then have eq: "first = bindR (disk_ReadAt f 128 (int a * 128) d) (\<lambda>(bytes, d).
        bindR (Some (copy_in bytes (int 0) ?buf0)) (\<lambda>buf. Some (Inr (buf, d))))" by (simp add: first_def)
    from fill_sector [OF ok inN(1) room(1)] obtain buf1 d1 where
      "first = Some (Inr (buf1, d1))" "disk_ok d1" "sector d1 = sector d" "length buf1 = length ?buf0"
      "\<forall>j < length ?buf0. buf1 ! j = (if 0 \<le> j \<and> j < 0 + 128 \<and> 128 * a + (j - 0) < ?N
         then fbyte d ?hdr (128 * a + (j - 0)) else ?buf0 ! j)" unfolding eq by blast
    with that len0 room(1) show thesis by auto
  qed
  show ?thesis
  proof (cases "p + n \<noteq> 128 * Suc b \<and> (a \<noteq> b \<or> p = 128 * a)")
    case True
    have room1: "128 * (b - a) + 128 \<le> length buf1" using room(2) len0 1(4) by simp
    have idx: "(int b - int a) * 128 = int (128 * (b - a))" using q(2) by simp
    from fill_sector [OF ok(1) 1(2) inN(2) room1] obtain buf2 d2 where
      2: "bindR (disk_ReadAt f 128 (int b * 128) d1) (\<lambda>(bytes, d).
        bindR (Some (copy_in bytes (int (128 * (b - a))) buf1)) (\<lambda>buf. Some (Inr (buf, d)))) = Some (Inr (buf2, d2))"
      "disk_ok d2" "sector d2 = sector d1" "length buf2 = length buf1"
      "\<forall>j < length buf1. buf2 ! j = (if 128 * (b - a) \<le> j \<and> j < 128 * (b - a) + 128 \<and> 128 * b + (j - 128 * (b - a)) < ?N
         then fbyte d1 ?hdr (128 * b + (j - 128 * (b - a))) else buf1 ! j)" by blast
    have "keeps_around d ?hdr a p (p + n) buf2"
      unfolding keeps_around_def
    proof (intro allI impI)
      fix j assume j: "j < length buf2" "128 * a + j < ?N" "128 * a + j < p \<or> p + n \<le> 128 * a + j"
      show "buf2 ! j = fbyte d ?hdr (128 * a + j)"
      proof (cases "128 * (b - a) \<le> j")
        case True
        then have "128 * b + (j - 128 * (b - a)) = 128 * a + j" using q(2) by (simp add: diff_mult_distrib2)
        moreover have "j < 128 * (b - a) + 128" using j(1) 2(4) 1(4) q(2) by (simp add: diff_mult_distrib2 Suc_diff_le)
        ultimately show ?thesis using 2(5) 1(3) True j 2(4) by (simp add: fbyte_def)
      next
        case False
        then have "128 * a + j < 128 * b" using q(2) by (simp add: diff_mult_distrib2)
        with j(3) q(7) have lt: "128 * a + j < p" by linarith
        then have "j < 128" "p \<noteq> 128 * a" using q(6) by simp_all
        then have "buf1 ! j = fbyte d ?hdr (128 * a + j)" using 1(5) j(2) by blast
        then show ?thesis using 2(5) False j(1) 2(4) by simp
      qed
    qed
    moreover have "prepare_buffer f (int p) (int n) (int a) (int b) d = Some (Inr (buf2, d2))"
      using True 1(1) 2(1) unfolding pb last_part idx by simp
    ultimately show ?thesis using 2 1 by auto
  next
    case False
    have "keeps_around d ?hdr a p (p + n) buf1"
      unfolding keeps_around_def
    proof (intro allI impI)
      fix j assume j: "j < length buf1" "128 * a + j < ?N" "128 * a + j < p \<or> p + n \<le> 128 * a + j"
      have end_b: "128 * a + j < 128 * Suc b" using j(1) 1(4) q(2) by (simp add: diff_mult_distrib2)
      have "j < 128 \<and> p \<noteq> 128 * a"
      proof (cases "p + n = 128 * Suc b")
        case True
        with j(3) end_b have "128 * a + j < p" by linarith
        with q(6) show ?thesis by simp
      next
        case f: False
        with False have "a = b" "p \<noteq> 128 * a" by auto
        with end_b show ?thesis by simp
      qed
      then show "buf1 ! j = fbyte d ?hdr (128 * a + j)" using 1(5) j(2) by blast
    qed
    moreover have "prepare_buffer f (int p) (int n) (int a) (int b) d = Some (Inr (buf1, d1))"
      using False 1(1) unfolding pb last_part by auto
    ultimately show ?thesis using 1 by auto
  qed
qed

lemma nth_patch_all:
  "pos + length new \<le> length old \<Longrightarrow> j < length old \<Longrightarrow>
     patch old pos new ! j = (if pos \<le> j \<and> j < pos + length new then new ! (j - pos) else old ! j)"
  by (auto simp: patch_def nth_append min_def)

text \<open>The file after the sectors \<open>a\<close> to \<open>b\<close> have been replaced by a buffer.\<close>

lemma fbyte_replaced:
  assumes ok: "hdr_ok hdr" and j: "j < nat (numBytes hdr)" and buf: "length buf = 128 * (Suc b - a)" "a \<le> b"
    and secs: "\<forall>i < nat (numSectors hdr). sector d' (dataSectors hdr ! i) =
         (if a \<le> i \<and> i < a + (Suc b - a) then take 128 (drop (128 * (i - a)) buf) else sector d (dataSectors hdr ! i))"
  shows "fbyte d' hdr j = (if 128 * a \<le> j \<and> j < 128 * Suc b then buf ! (j - 128 * a) else fbyte d hdr j)"
proof -
  define i where "i = j div 128"
  have i: "i < nat (numSectors hdr)" using byte_block [OF ok j] by (simp add: i_def)
  have jm: "j = 128 * i + j mod 128" "j mod 128 < 128" by (simp_all add: i_def)
  have fb: "fbyte d' hdr j = sector d' (dataSectors hdr ! i) ! (j mod 128)"
    "fbyte d hdr j = sector d (dataSectors hdr ! i) ! (j mod 128)" by (simp_all add: fbyte_def i_def)
  show ?thesis
  proof (cases "a \<le> i \<and> i \<le> b")
    case True
    then have "sector d' (dataSectors hdr ! i) = take 128 (drop (128 * (i - a)) buf)" using secs i by simp
    moreover have e: "128 * (i - a) + j mod 128 = j - 128 * a" using True jm(1) by (simp add: diff_mult_distrib2)
    moreover have r: "128 * a \<le> j \<and> j < 128 * Suc b"
    proof -
      have "128 * a \<le> 128 * i" "128 * i \<le> 128 * b" using True by simp_all
      with jm show ?thesis unfolding mult_Suc_right by (intro conjI) linarith+
    qed
    moreover have "128 * (i - a) + j mod 128 < length buf"
    proof -
      have "length buf = 128 * Suc b - 128 * a" using buf(1) by (simp add: diff_mult_distrib2)
      with r e show ?thesis by (simp only: diff_less_mono)
    qed
    ultimately show ?thesis using fb(1) jm(2) by simp
  next
    case False
    then have "\<not> (128 * a \<le> j \<and> j < 128 * Suc b)" using jm by auto
    moreover have "sector d' (dataSectors hdr ! i) = sector d (dataSectors hdr ! i)" using False secs i buf(2) by auto
    ultimately show ?thesis using fb by auto
  qed
qed

lemma disk_WriteAt_ok:
  assumes ok: "hdr_ok (df_hdr f)" "disk_ok d" and len: "p < nat (numBytes (df_hdr f))" "0 < m" "p + m < 2 ^ 31"
    and from_len: "m \<le> length from"
  defines "n \<equiv> min m (nat (numBytes (df_hdr f)) - p)"
  shows "\<exists>d'. disk_WriteAt f from (int m) (int p) d = Some (Inr (int n, d')) \<and> disk_ok d' \<and>
    (\<forall>s. s \<notin> set (blocks (df_hdr f)) \<longrightarrow> sector d' s = sector d s) \<and>
    content d' (df_hdr f) = patch (content d (df_hdr f)) p (take n from)"
proof -
  let ?hdr = "df_hdr f" and ?N = "nat (numBytes (df_hdr f))"
  obtain n' a b where q: "n' = n" "0 < n'" "p + n' \<le> ?N"
    "(if add32 (int p) (int m) > numBytes ?hdr then numBytes ?hdr - int p else int m) = int n'"
    "add32 (int p) (int n') = int (p + n')" "divRoundDown (int p) 128 = int a"
    "divRoundDown (int (p + n') - 1) 128 = int b" "a \<le> b" "b < nat (numSectors ?hdr)"
    "128 * a \<le> p" "p < 128 * Suc a" "128 * b < p + n'" "p + n' \<le> 128 * Suc b"
    unfolding n_def using request_sectors [OF ok(1) len] .
  have in_file: "\<not> (int m \<le> 0 \<or> numBytes ?hdr \<le> int p)" using len by linarith
  have n_m: "n \<le> length from" using from_len by (simp add: n_def)
  obtain buf1 d1 where 1: "prepare_buffer f (int p) (int n) (int a) (int b) d = Some (Inr (buf1, d1))" "disk_ok d1"
    "sector d1 = sector d" "length buf1 = 128 * (Suc b - a)" "keeps_around d ?hdr a p (p + n) buf1"
    using prepare_buffer_ok [OF ok q(5,8,3,2,10-13)] q(1) by blast
  have out: "copy_out from 0 (int n) = Inr (take n from)" using n_m by (simp add: copy_out_def)
  have idx: "int p - int a * 128 = int (p - 128 * a)" using q(10) by simp
  have "p - 128 * a + length (take n from) \<le> length buf1"
    using q(1,8,10,13) 1(4) n_m by (simp add: diff_mult_distrib2)
  from copy_in_ok [OF this] obtain buf2 where 2: "copy_in (take n from) (int p - int a * 128) buf1 = Inr buf2"
    "length buf2 = length buf1"
    "\<forall>j < length buf1. buf2 ! j = (if p - 128 * a \<le> j \<and> j < p - 128 * a + n then take n from ! (j - (p - 128 * a)) else buf1 ! j)"
    unfolding idx using n_m by auto
  have "a + (Suc b - a) \<le> nat (numSectors ?hdr)" using q(8,9) by simp
  from write_sectors_ok [OF ok(1) 1(2) this, of buf2] 2(2) 1(4) obtain d' where
    3: "write_sectors ?hdr [int a..int b] buf2 d1 = Some (Inr d')" "disk_ok d'"
      "\<forall>s. s \<notin> set (blocks ?hdr) \<longrightarrow> sector d' s = sector d1 s"
      "\<forall>i < nat (numSectors ?hdr). sector d' (dataSectors ?hdr ! i) =
         (if a \<le> i \<and> i < a + (Suc b - a) then take 128 (drop (128 * (i - a)) buf2) else sector d1 (dataSectors ?hdr ! i))"
    using q(8) by (auto simp: int_range_nat)
  have "disk_WriteAt f from (int m) (int p) d = Some (Inr (int n, d'))"
    using in_file q(1,4-8) 1(1) out 2(1) 3(1) by (simp add: disk_WriteAt_def FileLength_def Let_def)
  moreover have "content d' ?hdr = patch (content d ?hdr) p (take n from)"
  proof (rule nth_equalityI)
    have inside: "p + length (take n from) \<le> length (content d ?hdr)" using q(1,3) n_m by simp
    have "take n from \<noteq> []" using q(1,2) n_m by auto
    with inside show "length (content d' ?hdr) = length (patch (content d ?hdr) p (take n from))"
      by (simp add: length_patch)
    fix j assume "j < length (content d' ?hdr)"
    then have j: "j < ?N" by simp
    have lb: "length buf2 = 128 * (Suc b - a)" using 2(2) 1(4) by simp
    have j': "j - 128 * a < length buf1" if "128 * a \<le> j" "j < 128 * Suc b"
      using that q(8) 1(4) by (simp add: diff_mult_distrib2)
    have "fbyte d' ?hdr j = (if 128 * a \<le> j \<and> j < 128 * Suc b then buf2 ! (j - 128 * a) else fbyte d1 ?hdr j)"
      by (rule fbyte_replaced [OF ok(1) j lb q(8) 3(4)])
    moreover have "fbyte d1 ?hdr j = fbyte d ?hdr j" using 1(3) by (simp add: fbyte_def)
    moreover have "buf1 ! (j - 128 * a) = fbyte d ?hdr j"
      if "128 * a \<le> j" "j < 128 * Suc b" "j < p \<or> p + n \<le> j"
      using 1(5) j' [OF that(1,2)] that j unfolding keeps_around_def by (metis le_add_diff_inverse)
    ultimately have "fbyte d' ?hdr j = (if p \<le> j \<and> j < p + n then take n from ! (j - p) else fbyte d ?hdr j)"
      using 2(3) j' q(1,10,13) by auto
    then show "content d' ?hdr ! j = patch (content d ?hdr) p (take n from) ! j"
      using nth_patch_all [OF inside, of j] j n_m by (simp add: content_def)
  qed
  ultimately show ?thesis using 3 1(3) by auto
qed

section \<open>Headers and bitmaps survive the disk\<close>

definition int32 :: "int \<Rightarrow> bool" where
  "int32 i \<longleftrightarrow> - (2 ^ 31) \<le> i \<and> i < 2 ^ 31"

lemma length_hdr_bytes: "length (dataSectors hdr) = NumDirect \<Longrightarrow> length (hdr_bytes hdr) = SectorSize"
  using length_concat_const [of "numBytes hdr # numSectors hdr # dataSectors hdr" int_bytes 4] by (simp add: hdr_bytes_def)

lemma bytes_int_concat:
  assumes "i < length xs" "\<forall>x\<in>set xs. int32 x"
  shows "bytes_int (drop (4 * i) (concat (map int_bytes xs))) = xs ! i"
proof -
  have "drop (4 * i) (concat (map int_bytes xs)) = int_bytes (xs ! i) @ concat (map int_bytes (drop (Suc i) xs))"
    using assms(1) by (subst drop_concat_const) (auto simp flip: Cons_nth_drop_Suc)
  with assms bytes_int_int_bytes [of "xs ! i"] show ?thesis by (simp add: int32_def)
qed

lemma bytes_hdr_hdr_bytes:
  assumes "length (dataSectors hdr) = NumDirect" "int32 (numBytes hdr)" "int32 (numSectors hdr)" "\<forall>s\<in>set (dataSectors hdr). int32 s"
  shows "bytes_hdr (hdr_bytes hdr) = hdr"
proof -
  let ?xs = "numBytes hdr # numSectors hdr # dataSectors hdr"
  have all: "\<forall>x\<in>set ?xs. int32 x" using assms by simp
  have g: "bytes_int (drop (4 * i) (hdr_bytes hdr)) = ?xs ! i" if "i < 32" for i
    unfolding hdr_bytes_def by (rule bytes_int_concat [OF _ all]) (use that assms(1) in simp)
  have "bytes_int (hdr_bytes hdr) = numBytes hdr" "bytes_int (drop 4 (hdr_bytes hdr)) = numSectors hdr"
    using g [of 0] g [of 1] by simp_all
  moreover have "map (\<lambda>i. bytes_int (drop (8 + 4 * i) (hdr_bytes hdr))) [0..<30] = dataSectors hdr"
  proof (rule nth_equalityI)
    fix i assume "i < length (map (\<lambda>i. bytes_int (drop (8 + 4 * i) (hdr_bytes hdr))) [0..<30])"
    then show "map (\<lambda>i. bytes_int (drop (8 + 4 * i) (hdr_bytes hdr))) [0..<30] ! i = dataSectors hdr ! i"
      using g [of "i + 2"] by (simp add: algebra_simps)
  qed (simp add: assms(1))
  ultimately show ?thesis by (simp add: bytes_hdr_def)
qed

lemma length_map_bytes: "length (map_bytes bm) = 4 * length (bm_map bm)"
  by (simp add: map_bytes_def length_concat_const)

lemma bytes_map_map_bytes: "bytes_map (map_bytes bm) = bm_map bm"
proof (rule nth_equalityI)
  show len: "length (bytes_map (map_bytes bm)) = length (bm_map bm)" by (simp add: bytes_map_def length_map_bytes)
  fix i assume "i < length (bytes_map (map_bytes bm))"
  then have i: "i < length (bm_map bm)" by (simp add: len)
  then have "drop (4 * i) (map_bytes bm) = word_bytes (bm_map bm ! i) @ concat (map word_bytes (drop (Suc i) (bm_map bm)))"
    unfolding map_bytes_def by (subst drop_concat_const) (auto simp flip: Cons_nth_drop_Suc)
  with i show "bytes_map (map_bytes bm) ! i = bm_map bm ! i"
    by (simp add: bytes_map_def length_map_bytes bytes_word_word_bytes)
qed

section \<open>Allocation of data sectors\<close>

lemma Allocate_loop_ok:
  assumes wf: "wf_bitmap fm" and len: "length (dataSectors hdr) = NumDirect" and n: "n \<le> NumDirect"
    "n \<le> card ({0..<numBits fm} - marked fm)"
  shows "\<exists>hdr' fm'. forRes Allocate_one [0..int n - 1] (hdr, fm) = Inr (hdr', fm') \<and> wf_bitmap fm' \<and>
    numBits fm' = numBits fm \<and> numBytes hdr' = numBytes hdr \<and> numSectors hdr' = numSectors hdr \<and>
    length (dataSectors hdr') = NumDirect \<and> drop n (dataSectors hdr') = drop n (dataSectors hdr) \<and>
    distinct (take n (dataSectors hdr')) \<and> set (take n (dataSectors hdr')) \<subseteq> {0..<numBits fm} - marked fm \<and>
    marked fm' = marked fm \<union> set (take n (dataSectors hdr'))"
  using n
proof (induction n)
  case 0
  then show ?case using wf len by simp
next
  case (Suc n)
  let ?free = "{0..<numBits fm} - marked fm"
  from Suc obtain h1 m1 where 1: "forRes Allocate_one [0..int n - 1] (hdr, fm) = Inr (h1, m1)" "wf_bitmap m1"
    "numBits m1 = numBits fm" "numBytes h1 = numBytes hdr" "numSectors h1 = numSectors hdr"
    "length (dataSectors h1) = 30" "drop n (dataSectors h1) = drop n (dataSectors hdr)"
    "distinct (take n (dataSectors h1))" "set (take n (dataSectors h1)) \<subseteq> ?free"
    "marked m1 = marked fm \<union> set (take n (dataSectors h1))" by auto
  have "card (set (take n (dataSectors h1))) \<le> n" using card_length [of "take n (dataSectors h1)"] by simp
  then have "\<not> ?free \<subseteq> set (take n (dataSectors h1))"
    using Suc.prems(2) card_mono [of "set (take n (dataSectors h1))" ?free] by auto
  then have "marked m1 \<noteq> {0..<numBits m1}" using 1(3,10) by auto
  from FindAndSet_free [OF 1(2) this] obtain i m2 where 2: "FindAndSet m1 = Inr (i, m2)" "wf_bitmap m2"
    "numBits m2 = numBits m1" "i \<in> {0..<numBits m1} - marked m1" "marked m2 = insert i (marked m1)" by metis
  let ?h2 = "h1\<lparr>dataSectors := (dataSectors h1)[n := i]\<rparr>"
  have "[0..int (Suc n) - 1] = [0..int n - 1] @ [int n]" using upto_rec2 [of 0 "int n"] by simp
  then have "forRes Allocate_one [0..int (Suc n) - 1] (hdr, fm) = Inr (?h2, m2)"
    using 1(1,6) 2(1,4) Suc.prems(1) by (simp add: forRes_append Allocate_one_def)
  moreover have tk: "take (Suc n) ((dataSectors h1)[n := i]) = take n (dataSectors h1) @ [i]"
    using 1(6) Suc.prems(1) by (simp add: take_Suc_conv_app_nth)
  moreover have "drop (Suc n) ((dataSectors h1)[n := i]) = drop (Suc n) (dataSectors hdr)"
    using arg_cong [OF 1(7), of "drop 1"] by simp
  ultimately show ?case
    using 1 2 by (intro exI [of _ ?h2] exI [of _ m2]) auto
qed

lemma Allocate_ok:
  assumes wf: "wf_bitmap fm" "numBits fm = NumSectors" and len: "length (dataSectors hdr) = NumDirect"
    and size: "0 \<le> fileSize" "divRoundUp fileSize (int SectorSize) \<le> int NumDirect"
  shows "divRoundUp fileSize (int SectorSize) > int (card ({0..<NumSectors} - marked fm)) \<Longrightarrow>
      \<exists>hdr'. Allocate fm fileSize hdr = Inr (False, hdr', fm)"
    and "divRoundUp fileSize (int SectorSize) \<le> int (card ({0..<NumSectors} - marked fm)) \<Longrightarrow>
      \<exists>hdr' fm'. Allocate fm fileSize hdr = Inr (True, hdr', fm') \<and> hdr_ok hdr' \<and> numBytes hdr' = fileSize \<and>
        wf_bitmap fm' \<and> numBits fm' = NumSectors \<and> set (blocks hdr') \<inter> marked fm = {} \<and>
        marked fm' = marked fm \<union> set (blocks hdr') \<and>
        drop (nat (numSectors hdr')) (dataSectors hdr') = drop (nat (numSectors hdr')) (dataSectors hdr)"
proof -
  let ?k = "divRoundUp fileSize 128"
  have k: "0 \<le> ?k" using divRoundUp_bounds(3) [of fileSize 128] size(1) by simp
  let ?h = "hdr\<lparr>numBytes := fileSize, numSectors := ?k\<rparr>"
  show "\<exists>hdr'. Allocate fm fileSize hdr = Inr (False, hdr', fm)"
    if "divRoundUp fileSize (int 128) > int (card ({0..<1024} - marked fm))"
    using that NumClear_ok [OF wf(1)] wf(2) by (simp add: Allocate_def)
  show "\<exists>hdr' fm'. Allocate fm fileSize hdr = Inr (True, hdr', fm') \<and> hdr_ok hdr' \<and> numBytes hdr' = fileSize \<and>
        wf_bitmap fm' \<and> numBits fm' = 1024 \<and> set (blocks hdr') \<inter> marked fm = {} \<and>
        marked fm' = marked fm \<union> set (blocks hdr') \<and>
        drop (nat (numSectors hdr')) (dataSectors hdr') = drop (nat (numSectors hdr')) (dataSectors hdr)"
    if fits: "divRoundUp fileSize (int 128) \<le> int (card ({0..<1024} - marked fm))"
  proof -
    have "nat ?k \<le> 30" "nat ?k \<le> card ({0..<numBits fm} - marked fm)" using size(2) fits wf(2) k by auto
    from Allocate_loop_ok [OF wf(1) _ this, of ?h] len k obtain h' m' where
      l: "forRes Allocate_one [0..?k - 1] (?h, fm) = Inr (h', m')" "wf_bitmap m'" "numBits m' = numBits fm"
        "numBytes h' = fileSize" "numSectors h' = ?k" "length (dataSectors h') = 30"
        "drop (nat ?k) (dataSectors h') = drop (nat ?k) (dataSectors hdr)"
        "distinct (take (nat ?k) (dataSectors h'))" "set (take (nat ?k) (dataSectors h')) \<subseteq> {0..<numBits fm} - marked fm"
        "marked m' = marked fm \<union> set (take (nat ?k) (dataSectors h'))" by auto
    have "Allocate fm fileSize hdr = Inr (True, h', m')"
      using fits NumClear_ok [OF wf(1)] wf(2) l(1) by (simp add: Allocate_def)
    moreover have "hdr_ok h'" using l size wf(2) by (auto simp: hdr_ok_def blocks_def)
    ultimately show ?thesis using l wf(2) by (auto simp: blocks_def)
  qed
qed

lemma Deallocate_ok:
  assumes wf: "wf_bitmap fm" "numBits fm = NumSectors" and hdr: "hdr_ok hdr" "set (blocks hdr) \<subseteq> marked fm"
  shows "\<exists>fm'. Deallocate fm hdr = Inr fm' \<and> wf_bitmap fm' \<and> numBits fm' = NumSectors \<and>
    marked fm' = marked fm - set (blocks hdr)"
proof -
  let ?body = "\<lambda>i fm. andThen (data_sector hdr i) (\<lambda>s. andThen (Test fm s) (\<lambda>t. ASSERT t (Clear fm s)))"
  have "\<exists>fm'. forRes ?body [0..int n - 1] fm = Inr fm' \<and> wf_bitmap fm' \<and> numBits fm' = 1024 \<and>
      marked fm' = marked fm - set (take n (blocks hdr))" if "n \<le> nat (numSectors hdr)" for n
    using that
  proof (induction n)
    case 0
    then show ?case using wf by simp
  next
    case (Suc n)
    then obtain m1 where 1: "forRes ?body [0..int n - 1] fm = Inr m1" "wf_bitmap m1" "numBits m1 = 1024"
      "marked m1 = marked fm - set (take n (blocks hdr))" by auto
    have n: "n < length (blocks hdr)" using Suc.prems length_blocks [OF hdr(1)] by simp
    let ?s = "blocks hdr ! n"
    have "n < 30" using Suc.prems hdr_ok_bounds(2) [OF hdr(1)] by simp
    then have ds: "data_sector hdr (int n) = Inr ?s"
      using hdr(1) Suc.prems by (simp add: data_sector_def hdr_ok_def blocks_nth)
    have s: "?s \<in> set (blocks hdr)" "?s \<notin> set (take n (blocks hdr))"
      using n hdr(1) by (auto simp: hdr_ok_def distinct_conv_nth in_set_conv_nth)
    then have m: "?s \<in> marked m1" "0 \<le> ?s" "?s < numBits m1" using 1(3,4) hdr by (auto simp: hdr_ok_def)
    from Clear_ok [OF 1(2) m(2,3)] obtain m2 where 2: "Clear m1 ?s = Inr m2" "wf_bitmap m2" "numBits m2 = numBits m1"
      "marked m2 = marked m1 - {?s}" .
    have "[0..int (Suc n) - 1] = [0..int n - 1] @ [int n]" using upto_rec2 [of 0 "int n"] by simp
    then have "forRes ?body [0..int (Suc n) - 1] fm = Inr m2"
      using 1 2(1) m ds by (simp add: forRes_append)
    moreover have "marked m2 = marked fm - set (take (Suc n) (blocks hdr))"
      using 2(4) 1(4) n by (auto simp: take_Suc_conv_app_nth)
    ultimately show ?case using 2 1(3) by auto
  qed
  from this [of "nat (numSectors hdr)"] hdr_ok_bounds(1) [OF hdr(1)] length_blocks [OF hdr(1)] show ?thesis
    by (simp add: Deallocate_def)
qed

lemma Allocate_overflow:
  assumes wf: "wf_bitmap fm" "numBits fm = NumSectors" and len: "length (dataSectors hdr) = NumDirect"
    and size: "divRoundUp fileSize (int SectorSize) > int NumDirect"
      "divRoundUp fileSize (int SectorSize) \<le> int (card ({0..<NumSectors} - marked fm))"
  shows "Allocate fm fileSize hdr = Inl Out_of_bounds"
proof -
  let ?k = "divRoundUp fileSize 128"
  let ?h = "hdr\<lparr>numBytes := fileSize, numSectors := ?k\<rparr>"
  have "30 \<le> card ({0..<numBits fm} - marked fm)" using size wf(2) by simp
  from Allocate_loop_ok [OF wf(1) _ _ this, of ?h] len obtain h' m' where
    l: "forRes Allocate_one [0..29] (?h, fm) = Inr (h', m')" "wf_bitmap m'" "length (dataSectors h') = 30" by auto
  have "\<exists>r. FindAndSet m' = Inr r"
    using FindAndSet_full [OF l(2)] FindAndSet_free [OF l(2)] by (cases "marked m' = {0..<numBits m'}") (blast, metis)
  then have "Allocate_one 30 (h', m') = Inl Out_of_bounds" using l(3) by (auto simp: Allocate_one_def)
  moreover have "[0..?k - 1] = [0..29] @ 30 # [31..?k - 1]" using size(1) upto_split3 [of 0 30 "?k - 1"] by simp
  ultimately have "forRes Allocate_one [0..?k - 1] (?h, fm) = Inl Out_of_bounds"
    using l(1) by (simp only: forRes_append) simp
  then show ?thesis using NumClear_ok [OF wf(1)] wf(2) size by (simp add: Allocate_def)
qed

section \<open>Properties\<close>

lemma content_cong: "\<forall>s\<in>set (blocks hdr). sector d' s = sector d s \<Longrightarrow> hdr_ok hdr \<Longrightarrow> content d' hdr = content d hdr"
  using nth_blocks byte_block by (auto simp: content_def fbyte_def)

text \<open>
  Property C12.  A disk file is a byte sequence of fixed length: reading at a position returns that part of it
  (cut off at the end of the file) and changes nothing; writing replaces that part, cut off in the same
  way, returns the number of bytes written, and changes no sector outside the file, so that every file
  with other sectors keeps its contents.  A request behind the end, or for no bytes, does nothing.
\<close>

theorem disk_file_is_byte_sequence:
  assumes "hdr_ok (df_hdr f)" "disk_ok d"
  shows "(p < nat (numBytes (df_hdr f)) \<and> 0 < m \<and> p + m < 2 ^ 31 \<longrightarrow>
      (\<exists>d'. disk_ReadAt f (int m) (int p) d = Some (Inr (take m (drop p (content d (df_hdr f))), d')) \<and>
         disk_ok d' \<and> sector d' = sector d) \<and>
      (m \<le> length from \<longrightarrow>
        (\<exists>d' n. n = min m (nat (numBytes (df_hdr f)) - p) \<and>
           disk_WriteAt f from (int m) (int p) d = Some (Inr (int n, d')) \<and> disk_ok d' \<and>
           content d' (df_hdr f) = patch (content d (df_hdr f)) p (take n from) \<and>
           (\<forall>s. s \<notin> set (blocks (df_hdr f)) \<longrightarrow> sector d' s = sector d s) \<and>
           (\<forall>g. hdr_ok g \<and> set (blocks g) \<inter> set (blocks (df_hdr f)) = {} \<longrightarrow> content d' g = content d g)))) \<and>
    (\<not> (p < nat (numBytes (df_hdr f)) \<and> 0 < m) \<longrightarrow>
      disk_ReadAt f (int m) (int p) d = Some (Inr ([], d)) \<and> disk_WriteAt f from (int m) (int p) d = Some (Inr (0, d)))"
proof (cases "p < nat (numBytes (df_hdr f)) \<and> 0 < m")
  case True
  have "\<exists>d' n. n = min m (nat (numBytes (df_hdr f)) - p) \<and>
           disk_WriteAt f from (int m) (int p) d = Some (Inr (int n, d')) \<and> disk_ok d' \<and>
           content d' (df_hdr f) = patch (content d (df_hdr f)) p (take n from) \<and>
           (\<forall>s. s \<notin> set (blocks (df_hdr f)) \<longrightarrow> sector d' s = sector d s) \<and>
           (\<forall>g. hdr_ok g \<and> set (blocks g) \<inter> set (blocks (df_hdr f)) = {} \<longrightarrow> content d' g = content d g)"
    if small: "p + m < 2 ^ 31" and from_len: "m \<le> length from"
  proof -
    obtain d' where d': "disk_WriteAt f from (int m) (int p) d = Some (Inr (int (min m (nat (numBytes (df_hdr f)) - p)), d'))"
      "disk_ok d'" "\<forall>s. s \<notin> set (blocks (df_hdr f)) \<longrightarrow> sector d' s = sector d s"
      "content d' (df_hdr f) = patch (content d (df_hdr f)) p (take (min m (nat (numBytes (df_hdr f)) - p)) from)"
      using disk_WriteAt_ok [OF assms _ _ small from_len] True by blast
    moreover have "content d' g = content d g" if "hdr_ok g" "set (blocks g) \<inter> set (blocks (df_hdr f)) = {}" for g
      using that d'(3) by (intro content_cong) auto
    ultimately show ?thesis by blast
  qed
  with True disk_ReadAt_ok [OF assms, of p m] show ?thesis by blast
next
  case False
  then have "int m \<le> 0 \<or> numBytes (df_hdr f) \<le> int p" using assms(1) by (auto simp: hdr_ok_def)
  then have "disk_ReadAt f (int m) (int p) d = Some (Inr ([], d))" "disk_WriteAt f from (int m) (int p) d = Some (Inr (0, d))"
    by (auto simp: disk_ReadAt_def disk_WriteAt_def FileLength_def)
  with False show ?thesis by blast
qed

definition sample_file :: dfile where
  "sample_file =
     \<lparr>df_hdr = \<lparr>numBytes = 300, numSectors = 3, dataSectors = [9, 4, 7] @ replicate 27 0\<rparr>, seekPosition = 0, df_type = None\<rparr>"

theorem disk_file_is_byte_sequence_witness:
  "\<exists>d'. disk_WriteAt sample_file (replicate 200 65) 200 120 sample_disk = Some (Inr (180, d')) \<and>
     content d' (df_hdr sample_file) = patch (content sample_disk (df_hdr sample_file)) 120 (replicate 180 65) \<and>
     sector d' 5 = sector sample_disk 5"
proof -
  have b: "blocks (df_hdr sample_file) = [9, 4, 7]" by (simp add: blocks_def sample_file_def numeral_eq_Suc)
  have "divRoundUp 300 128 = 3" by (simp add: divRoundUp_def)
  then have "hdr_ok (df_hdr sample_file)" using b by (simp add: hdr_ok_def sample_file_def)
  from disk_file_is_byte_sequence [OF this sample_disk_ok, of 120 200 "replicate 200 65"] b show ?thesis
    by (auto simp: sample_file_def)
qed

text \<open>
  \<^verbatim>\<open>FileHeader::Allocate\<close> does not check that a file fits into one header: asked for more than 30
  sectors while the disk has that many free, it writes behind the end of \<^verbatim>\<open>dataSectors\<close>.
\<close>

theorem Allocate_overruns_header:
  assumes "wf_bitmap fm" "numBits fm = NumSectors" "fileSize > 30 * int SectorSize"
    "fileSize \<le> int SectorSize * int (card ({0..<NumSectors} - marked fm))"
  shows "Allocate fm fileSize new_FileHeader = Inl Out_of_bounds"
proof (rule Allocate_overflow [OF assms(1,2)])
  have "fileSize \<le> divRoundUp fileSize 128 * 128" "divRoundUp fileSize 128 * 128 < fileSize + 128"
    using divRoundUp_bounds(1,2) [of fileSize 128] assms(3) by auto
  with assms(3,4) show "divRoundUp fileSize (int 128) > int 30"
    "divRoundUp fileSize (int 128) \<le> int (card ({0..<1024} - marked fm))" by auto
qed (simp add: new_FileHeader_def)

theorem Allocate_overruns_header_witness:
  "\<exists>fm. new_Bitmap 1024 = Inr fm \<and> Allocate fm 5000 new_FileHeader = Inl Out_of_bounds"
proof -
  obtain fm where fm: "new_Bitmap 1024 = Inr fm" "wf_bitmap fm" "numBits fm = 1024" "marked fm = {}"
    using new_Bitmap_ok [of 1024] by auto
  with Allocate_overruns_header [OF fm(2,3), of 5000] show ?thesis by simp
qed

end
