(* ===== verification/DiskFS.thy ===== *)
theory DiskFS
  imports DiskFile
begin

text \<open>
  The file system on the simulated disk, for builds without \<^verbatim>\<open>FILESYS_STUB\<close>: the directory
  (\<^verbatim>\<open>filesys/directory.h\<close>, \<^verbatim>\<open>directory.cc\<close>) and the file system (\<^verbatim>\<open>filesys/filesys.cc\<close>).

  \<open>fs_inv\<close> is the invariant of a disk: the bitmap of free sectors and the directory are what their files
  contain, every sector in use belongs to exactly one file, header or system file, and the bitmap
  marks exactly the sectors in use.  \<open>file_map\<close> is the file system as a map from names to contents;
  creating, opening and removing implement the operations on that map.
\<close>

section \<open>Directory\<close>

abbreviation (input) FileNameMaxLen :: nat where "FileNameMaxLen \<equiv> 9"

record dir_entry =
  inUse :: bool
  de_sector :: int
  de_name :: "u8 list"

type_synonym directory = "dir_entry list"

text \<open>A C string up to its terminating zero; \<^verbatim>\<open>strncmp\<close> and \<^verbatim>\<open>strncpy\<close> of \<^verbatim>\<open>FileNameMaxLen\<close> characters.\<close>

definition c_str :: "u8 list \<Rightarrow> u8 list" where
  "c_str bs = takeWhile (\<lambda>b. b \<noteq> 0) bs"

definition name_key :: "u8 list \<Rightarrow> u8 list" where
  "name_key bs = take FileNameMaxLen (c_str bs)"

definition strncmp_equal :: "u8 list \<Rightarrow> u8 list \<Rightarrow> bool" where
  "strncmp_equal a b \<longleftrightarrow> name_key a = name_key b"

definition strncpy :: "u8 list \<Rightarrow> u8 list \<Rightarrow> u8 list" where
  "strncpy to from =
     take FileNameMaxLen (c_str from @ replicate FileNameMaxLen 0) @ drop FileNameMaxLen to"

text \<open>\<^verbatim>\<open>new DirectoryEntry[size]\<close> is not initialised but for \<^verbatim>\<open>inUse\<close>; zeros stand for the rest.\<close>

definition new_Directory :: "nat \<Rightarrow> directory" where
  "new_Directory sz = replicate sz \<lparr>inUse = False, de_sector = 0, de_name = replicate (FileNameMaxLen + 1) 0\<rparr>"

text \<open>An entry in memory: 20 bytes, with the compiler's padding after \<^verbatim>\<open>inUse\<close> and after the name.\<close>

definition entry_bytes :: "dir_entry \<Rightarrow> u8 list" where
  "entry_bytes e = [if inUse e then 1 else 0, 0, 0, 0] @ int_bytes (de_sector e) @ de_name e @ [0, 0]"

definition bytes_entry :: "u8 list \<Rightarrow> dir_entry" where
  "bytes_entry bs = \<lparr>inUse = bs ! 0 \<noteq> 0, de_sector = bytes_int (drop 4 bs), de_name = take 10 (drop 8 bs)\<rparr>"

definition dir_bytes :: "directory \<Rightarrow> u8 list" where
  "dir_bytes dir = concat (map entry_bytes dir)"

definition bytes_dir :: "nat \<Rightarrow> u8 list \<Rightarrow> directory" where
  "bytes_dir sz bs = map (\<lambda>i. bytes_entry (drop (20 * i) bs)) [0..<sz]"

definition Dir_FetchFrom :: "dfile \<Rightarrow> directory \<Rightarrow> disk_dev \<Rightarrow> (directory \<times> disk_dev) run" where
  "Dir_FetchFrom f dir d =
     bindR (disk_ReadAt f (int (length dir) * 20) 0 d) (\<lambda>(bytes, d).
     Some (Inr (bytes_dir (length dir) (bytes @ drop (length bytes) (dir_bytes dir)), d)))"

definition Dir_WriteBack :: "dfile \<Rightarrow> directory \<Rightarrow> disk_dev \<Rightarrow> disk_dev run" where
  "Dir_WriteBack f dir d =
     bindR (disk_WriteAt f (dir_bytes dir) (int (length dir) * 20) 0 d) (\<lambda>(_, d). Some (Inr d))"

fun FindIndex_loop :: "directory \<Rightarrow> u8 list \<Rightarrow> int \<Rightarrow> int" where
  "FindIndex_loop [] name i = -1"
| "FindIndex_loop (e # es) name i =
     (if inUse e \<and> strncmp_equal (de_name e) name then i else FindIndex_loop es name (i + 1))"

definition FindIndex :: "directory \<Rightarrow> u8 list \<Rightarrow> int" where
  "FindIndex dir name = FindIndex_loop dir name 0"

definition Dir_Find :: "directory \<Rightarrow> u8 list \<Rightarrow> int" where
  "Dir_Find dir name = (let i = FindIndex dir name in if i \<noteq> -1 then de_sector (dir ! nat i) else -1)"

fun Add_loop :: "directory \<Rightarrow> u8 list \<Rightarrow> int \<Rightarrow> bool \<times> directory" where
  "Add_loop [] name newSector = (False, [])"
| "Add_loop (e # es) name newSector =
     (if \<not> inUse e
      then (True, \<lparr>inUse = True, de_sector = newSector, de_name = strncpy (de_name e) name\<rparr> # es)
      else let (ok, es) = Add_loop es name newSector in (ok, e # es))"

definition Dir_Add :: "directory \<Rightarrow> u8 list \<Rightarrow> int \<Rightarrow> bool \<times> directory" where
  "Dir_Add dir name newSector =
     (if FindIndex dir name \<noteq> -1 then (False, dir) else Add_loop dir name newSector)"

definition Dir_Remove :: "directory \<Rightarrow> u8 list \<Rightarrow> bool \<times> directory" where
  "Dir_Remove dir name =
     (let i = FindIndex dir name
      in if i = -1 then (False, dir) else (True, dir[nat i := (dir ! nat i)\<lparr>inUse := False\<rparr>]))"

definition Dir_List :: "directory \<Rightarrow> u8 list list" where
  "Dir_List dir = map (\<lambda>e. c_str (de_name e)) (filter inUse dir)"

section \<open>File system\<close>

abbreviation (input) FreeMapSector :: int where "FreeMapSector \<equiv> 0"
abbreviation (input) DirectorySector :: int where "DirectorySector \<equiv> 1"
abbreviation (input) FreeMapFileSize :: int where "FreeMapFileSize \<equiv> 128"
abbreviation (input) NumDirEntries :: nat where "NumDirEntries \<equiv> 10"
abbreviation (input) DirectoryFileSize :: int where "DirectoryFileSize \<equiv> 200"

record disk_fs =
  freeMapFile :: dfile
  directoryFile :: dfile

definition open_system_files :: "disk_dev \<Rightarrow> (disk_fs \<times> disk_dev) run" where
  "open_system_files d =
     bindR (open_sector FreeMapSector None d) (\<lambda>(m, d).
     bindR (open_sector DirectorySector None d) (\<lambda>(dir, d).
     Some (Inr (\<lparr>freeMapFile = m, directoryFile = dir\<rparr>, d))))"

definition format_headers :: "(bitmap \<times> filehdr \<times> filehdr) res" where
  "format_headers =
     andThen (new_Bitmap NumSectors) (\<lambda>freeMap.
     andThen (Mark freeMap FreeMapSector) (\<lambda>freeMap.
     andThen (Mark freeMap DirectorySector) (\<lambda>freeMap.
     andThen (Allocate freeMap FreeMapFileSize new_FileHeader) (\<lambda>(ok, mapHdr, freeMap).
     ASSERT ok
      (andThen (Allocate freeMap DirectoryFileSize new_FileHeader) (\<lambda>(ok, dirHdr, freeMap).
       ASSERT ok (Inr (freeMap, mapHdr, dirHdr))))))))"

definition new_disk_fs :: "bool \<Rightarrow> disk_dev \<Rightarrow> (disk_fs \<times> disk_dev) run" where
  "new_disk_fs format d =
     (if format then
        bindR (Some format_headers) (\<lambda>(freeMap, mapHdr, dirHdr).
        bindR (Header_WriteBack FreeMapSector mapHdr d) (\<lambda>d.
        bindR (Header_WriteBack DirectorySector dirHdr d) (\<lambda>d.
        bindR (open_system_files d) (\<lambda>(fs, d).
        bindR (Map_WriteBack (freeMapFile fs) freeMap d) (\<lambda>d.
        bindR (Dir_WriteBack (directoryFile fs) (new_Directory NumDirEntries) d) (\<lambda>d.
        Some (Inr (fs, d))))))))
      else open_system_files d)"

definition disk_Create :: "disk_fs \<Rightarrow> u8 list \<Rightarrow> int \<Rightarrow> disk_dev \<Rightarrow> (bool \<times> disk_dev) run" where
  "disk_Create fs name initialSize d =
     bindR (Dir_FetchFrom (directoryFile fs) (new_Directory NumDirEntries) d) (\<lambda>(dir, d).
     if Dir_Find dir name \<noteq> -1 then Some (Inr (False, d))
     else
       bindR (new_PersistentBitmap (freeMapFile fs) NumSectors d) (\<lambda>(freeMap, d).
       bindR (Some (FindAndSet freeMap)) (\<lambda>(s, freeMap).
       if s = -1 then Some (Inr (False, d))
       else
         let (added, dir) = Dir_Add dir name s
         in if \<not> added then Some (Inr (False, d))
            else
              bindR (Some (Allocate freeMap initialSize new_FileHeader)) (\<lambda>(ok, hdr, freeMap).
              if \<not> ok then Some (Inr (False, d))
              else
                bindR (Header_WriteBack s hdr d) (\<lambda>d.
                bindR (Dir_WriteBack (directoryFile fs) dir d) (\<lambda>d.
                bindR (Map_WriteBack (freeMapFile fs) freeMap d) (\<lambda>d.
                Some (Inr (True, d)))))))))"

definition disk_Open :: "disk_fs \<Rightarrow> u8 list \<Rightarrow> disk_dev \<Rightarrow> (dfile option \<times> disk_dev) run" where
  "disk_Open fs name d =
     bindR (Dir_FetchFrom (directoryFile fs) (new_Directory NumDirEntries) d) (\<lambda>(dir, d).
     let s = Dir_Find dir name
     in if s \<ge> 0 then bindR (open_sector s None d) (\<lambda>(f, d). Some (Inr (Some f, d)))
        else Some (Inr (None, d)))"

definition disk_Remove :: "disk_fs \<Rightarrow> u8 list \<Rightarrow> disk_dev \<Rightarrow> (bool \<times> disk_dev) run" where
  "disk_Remove fs name d =
     bindR (Dir_FetchFrom (directoryFile fs) (new_Directory NumDirEntries) d) (\<lambda>(dir, d).
     let s = Dir_Find dir name
     in if s = -1 then Some (Inr (False, d))
        else
          bindR (Header_FetchFrom s d) (\<lambda>(fileHdr, d).
          bindR (new_PersistentBitmap (freeMapFile fs) NumSectors d) (\<lambda>(freeMap, d).
          bindR (Some (Deallocate freeMap fileHdr)) (\<lambda>freeMap.
          bindR (Some (Clear freeMap s)) (\<lambda>freeMap.
          let (_, dir) = Dir_Remove dir name
          in bindR (Map_WriteBack (freeMapFile fs) freeMap d) (\<lambda>d.
             bindR (Dir_WriteBack (directoryFile fs) dir d) (\<lambda>d.
             Some (Inr (True, d)))))))))"

definition disk_List :: "disk_fs \<Rightarrow> disk_dev \<Rightarrow> (u8 list list \<times> disk_dev) run" where
  "disk_List fs d =
     bindR (Dir_FetchFrom (directoryFile fs) (new_Directory NumDirEntries) d) (\<lambda>(dir, d).
     Some (Inr (Dir_List dir, d)))"

section \<open>The directory in memory and on disk\<close>

definition entry_wf :: "dir_entry \<Rightarrow> bool" where
  "entry_wf e \<longleftrightarrow> length (de_name e) = FileNameMaxLen + 1 \<and> int32 (de_sector e)"

definition dir_wf :: "directory \<Rightarrow> bool" where
  "dir_wf dir \<longleftrightarrow> length dir = NumDirEntries \<and> (\<forall>e\<in>set dir. entry_wf e)"

lemma length_entry_bytes: "entry_wf e \<Longrightarrow> length (entry_bytes e) = 20"
  by (simp add: entry_wf_def entry_bytes_def)

lemma bytes_entry_entry_bytes: "entry_wf e \<Longrightarrow> bytes_entry (entry_bytes e @ rest) = e"
  using bytes_int_int_bytes [of "de_sector e"]
  by (cases e) (auto simp: entry_wf_def bytes_entry_def entry_bytes_def int32_def)

lemma length_dir_bytes: "dir_wf dir \<Longrightarrow> length (dir_bytes dir) = 200"
  using length_concat_const [of dir entry_bytes 20] length_entry_bytes by (simp add: dir_wf_def dir_bytes_def)

lemma bytes_dir_dir_bytes:
  assumes "dir_wf dir"
  shows "bytes_dir 10 (dir_bytes dir) = dir"
proof (rule nth_equalityI)
  show len: "length (bytes_dir 10 (dir_bytes dir)) = length dir" using assms by (simp add: bytes_dir_def dir_wf_def)
  fix i assume "i < length (bytes_dir 10 (dir_bytes dir))"
  then have i: "i < length dir" "i < 10" using len by (simp_all add: bytes_dir_def)
  have "drop (20 * i) (dir_bytes dir) = entry_bytes (dir ! i) @ concat (map entry_bytes (drop (Suc i) dir))"
    unfolding dir_bytes_def using i(1) assms length_entry_bytes
    by (subst drop_concat_const) (auto simp: dir_wf_def simp flip: Cons_nth_drop_Suc)
  with i assms show "bytes_dir 10 (dir_bytes dir) ! i = dir ! i"
    by (simp add: bytes_dir_def bytes_entry_entry_bytes dir_wf_def)
qed

lemma new_Directory_wf: "dir_wf (new_Directory 10)"
  by (simp add: dir_wf_def new_Directory_def entry_wf_def int32_def)

definition entry_of :: "directory \<Rightarrow> u8 list \<Rightarrow> dir_entry option" where
  "entry_of dir k = List.find (\<lambda>e. inUse e \<and> name_key (de_name e) = k) dir"

lemma FindIndex_loop_entry:
  "case entry_of es (name_key name) of
     None \<Rightarrow> FindIndex_loop es name i = -1
   | Some e \<Rightarrow> \<exists>j < length es. FindIndex_loop es name i = i + int j \<and> es ! j = e \<and> inUse e \<and> name_key (de_name e) = name_key name"
proof (induction es arbitrary: i)
  case (Cons e es)
  show ?case
  proof (cases "inUse e \<and> name_key (de_name e) = name_key name")
    case True
    then show ?thesis by (auto simp: entry_of_def strncmp_equal_def intro!: exI [of _ 0])
  next
    case False
    then have "entry_of (e # es) (name_key name) = entry_of es (name_key name)"
      "FindIndex_loop (e # es) name i = FindIndex_loop es name (i + 1)" by (auto simp: entry_of_def strncmp_equal_def)
    with Cons [of "i + 1"] show ?thesis by (fastforce split: option.splits)
  qed
qed (simp add: entry_of_def)

lemma FindIndex_none: "entry_of dir (name_key name) = None \<Longrightarrow> FindIndex dir name = -1"
  using FindIndex_loop_entry [of dir name 0] by (simp add: FindIndex_def)

lemma FindIndex_some:
  assumes "entry_of dir (name_key name) = Some e"
  obtains j where "j < length dir" "FindIndex dir name = int j" "dir ! j = e" "inUse e" "name_key (de_name e) = name_key name"
  using FindIndex_loop_entry [of dir name 0] assms by (auto simp: FindIndex_def)

lemma Dir_Find_none: "entry_of dir (name_key name) = None \<Longrightarrow> Dir_Find dir name = -1"
  by (simp add: Dir_Find_def FindIndex_none)

lemma Dir_Find_some: "entry_of dir (name_key name) = Some e \<Longrightarrow> Dir_Find dir name = de_sector e"
  by (erule FindIndex_some) (simp add: Dir_Find_def)

lemma Add_loop_full: "\<forall>e\<in>set dir. inUse e \<Longrightarrow> Add_loop dir name s = (False, dir)"
  by (induction dir) simp_all

lemma Add_loop_free:
  "\<exists>e\<in>set dir. \<not> inUse e \<Longrightarrow> \<exists>j < length dir. \<not> inUse (dir ! j) \<and>
     Add_loop dir name s = (True, dir[j := \<lparr>inUse = True, de_sector = s, de_name = strncpy (de_name (dir ! j)) name\<rparr>])"
proof (induction dir)
  case (Cons e es)
  show ?case
  proof (cases "inUse e")
    case True
    with Cons obtain j where "j < length es" "\<not> inUse (es ! j)"
      "Add_loop es name s = (True, es[j := \<lparr>inUse = True, de_sector = s, de_name = strncpy (de_name (es ! j)) name\<rparr>])" by auto
    with True show ?thesis by (intro exI [of _ "Suc j"]) simp
  qed (auto intro!: exI [of _ 0])
qed simp

lemma takeWhile_zeros: "\<forall>x\<in>set xs. x \<noteq> 0 \<Longrightarrow> takeWhile (\<lambda>b. b \<noteq> 0) (xs @ 0 # ys) = xs"
  by (induction xs) auto

lemma name_key_strncpy:
  assumes "length to = 10"
  shows "name_key (strncpy to from) = name_key from" "length (strncpy to from) = 10"
proof -
  let ?c = "c_str from"
  have nz: "\<forall>x\<in>set ?c. x \<noteq> 0" by (auto simp: c_str_def dest: set_takeWhileD)
  show "length (strncpy to from) = 10" using assms by (simp add: strncpy_def)
  show "name_key (strncpy to from) = name_key from"
  proof (cases "9 \<le> length ?c")
    case True
    then have s: "strncpy to from = take 9 ?c @ drop 9 to" by (simp add: strncpy_def)
    have "takeWhile (\<lambda>b. b \<noteq> 0) (take 9 ?c @ drop 9 to) = take 9 ?c @ takeWhile (\<lambda>b. b \<noteq> 0) (drop 9 to)"
      using nz by (intro takeWhile_append2) (auto dest: in_set_takeD)
    with True show ?thesis unfolding name_key_def s c_str_def [of "take 9 ?c @ drop 9 to"] by simp
  next
    case False
    then have "strncpy to from = ?c @ replicate (9 - length ?c) 0 @ drop 9 to"
      by (simp add: strncpy_def min_def)
    moreover obtain k where "9 - length ?c = Suc k" using False by (metis Suc_diff_Suc not_le)
    ultimately have "c_str (strncpy to from) = ?c" using takeWhile_zeros [OF nz] by (simp add: c_str_def)
    then show ?thesis by (simp add: name_key_def)
  qed
qed

section \<open>Invariant of a file system\<close>

definition entry_hdr :: "disk_dev \<Rightarrow> dir_entry \<Rightarrow> filehdr" where
  "entry_hdr d e = bytes_hdr (sector d (de_sector e))"

definition owned :: "disk_dev \<Rightarrow> dir_entry \<Rightarrow> int set" where
  "owned d e = insert (de_sector e) (set (blocks (entry_hdr d e)))"

definition entry_ok :: "disk_dev \<Rightarrow> dir_entry \<Rightarrow> bool" where
  "entry_ok d e \<longleftrightarrow> 0 \<le> de_sector e \<and> de_sector e < NumSectors \<and> hdr_ok (entry_hdr d e) \<and>
     de_sector e \<notin> set (blocks (entry_hdr d e))"

abbreviation map_hdr :: "disk_fs \<Rightarrow> filehdr" where "map_hdr fs \<equiv> df_hdr (freeMapFile fs)"
abbreviation dir_hdr :: "disk_fs \<Rightarrow> filehdr" where "dir_hdr fs \<equiv> df_hdr (directoryFile fs)"

definition system_sectors :: "disk_fs \<Rightarrow> int set" where
  "system_sectors fs = {FreeMapSector, DirectorySector} \<union> set (blocks (map_hdr fs)) \<union> set (blocks (dir_hdr fs))"

definition sys_ok :: "disk_fs \<Rightarrow> bool" where
  "sys_ok fs \<longleftrightarrow> hdr_ok (map_hdr fs) \<and> numBytes (map_hdr fs) = FreeMapFileSize \<and>
     hdr_ok (dir_hdr fs) \<and> numBytes (dir_hdr fs) = DirectoryFileSize \<and>
     set (blocks (map_hdr fs)) \<inter> set (blocks (dir_hdr fs)) = {} \<and>
     {FreeMapSector, DirectorySector} \<inter> (set (blocks (map_hdr fs)) \<union> set (blocks (dir_hdr fs))) = {}"

definition unique_keys :: "directory \<Rightarrow> bool" where
  "unique_keys dir \<longleftrightarrow> (\<forall>i < length dir. \<forall>j < length dir. i \<noteq> j \<longrightarrow> inUse (dir ! i) \<longrightarrow> inUse (dir ! j) \<longrightarrow>
     name_key (de_name (dir ! i)) \<noteq> name_key (de_name (dir ! j)))"

definition files_ok :: "disk_fs \<Rightarrow> disk_dev \<Rightarrow> bitmap \<Rightarrow> directory \<Rightarrow> bool" where
  "files_ok fs d fm dir \<longleftrightarrow>
     (\<forall>e\<in>set dir. inUse e \<longrightarrow> entry_ok d e \<and> owned d e \<inter> system_sectors fs = {}) \<and>
     (\<forall>i < length dir. \<forall>j < length dir. i \<noteq> j \<longrightarrow> inUse (dir ! i) \<longrightarrow> inUse (dir ! j) \<longrightarrow>
        owned d (dir ! i) \<inter> owned d (dir ! j) = {}) \<and>
     unique_keys dir \<and>
     marked fm = system_sectors fs \<union> \<Union> (owned d ` {e \<in> set dir. inUse e})"

definition fs_inv :: "disk_fs \<Rightarrow> disk_dev \<Rightarrow> bitmap \<Rightarrow> directory \<Rightarrow> bool" where
  "fs_inv fs d fm dir \<longleftrightarrow> disk_ok d \<and> sys_ok fs \<and> wf_bitmap fm \<and> numBits fm = NumSectors \<and> dir_wf dir \<and>
     bytes_hdr (sector d FreeMapSector) = map_hdr fs \<and> bytes_hdr (sector d DirectorySector) = dir_hdr fs \<and>
     content d (map_hdr fs) = map_bytes fm \<and> content d (dir_hdr fs) = dir_bytes dir \<and> files_ok fs d fm dir"

lemma files_okI:
  assumes "\<And>e. e \<in> set dir \<Longrightarrow> inUse e \<Longrightarrow> entry_ok d e \<and> owned d e \<inter> system_sectors fs = {}"
    "\<And>i k. i < length dir \<Longrightarrow> k < length dir \<Longrightarrow> i \<noteq> k \<Longrightarrow> inUse (dir ! i) \<Longrightarrow> inUse (dir ! k) \<Longrightarrow>
      owned d (dir ! i) \<inter> owned d (dir ! k) = {}"
    "unique_keys dir" "marked fm = system_sectors fs \<union> \<Union> (owned d ` {e \<in> set dir. inUse e})"
  shows "files_ok fs d fm dir"
  unfolding files_ok_def using assms(1,2) by (intro conjI assms(3,4)) auto

text \<open>The file system as a map from names (the characters that count) to contents.\<close>

definition file_map :: "disk_dev \<Rightarrow> directory \<Rightarrow> u8 list \<Rightarrow> u8 list option" where
  "file_map d dir k = map_option (\<lambda>e. content d (entry_hdr d e)) (entry_of dir k)"

lemma same_views:
  assumes "sector d' = sector d"
  shows "content d' = content d" "entry_hdr d' = entry_hdr d" "owned d' = owned d" "entry_ok d' = entry_ok d"
proof -
  have "fbyte d' = fbyte d" "entry_hdr d' = entry_hdr d" using assms by (simp_all add: fun_eq_iff fbyte_def entry_hdr_def)
  then show "content d' = content d" "entry_hdr d' = entry_hdr d" "owned d' = owned d" "entry_ok d' = entry_ok d"
    by (simp_all add: fun_eq_iff content_def owned_def entry_ok_def)
qed

lemma fs_inv_sector: "fs_inv fs d fm dir \<Longrightarrow> sector d' = sector d \<Longrightarrow> disk_ok d' \<Longrightarrow> fs_inv fs d' fm dir"
  using same_views [of d' d] by (simp add: fs_inv_def files_ok_def)

lemma file_map_sector: "sector d' = sector d \<Longrightarrow> file_map d' dir = file_map d dir"
  using same_views [of d' d] by (simp add: fun_eq_iff file_map_def)

section \<open>The system files\<close>

lemma patch_whole: "length new = length old \<Longrightarrow> patch old 0 new = new"
  by (simp add: patch_def)

lemma read_whole:
  assumes "hdr_ok (df_hdr f)" "disk_ok d" "numBytes (df_hdr f) = int k" "0 < k"
  shows "\<exists>d'. disk_ReadAt f (int k) 0 d = Some (Inr (content d (df_hdr f), d')) \<and> disk_ok d' \<and> sector d' = sector d"
  using disk_ReadAt_ok [OF assms(1,2), of 0 k] hdr_ok_bounds(4) [OF assms(1)] assms(3,4) by auto

lemma write_whole:
  assumes "hdr_ok (df_hdr f)" "disk_ok d" "numBytes (df_hdr f) = int k" "0 < k" "length from = k"
  shows "\<exists>d'. disk_WriteAt f from (int k) 0 d = Some (Inr (int k, d')) \<and> disk_ok d' \<and>
    content d' (df_hdr f) = from \<and> (\<forall>s. s \<notin> set (blocks (df_hdr f)) \<longrightarrow> sector d' s = sector d s)"
  using disk_WriteAt_ok [OF assms(1,2), of 0 k "from"] hdr_ok_bounds(4) [OF assms(1)] assms(3-5) by (auto simp: patch_whole)

lemma map_1024:
  assumes "wf_bitmap fm" "numBits fm = NumSectors"
  shows "numWords fm = 32" "length (bm_map fm) = 32" "length (map_bytes fm) = 128"
  using assms by (auto simp: wf_bitmap_def divRoundUp_def length_map_bytes)

lemma fetch_dir:
  assumes "fs_inv fs d fm dir"
  shows "\<exists>d'. Dir_FetchFrom (directoryFile fs) (new_Directory 10) d = Some (Inr (dir, d')) \<and> disk_ok d' \<and> sector d' = sector d"
proof -
  from assms have inv: "hdr_ok (dir_hdr fs)" "disk_ok d" "numBytes (dir_hdr fs) = int 200"
    "content d (dir_hdr fs) = dir_bytes dir" "dir_wf dir" by (auto simp: fs_inv_def sys_ok_def)
  obtain d' where "disk_ReadAt (directoryFile fs) 200 0 d = Some (Inr (dir_bytes dir, d'))" "disk_ok d'" "sector d' = sector d"
    using read_whole [OF inv(1-3)] inv(4) by auto
  moreover have "length (new_Directory 10) = 10" by (simp add: new_Directory_def)
  moreover have "dir_bytes dir @ drop (length (dir_bytes dir)) (dir_bytes (new_Directory 10)) = dir_bytes dir"
    using length_dir_bytes [OF inv(5)] length_dir_bytes [OF new_Directory_wf] by simp
  ultimately show ?thesis using bytes_dir_dir_bytes [OF inv(5)] by (simp add: Dir_FetchFrom_def)
qed

lemma fetch_map:
  assumes "fs_inv fs d fm dir"
  shows "\<exists>d'. new_PersistentBitmap (freeMapFile fs) NumSectors d = Some (Inr (fm, d')) \<and> disk_ok d' \<and> sector d' = sector d"
proof -
  from assms have inv: "hdr_ok (map_hdr fs)" "disk_ok d" "numBytes (map_hdr fs) = int 128"
    "content d (map_hdr fs) = map_bytes fm" and fm: "wf_bitmap fm" "numBits fm = 1024" by (auto simp: fs_inv_def sys_ok_def)
  obtain d' where "disk_ReadAt (freeMapFile fs) 128 0 d = Some (Inr (map_bytes fm, d'))" "disk_ok d'" "sector d' = sector d"
    using read_whole [OF inv(1-3)] inv(4) by auto
  moreover obtain fm0 where fm0: "new_Bitmap 1024 = Inr fm0" "wf_bitmap fm0" "numBits fm0 = 1024"
    using new_Bitmap_ok [of 1024] by auto
  moreover have "map_bytes fm @ drop (length (map_bytes fm)) (map_bytes fm0) = map_bytes fm"
    using map_1024(3) [OF fm] map_1024(3) [OF fm0(2,3)] by simp
  moreover have "fm0\<lparr>bm_map := bm_map fm\<rparr> = fm"
    using fm fm0(2,3) map_1024(1) [OF fm] map_1024(1) [OF fm0(2,3)] by simp
  ultimately show ?thesis
    using map_1024(1) [OF fm0(2,3)] by (simp add: new_PersistentBitmap_def Map_FetchFrom_def bytes_map_map_bytes)
qed

lemma write_dir:
  assumes "sys_ok fs" "disk_ok d" "dir_wf dir"
  shows "\<exists>d'. Dir_WriteBack (directoryFile fs) dir d = Some (Inr d') \<and> disk_ok d' \<and>
    content d' (dir_hdr fs) = dir_bytes dir \<and> (\<forall>s. s \<notin> set (blocks (dir_hdr fs)) \<longrightarrow> sector d' s = sector d s)"
proof -
  have "length dir = 10" using assms(3) by (simp add: dir_wf_def)
  with assms write_whole [of "directoryFile fs" d 200 "dir_bytes dir"] length_dir_bytes [OF assms(3)] show ?thesis
    by (auto simp: sys_ok_def Dir_WriteBack_def)
qed

lemma write_map:
  assumes "sys_ok fs" "disk_ok d" "wf_bitmap fm" "numBits fm = NumSectors"
  shows "\<exists>d'. Map_WriteBack (freeMapFile fs) fm d = Some (Inr d') \<and> disk_ok d' \<and>
    content d' (map_hdr fs) = map_bytes fm \<and> (\<forall>s. s \<notin> set (blocks (map_hdr fs)) \<longrightarrow> sector d' s = sector d s)"
  using assms write_whole [of "freeMapFile fs" d 128 "map_bytes fm"] map_1024 [OF assms(3,4)]
  by (auto simp: sys_ok_def Map_WriteBack_def)

section \<open>Adding and removing an entry\<close>

lemma entry_of_none: "entry_of dir k = None \<longleftrightarrow> (\<forall>i < length dir. inUse (dir ! i) \<longrightarrow> name_key (de_name (dir ! i)) \<noteq> k)"
  by (auto simp: entry_of_def find_None_iff in_set_conv_nth)

lemma entry_of_unique:
  assumes "unique_keys dir" "i < length dir" "inUse (dir ! i)" "name_key (de_name (dir ! i)) = k"
  shows "entry_of dir k = Some (dir ! i)"
proof -
  from assms have "entry_of dir k \<noteq> None" by (auto simp: entry_of_none)
  then obtain e where e: "entry_of dir k = Some e" by blast
  then obtain j where "j < length dir" "inUse e" "name_key (de_name e) = k" "dir ! j = e"
    by (auto simp: entry_of_def find_Some_iff)
  with assms have "j = i" unfolding unique_keys_def by metis
  with e \<open>dir ! j = e\<close> show ?thesis by simp
qed

lemma entry_ofD: "entry_of dir k = Some e \<Longrightarrow> e \<in> set dir \<and> inUse e \<and> name_key (de_name e) = k"
  by (auto simp: entry_of_def find_Some_iff)

lemma unique_keys_add:
  assumes "unique_keys dir" "entry_of dir (name_key (de_name e)) = None" "j < length dir"
  shows "unique_keys (dir[j := e])"
  using assms unfolding unique_keys_def entry_of_none by (auto simp: nth_list_update split: if_splits)

lemma unique_keys_remove: "unique_keys dir \<Longrightarrow> j < length dir \<Longrightarrow> unique_keys (dir[j := (dir ! j)\<lparr>inUse := False\<rparr>])"
  unfolding unique_keys_def by (auto simp: nth_list_update split: if_splits)

lemma entry_of_add:
  assumes u: "unique_keys dir" and j: "j < length dir" "\<not> inUse (dir ! j)" and e: "inUse e" "entry_of dir (name_key (de_name e)) = None"
  shows "entry_of (dir[j := e]) = (entry_of dir)(name_key (de_name e) \<mapsto> e)"
proof (rule ext)
  fix k
  have u': "unique_keys (dir[j := e])" by (rule unique_keys_add [OF u e(2) j(1)])
  show "entry_of (dir[j := e]) k = ((entry_of dir)(name_key (de_name e) \<mapsto> e)) k"
  proof (cases "k = name_key (de_name e)")
    case True
    then show ?thesis using entry_of_unique [OF u', of j k] j e by simp
  next
    case False
    show ?thesis
    proof (cases "entry_of dir k")
      case None
      then have "entry_of (dir[j := e]) k = None" using False j(1) by (auto simp: entry_of_none nth_list_update split: if_splits)
      with None False show ?thesis by simp
    next
      case (Some e')
      then obtain i where i: "i < length dir" "dir ! i = e'" "inUse e'" "name_key (de_name e') = k"
        by (auto simp: entry_of_def find_Some_iff)
      with j have "i \<noteq> j" by auto
      with entry_of_unique [OF u', of i k] i Some False show ?thesis by simp
    qed
  qed
qed

lemma entry_of_remove:
  assumes u: "unique_keys dir" and j: "j < length dir" "inUse (dir ! j)"
  shows "entry_of (dir[j := (dir ! j)\<lparr>inUse := False\<rparr>]) = (entry_of dir)(name_key (de_name (dir ! j)) := None)"
proof (rule ext)
  fix k
  let ?dir = "dir[j := (dir ! j)\<lparr>inUse := False\<rparr>]" and ?k = "name_key (de_name (dir ! j))"
  have u': "unique_keys ?dir" by (rule unique_keys_remove [OF u j(1)])
  show "entry_of ?dir k = ((entry_of dir)(?k := None)) k"
  proof (cases "k = ?k \<or> entry_of dir k = None")
    case True
    have "entry_of ?dir k = None"
      unfolding entry_of_none
    proof (intro allI impI)
      fix i assume i: "i < length ?dir" "inUse (?dir ! i)"
      then have "i \<noteq> j" by auto
      with True i u j show "name_key (de_name (?dir ! i)) \<noteq> k"
        unfolding unique_keys_def entry_of_none by (auto simp: nth_list_update)
    qed
    with True show ?thesis by auto
  next
    case False
    then obtain e' where "entry_of dir k = Some e'" by auto
    then obtain i where i: "i < length dir" "dir ! i = e'" "inUse e'" "name_key (de_name e') = k" "entry_of dir k = Some e'"
      by (auto simp: entry_of_def find_Some_iff)
    with False have "i \<noteq> j" by auto
    with entry_of_unique [OF u', of i k] i False show ?thesis by simp
  qed
qed

text \<open>A file none of whose sectors changes is the same file.\<close>

lemma entry_unchanged:
  assumes "\<forall>t\<in>owned d e. sector d' t = sector d t"
  shows "entry_hdr d' e = entry_hdr d e" "owned d' e = owned d e" "entry_ok d' e = entry_ok d e"
    "entry_ok d e \<Longrightarrow> content d' (entry_hdr d' e) = content d (entry_hdr d e)"
proof -
  have s: "sector d' (de_sector e) = sector d (de_sector e)" using assms by (simp add: owned_def)
  then show h: "entry_hdr d' e = entry_hdr d e" by (simp add: entry_hdr_def)
  then show "owned d' e = owned d e" "entry_ok d' e = entry_ok d e" by (simp_all add: owned_def entry_ok_def)
  show "content d' (entry_hdr d' e) = content d (entry_hdr d e)" if "entry_ok d e"
    using that assms unfolding h by (intro content_cong) (auto simp: owned_def entry_ok_def)
qed

lemma owned_marked: "fs_inv fs d fm dir \<Longrightarrow> e \<in> set dir \<Longrightarrow> inUse e \<Longrightarrow> owned d e \<subseteq> marked fm"
  by (auto simp: fs_inv_def files_ok_def)

lemma system_marked: "fs_inv fs d fm dir \<Longrightarrow> system_sectors fs \<subseteq> marked fm"
  by (auto simp: fs_inv_def files_ok_def)

text \<open>
  The disk after an operation: \<open>d'\<close> differs from \<open>d\<close> in the two system files and in the sectors \<open>X\<close>,
  which belong to no file.
\<close>

definition rewritten :: "disk_fs \<Rightarrow> int set \<Rightarrow> disk_dev \<Rightarrow> disk_dev \<Rightarrow> bitmap \<Rightarrow> directory \<Rightarrow> bool" where
  "rewritten fs X d d' fm' dir' \<longleftrightarrow> disk_ok d' \<and>
     (\<forall>t. t \<notin> set (blocks (map_hdr fs)) \<union> set (blocks (dir_hdr fs)) \<union> X \<longrightarrow> sector d' t = sector d t) \<and>
     content d' (map_hdr fs) = map_bytes fm' \<and> content d' (dir_hdr fs) = dir_bytes dir' \<and>
     wf_bitmap fm' \<and> numBits fm' = NumSectors \<and> dir_wf dir'"

lemma rewritten_entry:
  assumes inv: "fs_inv fs d fm dir" and r: "rewritten fs X d d' fm' dir'" and X: "X \<inter> marked fm = {}"
    and e: "e \<in> set dir" "inUse e"
  shows "\<forall>t\<in>owned d e. sector d' t = sector d t"
proof
  fix t assume t: "t \<in> owned d e"
  from inv e have "owned d e \<inter> system_sectors fs = {}" by (simp add: fs_inv_def files_ok_def)
  with t have "t \<notin> set (blocks (map_hdr fs)) \<union> set (blocks (dir_hdr fs))" by (auto simp: system_sectors_def)
  moreover have "t \<notin> X" using owned_marked [OF inv e] t X by auto
  ultimately show "sector d' t = sector d t" using r by (simp add: rewritten_def)
qed

lemma rewritten_system:
  assumes inv: "fs_inv fs d fm dir" and r: "rewritten fs X d d' fm' dir'" and X: "X \<inter> marked fm = {}"
  shows "sector d' 0 = sector d 0" "sector d' 1 = sector d 1"
proof -
  have "{0, 1} \<subseteq> marked fm" using system_marked [OF inv] by (auto simp: system_sectors_def)
  with X have "0 \<notin> X" "1 \<notin> X" by auto
  moreover have "{0, 1} \<inter> (set (blocks (map_hdr fs)) \<union> set (blocks (dir_hdr fs))) = {}"
    using inv by (simp add: fs_inv_def sys_ok_def)
  ultimately show "sector d' 0 = sector d 0" "sector d' 1 = sector d 1" using r by (auto simp: rewritten_def)
qed

lemma fs_inv_remove:
  assumes inv: "fs_inv fs d fm dir" and j: "j < length dir" "inUse (dir ! j)"
    and r: "rewritten fs {} d d' fm' (dir[j := (dir ! j)\<lparr>inUse := False\<rparr>])"
    and m: "marked fm' = marked fm - owned d (dir ! j)"
  shows "fs_inv fs d' fm' (dir[j := (dir ! j)\<lparr>inUse := False\<rparr>])"
    and "file_map d' (dir[j := (dir ! j)\<lparr>inUse := False\<rparr>]) = (file_map d dir)(name_key (de_name (dir ! j)) := None)"
proof -
  let ?e = "dir ! j"
  let ?dir = "dir[j := ?e\<lparr>inUse := False\<rparr>]"
  have u: "unique_keys dir" and fo: "files_ok fs d fm dir" using inv by (simp_all add: fs_inv_def files_ok_def)
  have same: "entry_hdr d' e = entry_hdr d e" "owned d' e = owned d e" "entry_ok d' e = entry_ok d e"
    "content d' (entry_hdr d' e) = content d (entry_hdr d e)" if "e \<in> set dir" "inUse e" for e
    using entry_unchanged [OF rewritten_entry [OF inv r _ that]] fo that by (auto simp: files_ok_def)
  have others: "dir ! i \<in> set dir \<and> inUse (dir ! i) \<and> ?dir ! i = dir ! i" if "i < length dir" "inUse (?dir ! i)" for i
    using that j by (cases "i = j") auto
  have disj: "owned d ?e \<inter> owned d (dir ! i) = {}" if "i < length dir" "i \<noteq> j" "inUse (dir ! i)" for i
    using fo that j by (auto simp: files_ok_def)
  have idx: "e \<in> set ?dir \<and> inUse e \<longleftrightarrow> (\<exists>i < length dir. i \<noteq> j \<and> dir ! i = e \<and> inUse e)" for e
  proof
    assume "e \<in> set ?dir \<and> inUse e"
    then obtain i where "i < length dir" "?dir ! i = e" "inUse e" by (auto simp: in_set_conv_nth)
    with j show "\<exists>i < length dir. i \<noteq> j \<and> dir ! i = e \<and> inUse e" by (cases "i = j") auto
  next
    assume "\<exists>i < length dir. i \<noteq> j \<and> dir ! i = e \<and> inUse e"
    then show "e \<in> set ?dir \<and> inUse e" by (metis length_list_update nth_list_update_neq nth_mem)
  qed
  define A where "A = \<Union> (owned d ` {e \<in> set ?dir. inUse e})"
  have un: "marked fm - owned d ?e = system_sectors fs \<union> A"
  proof -
    have "marked fm = system_sectors fs \<union> \<Union> (owned d ` {e \<in> set dir. inUse e})" using fo by (simp add: files_ok_def)
    also have "{e \<in> set dir. inUse e} = insert ?e {e \<in> set ?dir. inUse e}"
      using j idx by (auto simp: in_set_conv_nth)
    finally have "marked fm = system_sectors fs \<union> (owned d ?e \<union> A)" unfolding A_def by (simp only: Union_image_insert)
    moreover have "owned d ?e \<inter> system_sectors fs = {}" using fo j by (simp add: files_ok_def)
    moreover have "owned d ?e \<inter> A = {}"
    proof -
      have "owned d ?e \<inter> owned d e = {}" if "e \<in> set ?dir" "inUse e" for e
        using that idx [of e] disj by metis
      then show ?thesis unfolding A_def by blast
    qed
    ultimately show ?thesis by blast
  qed
  have in_dir: "e \<in> set dir" if "e \<in> set ?dir" "inUse e" for e using that idx [of e] by auto
  have "owned d' ` {e \<in> set ?dir. inUse e} = owned d ` {e \<in> set ?dir. inUse e}"
    using same(2) in_dir by (intro image_cong) auto
  then have marks: "marked fm' = system_sectors fs \<union> \<Union> (owned d' ` {e \<in> set ?dir. inUse e})"
    using m un by (simp add: A_def)
  have ok: "entry_ok d' e \<and> owned d' e \<inter> system_sectors fs = {}" if "e \<in> set ?dir" "inUse e" for e
    using same [OF in_dir [OF that] that(2)] fo in_dir [OF that] that(2) by (simp add: files_ok_def)
  have dj: "owned d' (?dir ! i) \<inter> owned d' (?dir ! k) = {}"
    if "i < length ?dir" "k < length ?dir" "i \<noteq> k" "inUse (?dir ! i)" "inUse (?dir ! k)" for i k
  proof -
    have i: "dir ! i \<in> set dir" "inUse (dir ! i)" "?dir ! i = dir ! i" and k: "dir ! k \<in> set dir" "inUse (dir ! k)" "?dir ! k = dir ! k"
      using others [of i] others [of k] that by auto
    have "owned d (dir ! i) \<inter> owned d (dir ! k) = {}" using fo that(1-3) i(2) k(2) unfolding files_ok_def by simp
    then show ?thesis unfolding i(3) k(3) same(2) [OF i(1,2)] same(2) [OF k(1,2)] .
  qed
  have "files_ok fs d' fm' ?dir"
    by (rule files_okI [OF ok dj unique_keys_remove [OF u j(1)] marks])
  then show "fs_inv fs d' fm' ?dir"
    using inv r rewritten_system [OF inv r] by (simp add: fs_inv_def rewritten_def)
  show "file_map d' ?dir = (file_map d dir)(name_key (de_name ?e) := None)"
    using entry_of_remove [OF u j] same(4) entry_ofD [of dir]
    by (auto simp: fun_eq_iff file_map_def split: option.splits intro!: option.map_cong)
qed

lemma fs_inv_add:
  assumes inv: "fs_inv fs d fm dir" and j: "j < length dir" "\<not> inUse (dir ! j)"
    and e: "inUse e" "entry_of dir (name_key (de_name e)) = None" "entry_ok d' e" "owned d' e \<inter> marked fm = {}"
    and r: "rewritten fs {de_sector e} d d' fm' (dir[j := e])"
    and m: "marked fm' = marked fm \<union> owned d' e"
  shows "fs_inv fs d' fm' (dir[j := e])"
    and "file_map d' (dir[j := e]) = (file_map d dir)(name_key (de_name e) \<mapsto> content d' (entry_hdr d' e))"
proof -
  let ?dir = "dir[j := e]"
  have u: "unique_keys dir" and fo: "files_ok fs d fm dir" using inv by (simp_all add: fs_inv_def files_ok_def)
  have X: "{de_sector e} \<inter> marked fm = {}" using e(4) by (auto simp: owned_def)
  have same: "entry_hdr d' e' = entry_hdr d e'" "owned d' e' = owned d e'" "entry_ok d' e' = entry_ok d e'"
    "content d' (entry_hdr d' e') = content d (entry_hdr d e')" if "e' \<in> set dir" "inUse e'" for e'
    using entry_unchanged [OF rewritten_entry [OF inv r X that]] fo that by (auto simp: files_ok_def)
  have idx: "e' \<in> set ?dir \<and> inUse e' \<longleftrightarrow> e' = e \<or> (e' \<in> set dir \<and> inUse e')" for e'
  proof
    assume "e' \<in> set ?dir \<and> inUse e'"
    then show "e' = e \<or> (e' \<in> set dir \<and> inUse e')" using set_update_subset_insert [of dir j e] by auto
  next
    assume a: "e' = e \<or> (e' \<in> set dir \<and> inUse e')"
    then show "e' \<in> set ?dir \<and> inUse e'"
    proof
      assume "e' = e" then show ?thesis using e(1) set_update_memI [OF j(1)] by simp
    next
      assume "e' \<in> set dir \<and> inUse e'"
      then obtain i where "i < length dir" "dir ! i = e'" "inUse e'" by (auto simp: in_set_conv_nth)
      moreover from this j have "i \<noteq> j" by auto
      ultimately show ?thesis by (metis length_list_update nth_list_update_neq nth_mem)
    qed
  qed
  have disj: "owned d' e \<inter> owned d e' = {}" if "e' \<in> set dir" "inUse e'" for e'
    using owned_marked [OF inv that] e(4) by auto
  have "{e' \<in> set ?dir. inUse e'} = insert e {e' \<in> set dir. inUse e'}" using idx by auto
  moreover have "owned d' ` {e' \<in> set dir. inUse e'} = owned d ` {e' \<in> set dir. inUse e'}"
    using same(2) by (intro image_cong) auto
  ultimately have "\<Union> (owned d' ` {e' \<in> set ?dir. inUse e'}) = owned d' e \<union> \<Union> (owned d ` {e' \<in> set dir. inUse e'})"
    by (simp only: Union_image_insert)
  moreover have "marked fm = system_sectors fs \<union> \<Union> (owned d ` {e' \<in> set dir. inUse e'})" using fo by (simp add: files_ok_def)
  ultimately have marks: "marked fm' = system_sectors fs \<union> \<Union> (owned d' ` {e' \<in> set ?dir. inUse e'})"
    using m by (simp add: Un_ac)
  have ok: "entry_ok d' e' \<and> owned d' e' \<inter> system_sectors fs = {}" if e': "e' \<in> set ?dir" "inUse e'" for e'
  proof (cases "e' = e")
    case True
    then show ?thesis using e(3,4) system_marked [OF inv] by auto
  next
    case False
    then have "e' \<in> set dir" using e' idx by blast
    with same e' fo show ?thesis by (simp add: files_ok_def)
  qed
  have dj: "owned d' (?dir ! i) \<inter> owned d' (?dir ! k) = {}"
    if ik: "i < length ?dir" "k < length ?dir" "i \<noteq> k" "inUse (?dir ! i)" "inUse (?dir ! k)" for i k
  proof -
    have old: "dir ! x \<in> set dir \<and> inUse (dir ! x) \<and> ?dir ! x = dir ! x" if "x < length ?dir" "x \<noteq> j" "inUse (?dir ! x)" for x
      using that by auto
    consider "i = j" "k \<noteq> j" | "k = j" "i \<noteq> j" | "i \<noteq> j" "k \<noteq> j" using ik(3) by blast
    then show ?thesis
    proof cases
      case 1
      with old [of k] ik disj [of "dir ! k"] same(2) [of "dir ! k"] j show ?thesis by simp
    next
      case 2
      with old [of i] ik disj [of "dir ! i"] same(2) [of "dir ! i"] j show ?thesis by (simp add: Int_commute)
    next
      case 3
      with old [of i] old [of k] ik have o: "dir ! i \<in> set dir" "inUse (dir ! i)" "?dir ! i = dir ! i"
        "dir ! k \<in> set dir" "inUse (dir ! k)" "?dir ! k = dir ! k" by blast+
      then have "owned d (dir ! i) \<inter> owned d (dir ! k) = {}" using fo ik(1-3) unfolding files_ok_def by simp
      then show ?thesis unfolding o(3,6) same(2) [OF o(1,2)] same(2) [OF o(4,5)] .
    qed
  qed
  have "files_ok fs d' fm' ?dir"
    by (rule files_okI [OF ok dj unique_keys_add [OF u e(2) j(1)] marks])
  then show "fs_inv fs d' fm' ?dir"
    using inv r rewritten_system [OF inv r X] by (simp add: fs_inv_def rewritten_def)
  show "file_map d' ?dir = (file_map d dir)(name_key (de_name e) \<mapsto> content d' (entry_hdr d' e))"
    using entry_of_add [OF u j e(1,2)] same(4) entry_ofD [of dir]
    by (auto simp: fun_eq_iff file_map_def split: option.splits intro!: option.map_cong)
qed

section \<open>Creating, opening, removing\<close>

lemma int32_small: "0 \<le> i \<Longrightarrow> i < NumSectors \<Longrightarrow> int32 i"
  by (simp add: int32_def)

text \<open>A header that \<^verbatim>\<open>Allocate\<close> filled in survives being written and read.\<close>

lemma allocated_header:
  assumes ok: "hdr_ok hdr" and tail: "drop (nat (numSectors hdr)) (dataSectors hdr) = drop (nat (numSectors hdr)) (dataSectors new_FileHeader)"
  shows "bytes_hdr (hdr_bytes hdr) = hdr" "length (hdr_bytes hdr) = SectorSize"
proof -
  have len: "length (dataSectors hdr) = 30" using ok by (simp add: hdr_ok_def)
  then show "length (hdr_bytes hdr) = 128" by (rule length_hdr_bytes)
  have b: "0 \<le> numSectors hdr" "nat (numSectors hdr) \<le> 30" "nat (numBytes hdr) \<le> 3840" "0 \<le> numBytes hdr"
    using hdr_ok_bounds [OF ok] ok by (auto simp: hdr_ok_def)
  have "s \<in> set (blocks hdr) \<or> s = 0" if "s \<in> set (dataSectors hdr)" for s
  proof -
    have "dataSectors hdr = blocks hdr @ drop (nat (numSectors hdr)) (dataSectors hdr)" by (simp add: blocks_def)
    then have "s \<in> set (blocks hdr) \<union> set (drop (nat (numSectors hdr)) (dataSectors new_FileHeader))"
      using that tail by (metis set_append)
    then show ?thesis by (auto simp: new_FileHeader_def dest!: in_set_dropD)
  qed
  moreover have "set (blocks hdr) \<subseteq> {0..<1024}" using ok by (simp add: hdr_ok_def)
  ultimately have "\<forall>s\<in>set (dataSectors hdr). int32 s" by (metis atLeastLessThan_iff int32_small order_refl subsetD zero_less_numeral)
  then show "bytes_hdr (hdr_bytes hdr) = hdr" using b by (intro bytes_hdr_hdr_bytes [OF len]) (auto simp: int32_def)
qed

lemma Header_WriteBack_ok:
  assumes "disk_ok d" "0 \<le> s" "s < NumSectors" "length (hdr_bytes hdr) = SectorSize"
  shows "\<exists>d'. Header_WriteBack s hdr d = Some (Inr d') \<and> disk_ok d' \<and> sector d' = (sector d)(s := hdr_bytes hdr)"
  using WriteSector_ok [OF assms] by (simp add: Header_WriteBack_def)

lemma Header_FetchFrom_ok:
  assumes "disk_ok d" "0 \<le> s" "s < NumSectors"
  shows "\<exists>d'. Header_FetchFrom s d = Some (Inr (bytes_hdr (sector d s), d')) \<and> disk_ok d' \<and> sector d' = sector d"
  using ReadSector_ok [OF assms] by (auto simp: Header_FetchFrom_def)

text \<open>Writing back both system files, in either order.\<close>

lemma write_back:
  assumes sys: "sys_ok fs" and d0: "disk_ok d0" "\<forall>t. t \<notin> X \<longrightarrow> sector d0 t = sector d t"
    and new: "dir_wf dir'" "wf_bitmap fm'" "numBits fm' = NumSectors"
  shows "\<exists>d1 d2. Dir_WriteBack (directoryFile fs) dir' d0 = Some (Inr d1) \<and> Map_WriteBack (freeMapFile fs) fm' d1 = Some (Inr d2) \<and>
      rewritten fs X d d2 fm' dir' \<and>
      (\<forall>t. t \<notin> set (blocks (map_hdr fs)) \<union> set (blocks (dir_hdr fs)) \<longrightarrow> sector d2 t = sector d0 t)"
    and "\<exists>d1 d2. Map_WriteBack (freeMapFile fs) fm' d0 = Some (Inr d1) \<and> Dir_WriteBack (directoryFile fs) dir' d1 = Some (Inr d2) \<and>
      rewritten fs X d d2 fm' dir'"
proof -
  have disj: "set (blocks (map_hdr fs)) \<inter> set (blocks (dir_hdr fs)) = {}" "hdr_ok (map_hdr fs)" "hdr_ok (dir_hdr fs)"
    using sys by (auto simp: sys_ok_def)
  obtain d1 where 1: "Dir_WriteBack (directoryFile fs) dir' d0 = Some (Inr d1)" "disk_ok d1"
    "content d1 (dir_hdr fs) = dir_bytes dir'" "\<forall>s. s \<notin> set (blocks (dir_hdr fs)) \<longrightarrow> sector d1 s = sector d0 s"
    using write_dir [OF sys d0(1) new(1)] by blast
  obtain d2 where 2: "Map_WriteBack (freeMapFile fs) fm' d1 = Some (Inr d2)" "disk_ok d2"
    "content d2 (map_hdr fs) = map_bytes fm'" "\<forall>s. s \<notin> set (blocks (map_hdr fs)) \<longrightarrow> sector d2 s = sector d1 s"
    using write_map [OF sys 1(2) new(2,3)] by blast
  have "content d2 (dir_hdr fs) = content d1 (dir_hdr fs)" using disj 2(4) by (intro content_cong) auto
  then have "rewritten fs X d d2 fm' dir'" using 1 2 d0 new by (simp add: rewritten_def)
  with 1 2 show "\<exists>d1 d2. Dir_WriteBack (directoryFile fs) dir' d0 = Some (Inr d1) \<and> Map_WriteBack (freeMapFile fs) fm' d1 = Some (Inr d2) \<and>
      rewritten fs X d d2 fm' dir' \<and>
      (\<forall>t. t \<notin> set (blocks (map_hdr fs)) \<union> set (blocks (dir_hdr fs)) \<longrightarrow> sector d2 t = sector d0 t)" by auto
  obtain d3 where 3: "Map_WriteBack (freeMapFile fs) fm' d0 = Some (Inr d3)" "disk_ok d3"
    "content d3 (map_hdr fs) = map_bytes fm'" "\<forall>s. s \<notin> set (blocks (map_hdr fs)) \<longrightarrow> sector d3 s = sector d0 s"
    using write_map [OF sys d0(1) new(2,3)] by blast
  obtain d4 where 4: "Dir_WriteBack (directoryFile fs) dir' d3 = Some (Inr d4)" "disk_ok d4"
    "content d4 (dir_hdr fs) = dir_bytes dir'" "\<forall>s. s \<notin> set (blocks (dir_hdr fs)) \<longrightarrow> sector d4 s = sector d3 s"
    using write_dir [OF sys 3(2) new(1)] by blast
  have "content d4 (map_hdr fs) = content d3 (map_hdr fs)" using disj 4(4) by (intro content_cong) auto
  then have "rewritten fs X d d4 fm' dir'" using 3 4 d0 new by (simp add: rewritten_def)
  with 3 4 show "\<exists>d1 d2. Map_WriteBack (freeMapFile fs) fm' d0 = Some (Inr d1) \<and> Dir_WriteBack (directoryFile fs) dir' d1 = Some (Inr d2) \<and>
      rewritten fs X d d2 fm' dir'" by blast
qed

lemma disk_Open_ok:
  assumes inv: "fs_inv fs d fm dir"
  shows "\<exists>r d'. disk_Open fs name d = Some (Inr (r, d')) \<and> disk_ok d' \<and> sector d' = sector d \<and>
    (case entry_of dir (name_key name) of
       None \<Rightarrow> r = None
     | Some e \<Rightarrow> r = Some \<lparr>df_hdr = entry_hdr d e, seekPosition = 0, df_type = None\<rparr> \<and> entry_ok d e)"
proof -
  obtain d1 where 1: "Dir_FetchFrom (directoryFile fs) (new_Directory 10) d = Some (Inr (dir, d1))" "disk_ok d1" "sector d1 = sector d"
    using fetch_dir [OF inv] by blast
  show ?thesis
  proof (cases "entry_of dir (name_key name)")
    case None
    with 1 show ?thesis by (simp add: disk_Open_def Dir_Find_none)
  next
    case (Some e)
    have ok: "entry_ok d e" using inv entry_ofD [OF Some] by (auto simp: fs_inv_def files_ok_def)
    then obtain d2 where "Header_FetchFrom (de_sector e) d1 = Some (Inr (entry_hdr d e, d2))" "disk_ok d2" "sector d2 = sector d"
      using Header_FetchFrom_ok [OF 1(2), of "de_sector e"] 1(3) by (auto simp: entry_ok_def entry_hdr_def)
    with 1 Some ok show ?thesis by (simp add: disk_Open_def Dir_Find_some open_sector_def entry_ok_def)
  qed
qed

text \<open>When \<^verbatim>\<open>Create\<close> succeeds.\<close>

definition can_create :: "bitmap \<Rightarrow> directory \<Rightarrow> u8 list \<Rightarrow> int \<Rightarrow> bool" where
  "can_create fm dir name sz \<longleftrightarrow> entry_of dir (name_key name) = None \<and> (\<exists>e\<in>set dir. \<not> inUse e) \<and>
     divRoundUp sz (int SectorSize) < int (card ({0..<NumSectors} - marked fm))"

lemma disk_Create_ok:
  assumes inv: "fs_inv fs d fm dir" and size: "0 \<le> sz" "divRoundUp sz (int SectorSize) \<le> int NumDirect"
  shows "\<not> can_create fm dir name sz \<Longrightarrow>
      \<exists>d'. disk_Create fs name sz d = Some (Inr (False, d')) \<and> disk_ok d' \<and> sector d' = sector d"
    and "can_create fm dir name sz \<Longrightarrow>
      \<exists>d' fm' dir' c. disk_Create fs name sz d = Some (Inr (True, d')) \<and> fs_inv fs d' fm' dir' \<and>
        file_map d' dir' = (file_map d dir)(name_key name \<mapsto> c) \<and> length c = nat sz"
proof -
  let ?free = "{0..<1024} - marked fm" and ?k = "divRoundUp sz 128"
  have i: "disk_ok d" "sys_ok fs" "wf_bitmap fm" "numBits fm = 1024" "dir_wf dir" using inv by (simp_all add: fs_inv_def)
  obtain d1 where 1: "Dir_FetchFrom (directoryFile fs) (new_Directory 10) d = Some (Inr (dir, d1))" "disk_ok d1" "sector d1 = sector d"
    using fetch_dir [OF inv] by blast
  obtain d2 where 2: "new_PersistentBitmap (freeMapFile fs) 1024 d1 = Some (Inr (fm, d2))" "disk_ok d2" "sector d2 = sector d"
    using fetch_map [OF fs_inv_sector [OF inv 1(3,2)]] 1(3) by auto
  have k0: "0 \<le> ?k" using divRoundUp_bounds(3) [of sz 128] size(1) by simp
  have new: "disk_Create fs name sz d = bindR (Some (FindAndSet fm)) (\<lambda>(s, freeMap).
       if s = -1 then Some (Inr (False, d2))
       else
         let (added, dir) = Dir_Add dir name s
         in if \<not> added then Some (Inr (False, d2))
            else
              bindR (Some (Allocate freeMap sz new_FileHeader)) (\<lambda>(ok, hdr, freeMap).
              if \<not> ok then Some (Inr (False, d2))
              else
                bindR (Header_WriteBack s hdr d2) (\<lambda>d.
                bindR (Dir_WriteBack (directoryFile fs) dir d) (\<lambda>d.
                bindR (Map_WriteBack (freeMapFile fs) freeMap d) (\<lambda>d.
                Some (Inr (True, d)))))))"
    if "entry_of dir (name_key name) = None"
    using 1(1) 2(1) Dir_Find_none [OF that] by (simp add: disk_Create_def)
  have len0: "length (dataSectors new_FileHeader) = 30" by (simp add: new_FileHeader_def)
  have alloc: "\<exists>s fm1. FindAndSet fm = Inr (s, fm1) \<and> wf_bitmap fm1 \<and> numBits fm1 = 1024 \<and> s \<in> ?free \<and>
      marked fm1 = insert s (marked fm) \<and> card ({0..<1024} - marked fm1) = card ?free - 1"
    if nf: "marked fm \<noteq> {0..<1024}"
  proof -
    have "marked fm \<noteq> {0..<numBits fm}" using nf i(4) by simp
    then obtain s fm1 where s: "FindAndSet fm = Inr (s, fm1)" "wf_bitmap fm1" "numBits fm1 = 1024" "s \<in> ?free"
      "marked fm1 = insert s (marked fm)" 
      using FindAndSet_free [OF i(3)] i(4) by metis
    moreover have "{0..<1024} - marked fm1 = ?free - {s}" using s(5) by auto
    ultimately show ?thesis by auto
  qed
  show "\<exists>d'. disk_Create fs name sz d = Some (Inr (False, d')) \<and> disk_ok d' \<and> sector d' = sector d"
    if no: "\<not> can_create fm dir name sz"
  proof (cases "entry_of dir (name_key name)")
    case (Some e)
    have "de_sector e \<noteq> -1" using inv entry_ofD [OF Some] by (auto simp: fs_inv_def files_ok_def entry_ok_def)
    with 1 Dir_Find_some [OF Some] show ?thesis by (simp add: disk_Create_def)
  next
    case None
    show ?thesis
    proof (cases "marked fm = {0..<1024}")
      case True
      then show ?thesis using FindAndSet_full [OF i(3)] i(4) 2 by (simp add: new [OF None])
    next
      case False
      then obtain s fm1 where s: "FindAndSet fm = Inr (s, fm1)" "wf_bitmap fm1" "numBits fm1 = 1024" "s \<in> ?free"
        "card ({0..<1024} - marked fm1) = card ?free - 1" using alloc by blast
      show ?thesis
      proof (cases "\<exists>e\<in>set dir. \<not> inUse e")
        case free: True
        then obtain dir2 where add: "Dir_Add dir name s = (True, dir2)"
          using Add_loop_free [OF free] FindIndex_none [OF None] by (auto simp: Dir_Add_def)
        have "card ?free \<noteq> 0" using s(4) by auto
        moreover have "\<not> ?k < int (card ?free)" using no None free by (simp add: can_create_def)
        ultimately have "?k > int (card ({0..<1024} - marked fm1))" using s(5) by linarith
        then obtain hdr where "Allocate fm1 sz new_FileHeader = Inr (False, hdr, fm1)"
          using Allocate_ok(1) [OF s(2,3) len0 size] by auto
        then show ?thesis using s(1,4) 2 add by (auto simp: new [OF None])
      next
        case full: False
        then have "Dir_Add dir name s = (False, dir)" using Add_loop_full FindIndex_none [OF None] by (simp add: Dir_Add_def)
        then show ?thesis using s(1,4) 2 by (auto simp: new [OF None])
      qed
    qed
  qed
  show "\<exists>d' fm' dir' c. disk_Create fs name sz d = Some (Inr (True, d')) \<and> fs_inv fs d' fm' dir' \<and>
        file_map d' dir' = (file_map d dir)(name_key name \<mapsto> c) \<and> length c = nat sz"
    if yes: "can_create fm dir name sz"
  proof -
    have None: "entry_of dir (name_key name) = None" and free: "\<exists>e\<in>set dir. \<not> inUse e" and room: "?k < int (card ?free)"
      using yes by (auto simp: can_create_def)
    have "card ?free \<noteq> 0" using room k0 by linarith
    then have "marked fm \<noteq> {0..<1024}" by auto
    then obtain s fm1 where s: "FindAndSet fm = Inr (s, fm1)" "wf_bitmap fm1" "numBits fm1 = 1024" "s \<in> ?free"
      "marked fm1 = insert s (marked fm)" "card ({0..<1024} - marked fm1) = card ?free - 1" using alloc by blast
    obtain j where j: "j < length dir" "\<not> inUse (dir ! j)"
      "Add_loop dir name s = (True, dir[j := \<lparr>inUse = True, de_sector = s, de_name = strncpy (de_name (dir ! j)) name\<rparr>])"
      using Add_loop_free [OF free] by blast
    define e where "e = \<lparr>inUse = True, de_sector = s, de_name = strncpy (de_name (dir ! j)) name\<rparr>"
    have add: "Dir_Add dir name s = (True, dir[j := e])" using j(3) FindIndex_none [OF None] by (simp add: Dir_Add_def e_def)
    have nm: "length (de_name (dir ! j)) = 10" using i(5) j(1) by (auto simp: dir_wf_def entry_wf_def)
    have key: "name_key (de_name e) = name_key name" using name_key_strncpy(1) [OF nm] by (simp add: e_def)
    have e_wf: "entry_wf e" using name_key_strncpy(2) [OF nm] s(4) by (auto simp: entry_wf_def e_def int32_def)
    then have dir_wf': "dir_wf (dir[j := e])" using i(5) set_update_subset_insert [of dir j e] by (auto simp: dir_wf_def)
    have "?k \<le> int (card ({0..<1024} - marked fm1))" using room s(6) by linarith
    then obtain hdr fm2 where a: "Allocate fm1 sz new_FileHeader = Inr (True, hdr, fm2)" "hdr_ok hdr" "numBytes hdr = sz"
      "wf_bitmap fm2" "numBits fm2 = 1024" "set (blocks hdr) \<inter> marked fm1 = {}" "marked fm2 = marked fm1 \<union> set (blocks hdr)"
      "drop (nat (numSectors hdr)) (dataSectors hdr) = drop (nat (numSectors hdr)) (dataSectors new_FileHeader)"
      using Allocate_ok(2) [OF s(2,3) len0 size] by auto
    obtain d3 where 3: "Header_WriteBack s hdr d2 = Some (Inr d3)" "disk_ok d3" "sector d3 = (sector d2)(s := hdr_bytes hdr)"
      using Header_WriteBack_ok [OF 2(2) _ _ allocated_header(2) [OF a(2,8)], of s] s(4) by auto
    have "\<forall>t. t \<notin> {de_sector e} \<longrightarrow> sector d3 t = sector d t" using 3(3) 2(3) by (simp add: e_def)
    from write_back(1) [OF i(2) 3(2) this dir_wf' a(4,5)] obtain d4 d5 where
      4: "Dir_WriteBack (directoryFile fs) (dir[j := e]) d3 = Some (Inr d4)" "Map_WriteBack (freeMapFile fs) fm2 d4 = Some (Inr d5)"
        "rewritten fs {de_sector e} d d5 fm2 (dir[j := e])"
        "\<forall>t. t \<notin> set (blocks (map_hdr fs)) \<union> set (blocks (dir_hdr fs)) \<longrightarrow> sector d5 t = sector d3 t" by blast
    have run: "disk_Create fs name sz d = Some (Inr (True, d5))"
      using s(1,4) add a(1) 3(1) 4(1,2) by (auto simp: new [OF None])
    have "s \<notin> set (blocks (map_hdr fs)) \<union> set (blocks (dir_hdr fs))"
      using system_marked [OF inv] s(4) by (auto simp: system_sectors_def)
    then have "sector d5 s = hdr_bytes hdr" using 4(4) 3(3) by simp
    then have h: "entry_hdr d5 e = hdr" using allocated_header(1) [OF a(2,8)] by (simp add: entry_hdr_def e_def)
    have own: "owned d5 e = insert s (set (blocks hdr))" unfolding owned_def h by (simp add: e_def)
    have e1: "inUse e" "entry_of dir (name_key (de_name e)) = None" using None key by (simp_all add: e_def)
    have e2: "entry_ok d5 e" using h a(2,6) s(4,5) by (auto simp: entry_ok_def e_def)
    have e3: "owned d5 e \<inter> marked fm = {}" using own a(6) s(4,5) by auto
    have e4: "marked fm2 = marked fm \<union> owned d5 e" using own a(7) s(5) by auto
    from fs_inv_add [OF inv j(1,2) e1 e2 e3 4(3) e4] run key h a(3) show ?thesis
      by (intro exI [of _ d5] exI [of _ fm2] exI [of _ "dir[j := e]"] exI [of _ "content d5 hdr"]) simp
  qed
qed

lemma disk_Remove_ok:
  assumes inv: "fs_inv fs d fm dir"
  shows "entry_of dir (name_key name) = None \<Longrightarrow>
      \<exists>d'. disk_Remove fs name d = Some (Inr (False, d')) \<and> disk_ok d' \<and> sector d' = sector d"
    and "entry_of dir (name_key name) = Some e \<Longrightarrow>
      \<exists>d' fm' dir'. disk_Remove fs name d = Some (Inr (True, d')) \<and> fs_inv fs d' fm' dir' \<and>
        file_map d' dir' = (file_map d dir)(name_key name := None) \<and> marked fm' = marked fm - owned d e"
proof -
  have i: "disk_ok d" "sys_ok fs" "wf_bitmap fm" "numBits fm = 1024" "dir_wf dir" using inv by (simp_all add: fs_inv_def)
  obtain d1 where 1: "Dir_FetchFrom (directoryFile fs) (new_Directory 10) d = Some (Inr (dir, d1))" "disk_ok d1" "sector d1 = sector d"
    using fetch_dir [OF inv] by blast
  show "\<exists>d'. disk_Remove fs name d = Some (Inr (False, d')) \<and> disk_ok d' \<and> sector d' = sector d"
    if "entry_of dir (name_key name) = None"
    using 1 Dir_Find_none [OF that] by (simp add: disk_Remove_def)
  show "\<exists>d' fm' dir'. disk_Remove fs name d = Some (Inr (True, d')) \<and> fs_inv fs d' fm' dir' \<and>
        file_map d' dir' = (file_map d dir)(name_key name := None) \<and> marked fm' = marked fm - owned d e"
    if e: "entry_of dir (name_key name) = Some e"
  proof -
    obtain j where j: "j < length dir" "FindIndex dir name = int j" "dir ! j = e" "inUse e" "name_key (de_name e) = name_key name"
      using FindIndex_some [OF e] .
    have "e \<in> set dir" using j by auto
    then have ok: "entry_ok d e" and sub: "owned d e \<subseteq> marked fm" using inv j(4) owned_marked [OF inv] by (auto simp: fs_inv_def files_ok_def)
    let ?s = "de_sector e" and ?dir = "dir[j := (dir ! j)\<lparr>inUse := False\<rparr>]"
    have s: "0 \<le> ?s" "?s < 1024" using ok by (auto simp: entry_ok_def)
    obtain d2 where 2: "Header_FetchFrom ?s d1 = Some (Inr (entry_hdr d e, d2))" "disk_ok d2" "sector d2 = sector d"
      using Header_FetchFrom_ok [OF 1(2) s] 1(3) by (auto simp: entry_hdr_def)
    obtain d3 where 3: "new_PersistentBitmap (freeMapFile fs) 1024 d2 = Some (Inr (fm, d3))" "disk_ok d3" "sector d3 = sector d"
      using fetch_map [OF fs_inv_sector [OF inv 2(3,2)]] 2(3) by auto
    have "hdr_ok (entry_hdr d e)" "set (blocks (entry_hdr d e)) \<subseteq> marked fm" using ok sub by (auto simp: entry_ok_def owned_def)
    from Deallocate_ok [OF i(3,4) this] obtain fm1 where
      f1: "Deallocate fm (entry_hdr d e) = Inr fm1" "wf_bitmap fm1" "numBits fm1 = 1024" "marked fm1 = marked fm - set (blocks (entry_hdr d e))"
      by blast
    obtain fm2 where f2: "Clear fm1 ?s = Inr fm2" "wf_bitmap fm2" "numBits fm2 = 1024" "marked fm2 = marked fm1 - {?s}"
      using Clear_ok [OF f1(2) s(1)] s(2) f1(3) by auto
    have dir': "Dir_Remove dir name = (True, ?dir)" using j(2) by (simp add: Dir_Remove_def)
    have "dir_wf ?dir" using i(5) j(1) set_update_subset_insert [of dir j] by (fastforce simp: dir_wf_def entry_wf_def)
    from write_back(2) [OF i(2) 3(2) _ this f2(2,3), of "{}" d] 3(3) obtain d4 d5 where
      4: "Map_WriteBack (freeMapFile fs) fm2 d3 = Some (Inr d4)" "Dir_WriteBack (directoryFile fs) ?dir d4 = Some (Inr d5)"
        "rewritten fs {} d d5 fm2 ?dir" by auto
    have m: "marked fm2 = marked fm - owned d (dir ! j)" using f1(4) f2(4) j(3) by (auto simp: owned_def)
    have "disk_Remove fs name d = Some (Inr (True, d5))"
      using 1(1) 2(1) 3(1) f1(1) f2(1) dir' 4(1,2) s by (simp add: disk_Remove_def Dir_Find_some [OF e])
    with fs_inv_remove [OF inv j(1) _ 4(3) m] m j show ?thesis by auto
  qed
qed

text \<open>Writing to the data sectors of one file.\<close>

lemma owned_disjoint:
  assumes "files_ok fs d fm dir" "e \<in> set dir" "inUse e" "e' \<in> set dir" "inUse e'" "e \<noteq> e'"
  shows "owned d e \<inter> owned d e' = {}"
proof -
  obtain i j where "i < length dir" "dir ! i = e" "j < length dir" "dir ! j = e'" using assms(2,4) by (auto simp: in_set_conv_nth)
  moreover from this assms(6) have "i \<noteq> j" by auto
  ultimately show ?thesis using assms(1,3,5) unfolding files_ok_def by blast
qed

lemma fs_inv_write:
  assumes inv: "fs_inv fs d fm dir" and e: "e \<in> set dir" "inUse e" and d': "disk_ok d'"
    and same: "\<forall>t. t \<notin> set (blocks (entry_hdr d e)) \<longrightarrow> sector d' t = sector d t"
  shows "fs_inv fs d' fm dir"
    and "file_map d' dir = (file_map d dir)(name_key (de_name e) \<mapsto> content d' (entry_hdr d e))"
proof -
  let ?B = "set (blocks (entry_hdr d e))"
  have fo: "files_ok fs d fm dir" and sys: "sys_ok fs" using inv by (simp_all add: fs_inv_def)
  have eok: "entry_ok d e" and esys: "owned d e \<inter> system_sectors fs = {}" using fo e by (auto simp: files_ok_def)
  have B: "?B \<subseteq> owned d e" by (auto simp: owned_def)
  have hdr_e: "entry_hdr d' e = entry_hdr d e" using eok same by (simp add: entry_hdr_def entry_ok_def)
  have other: "\<forall>t\<in>owned d e'. sector d' t = sector d t" if "e' \<in> set dir" "inUse e'" "e' \<noteq> e" for e'
    using owned_disjoint [OF fo e that(1,2)] that(3) B same by blast
  have view: "owned d' e' = owned d e' \<and> entry_ok d' e' = entry_ok d e'" if "e' \<in> set dir" "inUse e'" for e'
    using entry_unchanged(2,3) [OF other [OF that]] hdr_e by (cases "e' = e") (auto simp: owned_def entry_ok_def)
  have own: "owned d' (dir ! i) = owned d (dir ! i)" if "i < length dir" "inUse (dir ! i)" for i
    using view that by simp
  have img: "owned d' ` {e \<in> set dir. inUse e} = owned d ` {e \<in> set dir. inUse e}"
    using view by (intro image_cong) auto
  have "files_ok fs d' fm dir"
  proof (rule files_okI)
    show "entry_ok d' e' \<and> owned d' e' \<inter> system_sectors fs = {}" if "e' \<in> set dir" "inUse e'" for e'
      using view [OF that] fo that by (simp add: files_ok_def)
    show "owned d' (dir ! i) \<inter> owned d' (dir ! k) = {}"
      if "i < length dir" "k < length dir" "i \<noteq> k" "inUse (dir ! i)" "inUse (dir ! k)" for i k
      using own that fo by (simp add: files_ok_def)
    show "unique_keys dir" using fo by (simp add: files_ok_def)
    show "marked fm = system_sectors fs \<union> \<Union> (owned d' ` {e \<in> set dir. inUse e})" using fo img by (simp add: files_ok_def)
  qed
  moreover have "\<forall>t\<in>system_sectors fs. sector d' t = sector d t" using esys B same by blast
  then have "sector d' 0 = sector d 0" "sector d' 1 = sector d 1"
    "\<forall>t\<in>set (blocks (map_hdr fs)). sector d' t = sector d t" "\<forall>t\<in>set (blocks (dir_hdr fs)). sector d' t = sector d t"
    by (auto simp: system_sectors_def)
  moreover from this sys have "content d' (map_hdr fs) = content d (map_hdr fs)" "content d' (dir_hdr fs) = content d (dir_hdr fs)"
    by (auto intro!: content_cong simp: sys_ok_def)
  ultimately show "fs_inv fs d' fm dir" using inv d' by (simp add: fs_inv_def)
  show "file_map d' dir = (file_map d dir)(name_key (de_name e) \<mapsto> content d' (entry_hdr d e))"
  proof (rule ext)
    fix k
    have u: "unique_keys dir" using fo by (simp add: files_ok_def)
    show "file_map d' dir k = ((file_map d dir)(name_key (de_name e) \<mapsto> content d' (entry_hdr d e))) k"
    proof (cases "k = name_key (de_name e)")
      case True
      obtain j where "j < length dir" "dir ! j = e" using e(1) by (auto simp: in_set_conv_nth)
      then have "entry_of dir k = Some e" using entry_of_unique [OF u, of j k] e(2) True by simp
      with True hdr_e show ?thesis by (simp add: file_map_def)
    next
      case False
      have "content d' (entry_hdr d' e') = content d (entry_hdr d e')" if k: "entry_of dir k = Some e'" for e'
      proof -
        have e': "e' \<in> set dir" "inUse e'" "e' \<noteq> e" using entry_ofD [OF k] False by auto
        then have "entry_ok d e'" using fo by (simp add: files_ok_def)
        then show ?thesis by (rule entry_unchanged(4) [OF other [OF e']])
      qed
      with False show ?thesis by (cases "entry_of dir k") (simp_all add: file_map_def)
    qed
  qed
qed

section \<open>Formatting and reopening\<close>

lemma format_headers_ok:
  "\<exists>fm mh dh. format_headers = Inr (fm, mh, dh) \<and> wf_bitmap fm \<and> numBits fm = NumSectors \<and>
     hdr_ok mh \<and> numBytes mh = FreeMapFileSize \<and> bytes_hdr (hdr_bytes mh) = mh \<and> length (hdr_bytes mh) = SectorSize \<and>
     hdr_ok dh \<and> numBytes dh = DirectoryFileSize \<and> bytes_hdr (hdr_bytes dh) = dh \<and> length (hdr_bytes dh) = SectorSize \<and>
     set (blocks mh) \<inter> set (blocks dh) = {} \<and> {0, 1} \<inter> (set (blocks mh) \<union> set (blocks dh)) = {} \<and>
     marked fm = {0, 1} \<union> set (blocks mh) \<union> set (blocks dh)"
proof -
  obtain f0 where f0: "new_Bitmap 1024 = Inr f0" "wf_bitmap f0" "numBits f0 = 1024" "marked f0 = {}"
    using new_Bitmap_ok [of 1024] by auto
  obtain f1 where f1: "Mark f0 0 = Inr f1" "wf_bitmap f1" "numBits f1 = 1024" "marked f1 = {0}"
    using Mark_ok [OF f0(2), of 0] f0(3,4) by auto
  obtain f2 where f2: "Mark f1 1 = Inr f2" "wf_bitmap f2" "numBits f2 = 1024" "marked f2 = {0, 1}"
    using Mark_ok [OF f1(2), of 1] f1(3,4) by (auto simp: insert_commute)
  have len: "length (dataSectors new_FileHeader) = 30" by (simp add: new_FileHeader_def)
  have k: "divRoundUp 128 128 = 1" "divRoundUp 200 128 = 2" by (simp_all add: divRoundUp_def)
  have c2: "card ({0..<1024} - marked f2) = 1022" using f2(4) by (subst card_Diff_subset) auto
  obtain mh f3 where 3: "Allocate f2 128 new_FileHeader = Inr (True, mh, f3)" "hdr_ok mh" "numBytes mh = 128"
    "wf_bitmap f3" "numBits f3 = 1024" "set (blocks mh) \<inter> marked f2 = {}" "marked f3 = marked f2 \<union> set (blocks mh)"
    "drop (nat (numSectors mh)) (dataSectors mh) = drop (nat (numSectors mh)) (dataSectors new_FileHeader)"
    using Allocate_ok(2) [OF f2(2,3) len, of 128] k c2 by auto
  have m: "numSectors mh = 1" "set (blocks mh) \<subseteq> {0..<1024}" using 3(2,3) k by (auto simp: hdr_ok_def)
  then have "card (set (blocks mh)) \<le> 1" using card_length [of "blocks mh"] by (simp add: blocks_def)
  then have "card (marked f3) \<le> 3" using 3(7) f2(4) card_Un_le [of "{0, 1::int}" "set (blocks mh)"] by auto
  then have c3: "2 \<le> card ({0..<1024} - marked f3)" using diff_card_le_card_Diff [of "marked f3" "{0..<1024}"] 3(7) f2(4) by auto
  obtain dh f4 where 4: "Allocate f3 200 new_FileHeader = Inr (True, dh, f4)" "hdr_ok dh" "numBytes dh = 200"
    "wf_bitmap f4" "numBits f4 = 1024" "set (blocks dh) \<inter> marked f3 = {}" "marked f4 = marked f3 \<union> set (blocks dh)"
    "drop (nat (numSectors dh)) (dataSectors dh) = drop (nat (numSectors dh)) (dataSectors new_FileHeader)"
    using Allocate_ok(2) [OF 3(4,5) len, of 200] k c3 by auto
  have "format_headers = Inr (f4, mh, dh)"
    using f0(1) f1(1) f2(1) 3(1) 4(1) by (simp add: format_headers_def)
  moreover have "set (blocks mh) \<inter> set (blocks dh) = {}" "{0, 1} \<inter> (set (blocks mh) \<union> set (blocks dh)) = {}"
    "marked f4 = {0, 1} \<union> set (blocks mh) \<union> set (blocks dh)" using 3(6,7) 4(6,7) f2(4) by auto
  ultimately show ?thesis using 3 4 allocated_header [OF 3(2,8)] allocated_header [OF 4(2,8)] by blast
qed

lemma open_system_files_ok:
  assumes "disk_ok d"
  shows "\<exists>d'. open_system_files d = Some (Inr
      (\<lparr>freeMapFile = \<lparr>df_hdr = bytes_hdr (sector d 0), seekPosition = 0, df_type = None\<rparr>,
        directoryFile = \<lparr>df_hdr = bytes_hdr (sector d 1), seekPosition = 0, df_type = None\<rparr>\<rparr>, d')) \<and>
    disk_ok d' \<and> sector d' = sector d"
proof -
  obtain d1 where 1: "Header_FetchFrom 0 d = Some (Inr (bytes_hdr (sector d 0), d1))" "disk_ok d1" "sector d1 = sector d"
    using Header_FetchFrom_ok [OF assms, of 0] by auto
  obtain d2 where "Header_FetchFrom 1 d1 = Some (Inr (bytes_hdr (sector d1 1), d2))" "disk_ok d2" "sector d2 = sector d"
    using Header_FetchFrom_ok [OF 1(2), of 1] 1(3) by auto
  with 1 show ?thesis by (simp add: open_system_files_def open_sector_def)
qed

lemma format_ok:
  assumes "disk_ok d"
  shows "\<exists>fs d' fm. new_disk_fs True d = Some (Inr (fs, d')) \<and> fs_inv fs d' fm (new_Directory 10) \<and>
    file_map d' (new_Directory 10) = Map.empty \<and> marked fm = system_sectors fs"
proof -
  obtain fm mh dh where h: "format_headers = Inr (fm, mh, dh)" "wf_bitmap fm" "numBits fm = 1024"
     "hdr_ok mh" "numBytes mh = 128" "bytes_hdr (hdr_bytes mh) = mh" "length (hdr_bytes mh) = 128"
     "hdr_ok dh" "numBytes dh = 200" "bytes_hdr (hdr_bytes dh) = dh" "length (hdr_bytes dh) = 128"
     "set (blocks mh) \<inter> set (blocks dh) = {}" "{0, 1} \<inter> (set (blocks mh) \<union> set (blocks dh)) = {}"
     "marked fm = {0, 1} \<union> set (blocks mh) \<union> set (blocks dh)" using format_headers_ok by blast
  obtain d1 where 1: "Header_WriteBack 0 mh d = Some (Inr d1)" "disk_ok d1" "sector d1 = (sector d)(0 := hdr_bytes mh)"
    using Header_WriteBack_ok [OF assms _ _ h(7), of 0] by auto
  obtain d2 where 2: "Header_WriteBack 1 dh d1 = Some (Inr d2)" "disk_ok d2" "sector d2 = (sector d1)(1 := hdr_bytes dh)"
    using Header_WriteBack_ok [OF 1(2) _ _ h(11), of 1] by auto
  define fs where "fs = \<lparr>freeMapFile = \<lparr>df_hdr = mh, seekPosition = 0, df_type = None\<rparr>,
     directoryFile = \<lparr>df_hdr = dh, seekPosition = 0, df_type = None\<rparr>\<rparr>"
  obtain d3 where 3: "open_system_files d2 = Some (Inr (fs, d3))" "disk_ok d3" "sector d3 = sector d2"
    using open_system_files_ok [OF 2(2)] 1(3) 2(3) h(6,10) by (auto simp: fs_def)
  have sys: "sys_ok fs" using h by (auto simp: sys_ok_def fs_def)
  have "\<forall>t. t \<notin> {} \<longrightarrow> sector d3 t = sector d3 t" by simp
  from write_back(2) [OF sys 3(2) this new_Directory_wf h(2,3)] obtain d4 d5 where
    4: "Map_WriteBack (freeMapFile fs) fm d3 = Some (Inr d4)" "Dir_WriteBack (directoryFile fs) (new_Directory 10) d4 = Some (Inr d5)"
      "rewritten fs {} d3 d5 fm (new_Directory 10)" by blast
  have run: "new_disk_fs True d = Some (Inr (fs, d5))"
    unfolding new_disk_fs_def h(1) using 1(1) 2(1) 3(1) 4(1,2) by simp
  have "sector d5 0 = sector d3 0" "sector d5 1 = sector d3 1"
    using 4(3) h(13) by (auto simp: rewritten_def fs_def)
  then have hdrs: "bytes_hdr (sector d5 0) = mh" "bytes_hdr (sector d5 1) = dh" using 1(3) 2(3) 3(3) h(6,10) by simp_all
  have unused: "\<not> inUse e" if "e \<in> set (new_Directory 10)" for e using that by (auto simp: new_Directory_def)
  have "files_ok fs d5 fm (new_Directory 10)"
  proof (rule files_okI)
    show "unique_keys (new_Directory 10)" using unused by (simp add: unique_keys_def)
    show "marked fm = system_sectors fs \<union> \<Union> (owned d5 ` {e \<in> set (new_Directory 10). inUse e})"
      using h(14) unused by (auto simp: system_sectors_def fs_def)
  qed (use unused in auto)
  then have inv: "fs_inv fs d5 fm (new_Directory 10)" using 4(3) sys hdrs by (simp add: fs_inv_def rewritten_def fs_def)
  have "entry_of (new_Directory 10) k = None" for k using unused by (auto simp: entry_of_none)
  then have "file_map d5 (new_Directory 10) = Map.empty" by (simp add: file_map_def fun_eq_iff)
  moreover have "marked fm = system_sectors fs" using h(14) by (simp add: system_sectors_def fs_def)
  ultimately show ?thesis using run inv by blast
qed

lemma reopen_ok:
  assumes inv: "fs_inv fs d fm dir"
  shows "\<exists>fs' d'. new_disk_fs False d = Some (Inr (fs', d')) \<and> map_hdr fs' = map_hdr fs \<and> dir_hdr fs' = dir_hdr fs \<and>
    fs_inv fs' d' fm dir \<and> file_map d' dir = file_map d dir"
proof -
  have i: "disk_ok d" "bytes_hdr (sector d 0) = map_hdr fs" "bytes_hdr (sector d 1) = dir_hdr fs" using inv by (simp_all add: fs_inv_def)
  from open_system_files_ok [OF i(1)] i(2,3) obtain fs' d' where
    o: "new_disk_fs False d = Some (Inr (fs', d'))" "map_hdr fs' = map_hdr fs" "dir_hdr fs' = dir_hdr fs"
      "disk_ok d'" "sector d' = sector d" by (auto simp: new_disk_fs_def)
  have "fs_inv fs d' fm dir" by (rule fs_inv_sector [OF inv o(5,4)])
  then have "fs_inv fs' d' fm dir" using o(2,3) by (simp add: fs_inv_def sys_ok_def files_ok_def system_sectors_def)
  with o file_map_sector [OF o(5)] show ?thesis by blast
qed

section \<open>Sequences of operations\<close>

text \<open>A name's file written through \<^verbatim>\<open>Open\<close> and \<^verbatim>\<open>WriteAt\<close>, as a client does it.\<close>

definition open_write :: "disk_fs \<Rightarrow> u8 list \<Rightarrow> u8 list \<Rightarrow> nat \<Rightarrow> disk_dev \<Rightarrow> (int \<times> disk_dev) run" where
  "open_write fs name bytes pos d =
     bindR (disk_Open fs name d) (\<lambda>(f, d).
     case f of None \<Rightarrow> Some (Inr (-1, d)) | Some f \<Rightarrow> disk_WriteAt f bytes (int (length bytes)) (int pos) d)"

lemma open_write_ok:
  assumes inv: "fs_inv fs d fm dir" and small: "pos + length bytes < 2 ^ 31"
  shows "case file_map d dir (name_key name) of
      None \<Rightarrow> \<exists>d'. open_write fs name bytes pos d = Some (Inr (-1, d')) \<and> fs_inv fs d' fm dir \<and> file_map d' dir = file_map d dir
    | Some c \<Rightarrow> \<exists>d' n. n = min (length bytes) (length c - pos) \<and> open_write fs name bytes pos d = Some (Inr (int n, d')) \<and>
        fs_inv fs d' fm dir \<and> file_map d' dir = (file_map d dir)(name_key name \<mapsto> (if n = 0 then c else patch c pos (take n bytes)))"
proof -
  obtain r d1 where o: "disk_Open fs name d = Some (Inr (r, d1))" "disk_ok d1" "sector d1 = sector d"
    "case entry_of dir (name_key name) of None \<Rightarrow> r = None
     | Some e \<Rightarrow> r = Some \<lparr>df_hdr = entry_hdr d e, seekPosition = 0, df_type = None\<rparr> \<and> entry_ok d e"
    using disk_Open_ok [OF inv] by blast
  have inv1: "fs_inv fs d1 fm dir" by (rule fs_inv_sector [OF inv o(3,2)])
  have fm1: "file_map d1 dir = file_map d dir" by (rule file_map_sector [OF o(3)])
  show ?thesis
  proof (cases "entry_of dir (name_key name)")
    case None
    then show ?thesis using o inv1 fm1 by (simp add: file_map_def open_write_def)
  next
    case (Some e)
    let ?f = "\<lparr>df_hdr = entry_hdr d e, seekPosition = 0, df_type = None\<rparr>" and ?N = "nat (numBytes (entry_hdr d e))"
    have f: "r = Some ?f" "hdr_ok (entry_hdr d e)" using o(4) Some by (simp_all add: entry_ok_def)
    have e: "e \<in> set dir" "inUse e" "name_key (de_name e) = name_key name" using entry_ofD [OF Some] by auto
    have h1: "entry_hdr d1 e = entry_hdr d e" "content d1 = content d" using same_views [OF o(3)] by simp_all
    have c: "file_map d dir (name_key name) = Some (content d (entry_hdr d e))" by (simp add: file_map_def Some)
    have run: "open_write fs name bytes pos d = disk_WriteAt ?f bytes (int (length bytes)) (int pos) d1"
      using o(1) f(1) by (simp add: open_write_def)
    show ?thesis
    proof (cases "pos < ?N \<and> 0 < length bytes")
      case True
      define n where "n = min (length bytes) (?N - pos)"
      obtain d2 where w: "disk_WriteAt ?f bytes (int (length bytes)) (int pos) d1 = Some (Inr (int n, d2))"
        "disk_ok d2" "\<forall>s. s \<notin> set (blocks (entry_hdr d e)) \<longrightarrow> sector d2 s = sector d1 s"
        "content d2 (entry_hdr d e) = patch (content d1 (entry_hdr d e)) pos (take n bytes)"
        using disk_WriteAt_ok [of ?f d1 pos "length bytes" bytes] f(2) o(2) small True by (auto simp: n_def)
      have "n \<noteq> 0" using True by (auto simp: n_def)
      with fs_inv_write [OF inv1 e(1,2) w(2)] w(3,4) h1 fm1 e(3) c w(1) run show ?thesis by (simp flip: n_def)
    next
      case False
      then have "int (length bytes) \<le> 0 \<or> numBytes (entry_hdr d e) \<le> int pos" using f(2) by (auto simp: hdr_ok_def)
      then have "disk_WriteAt ?f bytes (int (length bytes)) (int pos) d1 = Some (Inr (0, d1))"
        by (auto simp: disk_WriteAt_def FileLength_def)
      moreover have "min (length bytes) (?N - pos) = 0" using False by auto
      ultimately show ?thesis using c run inv1 fm1 by (simp add: fun_upd_idem)
    qed
  qed
qed

datatype fs_op = FS_Create "u8 list" int | FS_Remove "u8 list" | FS_Write "u8 list" "u8 list" nat

fun fs_step :: "disk_fs \<Rightarrow> fs_op \<Rightarrow> disk_dev \<Rightarrow> disk_dev run" where
  "fs_step fs (FS_Create name sz) d = bindR (disk_Create fs name sz d) (\<lambda>(_, d). Some (Inr d))"
| "fs_step fs (FS_Remove name) d = bindR (disk_Remove fs name d) (\<lambda>(_, d). Some (Inr d))"
| "fs_step fs (FS_Write name bytes pos) d = bindR (open_write fs name bytes pos d) (\<lambda>(_, d). Some (Inr d))"

fun fs_name :: "fs_op \<Rightarrow> u8 list" where
  "fs_name (FS_Create name sz) = name_key name"
| "fs_name (FS_Remove name) = name_key name"
| "fs_name (FS_Write name bytes pos) = name_key name"

fun fs_valid :: "fs_op \<Rightarrow> bool" where
  "fs_valid (FS_Create name sz) \<longleftrightarrow> 0 \<le> sz \<and> sz \<le> int NumDirect * int SectorSize"
| "fs_valid (FS_Remove name) \<longleftrightarrow> True"
| "fs_valid (FS_Write name bytes pos) \<longleftrightarrow> pos + length bytes < 2 ^ 31"

primrec fs_run :: "('o \<Rightarrow> 's \<Rightarrow> 's run) \<Rightarrow> 'o list \<Rightarrow> 's \<Rightarrow> 's run" where
  "fs_run step [] s = Some (Inr s)"
| "fs_run step (op # ops) s = bindR (step op s) (fs_run step ops)"

text \<open>A store of named files: every valid operation returns and touches only the file it names.\<close>

locale file_store =
  fixes rep :: "'s \<Rightarrow> ('k \<Rightarrow> 'c option) \<Rightarrow> bool" and step :: "'o \<Rightarrow> 's \<Rightarrow> 's run"
    and key :: "'o \<Rightarrow> 'k" and valid :: "'o \<Rightarrow> bool"
  assumes step_rep: "rep s m \<Longrightarrow> valid op \<Longrightarrow>
    \<exists>s' m'. step op s = Some (Inr s') \<and> rep s' m' \<and> (\<forall>k. k \<noteq> key op \<longrightarrow> m' k = m k)"
begin

lemma run_rep:
  "rep s m \<Longrightarrow> \<forall>op\<in>set ops. valid op \<Longrightarrow>
    \<exists>s' m'. fs_run step ops s = Some (Inr s') \<and> rep s' m' \<and> (\<forall>k. k \<notin> key ` set ops \<longrightarrow> m' k = m k)"
proof (induction ops arbitrary: s m)
  case (Cons op ops)
  then obtain s1 m1 where 1: "step op s = Some (Inr s1)" "rep s1 m1" "\<forall>k. k \<noteq> key op \<longrightarrow> m1 k = m k"
    using step_rep [of s m op] by auto
  with Cons obtain s2 m2 where "fs_run step ops s1 = Some (Inr s2)" "rep s2 m2" "\<forall>k. k \<notin> key ` set ops \<longrightarrow> m2 k = m1 k"
    by (metis list.set_intros(2))
  with 1 show ?case by auto
qed auto

end

definition fs_rep :: "disk_fs \<Rightarrow> disk_dev \<Rightarrow> (u8 list \<Rightarrow> u8 list option) \<Rightarrow> bool" where
  "fs_rep fs d m \<longleftrightarrow> (\<exists>fm dir. fs_inv fs d fm dir \<and> m = file_map d dir)"

lemma fits: "0 \<le> sz \<Longrightarrow> sz \<le> int NumDirect * int SectorSize \<Longrightarrow> divRoundUp sz (int SectorSize) \<le> int NumDirect"
  using divRoundUp_bounds(2) [of sz 128] by simp

interpretation volume: file_store "fs_rep fs" "fs_step fs" fs_name fs_valid for fs
proof unfold_locales
  fix d m op assume "fs_rep fs d m" and valid: "fs_valid op"
  then obtain fm dir where inv: "fs_inv fs d fm dir" and m: "m = file_map d dir" by (auto simp: fs_rep_def)
  have same: "fs_rep fs d' m" if "disk_ok d'" "sector d' = sector d" for d'
    using fs_inv_sector [OF inv that(2,1)] file_map_sector [OF that(2)] m unfolding fs_rep_def by metis
  show "\<exists>d' m'. fs_step fs op d = Some (Inr d') \<and> fs_rep fs d' m' \<and> (\<forall>k. k \<noteq> fs_name op \<longrightarrow> m' k = m k)"
  proof (cases op)
    case (FS_Create name sz)
    with valid have sz: "0 \<le> sz" "divRoundUp sz (int SectorSize) \<le> int NumDirect" using fits by auto
    show ?thesis
    proof (cases "can_create fm dir name sz")
      case True
      then show ?thesis using disk_Create_ok(2) [OF inv sz True] FS_Create m by (fastforce simp: fs_rep_def)
    next
      case False
      with disk_Create_ok(1) [OF inv sz False] FS_Create same show ?thesis by fastforce
    qed
  next
    case (FS_Remove name)
    show ?thesis
    proof (cases "entry_of dir (name_key name)")
      case None
      with disk_Remove_ok(1) [OF inv None] FS_Remove same show ?thesis by fastforce
    next
      case (Some e)
      with disk_Remove_ok(2) [OF inv Some] FS_Remove m show ?thesis by (fastforce simp: fs_rep_def)
    qed
  next
    case (FS_Write name bytes pos)
    with valid have small: "pos + length bytes < 2 ^ 31" by simp
    show ?thesis
    proof (cases "file_map d dir (name_key name)")
      case None
      with open_write_ok [OF inv small, of name] FS_Write m show ?thesis by (fastforce simp: fs_rep_def)
    next
      case (Some c)
      with open_write_ok [OF inv small, of name] FS_Write m show ?thesis by (fastforce simp: fs_rep_def)
    qed
  qed
qed

section \<open>Properties\<close>

text \<open>
  Property C4.  On a disk that satisfies the invariant, the file system implements a map from names to contents.
  \<^verbatim>\<open>Create\<close> of a file that fits into one header adds it with the size asked for exactly when the name is
  free, the directory has an unused entry and there are enough free sectors, and otherwise returns FALSE and leaves every
  sector as it was.  \<^verbatim>\<open>Open\<close> returns an open file with the contents of the name, or NULL when there is none;
  writing through it replaces a part of those contents and nothing else.  \<^verbatim>\<open>Remove\<close> takes the name out of the map and returns
  FALSE exactly when it was not there.  Each of them returns and keeps the invariant.
\<close>

theorem disk_fs_implements_map:
  assumes inv: "fs_inv fs d fm dir" and sz: "0 \<le> sz" "sz \<le> int NumDirect * int SectorSize"
    and small: "pos + length bytes < 2 ^ 31"
  shows "(if can_create fm dir name sz
      then \<exists>d' fm' dir' c. disk_Create fs name sz d = Some (Inr (True, d')) \<and> fs_inv fs d' fm' dir' \<and>
        file_map d' dir' = (file_map d dir)(name_key name \<mapsto> c) \<and> length c = nat sz
      else \<exists>d'. disk_Create fs name sz d = Some (Inr (False, d')) \<and> fs_inv fs d' fm dir \<and> sector d' = sector d) \<and>
    (\<exists>r d'. disk_Open fs name d = Some (Inr (r, d')) \<and> fs_inv fs d' fm dir \<and> sector d' = sector d \<and>
      map_option (\<lambda>f. content d' (df_hdr f)) r = file_map d dir (name_key name)) \<and>
    (case file_map d dir (name_key name) of
       None \<Rightarrow> \<exists>d'. open_write fs name bytes pos d = Some (Inr (-1, d')) \<and> fs_inv fs d' fm dir \<and> file_map d' dir = file_map d dir
     | Some c \<Rightarrow> \<exists>d' n. n = min (length bytes) (length c - pos) \<and> open_write fs name bytes pos d = Some (Inr (int n, d')) \<and>
         fs_inv fs d' fm dir \<and> file_map d' dir = (file_map d dir)(name_key name \<mapsto> (if n = 0 then c else patch c pos (take n bytes)))) \<and>
    (\<exists>d' fm' dir'. disk_Remove fs name d = Some (Inr (file_map d dir (name_key name) \<noteq> None, d')) \<and> fs_inv fs d' fm' dir' \<and>
      file_map d' dir' = (file_map d dir)(name_key name := None))" (is "?create \<and> ?open \<and> ?modify \<and> ?remove")
proof (intro conjI)
  have fit: "divRoundUp sz (int SectorSize) \<le> int NumDirect" by (rule fits [OF sz])
  show ?create
    using disk_Create_ok [OF inv sz(1) fit] fs_inv_sector [OF inv] by (cases "can_create fm dir name sz") (simp, fastforce)
  show ?open
  proof -
    obtain r d' where o: "disk_Open fs name d = Some (Inr (r, d'))" "disk_ok d'" "sector d' = sector d"
      "case entry_of dir (name_key name) of None \<Rightarrow> r = None
       | Some e \<Rightarrow> r = Some \<lparr>df_hdr = entry_hdr d e, seekPosition = 0, df_type = None\<rparr> \<and> entry_ok d e"
      using disk_Open_ok [OF inv] by blast
    then have "map_option (\<lambda>f. content d' (df_hdr f)) r = file_map d dir (name_key name)"
      using same_views(1) [OF o(3)] by (auto simp: file_map_def split: option.splits)
    with o(1,3) fs_inv_sector [OF inv o(3,2)] show ?thesis by blast
  qed
  show ?modify using open_write_ok [OF inv small] .
  show ?remove
  proof (cases "entry_of dir (name_key name)")
    case None
    then obtain d' where r: "disk_Remove fs name d = Some (Inr (False, d'))" "disk_ok d'" "sector d' = sector d"
      using disk_Remove_ok(1) [OF inv None] by blast
    have "fs_inv fs d' fm dir" "file_map d' dir = file_map d dir" using fs_inv_sector [OF inv r(3,2)] file_map_sector [OF r(3)] by simp_all
    moreover have none: "file_map d dir (name_key name) = None" using None by (simp add: file_map_def)
    then have "(file_map d dir)(name_key name := None) = file_map d dir" by (rule fun_upd_idem)
    ultimately show ?thesis using r(1) none by (intro exI [of _ d'] exI [of _ fm] exI [of _ dir]) simp
  next
    case (Some e)
    then show ?thesis using disk_Remove_ok(2) [OF inv Some] by (auto simp: file_map_def)
  qed
qed

lemma few_system_sectors:
  assumes "sys_ok fs"
  shows "card (system_sectors fs) \<le> 62"
proof -
  have "card (set (blocks h)) \<le> 30" if "hdr_ok h" for h
    using card_length [of "blocks h"] hdr_ok_bounds(2) [OF that] by (simp add: blocks_def)
  then have "card (set (blocks (map_hdr fs))) \<le> 30" "card (set (blocks (dir_hdr fs))) \<le> 30"
    using assms by (auto simp: sys_ok_def)
  moreover have "card {0, 1::int} = 2" by simp
  ultimately show ?thesis unfolding system_sectors_def
    using card_Un_le [of "{0, 1} \<union> set (blocks (map_hdr fs))" "set (blocks (dir_hdr fs))"]
      card_Un_le [of "{0, 1}" "set (blocks (map_hdr fs))"] by linarith
qed

lemma fresh_can_create:
  assumes "sys_ok fs" "marked fm = system_sectors fs" "0 \<le> sz" "sz \<le> int NumDirect * int SectorSize"
  shows "can_create fm (new_Directory 10) name sz"
proof -
  have "card (marked fm) \<le> 62" using few_system_sectors assms(1,2) by simp
  then have "962 \<le> card ({0..<1024} - marked fm)"
    using diff_card_le_card_Diff [of "marked fm" "{0..<1024}"] assms(2) by (simp add: system_sectors_def)
  moreover have "divRoundUp sz 128 \<le> 30" using fits [OF assms(3,4)] by simp
  moreover have "entry_of (new_Directory 10) (name_key name) = None" by (simp add: entry_of_none new_Directory_def)
  moreover have "\<exists>e\<in>set (new_Directory 10). \<not> inUse e" by (simp add: new_Directory_def)
  ultimately show ?thesis by (simp add: can_create_def)
qed

theorem disk_fs_implements_map_witness:
  "\<exists>fs d fm d' fm' dir' c. new_disk_fs True sample_disk = Some (Inr (fs, d)) \<and> fs_inv fs d fm (new_Directory 10) \<and>
     disk_Create fs [65, 66] 100 d = Some (Inr (True, d')) \<and> fs_inv fs d' fm' dir' \<and>
     file_map d' dir' = [[65, 66] \<mapsto> c] \<and> length c = 100"
proof -
  obtain fs d fm where f: "new_disk_fs True sample_disk = Some (Inr (fs, d))" "fs_inv fs d fm (new_Directory 10)"
    "file_map d (new_Directory 10) = Map.empty" "marked fm = system_sectors fs"
    using format_ok [OF sample_disk_ok] by blast
  have "can_create fm (new_Directory 10) [65, 66] 100" using fresh_can_create [OF _ f(4)] f(2) by (simp add: fs_inv_def)
  moreover have "name_key [65, 66] = [65, 66]" by (simp add: name_key_def c_str_def)
  ultimately show ?thesis
    using disk_fs_implements_map [OF f(2), of 100 0 "[]" "[65, 66]"] f by fastforce
qed

text \<open>
  Property C11.  From a freshly formatted disk, every sequence of creations, removals and writes (of files that
  fit into a header) runs to its end: no assertion of the disk, the bitmap or the file system fails.  Files
  that no operation of the sequence names do not exist afterwards, and opening the file system again
  without formatting, as after a restart, finds the same files with the same contents.
\<close>

theorem disk_fs_persistent:
  assumes "disk_ok d" "\<forall>op\<in>set ops. fs_valid op"
  shows "\<exists>fs d0 d1 m fs' d2. new_disk_fs True d = Some (Inr (fs, d0)) \<and> fs_run (fs_step fs) ops d0 = Some (Inr d1) \<and>
    fs_rep fs d1 m \<and> dom m \<subseteq> fs_name ` set ops \<and> new_disk_fs False d1 = Some (Inr (fs', d2)) \<and> fs_rep fs' d2 m"
proof -
  obtain fs d0 fm where f0: "new_disk_fs True d = Some (Inr (fs, d0))" "fs_inv fs d0 fm (new_Directory 10)"
    "file_map d0 (new_Directory 10) = Map.empty" using format_ok [OF assms(1)] by blast
  then have f: "new_disk_fs True d = Some (Inr (fs, d0))" "fs_rep fs d0 Map.empty" unfolding fs_rep_def by metis+
  obtain d1 m where r: "fs_run (fs_step fs) ops d0 = Some (Inr d1)" "fs_rep fs d1 m" "\<forall>k. k \<notin> fs_name ` set ops \<longrightarrow> m k = None"
    using volume.run_rep [OF f(2) assms(2)] by auto
  have dom: "dom m \<subseteq> fs_name ` set ops"
  proof
    fix k assume "k \<in> dom m"
    then show "k \<in> fs_name ` set ops" using r(3) by (cases "k \<in> fs_name ` set ops") (simp_all add: dom_def)
  qed
  obtain fm1 dir where inv: "fs_inv fs d1 fm1 dir" and m: "m = file_map d1 dir" using r(2) by (auto simp: fs_rep_def)
  obtain fs' d2 where "new_disk_fs False d1 = Some (Inr (fs', d2))" "fs_inv fs' d2 fm1 dir" "file_map d2 dir = file_map d1 dir"
    using reopen_ok [OF inv] by blast
  then have "new_disk_fs False d1 = Some (Inr (fs', d2))" "fs_rep fs' d2 m" using m unfolding fs_rep_def by metis+
  with f(1) r(1,2) dom show ?thesis by blast
qed

theorem disk_fs_persistent_witness:
  "\<exists>fs d0 d1 m fs' d2. new_disk_fs True sample_disk = Some (Inr (fs, d0)) \<and>
     fs_run (fs_step fs) [FS_Create [65] 300, FS_Write [65] [1, 2, 3] 10, FS_Create [66] 1, FS_Remove [66]] d0 = Some (Inr d1) \<and>
     fs_rep fs d1 m \<and> dom m \<subseteq> {[65], [66]} \<and> new_disk_fs False d1 = Some (Inr (fs', d2)) \<and> fs_rep fs' d2 m"
  using disk_fs_persistent [OF sample_disk_ok, of "[FS_Create [65] 300, FS_Write [65] [1, 2, 3] 10, FS_Create [66] 1, FS_Remove [66]]"]
  by (simp add: name_key_def c_str_def)

end
