(* ===== verification/Hash.thy ===== *)
theory Hash
  imports NList
begin

text \<open>
  The self-expanding hash table of \<^verbatim>\<open>lib/hash.h\<close> and \<^verbatim>\<open>lib/hash.cc\<close>: an array of the linked lists of
  \<open>NList\<close>, each on its own heap of elements.  \<open>hash_rep\<close> relates a table to the items in its buckets;
  on such a table every operation returns and implements the operation on a set of items with
  distinct keys, growing the table when there are three items per bucket.
\<close>

section \<open>The table\<close>

record ('k, 'a) hash_table =
  buckets :: "'a nlist list"
  numBuckets :: int
  numItems :: int
  getKey :: "'a \<Rightarrow> 'k"
  hash :: "'k \<Rightarrow> u32"

abbreviation (input) InitialBuckets :: int where "InitialBuckets \<equiv> 4"
abbreviation (input) ResizeRatio :: int where "ResizeRatio \<equiv> 3"
abbreviation (input) IncreaseSizeBy :: int where "IncreaseSizeBy \<equiv> 4"

text \<open>An array of negative size makes \<^verbatim>\<open>new\<close> throw, which nothing catches.\<close>

definition InitBuckets :: "int \<Rightarrow> ('k, 'a) hash_table \<Rightarrow> ('k, 'a) hash_table run" where
  "InitBuckets sz h =
     (if sz < 0 then Some (Inl Host_trap)
      else Some (Inr (h\<lparr>numBuckets := sz, buckets := replicate (nat sz) new_List\<rparr>)))"

definition new_HashTable :: "('a \<Rightarrow> 'k) \<Rightarrow> ('k \<Rightarrow> u32) \<Rightarrow> ('k, 'a) hash_table run" where
  "new_HashTable get hFunc =
     bindR (InitBuckets InitialBuckets \<lparr>buckets = [], numBuckets = 0, numItems = 0, getKey = get, hash = hFunc\<rparr>)
       (\<lambda>h. Some (Inr h))"

definition Hash_IsEmpty :: "('k, 'a) hash_table \<Rightarrow> bool" where
  "Hash_IsEmpty h \<longleftrightarrow> numItems h = 0"

text \<open>The destructor of a list does nothing; what is deleted is the array.\<close>

definition bucket_of :: "'a nlist list \<Rightarrow> int \<Rightarrow> 'a nlist run" where
  "bucket_of table i = (if 0 \<le> i \<and> i < int (length table) then Some (Inr (table ! nat i)) else Some (Inl Out_of_bounds))"

definition DeleteBuckets :: "'a nlist list \<Rightarrow> int \<Rightarrow> unit run" where
  "DeleteBuckets table sz = forR (\<lambda>i _. bindR (bucket_of table i) (\<lambda>_. Some (Inr ()))) [0..sz - 1] ()"

definition delete_HashTable :: "('k, 'a) hash_table \<Rightarrow> unit run" where
  "delete_HashTable h = assertR (Hash_IsEmpty h) (DeleteBuckets (buckets h) (numBuckets h))"

text \<open>\<^verbatim>\<open>(*hash)(key) % numBuckets\<close> is an unsigned remainder, converted to \<^verbatim>\<open>int\<close>.\<close>

definition HashValue :: "('k, 'a) hash_table \<Rightarrow> 'k \<Rightarrow> int run" where
  "HashValue h key =
     (if (word_of_int (numBuckets h) :: u32) = 0 then Some (Inl Host_trap)
      else let result = sint (hash h key mod word_of_int (numBuckets h))
           in assertR (0 \<le> result \<and> result < numBuckets h) (Some (Inr result)))"

section \<open>Finding\<close>

lemma bindR_bind: "bindR m f = Option.bind m (case_sum (\<lambda>e. Some (Inl e)) f)"
  by (cases m) (auto simp: bindR_def split: sum.splits)

lemma bindR_mono [partial_function_mono]:
  assumes "mono_option A" "\<And>y. mono_option (\<lambda>f. B y f)"
  shows "mono_option (\<lambda>f. bindR (A f) (\<lambda>y. B y f))"
  unfolding bindR_bind
proof (rule bind_mono [OF assms(1)])
  show "mono_option (\<lambda>f. case_sum (\<lambda>e. Some (Inl e)) (\<lambda>y. B y f) r)" for r
    using assms(2) by (cases r) (simp_all add: option.const_mono)
qed

text \<open>
  The loops over a bucket with a \<^verbatim>\<open>ListIterator\<close>: the search of \<^verbatim>\<open>FindInBucket\<close>, and the assertion
  of \<^verbatim>\<open>SanityCheck\<close> on every item.  \<open>None\<close> as a result of the search is \<^verbatim>\<open>*itemPtr = NULL\<close> and
  \<^verbatim>\<open>FALSE\<close>.
\<close>

partial_function (option) find_loop :: "('a \<Rightarrow> 'k) \<Rightarrow> 'a nlist \<Rightarrow> 'k \<Rightarrow> nat option \<Rightarrow> 'a option run" where
  "find_loop get l key current =
     (if iter_IsDone current then Some (Inr None)
      else bindR (iter_Item l current) (\<lambda>x.
           if key = get x then Some (Inr (Some x))
           else bindR (iter_Next l current) (find_loop get l key)))"

definition FindInBucket :: "('k, 'a) hash_table \<Rightarrow> int \<Rightarrow> 'k \<Rightarrow> 'a option run" where
  "FindInBucket h bucket key =
     bindR (bucket_of (buckets h) bucket) (\<lambda>l. find_loop (getKey h) l key (iter_start l))"

definition Find :: "('k, 'a) hash_table \<Rightarrow> 'k \<Rightarrow> 'a option run" where
  "Find h key = bindR (HashValue h key) (\<lambda>bucket. FindInBucket h bucket key)"

definition IsInTable :: "('k, 'a) hash_table \<Rightarrow> 'k \<Rightarrow> bool run" where
  "IsInTable h key = bindR (Find h key) (\<lambda>r. Some (Inr (r \<noteq> None)))"

section \<open>Checking\<close>

partial_function (option) check_loop :: "('k, 'a) hash_table \<Rightarrow> int \<Rightarrow> 'a nlist \<Rightarrow> nat option \<Rightarrow> unit run" where
  "check_loop h i l current =
     (if iter_IsDone current then Some (Inr ())
      else bindR (iter_Item l current) (\<lambda>x.
           bindR (HashValue h (getKey h x)) (\<lambda>v.
           if i = v then bindR (iter_Next l current) (check_loop h i l) else Some (Inl Assertion_failed))))"

definition Hash_SanityCheck :: "('k, 'a) hash_table \<Rightarrow> unit run" where
  "Hash_SanityCheck h =
     bindR (forR (\<lambda>i numFound.
              bindR (bucket_of (buckets h) i) (\<lambda>l.
              bindR (SanityCheck l) (\<lambda>_.
              bindR (check_loop h i l (iter_start l)) (\<lambda>_. Some (Inr (numFound + numInList l))))))
            [0..numBuckets h - 1] 0) (\<lambda>numFound.
     assertR (numItems h = numFound) (Some (Inr ())))"

section \<open>Inserting and removing\<close>

definition put_item :: "'a \<Rightarrow> ('k, 'a) hash_table \<Rightarrow> ('k, 'a) hash_table run" where
  "put_item x h =
     bindR (HashValue h (getKey h x)) (\<lambda>i.
     bindR (bucket_of (buckets h) i) (\<lambda>l.
     bindR (Append l x) (\<lambda>l. Some (Inr (h\<lparr>buckets := (buckets h)[nat i := l]\<rparr>)))))"

text \<open>The inner loop of \<^verbatim>\<open>ReHash\<close>: empty one old bucket into the new table.\<close>

partial_function (option) move_loop :: "'a nlist \<Rightarrow> ('k, 'a) hash_table \<Rightarrow> ('k, 'a) hash_table run" where
  "move_loop l h =
     (if IsEmpty l then Some (Inr h)
      else bindR (RemoveFront l) (\<lambda>r. bindR (put_item (fst r) h) (move_loop (snd r))))"

definition mul32 :: "int \<Rightarrow> int \<Rightarrow> int" where
  "mul32 a b = sint (word_of_int (a * b) :: u32)"

definition ReHash :: "('k, 'a) hash_table \<Rightarrow> ('k, 'a) hash_table run" where
  "ReHash h =
     (let oldTable = buckets h; oldSize = numBuckets h in
      bindR (Hash_SanityCheck h) (\<lambda>_.
      bindR (InitBuckets (mul32 (numBuckets h) IncreaseSizeBy) h) (\<lambda>h.
      bindR (forR (\<lambda>i h. bindR (bucket_of oldTable i) (\<lambda>l. move_loop l h)) [0..oldSize - 1] h) (\<lambda>h.
      bindR (DeleteBuckets oldTable oldSize) (\<lambda>_.
      bindR (Hash_SanityCheck h) (\<lambda>_. Some (Inr h)))))))"

definition Hash_Insert :: "'a \<Rightarrow> ('k, 'a) hash_table \<Rightarrow> ('k, 'a) hash_table run" where
  "Hash_Insert x h =
     (let key = getKey h x in
      bindR (IsInTable h key) (\<lambda>b. assertR (\<not> b)
     (bindR (if cdiv (numItems h) (numBuckets h) \<ge> ResizeRatio then ReHash h else Some (Inr h)) (\<lambda>h.
      bindR (put_item x h) (\<lambda>h.
      let h = h\<lparr>numItems := numItems h + 1\<rparr>
      in bindR (IsInTable h key) (\<lambda>b. assertR b (Some (Inr h))))))))"

definition Hash_Remove :: "'k \<Rightarrow> ('k, 'a) hash_table \<Rightarrow> ('a \<times> ('k, 'a) hash_table) run" where
  "Hash_Remove key h =
     bindR (HashValue h key) (\<lambda>bucket.
     bindR (FindInBucket h bucket key) (\<lambda>found.
     case found of
       None \<Rightarrow> Some (Inl Assertion_failed)
     | Some x \<Rightarrow>
         bindR (bucket_of (buckets h) bucket) (\<lambda>l.
         bindR (Remove l x) (\<lambda>l.
         let h = h\<lparr>buckets := (buckets h)[nat bucket := l], numItems := numItems h - 1\<rparr>
         in bindR (IsInTable h key) (\<lambda>b. assertR (\<not> b) (Some (Inr (x, h))))))))"

definition Hash_Apply :: "('a \<Rightarrow> 's \<Rightarrow> 's) \<Rightarrow> ('k, 'a) hash_table \<Rightarrow> 's \<Rightarrow> 's run" where
  "Hash_Apply f h = forR (\<lambda>bucket s. bindR (bucket_of (buckets h) bucket) (\<lambda>l. Apply l f s)) [0..numBuckets h - 1]"

section \<open>Iterating\<close>

function FindNextFullBucket :: "('k, 'a) hash_table \<Rightarrow> int \<Rightarrow> int run" where
  "FindNextFullBucket h bucket =
     (if bucket < numBuckets h
      then bindR (bucket_of (buckets h) bucket) (\<lambda>l.
           if \<not> IsEmpty l then Some (Inr bucket) else FindNextFullBucket h (bucket + 1))
      else Some (Inr bucket))"
  by auto
termination by (relation "measure (\<lambda>(h, bucket). nat (numBuckets h - bucket))") auto

declare FindNextFullBucket.simps [simp del]

text \<open>
  The iterator's \<^verbatim>\<open>bucket\<close> and \<^verbatim>\<open>bucketIter\<close>, \<open>None\<close> being \<^verbatim>\<open>NULL\<close>; the table is passed along.
\<close>

record hash_iter =
  it_bucket :: int
  bucketIter :: "nat option option"

definition iter_at :: "('k, 'a) hash_table \<Rightarrow> int \<Rightarrow> hash_iter run" where
  "iter_at h start =
     bindR (FindNextFullBucket h start) (\<lambda>bucket.
     if bucket < numBuckets h
     then bindR (bucket_of (buckets h) bucket) (\<lambda>l. Some (Inr \<lparr>it_bucket = bucket, bucketIter = Some (iter_start l)\<rparr>))
     else Some (Inr \<lparr>it_bucket = bucket, bucketIter = None\<rparr>))"

definition new_HashIterator :: "('k, 'a) hash_table \<Rightarrow> hash_iter run" where
  "new_HashIterator h = iter_at h 0"

definition HashIterator_IsDone :: "('k, 'a) hash_table \<Rightarrow> hash_iter \<Rightarrow> bool" where
  "HashIterator_IsDone h it \<longleftrightarrow> it_bucket it = numBuckets h"

definition with_iter :: "hash_iter \<Rightarrow> (nat option \<Rightarrow> 'b run) \<Rightarrow> 'b run" where
  "with_iter it k = (case bucketIter it of None \<Rightarrow> Some (Inl Null_dereference) | Some c \<Rightarrow> k c)"

definition HashIterator_Item :: "('k, 'a) hash_table \<Rightarrow> hash_iter \<Rightarrow> 'a run" where
  "HashIterator_Item h it =
     assertR (\<not> HashIterator_IsDone h it)
       (bindR (bucket_of (buckets h) (it_bucket it)) (\<lambda>l. with_iter it (iter_Item l)))"

definition HashIterator_Next :: "('k, 'a) hash_table \<Rightarrow> hash_iter \<Rightarrow> hash_iter run" where
  "HashIterator_Next h it =
     bindR (bucket_of (buckets h) (it_bucket it)) (\<lambda>l.
     with_iter it (\<lambda>c.
     bindR (iter_Next l c) (\<lambda>c.
     if iter_IsDone c then iter_at h (it_bucket it + 1) else Some (Inr (it\<lparr>bucketIter := Some c\<rparr>)))))"

text \<open>A loop \<^verbatim>\<open>for (; !it->IsDone(); it->Next())\<close> that visits every item.\<close>

partial_function (option) iterate :: "('k, 'a) hash_table \<Rightarrow> ('a \<Rightarrow> 's \<Rightarrow> 's) \<Rightarrow> hash_iter \<Rightarrow> 's \<Rightarrow> 's run" where
  "iterate h f it s =
     (if HashIterator_IsDone h it then Some (Inr s)
      else bindR (HashIterator_Item h it) (\<lambda>x.
           bindR (HashIterator_Next h it) (\<lambda>it. iterate h f it (f x s))))"

section \<open>Self test\<close>

text \<open>The body of the first loop is \<^verbatim>\<open>ASSERTNOTREACHED\<close>.\<close>

definition Hash_SelfTest :: "('k, 'a) hash_table \<Rightarrow> 'a list \<Rightarrow> ('k, 'a) hash_table run" where
  "Hash_SelfTest h ps =
     bindR (new_HashIterator h) (\<lambda>it.
     bindR (Hash_SanityCheck h) (\<lambda>_.
     assertR (Hash_IsEmpty h)
    (assertR (HashIterator_IsDone h it)
    (bindR (forR (\<lambda>x h. bindR (Hash_Insert x h) (\<lambda>h.
              bindR (IsInTable h (getKey h x)) (\<lambda>b. assertR b (assertR (\<not> Hash_IsEmpty h) (Some (Inr h)))))) ps h) (\<lambda>h.
     bindR (forR (\<lambda>x h. bindR (Hash_Remove (getKey h x) h) (\<lambda>(y, h). assertR (y = x) (Some (Inr h)))) ps h) (\<lambda>h.
     assertR (Hash_IsEmpty h) (bindR (Hash_SanityCheck h) (\<lambda>_. Some (Inr h)))))))))"

section \<open>Loops\<close>

lemma forR_upto:
  assumes "P 0 s" and step: "\<And>i s. i < n \<Longrightarrow> P i s \<Longrightarrow> \<exists>s'. f (int i) s = Some (Inr s') \<and> P (Suc i) s'"
  shows "\<exists>s'. forR f [0..int n - 1] s = Some (Inr s') \<and> P n s'"
proof -
  have len: "length [0..int n - 1] = n" by simp
  have "\<exists>s'. forR f [0..int n - 1] s = Some (Inr s') \<and> P (length [0..int n - 1]) s'"
  proof (rule forR_rule [where P = "\<lambda>pre. P (length pre)"])
    show "P (length []) s" using assms(1) by simp
    fix pre i post s assume split: "[0..int n - 1] = pre @ i # post" and P: "P (length pre) s"
    have l: "length pre < n" using arg_cong [OF split, of length] len by simp
    moreover have "i = int (length pre)" using arg_cong [OF split, of "\<lambda>xs. xs ! length pre"] l by (simp add: nth_append)
    ultimately show "\<exists>s'. f i s = Some (Inr s') \<and> P (length (pre @ [i])) s'" using step [OF l P] by simp
  qed
  then show ?thesis unfolding len .
qed

lemma find_loop_chain:
  "chain (heap l) current as xs None \<Longrightarrow> find_loop get l key current = Some (Inr (List.find (\<lambda>x. key = get x) xs))"
proof (induction xs arbitrary: current as)
  case Nil
  then have "current = None" by (cases as) auto
  then show ?case by (subst find_loop.simps) (simp add: iter_IsDone_def)
next
  case (Cons x xs)
  then obtain a as' n where c: "current = Some a" "heap l a = Some \<lparr>item = x, el_next = n\<rparr>" "chain (heap l) n as' xs None"
    by (cases as) auto
  then show ?case using Cons.IH [OF c(3)]
    by (subst find_loop.simps) (simp add: iter_IsDone_def iter_Item_def iter_Next_def deref_def)
qed

lemma check_loop_chain:
  "chain (heap l) current as xs None \<Longrightarrow> \<forall>x\<in>set xs. HashValue h (getKey h x) = Some (Inr i) \<Longrightarrow>
    check_loop h i l current = Some (Inr ())"
proof (induction xs arbitrary: current as)
  case Nil
  then have "current = None" by (cases as) auto
  then show ?case by (subst check_loop.simps) (simp add: iter_IsDone_def)
next
  case (Cons x xs)
  then obtain a as' n where c: "current = Some a" "heap l a = Some \<lparr>item = x, el_next = n\<rparr>" "chain (heap l) n as' xs None"
    by (cases as) auto
  then show ?case using Cons.IH [OF c(3)] Cons.prems(2)
    by (subst check_loop.simps) (simp add: iter_IsDone_def iter_Item_def iter_Next_def deref_def)
qed

lemma concat_update:
  assumes "i < length xss"
  shows "concat (xss[i := ys]) = concat (take i xss) @ ys @ concat (drop (Suc i) xss)"
    "concat xss = concat (take i xss) @ (xss ! i) @ concat (drop (Suc i) xss)"
proof -
  have eq: "concat (xss[i := zs]) = concat (take i xss) @ zs @ concat (drop (Suc i) xss)" for zs
    using assms by (simp add: upd_conv_take_nth_drop)
  show "concat (xss[i := ys]) = concat (take i xss) @ ys @ concat (drop (Suc i) xss)" by (rule eq)
  show "concat xss = concat (take i xss) @ (xss ! i) @ concat (drop (Suc i) xss)" using eq [of "xss ! i"] by simp
qed

section \<open>The contents of a table\<close>

definition slot :: "('k, 'a) hash_table \<Rightarrow> 'k \<Rightarrow> nat" where
  "slot h key = unat (hash h key) mod nat (numBuckets h)"

definition bucket_rep :: "('k, 'a) hash_table \<Rightarrow> 'a list list \<Rightarrow> bool" where
  "bucket_rep h xss \<longleftrightarrow> 0 < numBuckets h \<and> numBuckets h < 2 ^ 31 \<and> length xss = nat (numBuckets h) \<and>
     list_all2 holds (buckets h) xss \<and> (\<forall>i < length xss. \<forall>x\<in>set (xss ! i). slot h (getKey h x) = i) \<and>
     inj_on (getKey h) (set (concat xss))"

text \<open>A table in its normal state also counts its items, and is at most three items per bucket full.\<close>

definition hash_rep :: "('k, 'a) hash_table \<Rightarrow> 'a list list \<Rightarrow> bool" where
  "hash_rep h xss \<longleftrightarrow> bucket_rep h xss \<and> numItems h = int (length (concat xss)) \<and> numItems h \<le> ResizeRatio * numBuckets h"

definition same_functions :: "('k, 'a) hash_table \<Rightarrow> ('k, 'a) hash_table \<Rightarrow> bool" where
  "same_functions h' h \<longleftrightarrow> getKey h' = getKey h \<and> hash h' = hash h"

lemma HashValue_slot:
  assumes "0 < numBuckets h" "numBuckets h < 2 ^ 31"
  shows "HashValue h key = Some (Inr (int (slot h key)))" "slot h key < nat (numBuckets h)"
proof -
  let ?n = "numBuckets h" and ?w = "hash h key"
  have n: "uint (word_of_int ?n :: u32) = ?n" using assms by (simp add: uint_word_of_int)
  then have nz: "(word_of_int ?n :: u32) \<noteq> 0" using assms(1) by (metis less_irrefl uint_0_eq)
  have u: "uint (?w mod word_of_int ?n) = uint ?w mod ?n" by (simp add: uint_mod n)
  have r: "0 \<le> uint ?w mod ?n" "uint ?w mod ?n < ?n" using assms(1) by simp_all
  have "sint (?w mod word_of_int ?n) = signed_take_bit 31 (uint ?w mod ?n)" by (simp add: sint_uint u)
  also have "\<dots> = uint ?w mod ?n" using r assms(2) by (intro signed_take_bit_int_eq_self) auto
  finally have s: "sint (?w mod word_of_int ?n) = uint ?w mod ?n" .
  have sl: "int (slot h key) = uint ?w mod ?n" using assms(1) by (simp add: slot_def zmod_int)
  then show "HashValue h key = Some (Inr (int (slot h key)))" using r nz by (simp add: HashValue_def s)
  show "slot h key < nat ?n" using assms(1) by (simp add: slot_def)
qed

lemma bucket_repD:
  assumes "bucket_rep h xss"
  shows "HashValue h key = Some (Inr (int (slot h key)))" "slot h key < length xss" "length (buckets h) = length xss"
    "i < length xss \<Longrightarrow> holds (buckets h ! i) (xss ! i)" "numBuckets h = int (length xss)"
    "i < length xss \<Longrightarrow> bucket_of (buckets h) (int i) = Some (Inr (buckets h ! i))"
    "i < length xss \<Longrightarrow> x \<in> set (xss ! i) \<Longrightarrow> slot h (getKey h x) = i"
  using assms HashValue_slot [of h key]
  by (auto simp: bucket_rep_def list_all2_conv_all_nth bucket_of_def)

lemma item_bucket:
  assumes "bucket_rep h xss"
  shows "x \<in> set (concat xss) \<longleftrightarrow> x \<in> set (xss ! slot h (getKey h x))"
proof
  assume "x \<in> set (concat xss)"
  then obtain i where "i < length xss" "x \<in> set (xss ! i)" by (metis UN_E in_set_conv_nth set_concat)
  with bucket_repD(7) [OF assms] show "x \<in> set (xss ! slot h (getKey h x))" by auto
next
  assume "x \<in> set (xss ! slot h (getKey h x))"
  with bucket_repD(2) [OF assms] show "x \<in> set (concat xss)" by (metis UN_I nth_mem set_concat)
qed

lemma Find_rep:
  assumes "bucket_rep h xss"
  shows "\<exists>r. FindInBucket h (int (slot h key)) key = Some (Inr r) \<and> Find h key = Some (Inr r) \<and>
    IsInTable h key = Some (Inr (key \<in> getKey h ` set (concat xss))) \<and>
    (\<forall>x. r = Some x \<longleftrightarrow> x \<in> set (concat xss) \<and> getKey h x = key)"
proof -
  let ?xs = "xss ! slot h key" and ?l = "buckets h ! slot h key"
  define r where "r = List.find (\<lambda>x. key = getKey h x) ?xs"
  note d = bucket_repD [OF assms]
  obtain as where "chain (heap ?l) (l_first ?l) as ?xs None" 
    using d(4) [OF d(2), of key] by (auto simp: holds_def list_rep_def)
  then have f: "FindInBucket h (int (slot h key)) key = Some (Inr r)"
    using find_loop_chain by (simp add: FindInBucket_def d(6) [OF d(2)] iter_start_def r_def)
  then have F: "Find h key = Some (Inr r)" by (simp add: Find_def d(1))
  have inj: "inj_on (getKey h) (set (concat xss))" using assms by (simp add: bucket_rep_def)
  have spec: "r = Some x \<longleftrightarrow> x \<in> set (concat xss) \<and> getKey h x = key" for x
  proof
    assume "r = Some x"
    then have x: "x \<in> set ?xs" "getKey h x = key" by (auto simp: r_def find_Some_iff)
    then show "x \<in> set (concat xss) \<and> getKey h x = key" using item_bucket [OF assms, of x] by simp
  next
    assume x: "x \<in> set (concat xss) \<and> getKey h x = key"
    then have "x \<in> set ?xs" using item_bucket [OF assms, of x] by simp
    then obtain y where y: "r = Some y" using x by (cases r) (auto simp: r_def find_None_iff)
    then have "y \<in> set ?xs" "getKey h y = key" by (auto simp: r_def find_Some_iff)
    then have "y = x" using x item_bucket [OF assms, of y] inj_onD [OF inj, of y x] by simp
    with y show "r = Some x" by simp
  qed
  have "r \<noteq> None \<longleftrightarrow> (\<exists>x. r = Some x)" by simp
  also have "\<dots> \<longleftrightarrow> key \<in> getKey h ` set (concat xss)" unfolding spec by blast
  finally have "r \<noteq> None \<longleftrightarrow> key \<in> getKey h ` set (concat xss)" .
  with f F spec show ?thesis by (auto simp: IsInTable_def)
qed

text \<open>A change of one bucket.\<close>

lemma bucket_rep_update:
  assumes rep: "bucket_rep h xss" and i: "i < length xss" and l: "holds l ys"
    and ys: "\<forall>x\<in>set ys. slot h (getKey h x) = i" "inj_on (getKey h) (set (concat (xss[i := ys])))"
  shows "bucket_rep (h\<lparr>buckets := (buckets h)[i := l]\<rparr>) (xss[i := ys])"
proof -
  have "list_all2 holds ((buckets h)[i := l]) (xss[i := ys])"
    using rep l by (intro list_all2_update_cong) (auto simp: bucket_rep_def)
  moreover have "\<forall>j < length (xss[i := ys]). \<forall>x\<in>set (xss[i := ys] ! j). slot h (getKey h x) = j"
    using bucket_repD(7) [OF rep] ys(1) i by (auto simp: nth_list_update split: if_splits)
  ultimately show ?thesis using rep ys(2) by (simp add: bucket_rep_def slot_def)
qed

lemma put_item_rep:
  assumes rep: "bucket_rep h xss" and new: "getKey h x \<notin> getKey h ` set (concat xss)"
  shows "\<exists>h' xss'. put_item x h = Some (Inr h') \<and> bucket_rep h' xss' \<and> set (concat xss') = insert x (set (concat xss)) \<and>
    length (concat xss') = Suc (length (concat xss)) \<and> (\<exists>bs. h' = h\<lparr>buckets := bs\<rparr>)"
proof -
  let ?i = "slot h (getKey h x)"
  note d = bucket_repD [OF rep]
  let ?xs = "xss ! ?i"
  have "x \<notin> set (concat xss)" using new by blast
  then have "x \<notin> set ?xs" using item_bucket [OF rep, of x] by simp
  then obtain l where l: "Append (buckets h ! ?i) x = Some (Inr l)" "holds l (?xs @ [x])"
    using Append_holds [OF d(4) [OF d(2)]] by blast
  have "set (concat (xss[?i := ?xs @ [x]])) = insert x (set (concat xss))"
    "length (concat (xss[?i := ?xs @ [x]])) = Suc (length (concat xss))"
    unfolding concat_update(1) [OF d(2)] concat_update(2) [OF d(2) [of "getKey h x"]] by auto
  moreover from this(1) have "inj_on (getKey h) (set (concat (xss[?i := ?xs @ [x]])))"
    using rep new by (auto simp: bucket_rep_def)
  then have "bucket_rep (h\<lparr>buckets := (buckets h)[?i := l]\<rparr>) (xss[?i := ?xs @ [x]])"
    using d(7) [OF d(2)] by (intro bucket_rep_update [OF rep d(2) l(2)]) auto
  moreover have "put_item x h = Some (Inr (h\<lparr>buckets := (buckets h)[?i := l]\<rparr>))"
    using l(1) by (simp add: put_item_def d(1) d(6) [OF d(2)])
  ultimately show ?thesis by blast
qed

lemma move_loop_rep:
  assumes "holds l ys" "bucket_rep h xss" "getKey h ` set ys \<inter> getKey h ` set (concat xss) = {}" "inj_on (getKey h) (set ys)"
  shows "\<exists>h' xss'. move_loop l h = Some (Inr h') \<and> bucket_rep h' xss' \<and> set (concat xss') = set ys \<union> set (concat xss) \<and>
    length (concat xss') = length ys + length (concat xss) \<and> (\<exists>bs. h' = h\<lparr>buckets := bs\<rparr>)"
  using assms
proof (induction ys arbitrary: l h xss)
  case Nil
  then have "move_loop l h = Some (Inr h)" by (subst move_loop.simps) (simp add: IsEmpty_holds)
  moreover have "h = h\<lparr>buckets := buckets h\<rparr>" by simp
  ultimately show ?case using Nil.prems(2) by (metis Un_empty_left add_0 list.set(1) list.size(3))
next
  case (Cons y ys)
  obtain l1 where l1: "RemoveFront l = Some (Inr (y, l1))" "holds l1 ys" using RemoveFront_holds [OF Cons.prems(1)] by blast
  have y: "getKey h y \<notin> getKey h ` set (concat xss)" using Cons.prems(3) by auto
  obtain h1 xss1 bs where h1: "put_item y h = Some (Inr h1)" "bucket_rep h1 xss1" "set (concat xss1) = insert y (set (concat xss))"
    "length (concat xss1) = Suc (length (concat xss))" "h1 = h\<lparr>buckets := bs\<rparr>" using put_item_rep [OF Cons.prems(2) y] by blast
  have k: "getKey h1 = getKey h" using h1(5) by simp
  have "y \<notin> set ys" using holds_distinct [OF Cons.prems(1)] by simp
  then have "getKey h y \<notin> getKey h ` set ys" using Cons.prems(4) by (auto simp: inj_on_def)
  then have "getKey h1 ` set ys \<inter> getKey h1 ` set (concat xss1) = {}" using Cons.prems(3) unfolding k h1(3) by auto
  moreover have "inj_on (getKey h1) (set ys)" using Cons.prems(4) by (simp add: k)
  ultimately obtain h2 xss2 bs2 where h2: "move_loop l1 h1 = Some (Inr h2)" "bucket_rep h2 xss2"
    "set (concat xss2) = set ys \<union> set (concat xss1)" "length (concat xss2) = length ys + length (concat xss1)" "h2 = h1\<lparr>buckets := bs2\<rparr>"
    using Cons.IH [OF l1(2) h1(2)] by blast
  have "move_loop l h = Some (Inr h2)"
    using l1(1) h1(1) h2(1) Cons.prems(1) by (subst move_loop.simps) (simp add: IsEmpty_holds)
  moreover have "set (concat xss2) = set (y # ys) \<union> set (concat xss)" using h2(3) h1(3) by auto
  moreover have "length (concat xss2) = length (y # ys) + length (concat xss)" using h2(4) h1(4) by simp
  moreover have "h2 = h\<lparr>buckets := bs2\<rparr>" using h2(5) h1(5) by simp
  ultimately show ?case using h2(2) by blast
qed

lemma SanityCheck_holds: "holds l xs \<Longrightarrow> SanityCheck l = Some (Inr ()) \<and> numInList l = int (length xs)"
  using SanityCheck_rep by (auto simp: holds_def list_rep_def)

lemma Hash_SanityCheck_rep:
  assumes rep: "bucket_rep h xss" and n: "numItems h = int (length (concat xss))"
  shows "Hash_SanityCheck h = Some (Inr ())"
proof -
  note d = bucket_repD [OF rep]
  let ?body = "\<lambda>i numFound.
              bindR (bucket_of (buckets h) i) (\<lambda>l.
              bindR (SanityCheck l) (\<lambda>_.
              bindR (check_loop h i l (iter_start l)) (\<lambda>_. Some (Inr (numFound + numInList l)))))"
  have "\<exists>s'. forR ?body [0..int (length xss) - 1] 0 = Some (Inr s') \<and> s' = int (length (concat (take (length xss) xss)))"
  proof (rule forR_upto [where P = "\<lambda>i s. s = int (length (concat (take i xss)))"])
    show "0 = int (length (concat (take 0 xss)))" by simp
    fix i s assume i: "i < length xss" and s: "s = int (length (concat (take i xss)))"
    obtain as where "chain (heap (buckets h ! i)) (l_first (buckets h ! i)) as (xss ! i) None"
      using d(4) [OF i] by (auto simp: holds_def list_rep_def)
    then have "check_loop h (int i) (buckets h ! i) (iter_start (buckets h ! i)) = Some (Inr ())"
      unfolding iter_start_def using d(1) d(7) [OF i] by (intro check_loop_chain) auto
    with i s d(6) [OF i] SanityCheck_holds [OF d(4) [OF i]]
    show "\<exists>s'. ?body (int i) s = Some (Inr s') \<and> s' = int (length (concat (take (Suc i) xss)))"
      by (simp add: take_Suc_conv_app_nth)
  qed
  then show ?thesis using n by (simp add: Hash_SanityCheck_def d(5))
qed

lemma DeleteBuckets_ok: "DeleteBuckets table (int (length table)) = Some (Inr ())"
  using forR_upto [of "\<lambda>_ _. True" "()" "length table" "\<lambda>i _. bindR (bucket_of table i) (\<lambda>_. Some (Inr ()))"]
  by (simp add: DeleteBuckets_def bucket_of_def)

lemma earlier_buckets_disjoint:
  assumes rep: "bucket_rep h xss" and i: "i < length xss"
  shows "getKey h ` set (xss ! i) \<inter> getKey h ` set (concat (take i xss)) = {}"
proof -
  have False if x: "x \<in> set (xss ! i)" and y: "y \<in> set (concat (take i xss))" and eq: "getKey h x = getKey h y" for x y
  proof -
    from y obtain ys where "ys \<in> set (take i xss)" "y \<in> set ys" by auto
    then obtain j where "j < length (take i xss)" "y \<in> set (take i xss ! j)" by (metis in_set_conv_nth)
    then have "j < i" "y \<in> set (xss ! j)" using i by auto
    with bucket_repD(7) [OF rep, of j y] bucket_repD(7) [OF rep i x] i eq show False by simp
  qed
  then show ?thesis by blast
qed

lemma empty_buckets_rep: "0 < n \<Longrightarrow> n < 2 ^ 31 \<Longrightarrow>
    bucket_rep (h\<lparr>numBuckets := n, buckets := replicate (nat n) new_List\<rparr>) (replicate (nat n) [])"
  using new_List_holds by (auto simp: bucket_rep_def list_all2_conv_all_nth)

lemma ReHash_rep:
  assumes rep: "bucket_rep h xss" and n: "numItems h = int (length (concat xss))" and small: "numBuckets h < 2 ^ 29"
  shows "\<exists>h' xss'. ReHash h = Some (Inr h') \<and> bucket_rep h' xss' \<and> set (concat xss') = set (concat xss) \<and>
    length (concat xss') = length (concat xss) \<and> (\<exists>bs. h' = h\<lparr>numBuckets := 4 * numBuckets h, buckets := bs\<rparr>)"
proof -
  note d = bucket_repD [OF rep]
  have pos: "0 < numBuckets h" using rep by (simp add: bucket_rep_def)
  have m: "mul32 (numBuckets h) 4 = 4 * numBuckets h"
  proof -
    have "sint (word_of_int (numBuckets h * 4) :: u32) = signed_take_bit 31 (numBuckets h * 4)" by (simp only: sint_sbintrunc') simp
    also have "\<dots> = numBuckets h * 4" using pos small by (intro signed_take_bit_int_eq_self) auto
    finally show ?thesis by (simp add: mul32_def)
  qed
  define h1 where "h1 = h\<lparr>numBuckets := 4 * numBuckets h, buckets := replicate (nat (4 * numBuckets h)) new_List\<rparr>"
  have h1: "bucket_rep h1 (replicate (nat (4 * numBuckets h)) [])"
    unfolding h1_def by (rule empty_buckets_rep) (use pos small in auto)
  let ?P = "\<lambda>i h'. \<exists>xss' bs. h' = h1\<lparr>buckets := bs\<rparr> \<and> bucket_rep h' xss' \<and> set (concat xss') = set (concat (take i xss)) \<and>
      length (concat xss') = length (concat (take i xss))"
  have "\<exists>h'. forR (\<lambda>i h. bindR (bucket_of (buckets h0) i) (\<lambda>l. move_loop l h)) [0..int (length xss) - 1] h1 = Some (Inr h') \<and> ?P (length xss) h'"
    if h0: "h0 = h" for h0
  proof (rule forR_upto [where P = ?P])
    have "h1 = h1\<lparr>buckets := buckets h1\<rparr>" by simp
    with h1 show "?P 0 h1" by (metis concat_replicate_trivial take_0 concat.simps(1))
    fix i h' assume i: "i < length xss" and "?P i h'"
    then obtain xss' bs where P: "h' = h1\<lparr>buckets := bs\<rparr>" "bucket_rep h' xss'" "set (concat xss') = set (concat (take i xss))"
      "length (concat xss') = length (concat (take i xss))" by blast
    have k: "getKey h' = getKey h" using P(1) by (simp add: h1_def)
    have "getKey h' ` set (xss ! i) \<inter> getKey h' ` set (concat xss') = {}"
      unfolding k P(3) by (rule earlier_buckets_disjoint [OF rep i])
    moreover have "inj_on (getKey h') (set (xss ! i))"
    proof -
      have "inj_on (getKey h) (set (concat xss))" using rep by (simp add: bucket_rep_def)
      moreover have "set (xss ! i) \<subseteq> set (concat xss)" using nth_mem [OF i] by auto
      ultimately show ?thesis unfolding k by (rule inj_on_subset)
    qed
    ultimately obtain h2 xss2 bs2 where m: "move_loop (buckets h ! i) h' = Some (Inr h2)" "bucket_rep h2 xss2"
      "set (concat xss2) = set (xss ! i) \<union> set (concat xss')" "length (concat xss2) = length (xss ! i) + length (concat xss')"
      "h2 = h'\<lparr>buckets := bs2\<rparr>" using move_loop_rep [OF d(4) [OF i] P(2)] by blast
    have "set (concat xss2) = set (concat (take (Suc i) xss))" "length (concat xss2) = length (concat (take (Suc i) xss))"
      using m(3,4) P(3,4) i by (auto simp: take_Suc_conv_app_nth)
    moreover have "h2 = h1\<lparr>buckets := bs2\<rparr>" using m(5) P(1) by simp
    ultimately have "?P (Suc i) h2" using m(2) by blast
    with m(1) d(6) [OF i] show "\<exists>s'. bindR (bucket_of (buckets h0) (int i)) (\<lambda>l. move_loop l h') = Some (Inr s') \<and> ?P (Suc i) s'"
      by (simp add: h0)
  qed
  from this [OF refl] obtain h' xss' bs where l:
    "forR (\<lambda>i h'. bindR (bucket_of (buckets h) i) (\<lambda>l. move_loop l h')) [0..int (length xss) - 1] h1 = Some (Inr h')"
    "h' = h1\<lparr>buckets := bs\<rparr>" "bucket_rep h' xss'" "set (concat xss') = set (concat xss)" "length (concat xss') = length (concat xss)"
    by auto
  have "numItems h' = int (length (concat xss'))" using l(2,5) n by (simp add: h1_def)
  then have "Hash_SanityCheck h' = Some (Inr ())" by (rule Hash_SanityCheck_rep [OF l(3)])
  moreover have "InitBuckets (mul32 (numBuckets h) 4) h = Some (Inr h1)" using pos by (simp add: InitBuckets_def m h1_def)
  ultimately have "ReHash h = Some (Inr h')"
    using Hash_SanityCheck_rep [OF rep n] l(1) DeleteBuckets_ok [of "buckets h"] d(3,5) by (simp add: ReHash_def)
  moreover have "h' = h\<lparr>numBuckets := 4 * numBuckets h, buckets := bs\<rparr>" using l(2) by (simp add: h1_def)
  ultimately show ?thesis using l(3-5) by blast
qed

text \<open>The items of a table in its normal state.\<close>

definition table_holds :: "('k, 'a) hash_table \<Rightarrow> 'a set \<Rightarrow> bool" where
  "table_holds h S \<longleftrightarrow> (\<exists>xss. hash_rep h xss \<and> S = set (concat xss))"

lemma table_holdsE:
  assumes "table_holds h S"
  obtains xss where "bucket_rep h xss" "S = set (concat xss)" "numItems h = int (length (concat xss))"
    "numItems h \<le> 3 * numBuckets h" "0 < numBuckets h"
proof -
  obtain xss where "hash_rep h xss" "S = set (concat xss)" using assms by (auto simp: table_holds_def)
  moreover from this have "0 < numBuckets h" by (simp add: hash_rep_def bucket_rep_def)
  ultimately show thesis using that [of xss] by (simp add: hash_rep_def)
qed

lemma table_holdsI:
  "bucket_rep h xss \<Longrightarrow> numItems h = int (length (concat xss)) \<Longrightarrow> numItems h \<le> 3 * numBuckets h \<Longrightarrow>
    S = set (concat xss) \<Longrightarrow> table_holds h S"
  by (auto simp: table_holds_def hash_rep_def)

lemma IsInTable_holds:
  assumes "table_holds h S"
  shows "IsInTable h key = Some (Inr (key \<in> getKey h ` S))"
proof -
  from assms obtain xss where x: "bucket_rep h xss" "S = set (concat xss)" by (rule table_holdsE)
  show ?thesis using Find_rep [OF x(1), of key] unfolding x(2) by blast
qed

lemma bucket_rep_numItems: "bucket_rep (h\<lparr>numItems := n\<rparr>) xss = bucket_rep h xss"
  by (simp add: bucket_rep_def slot_def)

lemma div_ge_iff:
  assumes "0 < b"
  shows "c \<le> a div b \<longleftrightarrow> c * b \<le> (a :: int)"
proof
  assume "c \<le> a div b"
  then have "c * b \<le> a div b * b" using assms by (intro mult_right_mono) auto
  then have "c * b \<le> a - a mod b" by (simp add: minus_mod_eq_div_mult)
  then show "c * b \<le> a" using pos_mod_sign [OF assms, of a] by linarith
next
  assume "c * b \<le> a"
  then show "c \<le> a div b" using zdiv_mono1 [of "c * b" a b] assms by simp
qed

text \<open>Growing the table when it is full leaves room for one more item.\<close>

lemma make_room:
  assumes h: "table_holds h S" and small: "numBuckets h < 2 ^ 29"
  shows "\<exists>h' xss. (if cdiv (numItems h) (numBuckets h) \<ge> 3 then ReHash h else Some (Inr h)) = Some (Inr h') \<and>
    bucket_rep h' xss \<and> set (concat xss) = S \<and> numItems h' = int (length (concat xss)) \<and>
    numItems h' = numItems h \<and> numItems h' + 1 \<le> 3 * numBuckets h' \<and> same_functions h' h \<and>
    numBuckets h' = (if 3 * numBuckets h \<le> numItems h then 4 * numBuckets h else numBuckets h)"
proof -
  from h obtain xss where x: "bucket_rep h xss" "S = set (concat xss)" "numItems h = int (length (concat xss))"
    "numItems h \<le> 3 * numBuckets h" "0 < numBuckets h" by (rule table_holdsE)
  have full: "cdiv (numItems h) (numBuckets h) \<ge> 3 \<longleftrightarrow> 3 * numBuckets h \<le> numItems h"
    using x(3,5) by (simp add: div_ge_iff)
  show ?thesis
  proof (cases "3 * numBuckets h \<le> numItems h")
    case True
    from ReHash_rep [OF x(1,3) small] obtain h' xss' bs where r: "ReHash h = Some (Inr h')" "bucket_rep h' xss'"
      "set (concat xss') = S" "length (concat xss') = length (concat xss)" "h' = h\<lparr>numBuckets := 4 * numBuckets h, buckets := bs\<rparr>"
      using x(2) by auto
    then have n: "numItems h' = int (length (concat xss'))" "numItems h' = numItems h" "numBuckets h' = 4 * numBuckets h"
      "same_functions h' h" "numItems h' + 1 \<le> 3 * numBuckets h'" using x(3-5) by (simp_all add: same_functions_def)
    show ?thesis unfolding full using True r(1-3) n by (intro exI [of _ h'] exI [of _ xss']) simp
  next
    case False
    then show ?thesis unfolding full using x by (intro exI [of _ h] exI [of _ xss]) (simp add: same_functions_def)
  qed
qed

lemma Hash_Insert_ok:
  assumes h: "table_holds h S"
  shows "getKey h x \<in> getKey h ` S \<Longrightarrow> Hash_Insert x h = Some (Inl Assertion_failed)"
    and "getKey h x \<notin> getKey h ` S \<Longrightarrow> numBuckets h < 2 ^ 29 \<Longrightarrow>
      \<exists>h'. Hash_Insert x h = Some (Inr h') \<and> table_holds h' (insert x S) \<and> same_functions h' h \<and> numItems h' = numItems h + 1 \<and>
        numBuckets h' = (if 3 * numBuckets h \<le> numItems h then 4 * numBuckets h else numBuckets h)"
proof -
  note inT = IsInTable_holds [OF h, of "getKey h x"]
  then show "getKey h x \<in> getKey h ` S \<Longrightarrow> Hash_Insert x h = Some (Inl Assertion_failed)"
    by (simp add: Hash_Insert_def)
  assume new: "getKey h x \<notin> getKey h ` S" and small: "numBuckets h < 2 ^ 29"
  obtain h1 xss1 where h1: "(if cdiv (numItems h) (numBuckets h) \<ge> 3 then ReHash h else Some (Inr h)) = Some (Inr h1)"
    "bucket_rep h1 xss1" "set (concat xss1) = S" "numItems h1 = int (length (concat xss1))" "numItems h1 = numItems h"
    "numItems h1 + 1 \<le> 3 * numBuckets h1" "same_functions h1 h"
    "numBuckets h1 = (if 3 * numBuckets h \<le> numItems h then 4 * numBuckets h else numBuckets h)"
    using make_room [OF h small] by blast
  have k: "getKey h1 = getKey h" using h1(7) by (simp add: same_functions_def)
  have "getKey h1 x \<notin> getKey h1 ` set (concat xss1)" using new unfolding k h1(3) .
  from put_item_rep [OF h1(2) this] obtain h2 xss2 bs where h2: "put_item x h1 = Some (Inr h2)" "bucket_rep h2 xss2"
    "set (concat xss2) = insert x S" "length (concat xss2) = Suc (length (concat xss1))" "h2 = h1\<lparr>buckets := bs\<rparr>"
    unfolding h1(3) by blast
  define h3 where "h3 = h2\<lparr>numItems := numItems h2 + 1\<rparr>"
  have b3: "bucket_rep h3 xss2" unfolding h3_def bucket_rep_numItems by (rule h2(2))
  have n3: "numItems h3 = numItems h + 1" "numBuckets h3 = numBuckets h1" "same_functions h3 h" "getKey h3 = getKey h"
    using h2(5) h1(5,7) by (simp_all add: h3_def same_functions_def)
  have "table_holds h3 (insert x S)"
    by (rule table_holdsI [OF b3]) (use n3 h1(4-6) h2(3,4) in simp_all)
  moreover have "IsInTable h3 (getKey h x) = Some (Inr True)"
    using Find_rep [OF b3, of "getKey h x"] h2(3) n3(4) by auto
  then have "Hash_Insert x h = Some (Inr h3)"
    unfolding Hash_Insert_def Let_def using inT new h1(1) h2(1) by (simp add: h3_def)
  ultimately show "\<exists>h'. Hash_Insert x h = Some (Inr h') \<and> table_holds h' (insert x S) \<and> same_functions h' h \<and>
      numItems h' = numItems h + 1 \<and>
      numBuckets h' = (if 3 * numBuckets h \<le> numItems h then 4 * numBuckets h else numBuckets h)"
    using n3 h1(8) by (intro exI [of _ h3]) simp
qed

lemma Hash_Remove_ok:
  assumes h: "table_holds h S"
  shows "key \<notin> getKey h ` S \<Longrightarrow> Hash_Remove key h = Some (Inl Assertion_failed)"
    and "x \<in> S \<Longrightarrow> getKey h x = key \<Longrightarrow>
      \<exists>h'. Hash_Remove key h = Some (Inr (x, h')) \<and> table_holds h' (S - {x}) \<and> same_functions h' h \<and>
        numItems h' = numItems h - 1 \<and> numBuckets h' = numBuckets h"
proof -
  from h obtain xss where xs: "bucket_rep h xss" "S = set (concat xss)" "numItems h = int (length (concat xss))"
    "numItems h \<le> 3 * numBuckets h" by (rule table_holdsE)
  note d = bucket_repD [OF xs(1)]
  obtain r where r: "FindInBucket h (int (slot h key)) key = Some (Inr r)" "\<forall>x. r = Some x \<longleftrightarrow> x \<in> S \<and> getKey h x = key"
    using Find_rep [OF xs(1), of key] xs(2) by blast
  show "Hash_Remove key h = Some (Inl Assertion_failed)" if "key \<notin> getKey h ` S"
  proof -
    have "r = None" using r(2) that by (cases r) auto
    with r(1) show ?thesis by (simp add: Hash_Remove_def d(1))
  qed
  assume x: "x \<in> S" "getKey h x = key"
  let ?i = "slot h key"
  let ?ys = "remove1 x (xss ! ?i)"
  have mem: "x \<in> set (xss ! ?i)" using item_bucket [OF xs(1), of x] x xs(2) by simp
  obtain l where l: "Remove (buckets h ! ?i) x = Some (Inr l)" "holds l ?ys"
    using Remove_holds [OF d(4) [OF d(2)] mem] by blast
  have dist: "distinct (xss ! ?i)" by (rule holds_distinct [OF d(4) [OF d(2)]])
  have notin: "x \<notin> set (concat (take ?i xss))" "x \<notin> set (concat (drop (Suc ?i) xss))"
  proof -
    show "x \<notin> set (concat (take ?i xss))" using earlier_buckets_disjoint [OF xs(1) d(2), of key] mem by blast
    show "x \<notin> set (concat (drop (Suc ?i) xss))"
    proof
      assume "x \<in> set (concat (drop (Suc ?i) xss))"
      then obtain ys where "ys \<in> set (drop (Suc ?i) xss)" "x \<in> set ys" by auto
      then obtain j where "j < length (drop (Suc ?i) xss)" "x \<in> set (drop (Suc ?i) xss ! j)" by (metis in_set_conv_nth)
      then have "Suc ?i + j < length xss" "x \<in> set (xss ! (Suc ?i + j))" using d(2) [of key] by (auto simp: nth_drop)
      then show False using d(7) [of "Suc ?i + j" x] x(2) by simp
    qed
  qed
  have set': "set (concat (xss[?i := ?ys])) = S - {x}"
    unfolding xs(2) concat_update(1) [OF d(2)] concat_update(2) [OF d(2) [of key]] using notin dist by auto
  have len': "length (concat (xss[?i := ?ys])) = length (concat xss) - 1" "0 < length (concat xss)"
    unfolding concat_update(1) [OF d(2)] concat_update(2) [OF d(2) [of key]]
    using length_pos_if_in_set [OF mem] mem by (simp_all add: length_remove1 del: length_greater_0_conv)
  have "inj_on (getKey h) (set (concat (xss[?i := ?ys])))"
    unfolding set' using xs(1,2) by (auto simp: bucket_rep_def intro: inj_on_subset)
  moreover have "\<forall>y\<in>set ?ys. slot h (getKey h y) = ?i" using d(7) [OF d(2)] set_remove1_subset [of x "xss ! ?i"] by blast
  ultimately have b: "bucket_rep (h\<lparr>buckets := (buckets h)[?i := l]\<rparr>) (xss[?i := ?ys])"
    by (intro bucket_rep_update [OF xs(1) d(2) l(2)])
  define h' where "h' = h\<lparr>buckets := (buckets h)[?i := l], numItems := numItems h - 1\<rparr>"
  have b': "bucket_rep h' (xss[?i := ?ys])" using b bucket_rep_numItems unfolding h'_def by fastforce
  have n': "getKey h' = getKey h" "numItems h' = numItems h - 1" "numBuckets h' = numBuckets h" "same_functions h' h"
    by (simp_all add: h'_def same_functions_def)
  have c': "numItems h' = int (length (concat (xss[?i := ?ys])))" using n'(2) xs(3) len' by linarith
  have "numItems h' \<le> 3 * numBuckets h'" using n'(2,3) xs(4) by linarith
  then have "table_holds h' (S - {x})" by (rule table_holdsI [OF b' c']) (simp only: set')
  moreover have "key \<notin> getKey h ` (S - {x})" using x xs(1,2) by (auto simp: bucket_rep_def inj_on_def)
  then have "IsInTable h' key = Some (Inr False)" using Find_rep [OF b', of key] unfolding n'(1) set' by auto
  moreover have "r = Some x" using r(2) x by blast
  ultimately show "\<exists>h'. Hash_Remove key h = Some (Inr (x, h')) \<and> table_holds h' (S - {x}) \<and> same_functions h' h \<and>
        numItems h' = numItems h - 1 \<and> numBuckets h' = numBuckets h"
    using r(1) l(1) n'(2-4) d(6) [OF d(2), of key]
    by (intro exI [of _ h']) (simp add: Hash_Remove_def d(1) Let_def flip: h'_def)
qed

section \<open>Iterating over all items\<close>

lemma iter_at_step:
  assumes rep: "bucket_rep h xss" and i: "i < length xss"
  shows "xss ! i = [] \<Longrightarrow> iter_at h (int i) = iter_at h (int (Suc i))"
    and "xss ! i \<noteq> [] \<Longrightarrow> iter_at h (int i) = Some (Inr \<lparr>it_bucket = int i, bucketIter = Some (l_first (buckets h ! i))\<rparr>)"
proof -
  note d = bucket_repD [OF rep]
  have e: "IsEmpty (buckets h ! i) \<longleftrightarrow> xss ! i = []" by (rule IsEmpty_holds [OF d(4) [OF i]])
  have f: "FindNextFullBucket h (int i) = (if xss ! i = [] then FindNextFullBucket h (int (Suc i)) else Some (Inr (int i)))"
    using i d(5,6) e by (subst FindNextFullBucket.simps) (simp add: add.commute)
  show "xss ! i = [] \<Longrightarrow> iter_at h (int i) = iter_at h (int (Suc i))" by (simp add: iter_at_def f)
  show "xss ! i \<noteq> [] \<Longrightarrow> iter_at h (int i) = Some (Inr \<lparr>it_bucket = int i, bucketIter = Some (l_first (buckets h ! i))\<rparr>)"
    using i d(5,6) by (simp add: iter_at_def f iter_start_def)
qed

lemma iterate_bucket:
  assumes rep: "bucket_rep h xss" and i: "i < length xss"
  shows "chain (heap (buckets h ! i)) c as xs None \<Longrightarrow> xs \<noteq> [] \<Longrightarrow>
    iterate h f \<lparr>it_bucket = int i, bucketIter = Some c\<rparr> s = bindR (iter_at h (int (Suc i))) (\<lambda>it. iterate h f it (fold f xs s))"
proof (induction xs arbitrary: c as s)
  case (Cons x xs)
  note d = bucket_repD [OF rep]
  let ?l = "buckets h ! i" and ?it = "\<lambda>c. \<lparr>it_bucket = int i, bucketIter = Some c\<rparr>"
  obtain a as' n where c: "c = Some a" "heap ?l a = Some \<lparr>item = x, el_next = n\<rparr>" "chain (heap ?l) n as' xs None"
    using Cons.prems by (cases as) auto
  have more: "\<not> HashIterator_IsDone h (?it c)" using i d(5) by (simp add: HashIterator_IsDone_def)
  then have it: "HashIterator_Item h (?it c) = Some (Inr x)"
    using d(6) [OF i] c by (simp add: HashIterator_Item_def with_iter_def iter_Item_def iter_IsDone_def deref_def)
  have nx: "HashIterator_Next h (?it c) = (if n = None then iter_at h (int (Suc i)) else Some (Inr (?it n)))"
    using d(6) [OF i] c by (simp add: HashIterator_Next_def with_iter_def iter_Next_def iter_IsDone_def deref_def add.commute)
  have step: "iterate h f (?it c) s = bindR (HashIterator_Next h (?it c)) (\<lambda>it. iterate h f it (f x s))"
    using more it by (subst iterate.simps) simp
  show ?case
  proof (cases xs)
    case Nil
    then have "n = None" using c(3) by (cases as') auto
    with step nx Nil show ?thesis by simp
  next
    case (Cons y ys)
    then have "n \<noteq> None" using c(3) by (cases as') auto
    with step nx Cons Cons.IH [OF c(3)] show ?thesis by simp
  qed
qed simp

lemma iterate_rest:
  assumes rep: "bucket_rep h xss"
  shows "i \<le> length xss \<Longrightarrow>
    bindR (iter_at h (int i)) (\<lambda>it. iterate h f it s) = Some (Inr (fold f (concat (drop i xss)) s))"
proof (induction "length xss - i" arbitrary: i s)
  case 0
  then have "FindNextFullBucket h (int i) = Some (Inr (int i))" "numBuckets h = int i"
    using bucket_repD(5) [OF rep] by (auto simp: FindNextFullBucket.simps)
  moreover have "iterate h f \<lparr>it_bucket = int i, bucketIter = None\<rparr> s = Some (Inr s)"
    using calculation(2) by (subst iterate.simps) (simp add: HashIterator_IsDone_def)
  ultimately show ?case using 0 by (simp add: iter_at_def)
next
  case (Suc n)
  then have i: "i < length xss" by simp
  have IH: "bindR (iter_at h (int (Suc i))) (\<lambda>it. iterate h f it s') = Some (Inr (fold f (concat (drop (Suc i) xss)) s'))" for s'
    using Suc by (intro Suc.hyps(1)) auto
  have drop: "drop i xss = xss ! i # drop (Suc i) xss" using i by (simp add: Cons_nth_drop_Suc)
  show ?case
  proof (cases "xss ! i = []")
    case True
    then show ?thesis using iter_at_step(1) [OF rep i True] IH drop by simp
  next
    case False
    obtain as where "chain (heap (buckets h ! i)) (l_first (buckets h ! i)) as (xss ! i) None"
      using bucket_repD(4) [OF rep i] by (auto simp: holds_def list_rep_def)
    from iterate_bucket [OF rep i this False, of f s] iter_at_step(2) [OF rep i False] IH drop show ?thesis by simp
  qed
qed

lemma iterate_all:
  "bucket_rep h xss \<Longrightarrow> bindR (new_HashIterator h) (\<lambda>it. iterate h f it s) = Some (Inr (fold f (concat xss) s))"
  using iterate_rest [of h xss 0 f s] by (simp add: new_HashIterator_def)

text \<open>No item twice.\<close>

lemma concat_take_distinct:
  assumes rep: "bucket_rep h xss"
  shows "i \<le> length xss \<Longrightarrow> distinct (concat (take i xss))"
proof (induction i)
  case (Suc i)
  then have i: "i < length xss" by simp
  have "set (xss ! i) \<inter> set (concat (take i xss)) = {}" using earlier_buckets_disjoint [OF rep i] by blast
  moreover have "distinct (xss ! i)" by (rule holds_distinct [OF bucket_repD(4) [OF rep i]])
  ultimately show ?case using Suc by (simp add: take_Suc_conv_app_nth [OF i]) blast
qed simp

lemma table_distinct: "bucket_rep h xss \<Longrightarrow> distinct (concat xss)"
  using concat_take_distinct [of h xss "length xss"] by simp

lemma table_count: "table_holds h S \<Longrightarrow> finite S \<and> numItems h = int (card S)"
  by (erule table_holdsE) (simp only: table_distinct distinct_card finite_set)

section \<open>The self test\<close>

lemma new_HashTable_holds:
  "\<exists>h. new_HashTable get hFunc = Some (Inr h) \<and> table_holds h {} \<and> getKey h = get \<and> hash h = hFunc \<and> numBuckets h = 4"
proof -
  define h0 where "h0 = \<lparr>buckets = [], numBuckets = 0, numItems = 0, getKey = get, hash = hFunc\<rparr>"
  let ?h = "h0\<lparr>numBuckets := 4, buckets := replicate (nat 4) new_List\<rparr>"
  have "bucket_rep ?h (replicate (nat 4) [])" by (rule empty_buckets_rep) simp_all
  then have "table_holds ?h {}" by (rule table_holdsI) (simp_all add: h0_def)
  then show ?thesis by (auto simp: new_HashTable_def InitBuckets_def h0_def)
qed

lemma insert_all_items:
  assumes h: "table_holds h {}" "numBuckets h = 4" and ps: "inj_on (getKey h) (set ps)" "distinct ps" "length ps < 2 ^ 27"
  shows "\<exists>h'. forR (\<lambda>x h. bindR (Hash_Insert x h) (\<lambda>h.
      bindR (IsInTable h (getKey h x)) (\<lambda>b. assertR b (assertR (\<not> Hash_IsEmpty h) (Some (Inr h)))))) ps h = Some (Inr h') \<and>
    table_holds h' (set ps) \<and> same_functions h' h"
proof -
  let ?P = "\<lambda>pre h'. table_holds h' (set pre) \<and> same_functions h' h \<and> numBuckets h' \<le> 4 + 2 * int (length ps)"
  have "\<exists>h'. forR (\<lambda>x h. bindR (Hash_Insert x h) (\<lambda>h.
      bindR (IsInTable h (getKey h x)) (\<lambda>b. assertR b (assertR (\<not> Hash_IsEmpty h) (Some (Inr h)))))) ps h = Some (Inr h') \<and> ?P ps h'"
  proof (rule forR_rule [where P = ?P])
    show "?P [] h" using h by (simp add: same_functions_def)
    fix pre x post h1 assume split: "ps = pre @ x # post" and P: "?P pre h1"
    have k: "getKey h1 = getKey h" using P by (simp add: same_functions_def)
    have new: "getKey h1 x \<notin> getKey h1 ` set pre" using ps(1,2) unfolding k split by (auto simp: inj_on_def)
    have n: "numItems h1 \<le> int (length pre)" using table_count [of h1 "set pre"] P card_length [of pre] by simp
    have len: "length pre < length ps" using split by simp
    have "numBuckets h1 < 2 ^ 29" using P ps(3) by simp
    from Hash_Insert_ok(2) [OF _ new this] P obtain h2 where h2: "Hash_Insert x h1 = Some (Inr h2)"
      "table_holds h2 (insert x (set pre))" "same_functions h2 h1"
      "numBuckets h2 = (if 3 * numBuckets h1 \<le> numItems h1 then 4 * numBuckets h1 else numBuckets h1)" by blast
    have b: "numBuckets h2 \<le> 4 + 2 * int (length ps)"
    proof (cases "3 * numBuckets h1 \<le> numItems h1")
      case True
      then have "numBuckets h2 = 4 * numBuckets h1" using h2(4) by simp
      with True n len show ?thesis by linarith
    next
      case False
      then show ?thesis using h2(4) P by simp
    qed
    have "IsInTable h2 (getKey h2 x) = Some (Inr True)" using IsInTable_holds [OF h2(2)] by simp
    moreover have "\<not> Hash_IsEmpty h2" using table_count [OF h2(2)] by (simp add: Hash_IsEmpty_def)
    moreover have "?P (pre @ [x]) h2" using h2(2,3) P b by (simp add: same_functions_def)
    ultimately show "\<exists>h'. bindR (Hash_Insert x h1) (\<lambda>h.
        bindR (IsInTable h (getKey h x)) (\<lambda>b. assertR b (assertR (\<not> Hash_IsEmpty h) (Some (Inr h))))) = Some (Inr h') \<and> ?P (pre @ [x]) h'"
      using h2(1) by simp
  qed
  then show ?thesis by blast
qed

lemma remove_all_items:
  assumes h: "table_holds h (set ps)" and ps: "inj_on (getKey h) (set ps)" "distinct ps"
  shows "\<exists>h'. forR (\<lambda>x h. bindR (Hash_Remove (getKey h x) h) (\<lambda>(y, h). assertR (y = x) (Some (Inr h)))) ps h = Some (Inr h') \<and>
    table_holds h' {}"
proof -
  let ?P = "\<lambda>pre h'. table_holds h' (set ps - set pre) \<and> same_functions h' h"
  have "\<exists>h'. forR (\<lambda>x h. bindR (Hash_Remove (getKey h x) h) (\<lambda>(y, h). assertR (y = x) (Some (Inr h)))) ps h = Some (Inr h') \<and> ?P ps h'"
  proof (rule forR_rule [where P = ?P])
    show "?P [] h" using h by (simp add: same_functions_def)
    fix pre x post h1 assume split: "ps = pre @ x # post" and P: "?P pre h1"
    have "x \<in> set ps - set pre" using ps(2) split by auto
    with Hash_Remove_ok(2) [of h1 "set ps - set pre" x "getKey h1 x"] P obtain h2 where
      h2: "Hash_Remove (getKey h1 x) h1 = Some (Inr (x, h2))" "table_holds h2 (set ps - set pre - {x})" "same_functions h2 h1" by blast
    moreover have "set ps - set pre - {x} = set ps - set (pre @ [x])" by auto
    ultimately show "\<exists>h'. bindR (Hash_Remove (getKey h1 x) h1) (\<lambda>(y, h). assertR (y = x) (Some (Inr h))) = Some (Inr h') \<and> ?P (pre @ [x]) h'"
      using P by (simp add: same_functions_def)
  qed
  then show ?thesis by auto
qed

lemma Hash_SanityCheck_holds: "table_holds h S \<Longrightarrow> Hash_SanityCheck h = Some (Inr ())"
  by (erule table_holdsE) (rule Hash_SanityCheck_rep)

lemma Hash_IsEmpty_holds: "table_holds h S \<Longrightarrow> Hash_IsEmpty h \<longleftrightarrow> S = {}"
  using table_count [of h S] by (auto simp: Hash_IsEmpty_def)

lemma Hash_SelfTest_ok:
  assumes h: "table_holds h {}" "numBuckets h = 4" and ps: "inj_on (getKey h) (set ps)" "distinct ps" "length ps < 2 ^ 27"
  shows "\<exists>h'. Hash_SelfTest h ps = Some (Inr h') \<and> table_holds h' {} \<and> delete_HashTable h' = Some (Inr ())"
proof -
  from h(1) obtain xss where x: "bucket_rep h xss" "{} = set (concat xss)" by (rule table_holdsE)
  note d = bucket_repD [OF x(1)]
  have "iter_at h (int i) = Some (Inr \<lparr>it_bucket = numBuckets h, bucketIter = None\<rparr>)" if "i \<le> length xss" for i
    using that
  proof (induction "length xss - i" arbitrary: i)
    case 0
    then show ?case using d(5) by (simp add: iter_at_def FindNextFullBucket.simps)
  next
    case (Suc n)
    then have i: "i < length xss" by simp
    then have "xss ! i = []" using x(2) nth_mem [OF i] by (metis all_not_in_conv UN_iff list.set_intros(1) neq_Nil_conv set_concat)
    moreover have "iter_at h (int (Suc i)) = Some (Inr \<lparr>it_bucket = numBuckets h, bucketIter = None\<rparr>)"
      using Suc by (intro Suc.hyps(1)) auto
    ultimately show ?case using iter_at_step(1) [OF x(1) i] by simp
  qed
  from this [of 0] have it: "new_HashIterator h = Some (Inr \<lparr>it_bucket = numBuckets h, bucketIter = None\<rparr>)"
    by (simp add: new_HashIterator_def)
  obtain h1 where h1: "forR (\<lambda>x h. bindR (Hash_Insert x h) (\<lambda>h.
      bindR (IsInTable h (getKey h x)) (\<lambda>b. assertR b (assertR (\<not> Hash_IsEmpty h) (Some (Inr h)))))) ps h = Some (Inr h1)"
    "table_holds h1 (set ps)" "same_functions h1 h" using insert_all_items [OF h ps] by blast
  have "inj_on (getKey h1) (set ps)" using ps(1) h1(3) by (simp add: same_functions_def)
  from remove_all_items [OF h1(2) this ps(2)] obtain h2 where
    h2: "forR (\<lambda>x h. bindR (Hash_Remove (getKey h x) h) (\<lambda>(y, h). assertR (y = x) (Some (Inr h)))) ps h1 = Some (Inr h2)"
      "table_holds h2 {}" by blast
  have "Hash_SelfTest h ps = Some (Inr h2)"
    unfolding Hash_SelfTest_def it using h1(1) h2 Hash_SanityCheck_holds [OF h(1)] Hash_SanityCheck_holds [OF h2(2)]
      Hash_IsEmpty_holds [OF h(1)] Hash_IsEmpty_holds [OF h2(2)] by (simp add: HashIterator_IsDone_def)
  moreover have "delete_HashTable h2 = Some (Inr ())"
  proof -
    from h2(2) obtain yss where "bucket_rep h2 yss" by (rule table_holdsE)
    then have "numBuckets h2 = int (length (buckets h2))" using bucket_repD(3,5) by metis
    then show ?thesis using Hash_IsEmpty_holds [OF h2(2)] DeleteBuckets_ok [of "buckets h2"] by (simp add: delete_HashTable_def)
  qed
  ultimately show ?thesis using h2(2) by blast
qed

section \<open>Properties\<close>

lemma Apply_loop_chain: "chain (heap l) ptr as xs None \<Longrightarrow> Apply_loop l ptr f s = Some (Inr (fold f xs s))"
proof (induction xs arbitrary: ptr as s)
  case Nil
  then have "ptr = None" by (cases as) auto
  then show ?case by (subst Apply_loop.simps) simp
next
  case (Cons x xs)
  then obtain a as' n where c: "ptr = Some a" "heap l a = Some \<lparr>item = x, el_next = n\<rparr>" "chain (heap l) n as' xs None"
    by (cases as) auto
  then show ?case using Cons.IH [OF c(3)] by (subst Apply_loop.simps) simp
qed

lemma Hash_Apply_all:
  assumes rep: "bucket_rep h xss"
  shows "Hash_Apply f h s = Some (Inr (fold f (concat xss) s))"
proof -
  note d = bucket_repD [OF rep]
  have "\<exists>s'. forR (\<lambda>bucket s. bindR (bucket_of (buckets h) bucket) (\<lambda>l. Apply l f s)) [0..int (length xss) - 1] s = Some (Inr s') \<and>
      s' = fold f (concat (take (length xss) xss)) s"
  proof (rule forR_upto [where P = "\<lambda>i s'. s' = fold f (concat (take i xss)) s"])
    show "s = fold f (concat (take 0 xss)) s" by simp
    fix i s' assume i: "i < length xss" and s': "s' = fold f (concat (take i xss)) s"
    obtain as where "chain (heap (buckets h ! i)) (l_first (buckets h ! i)) as (xss ! i) None"
      using d(4) [OF i] by (auto simp: holds_def list_rep_def)
    then have "Apply (buckets h ! i) f s' = Some (Inr (fold f (xss ! i) s'))" unfolding Apply_def by (rule Apply_loop_chain)
    with i s' d(6) [OF i] show "\<exists>s''. bindR (bucket_of (buckets h) (int i)) (\<lambda>l. Apply l f s') = Some (Inr s'') \<and>
        s'' = fold f (concat (take (Suc i) xss)) s" by (simp add: take_Suc_conv_app_nth)
  qed
  then show ?thesis by (simp add: Hash_Apply_def d(5))
qed

text \<open>
  Property C30.  The hash table implements a set of items with distinct keys.  \<^verbatim>\<open>Find\<close> returns the item with
  the key, if there is one; \<^verbatim>\<open>Insert\<close> adds an item, growing the table first when it holds three items
  per bucket, and \<^verbatim>\<open>Remove\<close> takes out the item with the key and returns it; inserting a key twice and removing
  an absent key trip the assertions.  The iterator and \<^verbatim>\<open>Apply\<close> visit every item exactly once, in the same order.  All
  loops end, and \<^verbatim>\<open>SanityCheck\<close> passes before and after.
\<close>

theorem HashTable_implements_set:
  assumes h: "table_holds h S"
  shows "(\<exists>r. Find h key = Some (Inr r) \<and> (\<forall>y. r = Some y \<longleftrightarrow> y \<in> S \<and> getKey h y = key)) \<and>
    (getKey h x \<in> getKey h ` S \<longrightarrow> Hash_Insert x h = Some (Inl Assertion_failed)) \<and>
    (getKey h x \<notin> getKey h ` S \<and> numBuckets h < 2 ^ 29 \<longrightarrow>
      (\<exists>h'. Hash_Insert x h = Some (Inr h') \<and> table_holds h' (insert x S) \<and> same_functions h' h \<and>
        numBuckets h' = (if 3 * numBuckets h \<le> int (card S) then 4 * numBuckets h else numBuckets h))) \<and>
    (key \<notin> getKey h ` S \<longrightarrow> Hash_Remove key h = Some (Inl Assertion_failed)) \<and>
    (\<forall>y\<in>S. \<exists>h'. Hash_Remove (getKey h y) h = Some (Inr (y, h')) \<and> table_holds h' (S - {y}) \<and> same_functions h' h) \<and>
    (\<exists>xs. set xs = S \<and> distinct xs \<and>
      (\<forall>f s. bindR (new_HashIterator h) (\<lambda>it. iterate h f it s) = Some (Inr (fold f xs s)) \<and>
        Hash_Apply f h s = Some (Inr (fold f xs s)))) \<and>
    Hash_SanityCheck h = Some (Inr ()) \<and> (Hash_IsEmpty h \<longleftrightarrow> S = {})"
proof (intro conjI impI ballI)
  from h obtain xss where x: "bucket_rep h xss" "S = set (concat xss)" by (rule table_holdsE)
  show "\<exists>r. Find h key = Some (Inr r) \<and> (\<forall>y. r = Some y \<longleftrightarrow> y \<in> S \<and> getKey h y = key)"
    using Find_rep [OF x(1), of key] unfolding x(2) by blast
  show "\<exists>xs. set xs = S \<and> distinct xs \<and>
      (\<forall>f s. bindR (new_HashIterator h) (\<lambda>it. iterate h f it s) = Some (Inr (fold f xs s)) \<and>
        Hash_Apply f h s = Some (Inr (fold f xs s)))"
    using table_distinct [OF x(1)] x(2)
    by (intro exI [of _ "concat xss"]) (simp add: iterate_all [OF x(1)] Hash_Apply_all [OF x(1)])
  show "\<exists>h'. Hash_Insert x h = Some (Inr h') \<and> table_holds h' (insert x S) \<and> same_functions h' h \<and>
        numBuckets h' = (if 3 * numBuckets h \<le> int (card S) then 4 * numBuckets h else numBuckets h)"
    if "getKey h x \<notin> getKey h ` S \<and> numBuckets h < 2 ^ 29"
    using Hash_Insert_ok(2) [OF h, of x] table_count [OF h] that by auto
  show "\<exists>h'. Hash_Remove (getKey h y) h = Some (Inr (y, h')) \<and> table_holds h' (S - {y}) \<and> same_functions h' h" if "y \<in> S" for y
    using Hash_Remove_ok(2) [OF h that] by blast
qed (use Hash_Insert_ok(1) [OF h] Hash_Remove_ok(1) [OF h] Hash_SanityCheck_holds [OF h] Hash_IsEmpty_holds [OF h] in auto)

theorem HashTable_implements_set_witness:
  "\<exists>h h'. new_HashTable (\<lambda>n. n) of_nat = Some (Inr h) \<and> table_holds h {} \<and> Hash_Insert (7 :: nat) h = Some (Inr h') \<and>
     table_holds h' {7} \<and> numBuckets h' = 4"
proof -
  obtain h :: "(nat, nat) hash_table" where h: "new_HashTable (\<lambda>n. n) of_nat = Some (Inr h)" "table_holds h {}" "numBuckets h = 4"
    using new_HashTable_holds by blast
  with HashTable_implements_set [OF h(2), of 0 7] show ?thesis by auto
qed

end
