(* ===== verification/LibTest.thy ===== *)
theory LibTest
  imports Bitmap Hash
begin

text \<open>
  The self test of the library (\<^verbatim>\<open>lib/libtest.cc\<close>): bitmap, list, sorted list and hash table.
\<close>

definition IntCompare :: "int \<Rightarrow> int \<Rightarrow> int" where
  "IntCompare x y = (if x < y then -1 else if x = y then 0 else 1)"

definition HashInt :: "int \<Rightarrow> u32" where
  "HashInt key = word_of_int key"

text \<open>\<^verbatim>\<open>atoi\<close> on a string that starts with a digit: the digits up to the first other character.\<close>

definition digit_of :: "char \<Rightarrow> int" where
  "digit_of c = of_char c - of_char CHR ''0''"

fun atoi_digits :: "int \<Rightarrow> string \<Rightarrow> int" where
  "atoi_digits n [] = n"
| "atoi_digits n (c # cs) =
     (if 0 \<le> digit_of c \<and> digit_of c \<le> 9 then atoi_digits (10 * n + digit_of c) cs else n)"

definition HashKey :: "string \<Rightarrow> int" where
  "HashKey str = atoi_digits 0 str"

definition listTestVector :: "int list" where
  "listTestVector = [9, 5, 7]"

definition hashTestVector :: "string list" where
  "hashTestVector = [''0'', ''1'', ''2'', ''3'', ''4'', ''5'', ''6'', ''7'', ''8'', ''9'', ''10'', ''11'', ''12'', ''13'', ''14'']"

definition LibSelfTest :: "unit run" where
  "LibSelfTest =
     bindR (Some (new_Bitmap 200)) (\<lambda>map.
     bindR (new_HashTable HashKey HashInt) (\<lambda>hashTable.
     bindR (Some (Bitmap_SelfTest map)) (\<lambda>_.
     bindR (List_SelfTest Append SanityCheck new_List listTestVector) (\<lambda>_.
     bindR (Sorted_SelfTest IntCompare new_List listTestVector) (\<lambda>_.
     bindR (Hash_SelfTest hashTable hashTestVector) (\<lambda>hashTable.
     delete_HashTable hashTable))))))"

lemma consistent_IntCompare: "consistent IntCompare"
  by (auto simp: consistent_def IntCompare_def)

lemma hash_keys: "map HashKey hashTestVector = [0..14]"
  by (simp add: hashTestVector_def HashKey_def digit_of_def upto.simps)

text \<open>
  The self test of the library runs to its end: every loop of the bitmap, the two list
  classes and the hash table terminates on it, the fifteen strings make the hash table grow once, and none of the test's
  assertions fails.
\<close>

theorem LibSelfTest_passes: "LibSelfTest = Some (Inr ())"
proof -
  obtain m m' where m: "new_Bitmap 200 = Inr m" "Bitmap_SelfTest m = Inr m'" using Bitmap_SelfTest_passes [of 200] by auto
  have "distinct listTestVector" by (simp add: listTestVector_def)
  from List_SelfTests_pass [OF new_List_holds this consistent_IntCompare] obtain l l' where
    l: "List_SelfTest Append SanityCheck new_List listTestVector = Some (Inr l)"
      "Sorted_SelfTest IntCompare new_List listTestVector = Some (Inr l')" by blast
  obtain h where h: "new_HashTable HashKey HashInt = Some (Inr h)" "table_holds h {}" "getKey h = HashKey" "numBuckets h = 4"
    using new_HashTable_holds by blast
  have d: "distinct (map HashKey hashTestVector)" unfolding hash_keys by simp
  have "inj_on (getKey h) (set hashTestVector)" "distinct hashTestVector" "length hashTestVector < 2 ^ 27"
    using d unfolding h(3) by (auto simp: distinct_map hashTestVector_def)
  from Hash_SelfTest_ok [OF h(2,4) this] obtain h' where
    "Hash_SelfTest h hashTestVector = Some (Inr h')" "delete_HashTable h' = Some (Inr ())" by blast
  with m l h(1) show ?thesis by (simp add: LibSelfTest_def)
qed

end
