(* ===== verification/Coff2Noff.thy ===== *)
theory Coff2Noff
  imports AddrSpace
begin

text \<open>
  The converter of object files, \<^verbatim>\<open>coff2noff/coff2noff.c\<close> with \<^verbatim>\<open>coff.h\<close> and \<^verbatim>\<open>noff.h\<close>, as
  built with \<^verbatim>\<open>-DRDATA -m32\<close>.  Its output is the input of the loader in \<open>AddrSpace\<close>.
  \<open>big\<close> tells whether the host the converter runs on is big endian, \<open>out_ok\<close> whether the output
  file could be opened, and \<open>junk\<close> is the uninitialised local variable \<^verbatim>\<open>noffH\<close>.
\<close>

section \<open>COFF files\<close>

record scnhdr =
  s_name :: "u8 list"
  s_paddr :: u32
  s_size :: u32
  s_scnptr :: u32

definition file_half :: "bool \<Rightarrow> u8 list \<Rightarrow> nat \<Rightarrow> u16" where
  "file_half big f a = host_load16 big (\<lambda>i. f ! i) a"

abbreviation (input) filehdr_size :: nat where "filehdr_size \<equiv> 20"
abbreviation (input) aouthdr_size :: nat where "aouthdr_size \<equiv> 56"
abbreviation (input) scnhdr_size :: nat where "scnhdr_size \<equiv> 40"
abbreviation (input) noffHeader_size :: nat where "noffHeader_size \<equiv> 52"

definition MIPSELMAGIC :: u16 where "MIPSELMAGIC = 0x0162"
definition OMAGIC :: u16 where "OMAGIC = 0x107"

text \<open>One section header, with the fields the loop converts.\<close>

definition section_at :: "bool \<Rightarrow> u8 list \<Rightarrow> nat \<Rightarrow> scnhdr" where
  "section_at big f a =
     \<lparr>s_name = take 8 (drop a f), s_paddr = WordToHost big (file_word big f (a + 8)),
      s_size = WordToHost big (file_word big f (a + 16)), s_scnptr = WordToHost big (file_word big f (a + 20))\<rparr>"

text \<open>
  \<^verbatim>\<open>!strcmp(s_name, name)\<close> for a name shorter than eight characters, which is decided inside the array.
\<close>

definition named :: "string \<Rightarrow> scnhdr \<Rightarrow> bool" where
  "named name s \<longleftrightarrow> take (Suc (length name)) (s_name s) = map of_char name @ [0]"

section \<open>The converter\<close>

text \<open>\<^verbatim>\<open>exit(1)\<close> after removing the output is \<open>None\<close>.\<close>

record converter =
  inPos :: nat
  inNoffFile :: int
  written :: "u8 list"
  noffH :: noffHeader

text \<open>
  \<^verbatim>\<open>Read\<close> and \<^verbatim>\<open>Write\<close> compare what \<^verbatim>\<open>read\<close> and \<^verbatim>\<open>write\<close> return with the size asked for.  Both return -1 on
  failure, as they do for a negative size; the host is taken to have room for the output.
\<close>

definition Read_in :: "u8 list \<Rightarrow> int \<Rightarrow> nat \<Rightarrow> u8 list option" where
  "Read_in coff nBytes pos =
     (let got = (if nBytes < 0 then [] else take (nat nBytes) (drop pos coff));
          result = (if nBytes < 0 then -1 else int (length got))
      in if result \<noteq> nBytes then None else Some got)"

definition Write_out :: "bool \<Rightarrow> u8 list \<Rightarrow> int \<Rightarrow> unit option" where
  "Write_out out_ok buf nBytes =
     (let result = (if \<not> out_ok \<or> nBytes < 0 then -1 else nBytes)
      in if result \<noteq> nBytes then None else Some ())"

text \<open>\<^verbatim>\<open>lseek\<close> fails, and leaves the position as it is, when the offset is negative.\<close>

definition seek_to :: "u32 \<Rightarrow> nat \<Rightarrow> nat" where
  "seek_to off pos = (if sint off < 0 then pos else nat (sint off))"

text \<open>The lines the three copied segments share.\<close>

definition copy_section :: "bool \<Rightarrow> u8 list \<Rightarrow> scnhdr \<Rightarrow> converter \<Rightarrow> (segment \<times> converter) option" where
  "copy_section out_ok coff s c =
     (let seg = \<lparr>virtualAddr = s_paddr s, inFileAddr = word_of_int (inNoffFile c), seg_size = s_size s\<rparr>;
          pos = seek_to (s_scnptr s) (inPos c)
      in Option.bind (Read_in coff (sint (s_size s)) pos) (\<lambda>buffer.
         Option.bind (Write_out out_ok buffer (sint (s_size s))) (\<lambda>_.
         Some (seg, c\<lparr>inPos := pos + length buffer, written := written c @ buffer,
           inNoffFile := sint (word_of_int (inNoffFile c + sint (s_size s)) :: u32)\<rparr>))))"

definition convert_section :: "bool \<Rightarrow> u8 list \<Rightarrow> scnhdr \<Rightarrow> converter \<Rightarrow> converter option" where
  "convert_section out_ok coff s c =
     (if s_size s = 0 then Some c
      else if named ''.text'' s then
        map_option (\<lambda>(seg, c). c\<lparr>noffH := (noffH c)\<lparr>code := seg\<rparr>\<rparr>) (copy_section out_ok coff s c)
      else if named ''.data'' s then
        map_option (\<lambda>(seg, c). c\<lparr>noffH := (noffH c)\<lparr>initData := seg\<rparr>\<rparr>) (copy_section out_ok coff s c)
      else if named ''.rdata'' s then
        map_option (\<lambda>(seg, c). c\<lparr>noffH := (noffH c)\<lparr>readonlyData := seg\<rparr>\<rparr>) (copy_section out_ok coff s c)
      else if named ''.bss'' s then
        (let u = uninitData (noffH c)
         in if seg_size u \<noteq> 0 then
              (if s_paddr s = virtualAddr u + seg_size u then None
               else Some (c\<lparr>noffH := (noffH c)\<lparr>uninitData := u\<lparr>seg_size := seg_size u + s_size s\<rparr>\<rparr>\<rparr>))
            else Some (c\<lparr>noffH := (noffH c)\<lparr>uninitData := u\<lparr>virtualAddr := s_paddr s, seg_size := s_size s\<rparr>\<rparr>\<rparr>))
      else None)"

fun convert_sections :: "bool \<Rightarrow> u8 list \<Rightarrow> scnhdr list \<Rightarrow> converter \<Rightarrow> converter option" where
  "convert_sections out_ok coff [] c = Some c"
| "convert_sections out_ok coff (s # ss) c =
     Option.bind (convert_section out_ok coff s c) (convert_sections out_ok coff ss)"

definition empty_header :: "noffHeader \<Rightarrow> noffHeader" where
  "empty_header junk =
     \<lparr>noffMagic = NOFFMAGIC, code = (code junk)\<lparr>seg_size := 0\<rparr>, initData = (initData junk)\<lparr>seg_size := 0\<rparr>,
      readonlyData = (readonlyData junk)\<lparr>seg_size := 0\<rparr>, uninitData = (uninitData junk)\<lparr>seg_size := 0\<rparr>\<rparr>"

text \<open>The bytes of the header as \<^verbatim>\<open>write\<close> finds them in memory.\<close>

definition host_bytes :: "bool \<Rightarrow> u32 \<Rightarrow> u8 list" where
  "host_bytes big w = map (host_store32 big (\<lambda>_. 0) 0 w) [0..<4]"

definition segment_words :: "segment \<Rightarrow> u32 list" where
  "segment_words s = [virtualAddr s, inFileAddr s, seg_size s]"

definition header_words :: "noffHeader \<Rightarrow> u32 list" where
  "header_words h =
     noffMagic h # segment_words (code h) @ segment_words (initData h) @ segment_words (readonlyData h) @ segment_words (uninitData h)"

definition header_bytes :: "bool \<Rightarrow> noffHeader \<Rightarrow> u8 list" where
  "header_bytes big h = concat (map (host_bytes big) (header_words h))"

text \<open>
  \<^verbatim>\<open>main\<close>, \<open>coff\<close> being the bytes of the input file if it could be opened.  The body of the output is
  written behind the place of the header, the header last.
\<close>

definition coff_sections :: "bool \<Rightarrow> u8 list \<Rightarrow> scnhdr list" where
  "coff_sections big f =
     map (\<lambda>i. section_at big f (filehdr_size + aouthdr_size + scnhdr_size * i)) [0..<unat (ShortToHost big (file_half big f 2))]"

definition coff2noff :: "bool \<Rightarrow> bool \<Rightarrow> noffHeader \<Rightarrow> u8 list option \<Rightarrow> u8 list option" where
  "coff2noff big out_ok junk coff =
     Option.bind coff (\<lambda>f.
     Option.bind (Read_in f (int filehdr_size) 0) (\<lambda>_.
     if ShortToHost big (file_half big f 0) \<noteq> MIPSELMAGIC then None
     else
       Option.bind (Read_in f (int aouthdr_size) filehdr_size) (\<lambda>_.
       if ShortToHost big (file_half big f filehdr_size) \<noteq> OMAGIC then None
       else
         let numsections = unat (ShortToHost big (file_half big f 2))
         in Option.bind (Read_in f (int (numsections * scnhdr_size)) (filehdr_size + aouthdr_size)) (\<lambda>headers.
            Option.bind (convert_sections out_ok f (coff_sections big f)
                \<lparr>inPos = filehdr_size + aouthdr_size + length headers, inNoffFile = int noffHeader_size, written = [],
                 noffH = empty_header junk\<rparr>) (\<lambda>c.
            let header = header_bytes big (SwapHeader big (noffH c))
            in Option.bind (Write_out out_ok header (int noffHeader_size)) (\<lambda>_.
               Some (header @ written c)))))))"

section \<open>The header survives\<close>

lemma host_bytes_swap: "host_bytes big (WordToHost big w) = host_bytes False w"
  using guest_store32 [of big "\<lambda>_. 0" 0 w] by (simp add: host_bytes_def WordToMachine_def)

lemma length_host_bytes: "length (host_bytes big w) = 4"
  by (simp add: host_bytes_def)

lemma header_words_swap: "header_words (SwapHeader big h) = map (WordToHost big) (header_words h)"
  by (simp add: header_words_def SwapHeader_def segment_words_def swap_segment_def)

lemma header_bytes_swap: "header_bytes big (SwapHeader big h) = concat (map (host_bytes False) (header_words h))"
  by (simp add: header_bytes_def header_words_swap host_bytes_swap comp_def)

lemma length_header_words: "length (header_words h) = 13"
  by (simp add: header_words_def segment_words_def)

lemma length_header: "length (header_bytes big (SwapHeader big h)) = 52"
  unfolding header_bytes_swap using length_concat_const [of "header_words h" "host_bytes False" 4] length_host_bytes
  by (simp add: length_header_words)

lemma host_load32_bytes:
  assumes "\<forall>i < 4. f ! (a + i) = host_bytes False w ! i"
  shows "host_load32 False (\<lambda>i. f ! i) a = w"
proof -
  have "f ! a = host_bytes False w ! 0" "f ! (a + 1) = host_bytes False w ! 1" "f ! (a + 2) = host_bytes False w ! 2"
    "f ! (a + 3) = host_bytes False w ! 3"
    using assms [rule_format, of 0] assms [rule_format, of 1] assms [rule_format, of 2] assms [rule_format, of 3] by simp_all
  then have "host_load32 False (\<lambda>i. f ! i) a = host_load32 False (host_store32 False (\<lambda>_. 0) 0 w) 0"
    by (simp add: host_load32_def host_bytes_def numeral_2_eq_2)
  then show ?thesis by (simp add: load_store32)
qed

lemma file_word_written:
  assumes "i < 13"
  shows "WordToHost big' (file_word big' (header_bytes big (SwapHeader big h) @ rest) (4 * i)) = header_words h ! i"
proof -
  let ?f = "header_bytes big (SwapHeader big h) @ rest" and ?w = "header_words h ! i"
  have i: "i < length (header_words h)" using assms by (simp add: length_header_words)
  have "drop (4 * i) ?f = concat (map (host_bytes False) (drop i (header_words h))) @ rest"
    unfolding header_bytes_swap using assms length_host_bytes
      length_concat_const [of "header_words h" "host_bytes False" 4] length_header_words [of h]
    by (simp add: drop_concat_const)
  then have d: "drop (4 * i) ?f = host_bytes False ?w @ concat (map (host_bytes False) (drop (Suc i) (header_words h))) @ rest"
    using Cons_nth_drop_Suc [OF i] by (metis append.assoc concat.simps(2) list.simps(9))
  have "?f ! (4 * i + j) = host_bytes False ?w ! j" if "j < 4" for j
  proof -
    have "4 * i \<le> length ?f" using assms by (simp add: length_header)
    then have "?f ! (4 * i + j) = drop (4 * i) ?f ! j" by (rule nth_drop [symmetric])
    then show ?thesis unfolding d using that by (simp add: nth_append length_host_bytes)
  qed
  then have "host_load32 False (\<lambda>i. ?f ! i) (4 * i) = ?w" by (intro host_load32_bytes) simp
  then show ?thesis by (simp add: file_word_def guest_load32)
qed

lemma swapped_magic: "WordToHost True NOFFMAGIC \<noteq> NOFFMAGIC"
  by (simp add: WordToHost_def NOFFMAGIC_def)

text \<open>The loader, on a host of either byte order, reads the header the converter built.\<close>

lemma get_header_written:
  assumes "noffMagic h = NOFFMAGIC"
  shows "get_header big' (header_bytes big (SwapHeader big h) @ rest) = Inr h"
proof -
  let ?f = "header_bytes big (SwapHeader big h) @ rest"
  note w = file_word_written [of _ big' big h rest]
  have len: "\<not> length ?f < 52" by (simp add: length_header)
  obtain r where r: "read_header big' ?f = Inr r" "SwapHeader big' r = h"
  proof -
    define r where "r = \<lparr>noffMagic = file_word big' ?f 0, code = file_segment big' ?f 4, initData = file_segment big' ?f 16,
                readonlyData = file_segment big' ?f 28, uninitData = file_segment big' ?f 40\<rparr>"
    have "SwapHeader big' r = h"
      using w [of 0] w [of 1] w [of 2] w [of 3] w [of 4] w [of 5] w [of 6] w [of 7] w [of 8] w [of 9] w [of 10] w [of 11] w [of 12]
      by (simp add: r_def SwapHeader_def swap_segment_def file_segment_def header_words_def segment_words_def)
    moreover have "read_header big' ?f = Inr r" using len by (simp add: read_header_def r_def)
    ultimately show thesis using that by blast
  qed
  have m: "WordToHost big' (noffMagic r) = NOFFMAGIC" using r(2) assms by (auto simp: SwapHeader_def)
  show ?thesis
  proof (cases big')
    case True
    then have "noffMagic r = WordToHost True NOFFMAGIC" using m WordToHost_involution [of True "noffMagic r"] by simp
    then have "noffMagic r \<noteq> NOFFMAGIC" using swapped_magic by simp
    with r m assms show ?thesis by (simp add: get_header_def)
  next
    case False
    then have "SwapHeader big' r = r" by (simp add: SwapHeader_def swap_segment_def WordToHost_def)
    with r have "r = h" by simp
    with r(1) assms show ?thesis by (simp add: get_header_def)
  qed
qed

section \<open>The segments are copied\<close>

text \<open>
  What the converter is made for: sections with a known name, inside the file, and at most one \<^verbatim>\<open>.bss\<close>
  that is not empty.
\<close>

definition copied_name :: "scnhdr \<Rightarrow> bool" where
  "copied_name s \<longleftrightarrow> named ''.text'' s \<or> named ''.data'' s \<or> named ''.rdata'' s"

definition section_ok :: "u8 list \<Rightarrow> scnhdr \<Rightarrow> bool" where
  "section_ok coff s \<longleftrightarrow> s_size s = 0 \<or> named ''.bss'' s \<or>
     copied_name s \<and> 0 \<le> sint (s_size s) \<and> 0 \<le> sint (s_scnptr s) \<and>
       sint (s_scnptr s) + sint (s_size s) \<le> int (length coff)"

definition copied_size :: "scnhdr \<Rightarrow> int" where
  "copied_size s = (if copied_name s then sint (s_size s) else 0)"

definition bss_sections :: "scnhdr list \<Rightarrow> scnhdr list" where
  "bss_sections ss = filter (\<lambda>s. s_size s \<noteq> 0 \<and> named ''.bss'' s) ss"

definition seg_copied :: "u8 list \<Rightarrow> u8 list \<Rightarrow> scnhdr \<Rightarrow> segment \<Rightarrow> bool" where
  "seg_copied coff noff s seg \<longleftrightarrow> virtualAddr seg = s_paddr s \<and> seg_size seg = s_size s \<and>
     noffHeader_size \<le> unat (inFileAddr seg) \<and> unat (inFileAddr seg) + unat (seg_size seg) \<le> length noff \<and>
     take (unat (seg_size seg)) (drop (unat (inFileAddr seg)) noff) = take (unat (s_size s)) (drop (unat (s_scnptr s)) coff)"

definition seg_from :: "u8 list \<Rightarrow> u8 list \<Rightarrow> scnhdr list \<Rightarrow> string \<Rightarrow> segment \<Rightarrow> bool" where
  "seg_from coff noff ss name seg \<longleftrightarrow> seg_size seg = 0 \<or> (\<exists>s\<in>set ss. named name s \<and> seg_copied coff noff s seg)"

lemma named_second:
  assumes "named name s" "2 \<le> length name"
  shows "s_name s ! 1 = of_char (name ! 1)"
proof -
  have "take (Suc (length name)) (s_name s) ! 1 = (map of_char name @ [0]) ! 1" using assms(1) by (simp add: named_def)
  moreover have "take (Suc (length name)) (s_name s) ! 1 = s_name s ! 1" using assms(2) by (intro nth_take) linarith
  ultimately show ?thesis using assms(2) by (simp add: nth_append)
qed

lemma bss_not_copied: "named ''.bss'' s \<Longrightarrow> \<not> copied_name s"
  using named_second [of "''.bss''" s] named_second [of "''.text''" s] named_second [of "''.data''" s] named_second [of "''.rdata''" s]
  by (auto simp: copied_name_def)

definition conv_inv :: "u8 list \<Rightarrow> scnhdr list \<Rightarrow> converter \<Rightarrow> bool" where
  "conv_inv coff ss c \<longleftrightarrow> inNoffFile c = 52 + int (length (written c)) \<and> noffMagic (noffH c) = NOFFMAGIC \<and>
     (let noff = replicate 52 0 @ written c in
      seg_from coff noff ss ''.text'' (code (noffH c)) \<and> seg_from coff noff ss ''.data'' (initData (noffH c)) \<and>
      seg_from coff noff ss ''.rdata'' (readonlyData (noffH c))) \<and>
     (case bss_sections ss of [] \<Rightarrow> seg_size (uninitData (noffH c)) = 0
      | s # _ \<Rightarrow> virtualAddr (uninitData (noffH c)) = s_paddr s \<and> seg_size (uninitData (noffH c)) = s_size s)"

lemma seg_from_more:
  "seg_from coff noff ss name seg \<Longrightarrow> seg_from coff (noff @ rest) (ss @ ts) name seg"
  by (auto simp: seg_from_def seg_copied_def)

lemma sint_nonneg: "0 \<le> sint (w :: u32) \<Longrightarrow> sint w = int (unat w)"
  using uint_sint [of w] sint_lt [of w] by (simp add: take_bit_int_eq_self)

lemma sint_of_int: "0 \<le> k \<Longrightarrow> k < 2 ^ 31 \<Longrightarrow> sint (word_of_int k :: u32) = k \<and> unat (word_of_int k :: u32) = nat k"
  by (simp add: sint_uint uint_word_of_int signed_take_bit_int_eq_self unat_eq_nat_uint)

lemma copy_section_ok:
  assumes s: "0 \<le> sint (s_size s)" "0 \<le> sint (s_scnptr s)" "sint (s_scnptr s) + sint (s_size s) \<le> int (length coff)"
    and c: "inNoffFile c = 52 + int (length (written c))" "inNoffFile c + sint (s_size s) < 2 ^ 31"
  shows "\<exists>seg c' buf. copy_section True coff s c = Some (seg, c') \<and> written c' = written c @ buf \<and> int (length buf) = sint (s_size s) \<and>
    inNoffFile c' = 52 + int (length (written c')) \<and> noffH c' = noffH c \<and> seg_copied coff (replicate 52 0 @ written c') s seg"
proof -
  let ?n = "unat (s_size s)" and ?p = "unat (s_scnptr s)"
  have n: "sint (s_size s) = int ?n" and p: "sint (s_scnptr s) = int ?p"
    using s(1,2) by (simp_all add: sint_nonneg)
  define buf where "buf = take ?n (drop ?p coff)"
  have "?p + ?n \<le> length coff" using s(3) n p by linarith
  then have len: "length buf = ?n" by (simp add: buf_def)
  define seg where "seg = \<lparr>virtualAddr = s_paddr s, inFileAddr = word_of_int (inNoffFile c), seg_size = s_size s\<rparr>"
  define c' where "c' = c\<lparr>inPos := ?p + ?n, written := written c @ buf, inNoffFile := inNoffFile c + int ?n\<rparr>"
  have "0 \<le> inNoffFile c + int ?n" "inNoffFile c + int ?n < 2 ^ 31" using c n by simp_all
  then have i: "sint (word_of_int (inNoffFile c + int ?n) :: u32) = inNoffFile c + int ?n" using sint_of_int by blast
  have "copy_section True coff s c = Some (seg, c')"
    unfolding copy_section_def Let_def Read_in_def Write_out_def seek_to_def using n p len i
    by (simp add: seg_def c'_def flip: buf_def)
  moreover have "unat (inFileAddr seg) = 52 + length (written c)"
  proof -
    have "0 \<le> inNoffFile c" "inNoffFile c < 2 ^ 31" using c n by linarith+
    then have "unat (word_of_int (inNoffFile c) :: u32) = nat (inNoffFile c)" using sint_of_int by blast
    then show ?thesis using c(1) by (simp add: seg_def)
  qed
  then have "seg_copied coff (replicate 52 0 @ written c') s seg"
    using len by (simp add: seg_copied_def c'_def seg_def buf_def)
  ultimately show ?thesis using len n c(1) by (intro exI [of _ seg] exI [of _ c'] exI [of _ buf]) (simp add: c'_def)
qed

lemma bss_sections_append: "bss_sections (ss @ [s]) = bss_sections ss @ (if s_size s \<noteq> 0 \<and> named ''.bss'' s then [s] else [])"
  by (simp add: bss_sections_def)

lemma convert_section_ok:
  assumes inv: "conv_inv coff ss c" and s: "section_ok coff s" and small: "inNoffFile c + copied_size s < 2 ^ 31"
    and bss: "length (bss_sections (ss @ [s])) \<le> 1"
  shows "\<exists>c'. convert_section True coff s c = Some c' \<and> conv_inv coff (ss @ [s]) c' \<and> inNoffFile c' \<le> inNoffFile c + max 0 (copied_size s)"
proof -
  let ?b = "bss_sections ss"
  consider (empty) "s_size s = 0" | (bss) "s_size s \<noteq> 0" "named ''.bss'' s" | (copied) "s_size s \<noteq> 0" "copied_name s" "\<not> named ''.bss'' s"
      "0 \<le> sint (s_size s)" "0 \<le> sint (s_scnptr s)" "sint (s_scnptr s) + sint (s_size s) \<le> int (length coff)"
    using s bss_not_copied by (auto simp: section_ok_def)
  then show ?thesis
  proof cases
    case empty
    then have "conv_inv coff (ss @ [s]) c"
      using inv seg_from_more [where rest = "[]" and ts = "[s]"] by (simp add: conv_inv_def Let_def bss_sections_append)
    with empty show ?thesis by (simp add: convert_section_def)
  next
    case bss
    then have "?b = []" using assms(4) by (simp add: bss_sections_append)
    then have u: "seg_size (uninitData (noffH c)) = 0" using inv by (simp add: conv_inv_def)
    let ?c = "c\<lparr>noffH := (noffH c)\<lparr>uninitData := (uninitData (noffH c))\<lparr>virtualAddr := s_paddr s, seg_size := s_size s\<rparr>\<rparr>\<rparr>"
    have "convert_section True coff s c = Some ?c"
      using bss u bss_not_copied by (simp add: convert_section_def copied_name_def Let_def)
    moreover have "conv_inv coff (ss @ [s]) ?c"
      using inv bss \<open>?b = []\<close> seg_from_more [where rest = "[]" and ts = "[s]"] by (simp add: conv_inv_def Let_def bss_sections_append)
    ultimately show ?thesis by simp
  next
    case copied
    have "inNoffFile c = 52 + int (length (written c))" using inv by (simp add: conv_inv_def)
    moreover have "inNoffFile c + sint (s_size s) < 2 ^ 31" using small copied by (simp add: copied_size_def)
    ultimately obtain seg c1 buf where c1: "copy_section True coff s c = Some (seg, c1)" "written c1 = written c @ buf"
      "int (length buf) = sint (s_size s)" "inNoffFile c1 = 52 + int (length (written c1))" "noffH c1 = noffH c"
      "seg_copied coff (replicate 52 0 @ written c1) s seg"
      using copy_section_ok [OF copied(4-6)] by blast
    have new: "seg_from coff (replicate 52 0 @ written c1) (ss @ [s]) name seg" if "named name s" for name
      using that c1(6) by (auto simp: seg_from_def)
    have old: "seg_from coff (replicate 52 0 @ written c1) (ss @ [s]) name seg'"
      if "seg_from coff (replicate 52 0 @ written c) ss name seg'" for name seg'
      using seg_from_more [OF that, of buf "[s]"] c1(2) by simp
    have b: "bss_sections (ss @ [s]) = ?b" using copied by (simp add: bss_sections_append)
    have sz: "inNoffFile c1 \<le> inNoffFile c + max 0 (copied_size s)"
      using c1(2-4) copied inv by (simp add: conv_inv_def copied_size_def)
    consider "named ''.text'' s" | "\<not> named ''.text'' s" "named ''.data'' s"
      | "\<not> named ''.text'' s" "\<not> named ''.data'' s" "named ''.rdata'' s" using copied(2) by (auto simp: copied_name_def)
    then show ?thesis
    proof cases
      case 1
      then show ?thesis using inv copied(1) c1(1,4,5) new old b sz
        by (cases ?b) (simp_all add: convert_section_def conv_inv_def Let_def)
    next
      case 2
      then show ?thesis using inv copied(1) c1(1,4,5) new old b sz
        by (cases ?b) (simp_all add: convert_section_def conv_inv_def Let_def)
    next
      case 3
      then show ?thesis using inv copied(1) c1(1,4,5) new old b sz
        by (cases ?b) (simp_all add: convert_section_def conv_inv_def Let_def)
    qed
  qed
qed

lemma convert_sections_ok:
  "conv_inv coff pre c \<Longrightarrow> \<forall>s\<in>set ss. section_ok coff s \<Longrightarrow> inNoffFile c + (\<Sum>s\<leftarrow>ss. max 0 (copied_size s)) < 2 ^ 31 \<Longrightarrow>
    length (bss_sections (pre @ ss)) \<le> 1 \<Longrightarrow> \<exists>c'. convert_sections True coff ss c = Some c' \<and> conv_inv coff (pre @ ss) c'"
proof (induction ss arbitrary: pre c)
  case (Cons s ss)
  have nonneg: "0 \<le> (\<Sum>s\<leftarrow>ss. max 0 (copied_size s))" by (rule sum_list_nonneg) auto
  have "inNoffFile c + copied_size s < 2 ^ 31" using Cons.prems(3) nonneg by simp
  moreover have "length (bss_sections (pre @ [s])) \<le> 1" using Cons.prems(4) by (auto simp: bss_sections_def split: if_splits)
  ultimately obtain c1 where c1: "convert_section True coff s c = Some c1" "conv_inv coff (pre @ [s]) c1"
    "inNoffFile c1 \<le> inNoffFile c + max 0 (copied_size s)"
    using convert_section_ok [OF Cons.prems(1)] Cons.prems(2) by auto
  have "inNoffFile c1 + (\<Sum>s\<leftarrow>ss. max 0 (copied_size s)) < 2 ^ 31" using c1(3) Cons.prems(3) by simp
  then obtain c2 where "convert_sections True coff ss c1 = Some c2" "conv_inv coff ((pre @ [s]) @ ss) c2"
    using Cons.IH [OF c1(2)] Cons.prems(2,4) by auto
  with c1(1) show ?case by simp
qed simp

definition coff_ok :: "bool \<Rightarrow> u8 list \<Rightarrow> bool" where
  "coff_ok big f \<longleftrightarrow> filehdr_size + aouthdr_size + scnhdr_size * length (coff_sections big f) \<le> length f \<and>
     ShortToHost big (file_half big f 0) = MIPSELMAGIC \<and> ShortToHost big (file_half big f filehdr_size) = OMAGIC \<and>
     (\<forall>s\<in>set (coff_sections big f). section_ok f s) \<and> length (bss_sections (coff_sections big f)) \<le> 1 \<and>
     int noffHeader_size + (\<Sum>s\<leftarrow>coff_sections big f. max 0 (copied_size s)) < 2 ^ 31"

lemma seg_from_header:
  "length header = 52 \<Longrightarrow> seg_from coff (replicate 52 0 @ body) ss name seg \<Longrightarrow> seg_from coff (header @ body) ss name seg"
  by (auto simp: seg_from_def seg_copied_def)


definition sample_coff :: "u8 list" where
  "sample_coff =
     [0x62, 0x01, 1, 0] @ replicate 16 0 @ [0x07, 0x01] @ replicate 54 0 @
     [46, 116, 101, 120, 116, 0, 0, 0] @ replicate 8 0 @ [4, 0, 0, 0, 116, 0, 0, 0] @ replicate 16 0 @ [1, 2, 3, 4]"


end
