(* ===== verification/SynchList.thy ===== *)
theory SynchList
  imports NList
begin

text \<open>
  The synchronised list of \<^verbatim>\<open>threads/synchlist.h\<close> and \<^verbatim>\<open>threads/synchlist.cc\<close>: a list, a lock and a
  condition variable, used by any number of threads.

  A state holds the position of every thread in the code of the operations.  \<open>sl_step t\<close> is the next
  piece of the code of thread \<open>t\<close>: one operation on the lock or the condition, or what the
  thread does to the list while it holds the lock, where no other thread can interfere.  It is
  \<open>None\<close> while the thread waits.  The condition variable is Mesa style (\<^verbatim>\<open>threads/synch.cc\<close>): each
  waiting thread sleeps on a semaphore of its own; a signal takes the first of the queue, which then competes for the lock again.
\<close>

section \<open>State\<close>

datatype 'a sl_call = Call_Append 'a | Call_RemoveFront | Call_Apply

datatype 'a sl_pc =
    Outside
  | Append_Acquire 'a
  | Append_body 'a
  | Remove_Acquire
  | Remove_test
  | Remove_asleep
  | Remove_woken
  | Remove_Release 'a
  | Apply_Acquire
  | Apply_body
  | Release_only

text \<open>
  \<open>sl_added\<close> and \<open>sl_taken\<close> record, for the theorems only, what was appended and removed so far.
\<close>

record 'a synchlist =
  sl_list :: "'a list"
  sl_lock :: "nat option"
  sl_queue :: "nat list"
  sl_pcs :: "nat \<Rightarrow> 'a sl_pc"
  sl_returned :: "nat \<Rightarrow> 'a option"
  sl_added :: "'a list"
  sl_taken :: "'a list"

definition new_SynchList :: "'a synchlist" where
  "new_SynchList =
     \<lparr>sl_list = [], sl_lock = None, sl_queue = [], sl_pcs = (\<lambda>_. Outside), sl_returned = (\<lambda>_. None),
      sl_added = [], sl_taken = []\<rparr>"

section \<open>Operations\<close>

definition sl_at :: "nat \<Rightarrow> 'a sl_pc \<Rightarrow> 'a synchlist \<Rightarrow> 'a synchlist" where
  "sl_at t pc s = s\<lparr>sl_pcs := (sl_pcs s)(t := pc)\<rparr>"

definition sl_enter :: "nat \<Rightarrow> 'a sl_call \<Rightarrow> 'a synchlist \<Rightarrow> 'a synchlist" where
  "sl_enter t c s =
     sl_at t (case c of Call_Append x \<Rightarrow> Append_Acquire x | Call_RemoveFront \<Rightarrow> Remove_Acquire | Call_Apply \<Rightarrow> Apply_Acquire) s"

definition sl_Acquire :: "nat \<Rightarrow> 'a sl_pc \<Rightarrow> 'a synchlist \<Rightarrow> 'a synchlist res option" where
  "sl_Acquire t pc s = (if sl_lock s = None then Some (Inr (sl_at t pc (s\<lparr>sl_lock := Some t\<rparr>))) else None)"

definition sl_Release :: "nat \<Rightarrow> 'a sl_pc \<Rightarrow> 'a synchlist \<Rightarrow> 'a synchlist" where
  "sl_Release t pc s = sl_at t pc (s\<lparr>sl_lock := None\<rparr>)"

text \<open>\<^verbatim>\<open>listEmpty->Signal(lock)\<close> and the first half of \<^verbatim>\<open>listEmpty->Wait(lock)\<close>.\<close>

definition sl_Signal :: "'a synchlist \<Rightarrow> 'a synchlist" where
  "sl_Signal s = (case sl_queue s of [] \<Rightarrow> s | w # ws \<Rightarrow> sl_at w Remove_woken (s\<lparr>sl_queue := ws\<rparr>))"

definition sl_Wait :: "nat \<Rightarrow> 'a synchlist \<Rightarrow> 'a synchlist" where
  "sl_Wait t s = sl_Release t Remove_asleep (s\<lparr>sl_queue := sl_queue s @ [t]\<rparr>)"

definition sl_Append :: "nat \<Rightarrow> 'a \<Rightarrow> 'a synchlist \<Rightarrow> 'a synchlist res" where
  "sl_Append t x s =
     andThen (seq_Append (sl_list s) x) (\<lambda>xs.
     Inr (sl_at t Release_only (sl_Signal (s\<lparr>sl_list := xs, sl_added := sl_added s @ [x]\<rparr>))))"

definition sl_RemoveFront :: "nat \<Rightarrow> 'a synchlist \<Rightarrow> 'a synchlist res" where
  "sl_RemoveFront t s =
     (if sl_list s = [] then Inr (sl_Wait t s)
      else andThen (seq_RemoveFront (sl_list s)) (\<lambda>(x, xs).
           Inr (sl_at t (Remove_Release x) (s\<lparr>sl_list := xs, sl_taken := sl_taken s @ [x]\<rparr>))))"

fun sl_piece :: "nat \<Rightarrow> 'a sl_pc \<Rightarrow> 'a synchlist \<Rightarrow> 'a synchlist res option" where
  "sl_piece t Outside s = None"
| "sl_piece t (Append_Acquire x) s = sl_Acquire t (Append_body x) s"
| "sl_piece t (Append_body x) s = Some (sl_Append t x s)"
| "sl_piece t Remove_Acquire s = sl_Acquire t Remove_test s"
| "sl_piece t Remove_test s = Some (sl_RemoveFront t s)"
| "sl_piece t Remove_asleep s = None"
| "sl_piece t Remove_woken s = sl_Acquire t Remove_test s"
| "sl_piece t (Remove_Release x) s = Some (Inr ((sl_Release t Outside s)\<lparr>sl_returned := (sl_returned s)(t \<mapsto> x)\<rparr>))"
| "sl_piece t Apply_Acquire s = sl_Acquire t Apply_body s"
| "sl_piece t Apply_body s = Some (Inr (sl_at t Release_only s))"
| "sl_piece t Release_only s = Some (Inr (sl_Release t Outside s))"

definition sl_step :: "nat \<Rightarrow> 'a synchlist \<Rightarrow> 'a synchlist res option" where
  "sl_step t s = sl_piece t (sl_pcs s t) s"

text \<open>Any thread may call an operation, and any thread may do its next piece.\<close>

inductive sl_reachable :: "'a synchlist \<Rightarrow> bool" where
  sl_start: "sl_reachable new_SynchList"
| sl_calls: "sl_reachable s \<Longrightarrow> sl_pcs s t = Outside \<Longrightarrow> sl_reachable (sl_enter t c s)"
| sl_runs: "sl_reachable s \<Longrightarrow> sl_step t s = Some (Inr s') \<Longrightarrow> sl_reachable s'"

section \<open>Invariant\<close>

fun holding :: "'a sl_pc \<Rightarrow> bool" where
  "holding (Append_body x) = True"
| "holding Remove_test = True"
| "holding (Remove_Release x) = True"
| "holding Apply_body = True"
| "holding Release_only = True"
| "holding _ = False"

definition takers :: "'a synchlist \<Rightarrow> nat set" where
  "takers s = {t. sl_pcs s t = Remove_woken \<or> sl_pcs s t = Remove_test}"

definition sl_inv :: "'a synchlist \<Rightarrow> bool" where
  "sl_inv s \<longleftrightarrow>
     (\<forall>t. sl_lock s = Some t \<longleftrightarrow> holding (sl_pcs s t)) \<and>
     distinct (sl_queue s) \<and> set (sl_queue s) = {t. sl_pcs s t = Remove_asleep} \<and>
     finite {t. sl_pcs s t \<noteq> Outside} \<and>
     sl_added s = sl_taken s @ sl_list s \<and>
     (sl_queue s \<noteq> [] \<longrightarrow> length (sl_list s) \<le> card (takers s))"

lemma sl_at_simps [simp]:
  "sl_list (sl_at t pc s) = sl_list s" "sl_lock (sl_at t pc s) = sl_lock s" "sl_queue (sl_at t pc s) = sl_queue s"
  "sl_pcs (sl_at t pc s) = (sl_pcs s)(t := pc)" "sl_added (sl_at t pc s) = sl_added s" "sl_taken (sl_at t pc s) = sl_taken s"
  by (simp_all add: sl_at_def)

lemma takers_at: "takers (sl_at t pc s) = (if pc = Remove_woken \<or> pc = Remove_test then insert t (takers s) else takers s - {t})"
  by (auto simp: takers_def)

lemma takers_update [simp]:
  "takers (s\<lparr>sl_lock := l\<rparr>) = takers s" "takers (s\<lparr>sl_queue := q\<rparr>) = takers s" "takers (s\<lparr>sl_list := xs\<rparr>) = takers s"
  "takers (s\<lparr>sl_added := ys\<rparr>) = takers s" "takers (s\<lparr>sl_taken := zs\<rparr>) = takers s" "takers (s\<lparr>sl_returned := r\<rparr>) = takers s"
  by (simp_all add: takers_def)

lemma finite_takers: "sl_inv s \<Longrightarrow> finite (takers s)"
  unfolding sl_inv_def takers_def by (elim conjE, erule rev_finite_subset) auto

lemma finite_pcs: "finite {t. f t \<noteq> Outside} \<Longrightarrow> finite {t. (f(u := pc)) t \<noteq> Outside}"
  by (rule finite_subset [of _ "insert u {t. f t \<noteq> Outside}"]) auto

lemma asleep_update:
  "{x. (f(t := pc)) x = Remove_asleep} = (if pc = Remove_asleep then insert t {x. f x = Remove_asleep} else {x. f x = Remove_asleep} - {t})"
  by auto

text \<open>A thread that neither holds the lock nor sleeps moves on without touching either.\<close>

lemma sl_inv_at:
  assumes inv: "sl_inv s" and old: "\<not> holding (sl_pcs s t)" "sl_pcs s t \<noteq> Remove_asleep" "t \<notin> takers s"
    and new: "\<not> holding pc" "pc \<noteq> Remove_asleep" "pc \<noteq> Remove_woken"
  shows "sl_inv (sl_at t pc s)"
proof -
  have "takers (sl_at t pc s) = takers s" using old(3) new by (cases pc) (auto simp: takers_at)
  then show ?thesis using inv old(1,2) new(1,2) finite_pcs [of "sl_pcs s"] unfolding sl_inv_def by (auto simp: asleep_update)
qed

lemma sl_inv_acquire:
  assumes inv: "sl_inv s" and free: "sl_lock s = None" and old: "sl_pcs s t \<noteq> Remove_asleep"
    and new: "holding pc" and taker: "pc = Remove_test \<or> t \<notin> takers s"
  shows "sl_inv (sl_at t pc (s\<lparr>sl_lock := Some t\<rparr>))"
proof -
  have "\<not> holding (sl_pcs s u)" for u using inv free unfolding sl_inv_def by (metis option.distinct(1))
  moreover have "card (takers s) \<le> card (takers (sl_at t pc (s\<lparr>sl_lock := Some t\<rparr>)))"
    using taker new finite_takers [OF inv] by (cases pc) (auto simp: takers_at intro: card_mono)
  moreover have "pc \<noteq> Remove_asleep" using new by auto
  ultimately show ?thesis using inv old new finite_pcs [of "sl_pcs s"] unfolding sl_inv_def
    by (auto simp: asleep_update)
qed

lemma lock_holder:
  assumes "sl_inv s"
  shows "holding (sl_pcs s t) \<Longrightarrow> sl_lock s = Some t" "sl_lock s = Some t \<Longrightarrow> holding (sl_pcs s t)"
    "sl_lock s = Some t \<Longrightarrow> u \<noteq> t \<Longrightarrow> \<not> holding (sl_pcs s u)"
  using assms by (auto simp: sl_inv_def)

lemma sl_inv_release:
  assumes inv: "sl_inv s" and lock: "sl_lock s = Some t" and old: "t \<notin> takers s"
  shows "sl_inv (sl_Release t Outside s)"
proof -
  have h: "\<not> holding (sl_pcs s u)" if "u \<noteq> t" for u by (rule lock_holder(3) [OF inv lock that])
  have "sl_pcs s t \<noteq> Remove_asleep" using lock_holder(2) [OF inv lock] by auto
  then have "{x. ((sl_pcs s)(t := Outside)) x = Remove_asleep} = {x. sl_pcs s x = Remove_asleep}" by (auto simp: asleep_update)
  moreover have "takers (sl_Release t Outside s) = takers s" using old by (simp add: sl_Release_def takers_at)
  moreover have "finite {x. ((sl_pcs s)(t := Outside)) x \<noteq> Outside}" using inv by (intro finite_pcs) (simp add: sl_inv_def)
  ultimately show ?thesis using inv h by (simp add: sl_inv_def sl_Release_def)
qed

lemma sl_inv_wait:
  assumes inv: "sl_inv s" and pc: "sl_pcs s t = Remove_test" and empty: "sl_list s = []"
  shows "sl_inv (sl_Wait t s)"
proof -
  have lock: "sl_lock s = Some t" using lock_holder(1) [OF inv] pc by simp
  have h: "\<not> holding (sl_pcs s u)" if "u \<noteq> t" for u by (rule lock_holder(3) [OF inv lock that])
  have "t \<notin> set (sl_queue s)" using inv pc by (simp add: sl_inv_def)
  moreover have "finite {x. ((sl_pcs s)(t := Remove_asleep)) x \<noteq> Outside}" using inv by (intro finite_pcs) (simp add: sl_inv_def)
  ultimately show ?thesis using inv h empty by (simp add: sl_inv_def sl_Wait_def sl_Release_def asleep_update) auto
qed

lemma sl_inv_take:
  assumes inv: "sl_inv s" and pc: "sl_pcs s t = Remove_test" and ne: "sl_list s = x # xs"
  shows "sl_inv (sl_at t (Remove_Release x) (s\<lparr>sl_list := xs, sl_taken := sl_taken s @ [x]\<rparr>))"
proof -
  let ?s = "sl_at t (Remove_Release x) (s\<lparr>sl_list := xs, sl_taken := sl_taken s @ [x]\<rparr>)"
  have t: "t \<in> takers s" using pc by (simp add: takers_def)
  have "takers ?s = takers s - {t}" by (simp add: takers_at)
  then have "card (takers ?s) = card (takers s) - 1" using t by simp
  moreover have "\<forall>u. sl_lock s = Some u \<longleftrightarrow> holding (sl_pcs s u)" "holding (sl_pcs s t)" using inv pc by (auto simp: sl_inv_def)
  ultimately show ?thesis using inv pc ne finite_pcs [of "sl_pcs s"] unfolding sl_inv_def
    by (auto simp: asleep_update)
qed

lemma sl_inv_append:
  assumes inv: "sl_inv s" and pc: "sl_pcs s t = Append_body x" and app: "sl_Append t x s = Inr s'"
  shows "sl_inv s'"
proof -
  define s1 where "s1 = s\<lparr>sl_list := sl_list s @ [x], sl_added := sl_added s @ [x]\<rparr>"
  have s': "s' = sl_at t Release_only (sl_Signal s1)" using app by (auto simp: sl_Append_def seq_Append_def ASSERT_def s1_def split: if_splits)
  have lock: "\<forall>u. sl_lock s = Some u \<longleftrightarrow> holding (sl_pcs s u)" "sl_lock s = Some t" "holding (sl_pcs s t)" using inv pc by (auto simp: sl_inv_def)
  show ?thesis
  proof (cases "sl_queue s")
    case Nil
    then have "s' = sl_at t Release_only s1" by (simp add: s' sl_Signal_def s1_def)
    then show ?thesis using inv pc lock Nil finite_pcs [of "sl_pcs s"] unfolding sl_inv_def s1_def by (auto simp: asleep_update)
  next
    case (Cons w ws)
    have "w \<in> {u. sl_pcs s u = Remove_asleep}" "w \<notin> set ws" "distinct ws" using inv Cons by (auto simp: sl_inv_def)
    then have w: "sl_pcs s w = Remove_asleep" "w \<noteq> t" "w \<notin> set ws" "distinct ws" using pc by auto
    have e: "s' = sl_at t Release_only (sl_at w Remove_woken (s1\<lparr>sl_queue := ws\<rparr>))" by (simp add: s' sl_Signal_def s1_def Cons)
    have "w \<notin> takers s" "t \<notin> takers s" using w(1) pc by (auto simp: takers_def)
    then have "takers s' = insert w (takers s)" using w(2) by (auto simp: e takers_at s1_def)
    then have c: "card (takers s') = Suc (card (takers s))" using \<open>w \<notin> takers s\<close> finite_takers [OF inv] by simp
    have q: "set ws = {u. sl_pcs s u = Remove_asleep} - {w}" using inv Cons w(3) by (auto simp: sl_inv_def)
    have pcs: "sl_pcs s' = ((sl_pcs s)(w := Remove_woken))(t := Release_only)" by (simp add: e s1_def)
    have "finite {u. sl_pcs s' u \<noteq> Outside}" unfolding pcs using inv by (intro finite_pcs) (simp add: sl_inv_def)
    moreover have "{u. sl_pcs s' u = Remove_asleep} = set ws" unfolding pcs q using pc by (auto simp: asleep_update)
    moreover have "\<forall>u. sl_lock s' = Some u \<longleftrightarrow> holding (sl_pcs s' u)" unfolding pcs using lock w by (auto simp: e s1_def)
    moreover have "sl_list s' = sl_list s @ [x]" "sl_added s' = sl_added s @ [x]" "sl_taken s' = sl_taken s" "sl_queue s' = ws"
      by (simp_all add: e s1_def)
    ultimately show ?thesis using inv Cons c w(4) by (auto simp: sl_inv_def)
  qed
qed

lemma taker_pc: "t \<in> takers s \<longleftrightarrow> sl_pcs s t = Remove_woken \<or> sl_pcs s t = Remove_test"
  by (simp add: takers_def)

lemma Acquire_inv:
  assumes "sl_inv s" "sl_Acquire t pc s = Some (Inr s')" "sl_pcs s t \<noteq> Remove_asleep" "holding pc" "pc = Remove_test \<or> t \<notin> takers s"
  shows "sl_inv s'"
  using assms sl_inv_acquire [of s t pc] by (auto simp: sl_Acquire_def split: if_splits)

lemma sl_step_inv:
  assumes inv: "sl_inv s" and step: "sl_step t s = Some (Inr s')"
  shows "sl_inv s'"
proof -
  have lock: "sl_lock s = Some t" if "holding (sl_pcs s t)" by (rule lock_holder(1) [OF inv that])
  show ?thesis
  proof (cases "sl_pcs s t")
    case (Append_body x)
    then show ?thesis using sl_inv_append [OF inv Append_body] step by (simp add: sl_step_def)
  next
    case Remove_test
    show ?thesis
    proof (cases "sl_list s")
      case Nil
      then show ?thesis using sl_inv_wait [OF inv Remove_test Nil] step Remove_test by (simp add: sl_step_def sl_RemoveFront_def)
    next
      case (Cons x xs)
      then show ?thesis using sl_inv_take [OF inv Remove_test Cons] step Remove_test
        by (simp add: sl_step_def sl_RemoveFront_def seq_RemoveFront_def)
    qed
  next
    case (Remove_Release x)
    then have "sl_inv (sl_Release t Outside s)" using sl_inv_release [OF inv lock] by (simp add: taker_pc)
    moreover have "s' = (sl_Release t Outside s)\<lparr>sl_returned := (sl_returned s)(t \<mapsto> x)\<rparr>" using step Remove_Release by (simp add: sl_step_def)
    ultimately show ?thesis by (simp add: sl_inv_def)
  next
    case Release_only
    then show ?thesis using sl_inv_release [OF inv lock] step by (simp add: sl_step_def taker_pc)
  next
    case Apply_body
    then have s': "s' = sl_at t Release_only s" using step by (simp add: sl_step_def)
    have "takers s' = takers s" using Apply_body by (auto simp: s' takers_at taker_pc)
    moreover have "finite {x. ((sl_pcs s)(t := Release_only)) x \<noteq> Outside}" using inv by (intro finite_pcs) (simp add: sl_inv_def)
    moreover have "{x. ((sl_pcs s)(t := Release_only)) x = Remove_asleep} = {x. sl_pcs s x = Remove_asleep}"
      using Apply_body by (auto simp: asleep_update)
    moreover have "\<forall>u. sl_lock s = Some u \<longleftrightarrow> holding (((sl_pcs s)(t := Release_only)) u)" using inv Apply_body by (simp add: sl_inv_def)
    ultimately show ?thesis using inv by (simp add: s' sl_inv_def)
  qed (use step Acquire_inv [OF inv] in \<open>auto simp: sl_step_def taker_pc\<close>)
qed

lemma sl_reachable_inv: "sl_reachable s \<Longrightarrow> sl_inv s"
proof (induction rule: sl_reachable.induct)
  case sl_start
  show ?case by (simp add: sl_inv_def new_SynchList_def)
next
  case (sl_calls s t c)
  then show ?case unfolding sl_enter_def by (intro sl_inv_at) (auto simp: taker_pc split: sl_call.splits)
next
  case (sl_runs s t s')
  then show ?case using sl_step_inv by blast
qed

lemma sl_step_runs:
  assumes "sl_inv s"
  shows "holding (sl_pcs s t) \<Longrightarrow> sl_step t s \<noteq> None"
    and "sl_lock s = None \<Longrightarrow> sl_pcs s t \<noteq> Outside \<Longrightarrow> sl_pcs s t \<noteq> Remove_asleep \<Longrightarrow> sl_step t s \<noteq> None"
  by (cases "sl_pcs s t"; simp add: sl_step_def sl_Acquire_def)+

section \<open>Properties\<close>

text \<open>
  Property C28.  However the threads that use a synchronised list are interleaved, what was removed is, in order,
  the beginning of what was appended, and the rest is in the list; at most one thread is inside
  the protected code; no assertion fails except the one against appending an item that is
  in the list already.  No wake-up is lost: while a thread sleeps in \<^verbatim>\<open>RemoveFront\<close>, every item in the list has a thread that is
  awake and about to take it.  And no deadlock: when no thread can go on, every unfinished
  operation is a \<^verbatim>\<open>RemoveFront\<close> that sleeps, and the list is empty.
\<close>

theorem SynchList_monitor:
  assumes "sl_reachable s"
  shows "sl_added s = sl_taken s @ sl_list s \<and>
    (\<forall>t u. holding (sl_pcs s t) \<longrightarrow> holding (sl_pcs s u) \<longrightarrow> t = u) \<and>
    (\<forall>t e. sl_step t s = Some (Inl e) \<longrightarrow> (\<exists>x. sl_pcs s t = Append_body x \<and> x \<in> set (sl_list s))) \<and>
    ((\<exists>t. sl_pcs s t = Remove_asleep) \<longrightarrow> length (sl_list s) \<le> card (takers s)) \<and>
    ((\<forall>t. sl_step t s = None) \<longrightarrow>
      (\<forall>t. sl_pcs s t = Outside \<or> sl_pcs s t = Remove_asleep) \<and> ((\<exists>t. sl_pcs s t = Remove_asleep) \<longrightarrow> sl_list s = []))"
proof (intro conjI impI allI)
  have inv: "sl_inv s" by (rule sl_reachable_inv [OF assms])
  show "sl_added s = sl_taken s @ sl_list s" using inv by (simp add: sl_inv_def)
  show "t = u" if "holding (sl_pcs s t)" "holding (sl_pcs s u)" for t u
    using lock_holder(1) [OF inv that(1)] lock_holder(1) [OF inv that(2)] by simp
  show "\<exists>x. sl_pcs s t = Append_body x \<and> x \<in> set (sl_list s)" if "sl_step t s = Some (Inl e)" for t e
    using that by (cases "sl_pcs s t"; cases "sl_list s")
      (auto simp: sl_step_def sl_Acquire_def sl_Append_def sl_RemoveFront_def seq_Append_def seq_RemoveFront_def ASSERT_def split: if_splits)
  show sleep: "length (sl_list s) \<le> card (takers s)" if "\<exists>t. sl_pcs s t = Remove_asleep"
  proof -
    have "sl_queue s \<noteq> []" using that inv by (auto simp: sl_inv_def)
    then show ?thesis using inv by (simp add: sl_inv_def)
  qed
  assume stuck: "\<forall>t. sl_step t s = None"
  have free: "sl_lock s = None"
  proof (cases "sl_lock s")
    case (Some t)
    then show ?thesis using sl_step_runs(1) [OF inv lock_holder(2) [OF inv Some]] stuck by simp
  qed
  show all: "sl_pcs s t = Outside \<or> sl_pcs s t = Remove_asleep" for t
    using sl_step_runs(2) [OF inv free] stuck by blast
  have "takers s = {}" using all by (auto simp: takers_def) (metis sl_pc.distinct)+
  then show "sl_list s = []" if "\<exists>t. sl_pcs s t = Remove_asleep" using sleep [OF that] by simp
qed

text \<open>A schedule: which thread calls an operation, or does its next piece.\<close>

fun sl_run :: "(nat \<times> 'a sl_call option) list \<Rightarrow> 'a synchlist \<Rightarrow> 'a synchlist option" where
  "sl_run [] s = Some s"
| "sl_run ((t, Some c) # es) s = (case sl_pcs s t of Outside \<Rightarrow> sl_run es (sl_enter t c s) | _ \<Rightarrow> None)"
| "sl_run ((t, None) # es) s = (case sl_step t s of Some (Inr s') \<Rightarrow> sl_run es s' | _ \<Rightarrow> None)"

lemma sl_run_reachable: "sl_run es s = Some s' \<Longrightarrow> sl_reachable s \<Longrightarrow> sl_reachable s'"
proof (induction es s rule: sl_run.induct)
  case (2 t c es s)
  then show ?case by (auto split: sl_pc.splits intro: sl_calls)
next
  case (3 t es s)
  then show ?case by (auto split: option.splits sum.splits intro: sl_runs)
qed auto

definition sample_schedule :: "(nat \<times> int sl_call option) list" where
  "sample_schedule =
     [(0, Some Call_RemoveFront), (0, None), (0, None), (1, Some (Call_Append 7)), (1, None), (2, Some Call_RemoveFront), (1, None), (1, None)]"

theorem SynchList_monitor_witness:
  "\<exists>s. sl_run sample_schedule new_SynchList = Some s \<and> sl_list s = [7] \<and> sl_pcs s 0 = Remove_woken \<and> sl_taken s = []"
proof -
  have "case sl_run sample_schedule new_SynchList of Some s \<Rightarrow> sl_list s = [7] \<and> sl_pcs s 0 = Remove_woken \<and> sl_added s = [7] | None \<Rightarrow> False"
    by code_simp
  then obtain s where s: "sl_run sample_schedule new_SynchList = Some s" "sl_list s = [7]" "sl_pcs s 0 = Remove_woken" "sl_added s = [7]"
    by (auto split: option.splits)
  with SynchList_monitor [OF sl_run_reachable [OF s(1) sl_start]] show ?thesis by simp
qed

end
