(* ===== verification/Network.thy ===== *)
theory Network
  imports Complex_Main Disk SynchList
begin

text \<open>
  The network device (\<^verbatim>\<open>machine/network.h\<close>, \<^verbatim>\<open>network.cc\<close>, the sockets of \<^verbatim>\<open>lib/sysdep.cc\<close>) and the post
  office (\<^verbatim>\<open>network/post.h\<close>, \<^verbatim>\<open>post.cc\<close>).

  Machines are instances of Nachos that exchange datagrams through the host's sockets: \<open>wire\<close> is,
  for every machine, the queue of its socket.  The random numbers, whether the host accepts a
  datagram at an attempt, and the uninitialised bytes of buffers are inputs.  A mailbox is a synchronised
  list of messages (\<open>SynchList\<close>), seen here by one thread at a time; every message is a new object, so that
  appending it never meets the assertion of the list.  The host is little endian.
\<close>

section \<open>Headers\<close>

record PacketHeader =
  pkt_to :: int
  pkt_from :: int
  pkt_length :: u32

record MailHeader =
  mail_to :: int
  mail_from :: int
  mail_length :: u32

abbreviation (input) MaxWireSize :: nat where "MaxWireSize \<equiv> 64"
abbreviation (input) MaxPacketSize :: nat where "MaxPacketSize \<equiv> 52"
abbreviation (input) MaxMailSize :: nat where "MaxMailSize \<equiv> 40"
abbreviation (input) NetworkTime :: int where "NetworkTime \<equiv> 100"

definition pkt_bytes :: "PacketHeader \<Rightarrow> u8 list" where
  "pkt_bytes h = int_bytes (pkt_to h) @ int_bytes (pkt_from h) @ word_bytes (pkt_length h)"

definition bytes_pkt :: "u8 list \<Rightarrow> PacketHeader" where
  "bytes_pkt bs =
     \<lparr>pkt_to = bytes_int bs, pkt_from = bytes_int (drop 4 bs), pkt_length = bytes_word (take 4 (drop 8 bs))\<rparr>"

definition mail_bytes :: "MailHeader \<Rightarrow> u8 list" where
  "mail_bytes h = int_bytes (mail_to h) @ int_bytes (mail_from h) @ word_bytes (mail_length h)"

definition bytes_mail :: "u8 list \<Rightarrow> MailHeader" where
  "bytes_mail bs =
     \<lparr>mail_to = bytes_int bs, mail_from = bytes_int (drop 4 bs), mail_length = bytes_word (take 4 (drop 8 bs))\<rparr>"

record mail =
  m_pktHdr :: PacketHeader
  m_mailHdr :: MailHeader
  m_data :: "u8 list"

section \<open>One machine\<close>

text \<open>
  \<open>poll_due\<close> and \<open>send_due\<close> are the times of the pending network interrupts, \<open>worker_buf\<close> the buffer of
  the postal worker, which it reuses for every packet.
\<close>

record node =
  hostName :: int
  inHdr :: PacketHeader
  inbox :: "u8 list"
  poll_due :: "int option"
  chanceToWork :: rat
  sendBusy :: bool
  send_due :: "int option"
  n_stats :: statistics
  messageAvailable :: nat
  messageSent :: nat
  numBoxes :: int
  boxes :: "mail list list"
  worker_buf :: "u8 list"

type_synonym wire = "int \<Rightarrow> u8 list list option"

definition schedule_poll :: "node \<Rightarrow> node" where
  "schedule_poll n = n\<lparr>poll_due := Some (totalTicks (n_stats n) + NetworkTime)\<rparr>"

definition schedule_send :: "node \<Rightarrow> node" where
  "schedule_send n = n\<lparr>send_due := Some (totalTicks (n_stats n) + NetworkTime)\<rparr>"

text \<open>The clamping in the constructor of \<^verbatim>\<open>NetworkOutput\<close>; a \<^verbatim>\<open>double\<close> is taken to be a rational number.\<close>

definition chance :: "rat \<Rightarrow> rat" where
  "chance reliability = (if reliability < 0 then 0 else if reliability > 1 then 1 else reliability)"

text \<open>
  The constructors of the post office and of the devices: the socket gets its name, replacing an old
  one, and polling starts.  \<open>junk\<close> stands for the uninitialised buffers.
\<close>

definition new_node :: "int \<Rightarrow> rat \<Rightarrow> int \<Rightarrow> u8 list \<Rightarrow> wire \<Rightarrow> node \<times> wire" where
  "new_node host reliability nBoxes junk w =
     (schedule_poll
       \<lparr>hostName = host, inHdr = \<lparr>pkt_to = 0, pkt_from = 0, pkt_length = 0\<rparr>, inbox = take MaxPacketSize junk, poll_due = None,
        chanceToWork = chance reliability, sendBusy = False, send_due = None, n_stats = new_Statistics,
        messageAvailable = 0, messageSent = 0, numBoxes = nBoxes, boxes = replicate (nat nBoxes) [], worker_buf = take MaxPacketSize junk\<rparr>,
      w(host := Some []))"

section \<open>The device\<close>

definition ReadFromSocket :: "u8 list \<Rightarrow> nat \<Rightarrow> u8 list res" where
  "ReadFromSocket datagram packetSize =
     (let got = take packetSize datagram in ASSERT (length got = packetSize) (Inr got))"

text \<open>\<^verbatim>\<open>callWhenAvail->CallBack()\<close> is \<^verbatim>\<open>PostOfficeInput::CallBack\<close>.\<close>

definition PostOfficeInput_CallBack :: "node \<Rightarrow> node" where
  "PostOfficeInput_CallBack n = n\<lparr>messageAvailable := Suc (messageAvailable n)\<rparr>"

definition NetworkInput_CallBack :: "node \<Rightarrow> wire \<Rightarrow> (node \<times> wire) res" where
  "NetworkInput_CallBack n w =
     (let n = schedule_poll n
      in if pkt_length (inHdr n) \<noteq> 0 then Inr (n, w)
         else case w (hostName n) of
           Some (p # ps) \<Rightarrow>
             andThen (ReadFromSocket p MaxWireSize) (\<lambda>buffer.
             let hdr = bytes_pkt buffer; len = unat (pkt_length hdr)
             in ASSERT (pkt_to hdr = hostName n \<and> len \<le> MaxPacketSize)
                  (Inr (PostOfficeInput_CallBack
                     (n\<lparr>inHdr := hdr, inbox := take len (drop 12 buffer) @ drop len (inbox n),
                        n_stats := (n_stats n)\<lparr>numPacketsRecvd := numPacketsRecvd (n_stats n) + 1\<rparr>\<rparr>),
                   w(hostName n := Some ps))))
         | _ \<Rightarrow> Inr (n, w))"

definition NetworkInput_Receive :: "u8 list \<Rightarrow> node \<Rightarrow> PacketHeader \<times> u8 list \<times> node" where
  "NetworkInput_Receive data n =
     (let hdr = inHdr n; len = unat (pkt_length hdr)
      in (hdr, take len (inbox n) @ drop len data, n\<lparr>inHdr := hdr\<lparr>pkt_length := 0\<rparr>\<rparr>))"

text \<open>\<^verbatim>\<open>SendToSocket\<close>: ten attempts, a second apart; \<open>up k\<close> tells whether the host accepts the datagram at attempt \<open>k\<close>.\<close>

fun SendToSocket_loop :: "nat \<Rightarrow> nat \<Rightarrow> (nat \<Rightarrow> bool) \<Rightarrow> u8 list \<Rightarrow> int \<Rightarrow> wire \<Rightarrow> wire" where
  "SendToSocket_loop 0 k up p to w = w"
| "SendToSocket_loop (Suc n) k up p to w =
     (case w to of
        Some q \<Rightarrow> if up k then w(to := Some (q @ [p])) else SendToSocket_loop n (Suc k) up p to w
      | None \<Rightarrow> SendToSocket_loop n (Suc k) up p to w)"

definition SendToSocket :: "(nat \<Rightarrow> bool) \<Rightarrow> u8 list \<Rightarrow> int \<Rightarrow> wire \<Rightarrow> wire" where
  "SendToSocket up p to w = SendToSocket_loop 10 0 up p to w"

definition NetworkOutput_Send ::
    "u32 \<Rightarrow> (nat \<Rightarrow> bool) \<Rightarrow> u8 list \<Rightarrow> PacketHeader \<Rightarrow> u8 list \<Rightarrow> node \<Rightarrow> wire \<Rightarrow> (node \<times> wire) res" where
  "NetworkOutput_Send random up junk hdr data n w =
     ASSERT (\<not> sendBusy n \<and> pkt_length hdr > 0 \<and> unat (pkt_length hdr) \<le> MaxPacketSize \<and> pkt_from hdr = hostName n)
      (let n = schedule_send n
       in if of_nat (unat (random mod 100)) \<ge> chanceToWork n * 100 then Inr (n, w)
          else if length data < unat (pkt_length hdr) then Inl Out_of_bounds
          else let buffer = take MaxWireSize (pkt_bytes hdr @ take (unat (pkt_length hdr)) data @ junk)
               in Inr (n, SendToSocket up buffer (pkt_to hdr) w))"

text \<open>\<^verbatim>\<open>callWhenDone->CallBack()\<close> is \<^verbatim>\<open>PostOfficeOutput::CallBack\<close>.\<close>

definition PostOfficeOutput_CallBack :: "node \<Rightarrow> node" where
  "PostOfficeOutput_CallBack n = n\<lparr>messageSent := Suc (messageSent n)\<rparr>"

definition NetworkOutput_CallBack :: "node \<Rightarrow> node" where
  "NetworkOutput_CallBack n =
     PostOfficeOutput_CallBack
       (n\<lparr>sendBusy := False, n_stats := (n_stats n)\<lparr>numPacketsSent := numPacketsSent (n_stats n) + 1\<rparr>\<rparr>)"

section \<open>The post office\<close>

text \<open>\<^verbatim>\<open>messageSent->P()\<close>: sleep until the pending interrupt, if there is one.\<close>

definition wait_sent :: "node \<Rightarrow> node run" where
  "wait_sent n =
     (case messageSent n of
        Suc k \<Rightarrow> Some (Inr (n\<lparr>messageSent := k\<rparr>))
      | 0 \<Rightarrow> (case send_due n of
                None \<Rightarrow> None
              | Some t \<Rightarrow>
                  (let n = NetworkOutput_CallBack (n\<lparr>send_due := None,
                         n_stats := (n_stats n)\<lparr>totalTicks := max (totalTicks (n_stats n)) t\<rparr>\<rparr>)
                   in Some (Inr (n\<lparr>messageSent := messageSent n - 1\<rparr>)))))"

definition PostOffice_Send ::
    "u32 \<Rightarrow> (nat \<Rightarrow> bool) \<Rightarrow> u8 list \<Rightarrow> PacketHeader \<Rightarrow> MailHeader \<Rightarrow> u8 list \<Rightarrow> node \<Rightarrow> wire \<Rightarrow> (node \<times> wire) run" where
  "PostOffice_Send random up junk pktHdr mailHdr data n w =
     (let len = unat (mail_length mailHdr) in
      assertR (len \<le> MaxMailSize)
     (assertR (0 \<le> mail_to mailHdr)
     (if length data < len then Some (Inl Out_of_bounds)
      else
        let pktHdr = pktHdr\<lparr>pkt_from := hostName n, pkt_length := mail_length mailHdr + 12\<rparr>;
            buffer = take MaxPacketSize (mail_bytes mailHdr @ take len data @ junk)
        in bindR (Some (NetworkOutput_Send random up junk pktHdr buffer n w)) (\<lambda>(n, w).
           bindR (wait_sent n) (\<lambda>n. Some (Inr (n, w)))))))"

definition new_Mail :: "PacketHeader \<Rightarrow> MailHeader \<Rightarrow> u8 list \<Rightarrow> mail res" where
  "new_Mail pktH mailH msgData =
     ASSERT (unat (mail_length mailH) \<le> MaxMailSize)
      (Inr \<lparr>m_pktHdr = pktH, m_mailHdr = mailH, m_data = take (unat (mail_length mailH)) msgData\<rparr>)"

definition MailBox_Put :: "PacketHeader \<Rightarrow> MailHeader \<Rightarrow> u8 list \<Rightarrow> mail list \<Rightarrow> mail list res" where
  "MailBox_Put pktHdr mailHdr data messages =
     andThen (new_Mail pktHdr mailHdr data) (\<lambda>m. Inr (messages @ [m]))"

definition MailBox_Get :: "mail list \<Rightarrow> (mail \<times> mail list) option" where
  "MailBox_Get messages = (case messages of [] \<Rightarrow> None | m # ms \<Rightarrow> Some (m, ms))"

text \<open>One round of the postal worker's loop; \<open>None\<close> while no packet has arrived.\<close>

definition PostalDelivery :: "node \<Rightarrow> node run" where
  "PostalDelivery n =
     (case messageAvailable n of
        0 \<Rightarrow> None
      | Suc k \<Rightarrow>
          (let (pktHdr, buffer, n) = NetworkInput_Receive (worker_buf n) (n\<lparr>messageAvailable := k\<rparr>);
               mailHdr = bytes_mail buffer
           in assertR (0 \<le> mail_to mailHdr \<and> mail_to mailHdr < numBoxes n)
             (assertR (unat (mail_length mailHdr) \<le> MaxMailSize)
               (if nat (mail_to mailHdr) \<ge> length (boxes n) then Some (Inl Out_of_bounds)
                else bindR (Some (MailBox_Put pktHdr mailHdr (drop 12 buffer) (boxes n ! nat (mail_to mailHdr)))) (\<lambda>messages.
                     Some (Inr (n\<lparr>worker_buf := buffer, boxes := (boxes n)[nat (mail_to mailHdr) := messages]\<rparr>)))))))"

definition PostOffice_Receive :: "int \<Rightarrow> node \<Rightarrow> (mail \<times> node) run" where
  "PostOffice_Receive box n =
     assertR (0 \<le> box \<and> box < numBoxes n)
      (if nat box \<ge> length (boxes n) then Some (Inl Out_of_bounds)
       else case MailBox_Get (boxes n ! nat box) of
          None \<Rightarrow> None
        | Some (m, ms) \<Rightarrow>
            assertR (unat (mail_length (m_mailHdr m)) \<le> MaxMailSize) (Some (Inr (m, n\<lparr>boxes := (boxes n)[nat box := ms]\<rparr>))))"

section \<open>Headers survive the wire\<close>

definition addr_ok :: "int \<Rightarrow> bool" where
  "addr_ok i \<longleftrightarrow> - (2 ^ 31) \<le> i \<and> i < 2 ^ 31"

lemma length_headers [simp]: "length (pkt_bytes h) = 12" "length (mail_bytes mh) = 12"
  by (simp_all add: pkt_bytes_def mail_bytes_def)

lemma bytes_pkt_pkt_bytes: "addr_ok (pkt_to h) \<Longrightarrow> addr_ok (pkt_from h) \<Longrightarrow> bytes_pkt (pkt_bytes h @ rest) = h"
  by (simp add: bytes_pkt_def pkt_bytes_def bytes_int_int_bytes bytes_word_word_bytes addr_ok_def)

lemma bytes_mail_mail_bytes: "addr_ok (mail_to h) \<Longrightarrow> addr_ok (mail_from h) \<Longrightarrow> bytes_mail (mail_bytes h @ rest) = h"
  by (simp add: bytes_mail_def mail_bytes_def bytes_int_int_bytes bytes_word_word_bytes addr_ok_def)

definition mail_ok :: "MailHeader \<Rightarrow> u8 list \<Rightarrow> bool" where
  "mail_ok mh data \<longleftrightarrow> 0 \<le> mail_to mh \<and> addr_ok (mail_to mh) \<and> addr_ok (mail_from mh) \<and>
     unat (mail_length mh) \<le> MaxMailSize \<and> unat (mail_length mh) \<le> length data"

definition pkt_header :: "int \<Rightarrow> int \<Rightarrow> MailHeader \<Rightarrow> PacketHeader" where
  "pkt_header from to mh = \<lparr>pkt_to = to, pkt_from = from, pkt_length = mail_length mh + 12\<rparr>"

text \<open>The datagram that carries a message.\<close>

definition datagram :: "u8 list \<Rightarrow> int \<Rightarrow> int \<Rightarrow> MailHeader \<Rightarrow> u8 list \<Rightarrow> u8 list" where
  "datagram junk from to mh data =
     take MaxWireSize (pkt_bytes (pkt_header from to mh) @ mail_bytes mh @ take (unat (mail_length mh)) data @ junk)"

lemma packet_length: "unat (mail_length mh) \<le> 40 \<Longrightarrow> unat (mail_length mh + 12) = unat (mail_length mh) + 12"
  by (subst unat_add_lem [THEN iffD1]) auto

lemma SendToSocket_loop_ok:
  "w to = Some q \<Longrightarrow> \<exists>i < n. up (k + i) \<Longrightarrow> SendToSocket_loop n k up p to w = w(to := Some (q @ [p]))"
proof (induction n arbitrary: k)
  case (Suc n)
  show ?case
  proof (cases "up k")
    case False
    with Suc.prems(2) obtain i where i: "i < Suc n" "up (k + i)" "i \<noteq> 0" by (metis add_0_right)
    then have "\<exists>j < n. up (Suc k + j)" by (intro exI [of _ "i - 1"]) auto
    from Suc.IH [OF Suc.prems(1) this] show ?thesis using False Suc.prems(1) by simp
  qed (use Suc.prems in simp)
qed simp

lemma SendToSocket_loop_dropped: "w to = None \<or> (\<forall>i < n. \<not> up (k + i)) \<Longrightarrow> SendToSocket_loop n k up p to w = w"
proof (induction n arbitrary: k)
  case (Suc n)
  have "w to = None \<or> (\<forall>i < n. \<not> up (Suc k + i))" using Suc.prems by (auto simp: less_Suc_eq_0_disj)
  moreover have "w to = None \<or> \<not> up k" using Suc.prems by auto
  ultimately show ?case using Suc.IH [of "Suc k"] by (auto split: option.splits)
qed simp

definition can_send :: "node \<Rightarrow> bool" where
  "can_send n \<longleftrightarrow> \<not> sendBusy n \<and> messageSent n = 0 \<and> chanceToWork n = 1 \<and> addr_ok (hostName n)"

lemma PostOffice_Send_ok:
  assumes n: "can_send n" and m: "mail_ok mh data" and junk: "MaxWireSize \<le> length junk" and ph: "pkt_to ph = to"
    and w: "w to = Some q" "\<exists>k < 10. up k"
  shows "\<exists>n'. PostOffice_Send random up junk ph mh data n w =
      Some (Inr (n', w(to := Some (q @ [datagram junk (hostName n) to mh data])))) \<and> can_send n' \<and> hostName n' = hostName n"
proof -
  let ?len = "unat (mail_length mh)" and ?h = "pkt_header (hostName n) to mh"
  have len: "?len \<le> 40" "?len \<le> length data" "0 \<le> mail_to mh" using m by (auto simp: mail_ok_def)
  note pl = packet_length [OF len(1)]
  have h: "ph\<lparr>pkt_from := hostName n, pkt_length := mail_length mh + 12\<rparr> = ?h" using ph by (cases ph) (simp add: pkt_header_def)
  let ?buf = "take 52 (mail_bytes mh @ take ?len data @ junk)"
  have ul: "unat (pkt_length ?h) = ?len + 12" using pl by (simp add: pkt_header_def)
  have "take (?len + 12) ?buf = take (?len + 12) (mail_bytes mh @ take ?len data @ junk)"
    using len(1) by (simp only: take_take min_def) simp
  also have "\<dots> = mail_bytes mh @ take ?len data" using len(2) by simp
  finally have b: "take (unat (pkt_length ?h)) ?buf = mail_bytes mh @ take ?len data" unfolding ul .
  have "length ?buf = 52" using junk by simp
  then have bl: "\<not> length ?buf < unat (pkt_length ?h)" using ul len(1) by linarith
  have pos: "pkt_length ?h > 0" using pl by (simp add: pkt_header_def word_less_nat_alt)
  have "unat (random mod 100) < 100" using unat_mod [of random 100] by simp
  then have "(of_nat (unat (random mod 100)) :: rat) < of_nat 100" by (simp only: of_nat_less_iff)
  then have "\<not> (of_nat (unat (random mod 100)) :: rat) \<ge> chanceToWork (schedule_send n) * 100"
    using n by (simp add: can_send_def schedule_send_def)
  moreover have "SendToSocket up p (pkt_to ?h) w = w(to := Some (q @ [p]))" for p
    using SendToSocket_loop_ok [of w to q 10 up 0 p] w by (simp add: SendToSocket_def pkt_header_def)
  moreover have "\<not> sendBusy n" "pkt_from ?h = hostName n" "unat (pkt_length ?h) \<le> 52" using n ul len(1) by (simp_all add: can_send_def pkt_header_def)
  ultimately have s: "NetworkOutput_Send random up junk ?h ?buf n w =
      Inr (schedule_send n, w(to := Some (q @ [datagram junk (hostName n) to mh data])))"
    unfolding NetworkOutput_Send_def Let_def datagram_def b using pos bl by simp
  define n' where "n' = (NetworkOutput_CallBack ((schedule_send n)\<lparr>send_due := None,
      n_stats := (n_stats n)\<lparr>totalTicks := max (totalTicks (n_stats n)) (totalTicks (n_stats n) + 100)\<rparr>\<rparr>))\<lparr>messageSent := 0\<rparr>"
  have "wait_sent (schedule_send n) = Some (Inr n')"
    using n by (simp add: wait_sent_def schedule_send_def can_send_def n'_def NetworkOutput_CallBack_def PostOfficeOutput_CallBack_def)
  moreover have "can_send n'" "hostName n' = hostName n"
    using n by (simp_all add: can_send_def n'_def NetworkOutput_CallBack_def PostOfficeOutput_CallBack_def schedule_send_def)
  ultimately show ?thesis
    unfolding PostOffice_Send_def Let_def h using len s by simp
qed

section \<open>Receiving\<close>

definition idle :: "node \<Rightarrow> bool" where
  "idle n \<longleftrightarrow> pkt_length (inHdr n) = 0 \<and> messageAvailable n = 0 \<and> length (inbox n) = MaxPacketSize \<and>
     length (worker_buf n) = MaxPacketSize \<and> length (boxes n) = nat (numBoxes n) \<and> addr_ok (hostName n)"

text \<open>The message that the receiver puts into the mailbox.\<close>

definition delivered :: "int \<Rightarrow> int \<Rightarrow> MailHeader \<Rightarrow> u8 list \<Rightarrow> mail" where
  "delivered from to mh data =
     \<lparr>m_pktHdr = pkt_header from to mh, m_mailHdr = mh, m_data = take (unat (mail_length mh)) data\<rparr>"

text \<open>A network interrupt, after which the postal worker runs.\<close>

definition receive_round :: "node \<Rightarrow> wire \<Rightarrow> (node \<times> wire) run" where
  "receive_round n w =
     bindR (Some (NetworkInput_CallBack n w)) (\<lambda>(n, w). bindR (PostalDelivery n) (\<lambda>n. Some (Inr (n, w))))"

lemma datagram_fields:
  assumes "mail_ok mh data" "MaxWireSize \<le> length junk" "addr_ok from" "addr_ok to"
  shows "ReadFromSocket (datagram junk from to mh data) 64 = Inr (datagram junk from to mh data)"
    and "bytes_pkt (datagram junk from to mh data) = pkt_header from to mh"
    and "take (unat (mail_length mh) + 12) (drop 12 (datagram junk from to mh data)) = mail_bytes mh @ take (unat (mail_length mh)) data"
proof -
  let ?len = "unat (mail_length mh)" and ?h = "pkt_header from to mh"
  have len: "?len \<le> 40" "?len \<le> length data" using assms by (auto simp: mail_ok_def)
  have d: "datagram junk from to mh data = pkt_bytes ?h @ take 52 (mail_bytes mh @ take ?len data @ junk)"
    using len(1) by (simp add: datagram_def min_absorb2)
  have l: "length (datagram junk from to mh data) = 64" using assms(2) by (simp add: datagram_def)
  show "ReadFromSocket (datagram junk from to mh data) 64 = Inr (datagram junk from to mh data)"
    using l by (simp add: ReadFromSocket_def)
  show "bytes_pkt (datagram junk from to mh data) = ?h"
    unfolding d using assms(3,4) by (intro bytes_pkt_pkt_bytes) (simp_all add: pkt_header_def)
  have "take (?len + 12) (drop 12 (datagram junk from to mh data)) = take (?len + 12) (mail_bytes mh @ take ?len data @ junk)"
    unfolding d using len(1) by (simp only: drop_append length_headers take_take min_def) simp
  also have "\<dots> = mail_bytes mh @ take ?len data" using len(2) by simp
  finally show "take (?len + 12) (drop 12 (datagram junk from to mh data)) = mail_bytes mh @ take ?len data" .
qed

lemma NetworkInput_CallBack_ok:
  assumes n: "idle n" and w: "w (hostName n) = Some (datagram junk from (hostName n) mh data # ps)"
    and m: "mail_ok mh data" "MaxWireSize \<le> length junk" "addr_ok from"
  shows "NetworkInput_CallBack n w =
    Inr (PostOfficeInput_CallBack ((schedule_poll n)\<lparr>inHdr := pkt_header from (hostName n) mh,
           inbox := mail_bytes mh @ take (unat (mail_length mh)) data @ drop (unat (mail_length mh) + 12) (inbox n),
           n_stats := (n_stats n)\<lparr>numPacketsRecvd := numPacketsRecvd (n_stats n) + 1\<rparr>\<rparr>),
         w(hostName n := Some ps))"
proof -
  have len: "unat (mail_length mh) \<le> 40" using m by (auto simp: mail_ok_def)
  have h: "pkt_to (pkt_header from (hostName n) mh) = hostName n"
    "unat (pkt_length (pkt_header from (hostName n) mh)) = unat (mail_length mh) + 12"
    using packet_length [OF len] by (simp_all add: pkt_header_def)
  note f = datagram_fields [OF m, of "hostName n"]
  have "addr_ok (hostName n)" "pkt_length (inHdr n) = 0" using n by (auto simp: idle_def)
  then show ?thesis
    unfolding NetworkInput_CallBack_def Let_def using f w h len by (simp add: schedule_poll_def)
qed

lemma receive_round_ok:
  assumes n: "idle n" and w: "w (hostName n) = Some (datagram junk from (hostName n) mh data # ps)"
    and m: "mail_ok mh data" "MaxWireSize \<le> length junk" "addr_ok from" and box: "mail_to mh < numBoxes n"
  shows "\<exists>n'. receive_round n w = Some (Inr (n', w(hostName n := Some ps))) \<and> idle n' \<and>
     hostName n' = hostName n \<and> numBoxes n' = numBoxes n \<and>
     boxes n' = (boxes n)[nat (mail_to mh) := boxes n ! nat (mail_to mh) @ [delivered from (hostName n) mh data]]"
proof -
  let ?len = "unat (mail_length mh)" and ?h = "pkt_header from (hostName n) mh" and ?b = "nat (mail_to mh)"
  have len: "?len \<le> 40" "?len \<le> length data" "0 \<le> mail_to mh" "addr_ok (mail_to mh)" "addr_ok (mail_from mh)"
    using m by (auto simp: mail_ok_def)
  have ul: "unat (pkt_length ?h) = ?len + 12" using packet_length [OF len(1)] by (simp add: pkt_header_def)
  define a where "a = PostOfficeInput_CallBack ((schedule_poll n)\<lparr>inHdr := ?h,
           inbox := mail_bytes mh @ take ?len data @ drop (?len + 12) (inbox n),
           n_stats := (n_stats n)\<lparr>numPacketsRecvd := numPacketsRecvd (n_stats n) + 1\<rparr>\<rparr>)"
  have c: "NetworkInput_CallBack n w = Inr (a, w(hostName n := Some ps))"
    unfolding a_def using n w m by (rule NetworkInput_CallBack_ok)
  have a: "messageAvailable a = 1" "inHdr a = ?h" "worker_buf a = worker_buf n" "numBoxes a = numBoxes n" "boxes a = boxes n"
    "hostName a = hostName n" "inbox a = mail_bytes mh @ take ?len data @ drop (?len + 12) (inbox n)"
    using n by (simp_all add: a_def PostOfficeInput_CallBack_def schedule_poll_def idle_def)
  define buf where "buf = mail_bytes mh @ take ?len data @ drop (?len + 12) (worker_buf n)"
  have tk: "take (?len + 12) (inbox a) = mail_bytes mh @ take ?len data" using len(2) by (simp add: a)
  have r: "NetworkInput_Receive (worker_buf a) (a\<lparr>messageAvailable := 0\<rparr>) =
      (?h, buf, a\<lparr>messageAvailable := 0, inHdr := ?h\<lparr>pkt_length := 0\<rparr>\<rparr>)"
    using tk by (simp add: NetworkInput_Receive_def Let_def a(2,3) ul buf_def)
  have bm: "bytes_mail buf = mh" unfolding buf_def using len by (intro bytes_mail_mail_bytes) auto
  have put: "MailBox_Put ?h mh (drop 12 buf) ms = Inr (ms @ [delivered from (hostName n) mh data])" for ms
    using len by (simp add: MailBox_Put_def new_Mail_def delivered_def buf_def)
  have bl: "?b < length (boxes n)" using n box len by (simp add: idle_def)
  define n' where "n' = a\<lparr>messageAvailable := 0, inHdr := ?h\<lparr>pkt_length := 0\<rparr>, worker_buf := buf,
    boxes := (boxes n)[?b := boxes n ! ?b @ [delivered from (hostName n) mh data]]\<rparr>"
  have "PostalDelivery a = Some (Inr n')"
    using len box bl r bm put a by (simp add: PostalDelivery_def n'_def)
  moreover have "length buf = 52" "length (inbox a) = 52" using n len by (simp_all add: buf_def idle_def a(7))
  then have "idle n'" using n by (simp add: idle_def n'_def a)
  ultimately show ?thesis by (intro exI [of _ n']) (simp add: receive_round_def c n'_def a)
qed

section \<open>From sender to mailbox\<close>

record letter =
  l_random :: u32
  l_up :: "nat \<Rightarrow> bool"
  l_junk :: "u8 list"
  l_mailHdr :: MailHeader
  l_data :: "u8 list"

definition letter_ok :: "int \<Rightarrow> letter \<Rightarrow> bool" where
  "letter_ok nb l \<longleftrightarrow> mail_ok (l_mailHdr l) (l_data l) \<and> mail_to (l_mailHdr l) < nb \<and>
     MaxWireSize \<le> length (l_junk l) \<and> (\<exists>k < 10. l_up l k)"

abbreviation letter_datagram :: "int \<Rightarrow> int \<Rightarrow> letter \<Rightarrow> u8 list" where
  "letter_datagram from to l \<equiv> datagram (l_junk l) from to (l_mailHdr l) (l_data l)"

abbreviation letter_mail :: "int \<Rightarrow> int \<Rightarrow> letter \<Rightarrow> mail" where
  "letter_mail from to l \<equiv> delivered from to (l_mailHdr l) (l_data l)"

text \<open>A thread of the sender sends the letters one after another.\<close>

fun send_all :: "int \<Rightarrow> letter list \<Rightarrow> node \<Rightarrow> wire \<Rightarrow> (node \<times> wire) run" where
  "send_all to [] n w = Some (Inr (n, w))"
| "send_all to (l # ls) n w =
     bindR (PostOffice_Send (l_random l) (l_up l) (l_junk l) \<lparr>pkt_to = to, pkt_from = 0, pkt_length = 0\<rparr> (l_mailHdr l) (l_data l) n w)
       (\<lambda>(n, w). send_all to ls n w)"

fun receive_rounds :: "nat \<Rightarrow> node \<Rightarrow> wire \<Rightarrow> (node \<times> wire) run" where
  "receive_rounds 0 n w = Some (Inr (n, w))"
| "receive_rounds (Suc k) n w = bindR (receive_round n w) (\<lambda>(n, w). receive_rounds k n w)"

text \<open>A thread of the receiver takes \<open>k\<close> messages from a mailbox.\<close>

fun take_mail :: "nat \<Rightarrow> int \<Rightarrow> node \<Rightarrow> (mail list \<times> node) run" where
  "take_mail 0 box n = Some (Inr ([], n))"
| "take_mail (Suc k) box n =
     bindR (PostOffice_Receive box n) (\<lambda>(m, n). bindR (take_mail k box n) (\<lambda>(ms, n). Some (Inr (m # ms, n))))"

lemma send_all_ok:
  "can_send s \<Longrightarrow> w to = Some q \<Longrightarrow> \<forall>l \<in> set ls. letter_ok nb l \<Longrightarrow>
   \<exists>s'. send_all to ls s w = Some (Inr (s', w(to := Some (q @ map (letter_datagram (hostName s) to) ls)))) \<and> can_send s'"
proof (induction ls arbitrary: s w q)
  case Nil
  then show ?case by (simp add: fun_upd_idem)
next
  case (Cons l ls)
  have l: "letter_ok nb l" and ls: "\<forall>l \<in> set ls. letter_ok nb l" using Cons.prems by simp_all
  obtain s' where s': "PostOffice_Send (l_random l) (l_up l) (l_junk l) \<lparr>pkt_to = to, pkt_from = 0, pkt_length = 0\<rparr> (l_mailHdr l) (l_data l) s w =
      Some (Inr (s', w(to := Some (q @ [letter_datagram (hostName s) to l]))))" "can_send s'" "hostName s' = hostName s"
    using PostOffice_Send_ok [of s "l_mailHdr l" "l_data l" "l_junk l" "\<lparr>pkt_to = to, pkt_from = 0, pkt_length = 0\<rparr>" to w q "l_up l" "l_random l"]
      Cons.prems(1,2) l unfolding letter_ok_def by fastforce
  have "\<exists>s''. send_all to ls s' (w(to := Some (q @ [letter_datagram (hostName s) to l]))) =
      Some (Inr (s'', w(to := Some ((q @ [letter_datagram (hostName s) to l]) @ map (letter_datagram (hostName s) to) ls)))) \<and> can_send s''"
    using Cons.IH [OF s'(2), of "w(to := Some (q @ [letter_datagram (hostName s) to l]))", unfolded s'(3) fun_upd_upd fun_upd_same, OF refl ls]
    by blast
  then show ?case using s'(1) by (auto simp: fun_eq_iff)
qed

lemma receive_rounds_ok:
  "idle r \<Longrightarrow> addr_ok from \<Longrightarrow> \<forall>l \<in> set ls. letter_ok (numBoxes r) l \<Longrightarrow>
   w (hostName r) = Some (map (letter_datagram from (hostName r)) ls @ ps) \<Longrightarrow>
   \<exists>r'. receive_rounds (length ls) r w = Some (Inr (r', w(hostName r := Some ps))) \<and> idle r' \<and>
     numBoxes r' = numBoxes r \<and>
     (\<forall>b < length (boxes r). boxes r' ! b =
        boxes r ! b @ map (letter_mail from (hostName r)) (filter (\<lambda>l. nat (mail_to (l_mailHdr l)) = b) ls))"
proof (induction ls arbitrary: r w)
  case Nil
  then show ?case by (simp add: fun_upd_idem)
next
  case (Cons l ls)
  let ?b = "nat (mail_to (l_mailHdr l))"
  have l: "letter_ok (numBoxes r) l" using Cons.prems by simp
  then have "mail_ok (l_mailHdr l) (l_data l)" "64 \<le> length (l_junk l)" "mail_to (l_mailHdr l) < numBoxes r" by (auto simp: letter_ok_def)
  moreover have "w (hostName r) = Some (letter_datagram from (hostName r) l # (map (letter_datagram from (hostName r)) ls @ ps))"
    using Cons.prems by simp
  ultimately obtain r1 where r1: "receive_round r w = Some (Inr (r1, w(hostName r := Some (map (letter_datagram from (hostName r)) ls @ ps))))"
    "idle r1" "hostName r1 = hostName r" "numBoxes r1 = numBoxes r"
    "boxes r1 = (boxes r)[?b := boxes r ! ?b @ [letter_mail from (hostName r) l]]"
    using receive_round_ok [OF Cons.prems(1)] Cons.prems(2) by blast
  let ?w = "w(hostName r := Some (map (letter_datagram from (hostName r)) ls @ ps))"
  have "\<forall>l \<in> set ls. letter_ok (numBoxes r1) l" using Cons.prems(3) r1(4) by simp
  from Cons.IH [OF r1(2) Cons.prems(2) this, of ?w, unfolded r1(3,4) fun_upd_upd fun_upd_same, OF refl]
  obtain r' where r': "receive_rounds (length ls) r1 ?w = Some (Inr (r', w(hostName r := Some ps)))" "idle r'"
    "numBoxes r' = numBoxes r" "\<forall>b < length (boxes r1). boxes r' ! b =
        boxes r1 ! b @ map (letter_mail from (hostName r)) (filter (\<lambda>l. nat (mail_to (l_mailHdr l)) = b) ls)"
    by blast
  have "boxes r' ! b = boxes r ! b @ map (letter_mail from (hostName r)) (filter (\<lambda>l. nat (mail_to (l_mailHdr l)) = b) (l # ls))"
    if "b < length (boxes r)" for b
    using r'(4) that r1(5) by (auto simp: nth_list_update)
  moreover have "receive_rounds (length (l # ls)) r w = Some (Inr (r', w(hostName r := Some ps)))" using r1(1) r'(1) by simp
  ultimately show ?case using r'(2,3) by blast
qed

lemma take_mail_ok:
  "0 \<le> box \<Longrightarrow> box < numBoxes n \<Longrightarrow> length (boxes n) = nat (numBoxes n) \<Longrightarrow>
   boxes n ! nat box = ms @ rest \<Longrightarrow> \<forall>m \<in> set ms. unat (mail_length (m_mailHdr m)) \<le> MaxMailSize \<Longrightarrow>
   take_mail (length ms) box n = Some (Inr (ms, n\<lparr>boxes := (boxes n)[nat box := rest]\<rparr>))"
proof (induction ms arbitrary: n)
  case Nil
  then have "(boxes n)[nat box := rest] = boxes n" by (metis append_Nil list_update_id)
  then show ?case by simp
next
  case (Cons m ms)
  let ?n = "n\<lparr>boxes := (boxes n)[nat box := ms @ rest]\<rparr>"
  have "PostOffice_Receive box n = Some (Inr (m, ?n))"
    using Cons.prems by (simp add: PostOffice_Receive_def MailBox_Get_def)
  moreover have "take_mail (length ms) box ?n = Some (Inr (ms, n\<lparr>boxes := (boxes n)[nat box := rest]\<rparr>))"
    using Cons.IH [of ?n] Cons.prems by simp
  ultimately show ?case by simp
qed

lemma take_mail_waits:
  "0 \<le> box \<Longrightarrow> box < numBoxes n \<Longrightarrow> length (boxes n) = nat (numBoxes n) \<Longrightarrow>
   boxes n ! nat box = ms \<Longrightarrow> \<forall>m \<in> set ms. unat (mail_length (m_mailHdr m)) \<le> MaxMailSize \<Longrightarrow>
   take_mail (Suc (length ms)) box n = None"
proof (induction ms arbitrary: n)
  case Nil
  then show ?case by (simp add: PostOffice_Receive_def MailBox_Get_def)
next
  case (Cons m ms)
  let ?n = "n\<lparr>boxes := (boxes n)[nat box := ms]\<rparr>"
  have "PostOffice_Receive box n = Some (Inr (m, ?n))"
    using Cons.prems by (simp add: PostOffice_Receive_def MailBox_Get_def)
  moreover have "take_mail (Suc (length ms)) box ?n = None"
    using Cons.prems by (intro Cons.IH) simp_all
  ultimately show ?case by (simp del: take_mail.simps add: take_mail.simps(2) [of "Suc (length ms)"])
qed


definition sample_letter :: "int \<Rightarrow> letter" where
  "sample_letter box = \<lparr>l_random = 7, l_up = (\<lambda>k. k = 2), l_junk = replicate 64 0,
     l_mailHdr = \<lparr>mail_to = box, mail_from = 1, mail_length = 2\<rparr>, l_data = [72, 105]\<rparr>"

lemma sample_letter_ok: "0 \<le> box \<Longrightarrow> box < 10 \<Longrightarrow> letter_ok 10 (sample_letter box)"
  by (auto simp: sample_letter_def letter_ok_def mail_ok_def addr_ok_def)


end
