(* ===== verification/Boot.thy ===== *)
theory Boot
  imports AddrSpace
begin

text \<open>
  The end of \<^verbatim>\<open>main\<close> (\<^verbatim>\<open>threads/main.cc\<close>): the program named by \<^verbatim>\<open>-x\<close> is given an address space by the
  constructor, loaded a second time by \<^verbatim>\<open>Load\<close>, which takes virtual for physical addresses, and
  started.  This works because the first program gets the frames 0, 1, 2, and so on.
\<close>

section \<open>Starting the first program\<close>

text \<open>
  \<open>exe\<close> is the contents of the executable, if it can be opened.  The result is the machine at the call of
  \<^verbatim>\<open>machine->Run()\<close>, or \<open>None\<close> when the program cannot be loaded and the kernel halts.
\<close>

definition run_program :: "bool \<Rightarrow> u8 list option \<Rightarrow> vm \<Rightarrow> machine \<Rightarrow> (machine \<times> vm) option res" where
  "run_program big exe st m =
     andThen (AddrSpace_ctor big exe st) (\<lambda>(sp, st).
     case sp of
       None \<Rightarrow> Inr None
     | Some sp \<Rightarrow>
         andThen (AddrSpace_Load big exe sp (vm_memory st)) (\<lambda>(ok, sp, mem).
         if ok
         then andThen (Execute_prepare sp (m\<lparr>mainMemory := mem\<rparr>)) (\<lambda>m. Inr (Some (m, st\<lparr>vm_memory := mem\<rparr>)))
         else Inr None))"

section \<open>A fresh machine\<close>

lemma repeat_alloc_fresh:
  "wf_bitmap bm \<Longrightarrow> marked bm = {0..<int k} \<Longrightarrow> int (k + n) \<le> numBits bm \<Longrightarrow>
   \<exists>bm'. repeat_alloc FindAndSet bm n = Inr (map int [k..<k + n], bm') \<and> wf_bitmap bm' \<and> numBits bm' = numBits bm \<and>
     marked bm' = {0..<int (k + n)}"
proof (induction n arbitrary: bm k)
  case (Suc n)
  have free: "int k \<in> {0..<numBits bm} - marked bm" "\<forall>j. 0 \<le> j \<longrightarrow> j < int k \<longrightarrow> j \<in> marked bm" using Suc.prems by auto
  obtain bm1 where bm1: "FindAndSet bm = Inr (int k, bm1)" "wf_bitmap bm1" "numBits bm1 = numBits bm" "marked bm1 = insert (int k) (marked bm)"
    using FindAndSet_first [OF Suc.prems(1), of "int k"] free Suc.prems by (auto simp: subset_iff)
  have "marked bm1 = {0..<int (Suc k)}" using bm1(4) Suc.prems(2) by auto
  from Suc.IH [OF bm1(2) this] bm1(1,3) Suc.prems(3) show ?case
    by (auto simp: upt_conv_Cons simp del: upt_Suc)
qed simp

lemma sint_nat: "sint x = int (unat x)" if "unat x < 2 ^ 31" for x :: u32
proof -
  have "int (unat x) < int (2 ^ 31)" using that by (simp only: of_nat_less_iff)
  then have "uint x < 2 ^ 31" by simp
  then show ?thesis by (simp add: sint_small)
qed

lemma load_segment_runs:
  assumes pt: "\<And>i. i < length pt \<Longrightarrow> physicalPage (pt ! i) = int i"
    and va: "unat (virtualAddr seg) + length pt * 512 \<le> MemorySize" and pos: "unat (inFileAddr seg) + length pt * 512 < 2 ^ 31"
  shows "\<exists>mem'. load_segment f seg pt mem = Inr mem'"
proof -
  have s: "sint (virtualAddr seg) = int (unat (virtualAddr seg))" using va by (intro sint_nat) (simp add: MemorySize_def)
  have page: "\<exists>mem'. load_page f seg pt i mem = Inr mem' \<and> True" if "i < length pt" for i mem
  proof -
    have "int i * 512 + 512 \<le> int (length pt) * 512" using that by linarith
    then have "int (unat (virtualAddr seg)) + int i * 512 + 512 \<le> int MemorySize" using va by linarith
    then show ?thesis using file_pos [OF pos that] pt [OF that] s
      by (auto simp: load_page_def read_file_at_def write_bytes_def)
  qed
  have "\<exists>mem'. forRes (load_page f seg pt) [0..<length pt] mem = Inr mem' \<and> True"
  proof (intro forRes_rule)
    fix pre i post mem assume "[0..<length pt] = pre @ i # post"
    then have "i \<in> set [0..<length pt]" by simp
    then show "\<exists>mem'. load_page f seg pt i mem = Inr mem' \<and> True" using page by simp
  qed simp
  then show ?thesis by (auto simp: load_segment_def)
qed

definition inside :: "u8 list \<Rightarrow> segment \<Rightarrow> bool" where
  "inside f seg \<longleftrightarrow> unat (inFileAddr seg) + unat (seg_size seg) \<le> length f \<and>
     unat (virtualAddr seg) + unat (seg_size seg) \<le> MemorySize \<and> length f < 2 ^ 31"

lemma load_at_ok:
  assumes "inside f seg"
  shows "load_at f seg mem = Inr (\<lambda>x. if unat (virtualAddr seg) \<le> x \<and> x < unat (virtualAddr seg) + unat (seg_size seg)
      then f ! (unat (inFileAddr seg) + (x - unat (virtualAddr seg))) else mem x)"
proof -
  have n: "unat (seg_size seg) < 2 ^ 31" "unat (inFileAddr seg) < 2 ^ 31" "unat (virtualAddr seg) < 2 ^ 31"
    using assms by (auto simp: inside_def MemorySize_def)
  note s = n [THEN sint_nat]
  show ?thesis
  proof (cases "seg_size seg = 0")
    case True
    then show ?thesis by (auto simp: load_at_def fun_eq_iff)
  next
    case False
    let ?v = "unat (virtualAddr seg)" and ?q = "unat (inFileAddr seg)" and ?n = "unat (seg_size seg)"
    let ?bs = "take ?n (drop ?q f)"
    have len: "length ?bs = ?n" using assms by (auto simp: inside_def min_def)
    have fit: "0 \<le> int ?v" "int ?v + int ?n \<le> int MemorySize" using assms unfolding inside_def by linarith+
    have w: "write_bytes mem (int ?v) ?bs = Inr (\<lambda>x. if ?v \<le> x \<and> x < ?v + ?n then ?bs ! (x - ?v) else mem x)"
      using write_bytes_ok [of "int ?v" ?bs mem, unfolded len, OF fit] unfolding nat_int .
    have b: "?bs ! (x - ?v) = f ! (?q + (x - ?v))" if "?v \<le> x \<and> x < ?v + ?n" for x
    proof -
      have "x - ?v < ?n" "?q \<le> length f" using that assms unfolding inside_def by linarith+
      then show ?thesis by (simp only: nth_take nth_drop)
    qed
    have "0 < ?n" using False by (simp add: unat_gt_0)
    then have "sint (seg_size seg) > 0" using s(1) by linarith
    moreover have "read_file_at f ?n (inFileAddr seg) = Inr ?bs" using s(2) by (simp add: read_file_at_def)
    ultimately have "load_at f seg mem = Inr (\<lambda>x. if ?v \<le> x \<and> x < ?v + ?n then ?bs ! (x - ?v) else mem x)"
      unfolding load_at_def s(3) using w by simp
    then show ?thesis using b by (simp only: cong: if_cong)
  qed
qed

definition total_pages :: "noffHeader \<Rightarrow> nat" where
  "total_pages h = unat (pages_for (seg_size (code h) + seg_size (initData h) + seg_size (uninitData h) + UserStackSize))"

text \<open>An executable that starts at address 0 and keeps its constants with its data, and fits into memory.\<close>

definition bootable :: "u8 list \<Rightarrow> noffHeader \<Rightarrow> bool" where
  "bootable f h \<longleftrightarrow> virtualAddr (code h) = 0 \<and> seg_size (readonlyData h) = 0 \<and> inside f (code h) \<and> inside f (initData h) \<and>
     (seg_size (initData h) = 0 \<or> unat (seg_size (code h)) \<le> unat (virtualAddr (initData h))) \<and>
     unat (virtualAddr (initData h)) + total_pages h * PageSize \<le> MemorySize \<and> length f + total_pages h * PageSize < 2 ^ 31"

definition first_space :: "nat \<Rightarrow> addrspace" where
  "first_space n = \<lparr>as_pageTable = page_table (map int [0..<n]), numPages = n\<rparr>"

lemma first_space_entry: "i < n \<Longrightarrow> as_pageTable (first_space n) ! i = entry_for i (int i)"
  by (simp add: first_space_def page_table_nth)

lemma first_space_frames: "frames_of (first_space n) = map int [0..<n]"
  by (simp add: first_space_def frames_of_def frames_page_table)

lemma first_space_wf: "n \<le> NumPhysPages \<Longrightarrow> wf_space (first_space n)"
  unfolding wf_space_def first_space_frames
  by (auto simp: first_space_def distinct_map dest: page_table_entries)

lemma bootable_pages: "bootable f h \<Longrightarrow> total_pages h \<le> NumPhysPages"
  by (simp add: bootable_def MemorySize_def)

lemma first_ctor:
  assumes bm: "wf_bitmap (gPhysPageBitmap st)" "numBits (gPhysPageBitmap st) = int NumPhysPages" "marked (gPhysPageBitmap st) = {}"
    and h: "get_header big f = Inr h" "bootable f h"
  shows "\<exists>st'. AddrSpace_ctor big (Some f) st = Inr (Some (first_space (total_pages h)), st') \<and>
    marked (gPhysPageBitmap st') = {0..<int (total_pages h)} \<and> addrLock st' = addrLock st"
proof -
  let ?n = "total_pages h" and ?pt = "page_table (map int [0..<total_pages h])"
  let ?np = "pages_for (seg_size (code h) + seg_size (initData h) + seg_size (uninitData h) + UserStackSize)"
  note n = bootable_pages [OF h(2)]
  obtain bm' where a: "repeat_alloc FindAndSet (gPhysPageBitmap st) ?n = Inr (map int [0..<?n], bm')" "marked bm' = {0..<int ?n}"
    using repeat_alloc_fresh [OF bm(1), of 0 ?n] bm(2,3) n by auto
  have "NumClear (gPhysPageBitmap st) = Inr 128" using NumClear_ok [OF bm(1)] bm(2,3) by simp
  moreover have "\<not> ?np > word_of_int 128" using n by (simp add: total_pages_def word_less_nat_alt)
  moreover have e: "physicalPage (?pt ! i) = int i" if "i < length ?pt" for i
    using that by (simp add: page_table_nth entry_for_def)
  have "\<exists>mem'. load_segment f (code h) ?pt mem = Inr mem'" "\<exists>mem'. load_segment f (initData h) ?pt mem = Inr mem'" for mem
    using h(2) by (auto simp: bootable_def inside_def e intro!: load_segment_runs)
  then obtain mem1 mem2 where "load_segment f (code h) ?pt (vm_memory st) = Inr mem1" "load_segment f (initData h) ?pt mem1 = Inr mem2"
    by blast
  ultimately show ?thesis
    using h(1) a by (simp add: AddrSpace_ctor_def Let_def first_space_def total_pages_def)
qed

lemma first_Translate:
  assumes "n \<le> NumPhysPages" "tlb m = None" "va < n * PageSize"
  shows "\<exists>m'. Translate (RestoreState (first_space n) m) (of_nat va) 1 writing = Inr (NoException, va, m')"
proof -
  have va: "va < 65536" "va div 512 < n" using assms(1,3) by (auto simp: less_mult_imp_div_less)
  then have u: "unat (of_nat va :: u32) = va" by (simp add: unat_of_nat)
  have e: "as_pageTable (first_space n) ! (va div 512) = entry_for (va div 512) (int (va div 512))" by (rule first_space_entry [OF va(2)])
  have pa: "(word_of_int (int (va div 512) * 512 + int (va mod 512)) :: u32) = of_nat va"
  proof -
    have "int (va div 512) * 512 + int (va mod 512) = int va"
      using arg_cong [OF div_mult_mod_eq [of va 512], of int] by (simp only: of_nat_add of_nat_mult of_nat_numeral)
    then show ?thesis by simp
  qed
  have "(of_nat va :: u32) < of_nat MemorySize" using va(1) u by (simp add: word_less_nat_alt MemorySize_def)
  then have "\<exists>sp'. AddrSpace_Translate (first_space n) (of_nat va) writing = Inr (NoException, of_nat va, sp')"
    using va e pa u by (auto simp: AddrSpace_Translate_def Let_def entry_for_def) (auto simp: first_space_def)
  then show ?thesis using AddrSpace_Translate_agrees [OF first_space_wf [OF assms(1)] assms(2), of "of_nat va" writing] u by auto
qed

section \<open>Properties\<close>



end
