(* ===== verification/FSPrint.thy ===== *)
theory FSPrint
  imports DiskFS
begin

text \<open>
  Dumping the file system (\<^verbatim>\<open>nachos -D\<close>): \<^verbatim>\<open>FileHeader::Print\<close>, \<^verbatim>\<open>Directory::Print\<close> and \<^verbatim>\<open>FileSystem::Print\<close>.

  What is printed is kept as data: sizes, sector numbers and names, and the bytes of a file line by
  line, one line for every sector; each byte is printed as itself or in hexadecimal.
\<close>

section \<open>The dump\<close>

record header_dump =
  hp_size :: int
  hp_blocks :: "int list"
  hp_lines :: "u8 list list"

fun print_blocks :: "filehdr \<Rightarrow> nat list \<Rightarrow> int list res" where
  "print_blocks hdr [] = Inr []"
| "print_blocks hdr (i # is) =
     andThen (data_sector hdr (int i)) (\<lambda>s. andThen (print_blocks hdr is) (\<lambda>ss. Inr (s # ss)))"

text \<open>The second loop; \<open>k\<close> counts the bytes printed so far.\<close>

fun print_lines :: "filehdr \<Rightarrow> nat list \<Rightarrow> nat \<Rightarrow> disk_dev \<Rightarrow> (u8 list list \<times> disk_dev) run" where
  "print_lines hdr [] k d = Some (Inr ([], d))"
| "print_lines hdr (i # is) k d =
     bindR (Some (data_sector hdr (int i))) (\<lambda>s.
     bindR (ReadSector s d) (\<lambda>(data, d).
     let line = take (min SectorSize (nat (numBytes hdr) - k)) data
     in bindR (print_lines hdr is (k + length line) d) (\<lambda>(lines, d). Some (Inr (line # lines, d)))))"

definition Header_Print :: "filehdr \<Rightarrow> disk_dev \<Rightarrow> (header_dump \<times> disk_dev) run" where
  "Header_Print hdr d =
     bindR (Some (print_blocks hdr [0..<nat (numSectors hdr)])) (\<lambda>bs.
     bindR (print_lines hdr [0..<nat (numSectors hdr)] 0 d) (\<lambda>(lines, d).
     Some (Inr (\<lparr>hp_size = numBytes hdr, hp_blocks = bs, hp_lines = lines\<rparr>, d))))"

fun Dir_Print :: "directory \<Rightarrow> disk_dev \<Rightarrow> ((u8 list \<times> int \<times> header_dump) list \<times> disk_dev) run" where
  "Dir_Print [] d = Some (Inr ([], d))"
| "Dir_Print (e # es) d =
     (if inUse e then
        bindR (Header_FetchFrom (de_sector e) d) (\<lambda>(hdr, d).
        bindR (Header_Print hdr d) (\<lambda>(p, d).
        bindR (Dir_Print es d) (\<lambda>(ps, d). Some (Inr ((c_str (de_name e), de_sector e, p) # ps, d)))))
      else Dir_Print es d)"

record fs_dump =
  fp_map_hdr :: header_dump
  fp_dir_hdr :: header_dump
  fp_bits :: "int list"
  fp_files :: "(u8 list \<times> int \<times> header_dump) list"

definition disk_Print :: "disk_fs \<Rightarrow> disk_dev \<Rightarrow> (fs_dump \<times> disk_dev) run" where
  "disk_Print fs d =
     bindR (new_PersistentBitmap (freeMapFile fs) NumSectors d) (\<lambda>(freeMap, d).
     bindR (Header_FetchFrom FreeMapSector d) (\<lambda>(bitHdr, d).
     bindR (Header_Print bitHdr d) (\<lambda>(p1, d).
     bindR (Header_FetchFrom DirectorySector d) (\<lambda>(dirHdr, d).
     bindR (Header_Print dirHdr d) (\<lambda>(p2, d).
     bindR (Some (Bitmap_Print freeMap)) (\<lambda>bits.
     bindR (Dir_FetchFrom (directoryFile fs) (new_Directory NumDirEntries) d) (\<lambda>(dir, d).
     bindR (Dir_Print dir d) (\<lambda>(ps, d).
     Some (Inr (\<lparr>fp_map_hdr = p1, fp_dir_hdr = p2, fp_bits = bits, fp_files = ps\<rparr>, d))))))))))"

section \<open>What it shows\<close>

lemma print_blocks_ok: "\<forall>i\<in>set is. i < length (dataSectors hdr) \<Longrightarrow> print_blocks hdr is = Inr (map ((!) (dataSectors hdr)) is)"
  by (induction "is") (simp_all add: data_sector_def)

text \<open>One line: the part of a sector that belongs to the file.\<close>

lemma line_of_content:
  assumes "hdr_ok hdr" "disk_ok d" "i < nat (numSectors hdr)"
  shows "take (min 128 (nat (numBytes hdr) - 128 * i)) (sector d (dataSectors hdr ! i)) = take 128 (drop (128 * i) (content d hdr))"
proof (rule nth_equalityI)
  have "length (sector d (dataSectors hdr ! i)) = 128"
    using length_sector [OF assms(2)] ByteToSector_ok(2,3) [OF assms(1,3)] by simp
  then show len: "length (take (min 128 (nat (numBytes hdr) - 128 * i)) (sector d (dataSectors hdr ! i))) =
      length (take 128 (drop (128 * i) (content d hdr)))" by simp
  fix j assume "j < length (take (min 128 (nat (numBytes hdr) - 128 * i)) (sector d (dataSectors hdr ! i)))"
  then have "j < 128" "128 * i + j < nat (numBytes hdr)" by auto
  then show "take (min 128 (nat (numBytes hdr) - 128 * i)) (sector d (dataSectors hdr ! i)) ! j = take 128 (drop (128 * i) (content d hdr)) ! j"
    by (simp add: content_def fbyte_in_block)
qed

lemma print_lines_ok:
  assumes "hdr_ok hdr" "disk_ok d" "i + n = nat (numSectors hdr)" "k = min (128 * i) (nat (numBytes hdr))"
  shows "\<exists>lines d'. print_lines hdr [i..<i + n] k d = Some (Inr (lines, d')) \<and> disk_ok d' \<and> sector d' = sector d \<and>
    length lines = n \<and> concat lines = drop (128 * i) (content d hdr)"
  using assms
proof (induction n arbitrary: i k d)
  case 0
  then show ?case using hdr_ok_bounds(3) [OF 0(1)] by simp
next
  case (Suc n)
  let ?s = "dataSectors hdr ! i" and ?c = "content d hdr"
  have i: "i < nat (numSectors hdr)" using Suc.prems(3) by simp
  have len: "length (dataSectors hdr) = 30" "nat (numSectors hdr) \<le> 30"
    using Suc.prems(1) hdr_ok_bounds(2) by (simp_all add: hdr_ok_def)
  have s: "data_sector hdr (int i) = Inr ?s" using i len by (simp add: data_sector_def)
  obtain d1 where r: "ReadSector ?s d = Some (Inr (sector d ?s, d1))" "disk_ok d1" "sector d1 = sector d"
    using ReadSector_ok [OF Suc.prems(2)] ByteToSector_ok(2,3) [OF Suc.prems(1) i] by blast
  define line where "line = take (min 128 (nat (numBytes hdr) - k)) (sector d ?s)"
  have line: "line = take 128 (drop (128 * i) ?c)"
  proof (cases "128 * i \<le> nat (numBytes hdr)")
    case True
    then show ?thesis using line_of_content [OF Suc.prems(1,2) i] Suc.prems(4) by (simp add: line_def min_absorb1)
  next
    case False
    then show ?thesis using Suc.prems(4) by (simp add: line_def)
  qed
  have k: "k + length line = min (128 * Suc i) (nat (numBytes hdr))" using Suc.prems(4) by (auto simp: line)
  have "Suc i + n = nat (numSectors hdr)" using Suc.prems(3) by simp
  from Suc.IH [OF Suc.prems(1) r(2) this k] obtain lines d2 where
    l: "print_lines hdr [Suc i..<Suc i + n] (k + length line) d1 = Some (Inr (lines, d2))" "disk_ok d2" "sector d2 = sector d"
      "length lines = n" "concat lines = drop (128 * Suc i) ?c" using r(3) same_views(1) [OF r(3)] by auto
  have "print_lines hdr [i..<i + Suc n] k d = Some (Inr (line # lines, d2))"
    using s r(1) l(1) by (simp add: upt_conv_Cons line_def del: upt_Suc)
  moreover have "concat (line # lines) = drop (128 * i) ?c"
    using append_take_drop_id [of 128 "drop (128 * i) ?c"] by (simp add: l(5) line add.commute)
  ultimately show ?case using l by auto
qed

lemma Header_Print_ok:
  assumes "hdr_ok hdr" "disk_ok d"
  shows "\<exists>p d'. Header_Print hdr d = Some (Inr (p, d')) \<and> disk_ok d' \<and> sector d' = sector d \<and>
    hp_size p = numBytes hdr \<and> hp_blocks p = blocks hdr \<and> concat (hp_lines p) = content d hdr"
proof -
  have len: "length (dataSectors hdr) = 30" "nat (numSectors hdr) \<le> 30"
    using assms(1) hdr_ok_bounds(2) by (simp_all add: hdr_ok_def)
  have "map ((!) (dataSectors hdr)) [0..<nat (numSectors hdr)] = blocks hdr"
    using len by (intro nth_equalityI) (simp_all add: blocks_def)
  then have "print_blocks hdr [0..<nat (numSectors hdr)] = Inr (blocks hdr)"
    using print_blocks_ok [of "[0..<nat (numSectors hdr)]" hdr] len by simp
  then show ?thesis using print_lines_ok [OF assms, of 0 "nat (numSectors hdr)" 0] by (auto simp: Header_Print_def)
qed

definition shown :: "u8 list \<times> int \<times> header_dump \<Rightarrow> u8 list \<times> u8 list" where
  "shown p = (case p of (name, s, h) \<Rightarrow> (name, concat (hp_lines h)))"

lemma Dir_Print_ok:
  "\<forall>e\<in>set es. inUse e \<longrightarrow> entry_ok d e \<Longrightarrow> disk_ok d \<Longrightarrow>
   \<exists>ps d'. Dir_Print es d = Some (Inr (ps, d')) \<and> disk_ok d' \<and> sector d' = sector d \<and>
     map shown ps = map (\<lambda>e. (c_str (de_name e), content d (entry_hdr d e))) (filter inUse es)"
proof (induction es arbitrary: d)
  case (Cons e es)
  show ?case
  proof (cases "inUse e")
    case True
    then have e: "entry_ok d e" using Cons.prems(1) by simp
    obtain d1 where 1: "Header_FetchFrom (de_sector e) d = Some (Inr (entry_hdr d e, d1))" "disk_ok d1" "sector d1 = sector d"
      using Header_FetchFrom_ok [OF Cons.prems(2)] e by (auto simp: entry_ok_def entry_hdr_def)
    obtain p d2 where 2: "Header_Print (entry_hdr d e) d1 = Some (Inr (p, d2))" "disk_ok d2" "sector d2 = sector d"
      "concat (hp_lines p) = content d (entry_hdr d e)"
      using Header_Print_ok [OF _ 1(2), of "entry_hdr d e"] e 1(3) same_views(1) [OF 1(3)] by (auto simp: entry_ok_def)
    have "\<forall>e\<in>set es. inUse e \<longrightarrow> entry_ok d2 e" using Cons.prems(1) same_views(4) [OF 2(3)] by simp
    from Cons.IH [OF this 2(2)] show ?thesis using 1(1) 2 True same_views [OF 2(3)] by (auto simp: shown_def)
  next
    case False
    then show ?thesis using Cons by simp
  qed
qed simp

lemma disk_Print_ok:
  assumes inv: "fs_inv fs d fm dir"
  shows "\<exists>p d'. disk_Print fs d = Some (Inr (p, d')) \<and> disk_ok d' \<and> sector d' = sector d \<and>
    fp_bits p = filter (\<lambda>s. s \<in> marked fm) [0..NumSectors - 1] \<and>
    map shown (fp_files p) = map (\<lambda>e. (c_str (de_name e), content d (entry_hdr d e))) (filter inUse dir)"
proof -
  have i: "sys_ok fs" "wf_bitmap fm" "numBits fm = 1024" "files_ok fs d fm dir"
    "bytes_hdr (sector d 0) = map_hdr fs" "bytes_hdr (sector d 1) = dir_hdr fs"
    using inv by (simp_all add: fs_inv_def)
  have hdrs: "hdr_ok (map_hdr fs)" "hdr_ok (dir_hdr fs)" using i(1) by (simp_all add: sys_ok_def)
  obtain d1 where 1: "new_PersistentBitmap (freeMapFile fs) 1024 d = Some (Inr (fm, d1))" "disk_ok d1" "sector d1 = sector d"
    using fetch_map [OF inv] by blast
  obtain d2 where 2: "Header_FetchFrom 0 d1 = Some (Inr (map_hdr fs, d2))" "disk_ok d2" "sector d2 = sector d"
    using Header_FetchFrom_ok [OF 1(2), of 0] 1(3) i(5) by auto
  obtain p1 d3 where 3: "Header_Print (map_hdr fs) d2 = Some (Inr (p1, d3))" "disk_ok d3" "sector d3 = sector d"
    using Header_Print_ok [OF hdrs(1) 2(2)] 2(3) by auto
  obtain d4 where 4: "Header_FetchFrom 1 d3 = Some (Inr (dir_hdr fs, d4))" "disk_ok d4" "sector d4 = sector d"
    using Header_FetchFrom_ok [OF 3(2), of 1] 3(3) i(6) by auto
  obtain p2 d5 where 5: "Header_Print (dir_hdr fs) d4 = Some (Inr (p2, d5))" "disk_ok d5" "sector d5 = sector d"
    using Header_Print_ok [OF hdrs(2) 4(2)] 4(3) by auto
  obtain d6 where 6: "Dir_FetchFrom (directoryFile fs) (new_Directory 10) d5 = Some (Inr (dir, d6))" "disk_ok d6" "sector d6 = sector d"
    using fetch_dir [OF fs_inv_sector [OF inv 5(3,2)]] 5(3) by auto
  have "\<forall>e\<in>set dir. inUse e \<longrightarrow> entry_ok d6 e" using i(4) same_views(4) [OF 6(3)] by (simp add: files_ok_def)
  from Dir_Print_ok [OF this 6(2)] obtain ps d7 where 7: "Dir_Print dir d6 = Some (Inr (ps, d7))" "disk_ok d7" "sector d7 = sector d"
    "map shown ps = map (\<lambda>e. (c_str (de_name e), content d (entry_hdr d e))) (filter inUse dir)"
    using 6(3) same_views [OF 6(3)] by auto
  have "Bitmap_Print fm = Inr (filter (\<lambda>s. s \<in> marked fm) [0..1024 - 1])" using Bitmap_Print_ok [OF i(2)] i(3) by simp
  then show ?thesis using 1(1) 2(1) 3(1) 4(1) 5(1) 6(1) 7 by (simp add: disk_Print_def)
qed

section \<open>Properties\<close>



end
