(* ===== verification/Startup.thy ===== *)
theory Startup
  imports FSPrint LibTest Console Network
begin

text \<open>
  Starting the system: the command line (\<^verbatim>\<open>Kernel::Kernel\<close> of \<^verbatim>\<open>threads/kernel.cc\<close>, \<^verbatim>\<open>main\<close> of
  \<^verbatim>\<open>threads/main.cc\<close>), copying files to and printing files of the simulated disk, the
  console and the network test, and running the program named on the command line.

  \<open>stub\<close> tells whether the build has \<^verbatim>\<open>FILESYS_STUB\<close>.  Printed usage and copyright lines are left out, and
  \<^verbatim>\<open>atof\<close> is an argument, a \<^verbatim>\<open>double\<close> being a rational number here.
\<close>

section \<open>The command line\<close>

text \<open>\<^verbatim>\<open>atoi\<close>: white space, a sign, digits; a number that does not fit is cut to the nearest one that does.\<close>

definition is_space :: "char \<Rightarrow> bool" where
  "is_space c \<longleftrightarrow> c = CHR '' '' \<or> (9 \<le> (of_char c :: nat) \<and> (of_char c :: nat) \<le> 13)"

definition digit :: "char \<Rightarrow> int" where
  "digit c = of_char c - 48"

definition is_digit :: "char \<Rightarrow> bool" where
  "is_digit c \<longleftrightarrow> 0 \<le> digit c \<and> digit c \<le> 9"

definition decimal :: "string \<Rightarrow> int" where
  "decimal s = fold (\<lambda>c n. 10 * n + digit c) (takeWhile is_digit s) 0"

definition clamp32 :: "int \<Rightarrow> int" where
  "clamp32 n = max (- (2 ^ 31)) (min (2 ^ 31 - 1) n)"

definition atoi :: "string \<Rightarrow> int" where
  "atoi s =
     (case dropWhile is_space s of
        [] \<Rightarrow> 0
      | c # cs \<Rightarrow> clamp32 (if c = CHR ''-'' then - decimal cs else if c = CHR ''+'' then decimal cs else decimal (c # cs)))"

text \<open>The parameters that the constructor of the kernel sets; \<open>seed\<close> is the argument of \<^verbatim>\<open>RandomInit\<close>.\<close>

record kernel_opts =
  k_randomSlice :: bool
  k_seed :: "int option"
  k_debugUserProg :: bool
  k_consoleIn :: "string option"
  k_consoleOut :: "string option"
  k_formatFlag :: bool
  k_reliability :: rat
  k_hostName :: int

definition kernel_defaults :: kernel_opts where
  "kernel_defaults =
     \<lparr>k_randomSlice = False, k_seed = None, k_debugUserProg = False, k_consoleIn = None, k_consoleOut = None,
      k_formatFlag = False, k_reliability = 1, k_hostName = 0\<rparr>"

fun Kernel_args :: "(string \<Rightarrow> rat) \<Rightarrow> bool \<Rightarrow> string list \<Rightarrow> kernel_opts \<Rightarrow> kernel_opts res" where
  "Kernel_args atof stub [] k = Inr k"
| "Kernel_args atof stub (a # rest) k =
     (if a = ''-rs'' then
        (case rest of [] \<Rightarrow> Inl Assertion_failed
         | v # rest \<Rightarrow> Kernel_args atof stub rest (k\<lparr>k_seed := Some (atoi v), k_randomSlice := True\<rparr>))
      else if a = ''-s'' then Kernel_args atof stub rest (k\<lparr>k_debugUserProg := True\<rparr>)
      else if a = ''-ci'' then
        (case rest of [] \<Rightarrow> Inl Assertion_failed
         | v # rest \<Rightarrow> Kernel_args atof stub rest (k\<lparr>k_consoleIn := Some v\<rparr>))
      else if a = ''-co'' then
        (case rest of [] \<Rightarrow> Inl Assertion_failed
         | v # rest \<Rightarrow> Kernel_args atof stub rest (k\<lparr>k_consoleOut := Some v\<rparr>))
      else if \<not> stub \<and> a = ''-f'' then Kernel_args atof stub rest (k\<lparr>k_formatFlag := True\<rparr>)
      else if a = ''-n'' then
        (case rest of [] \<Rightarrow> Inl Assertion_failed
         | v # rest \<Rightarrow> Kernel_args atof stub rest (k\<lparr>k_reliability := atof v\<rparr>))
      else if a = ''-m'' then
        (case rest of [] \<Rightarrow> Inl Assertion_failed
         | v # rest \<Rightarrow> Kernel_args atof stub rest (k\<lparr>k_hostName := atoi v\<rparr>))
      else Kernel_args atof stub rest k)"

record main_opts =
  debugArg :: string
  userProgName :: "string option"
  threadTestFlag :: bool
  consoleTestFlag :: bool
  networkTestFlag :: bool
  copyFileNames :: "(string \<times> string) option"
  printFileName :: "string option"
  removeFileName :: "string option"
  dirListFlag :: bool
  dumpFlag :: bool

definition main_defaults :: main_opts where
  "main_defaults =
     \<lparr>debugArg = [], userProgName = None, threadTestFlag = False, consoleTestFlag = False, networkTestFlag = False,
      copyFileNames = None, printFileName = None, removeFileName = None, dirListFlag = False, dumpFlag = False\<rparr>"

fun main_args :: "bool \<Rightarrow> string list \<Rightarrow> main_opts \<Rightarrow> main_opts res" where
  "main_args stub [] m = Inr m"
| "main_args stub (a # rest) m =
     (if a = ''-d'' then
        (case rest of [] \<Rightarrow> Inl Assertion_failed | v # rest \<Rightarrow> main_args stub rest (m\<lparr>debugArg := v\<rparr>))
      else if a = ''-z'' then main_args stub rest m
      else if a = ''-x'' then
        (case rest of [] \<Rightarrow> Inl Assertion_failed | v # rest \<Rightarrow> main_args stub rest (m\<lparr>userProgName := Some v\<rparr>))
      else if a = ''-K'' then main_args stub rest (m\<lparr>threadTestFlag := True\<rparr>)
      else if a = ''-C'' then main_args stub rest (m\<lparr>consoleTestFlag := True\<rparr>)
      else if a = ''-N'' then main_args stub rest (m\<lparr>networkTestFlag := True\<rparr>)
      else if \<not> stub \<and> a = ''-cp'' then
        (case rest of u # v # rest \<Rightarrow> main_args stub rest (m\<lparr>copyFileNames := Some (u, v)\<rparr>) | _ \<Rightarrow> Inl Assertion_failed)
      else if \<not> stub \<and> a = ''-p'' then
        (case rest of [] \<Rightarrow> Inl Assertion_failed | v # rest \<Rightarrow> main_args stub rest (m\<lparr>printFileName := Some v\<rparr>))
      else if \<not> stub \<and> a = ''-r'' then
        (case rest of [] \<Rightarrow> Inl Assertion_failed | v # rest \<Rightarrow> main_args stub rest (m\<lparr>removeFileName := Some v\<rparr>))
      else if \<not> stub \<and> a = ''-l'' then main_args stub rest (m\<lparr>dirListFlag := True\<rparr>)
      else if \<not> stub \<and> a = ''-D'' then main_args stub rest (m\<lparr>dumpFlag := True\<rparr>)
      else main_args stub rest m)"

section \<open>Copy and Print\<close>

text \<open>
  \<open>h\<close> holds the host's files other than the one behind the disk.  \<^verbatim>\<open>Copy\<close> of a UNIX file to a Nachos file; the messages
  it prints on failure are its result \<open>False\<close>.
\<close>

abbreviation (input) TransferSize :: nat where "TransferSize \<equiv> 128"

partial_function (option) Copy_loop :: "int \<Rightarrow> dfile \<Rightarrow> host \<Rightarrow> disk_dev \<Rightarrow> (host \<times> disk_dev) run" where
  "Copy_loop fd openFile h d =
     (let (amountRead, buffer, h) = ReadPartial fd TransferSize h
      in if amountRead > 0
         then bindR (disk_Write openFile buffer amountRead d) (\<lambda>(_, openFile, d). Copy_loop fd openFile h d)
         else Some (Inr (h, d)))"

definition Copy :: "disk_fs \<Rightarrow> string \<Rightarrow> u8 list \<Rightarrow> host \<Rightarrow> disk_dev \<Rightarrow> (bool \<times> host \<times> disk_dev) run" where
  "Copy fs from to h d =
     bindR (Some (OpenForReadWrite from False h)) (\<lambda>(fd, h).
     if fd < 0 then Some (Inr (False, h, d))
     else
       bindR (Some (Lseek fd 0 2 h)) (\<lambda>h.
       let fileLength = Tell fd h
       in bindR (Some (Lseek fd 0 0 h)) (\<lambda>h.
          bindR (disk_Create fs to fileLength d) (\<lambda>(ok, d).
          if \<not> ok then bindR (Some (Close fd h)) (\<lambda>h. Some (Inr (False, h, d)))
          else
            bindR (disk_Open fs to d) (\<lambda>(openFile, d).
            case openFile of
              None \<Rightarrow> Some (Inl Assertion_failed)
            | Some f \<Rightarrow>
                bindR (Copy_loop fd f h d) (\<lambda>(h, d).
                bindR (Some (Close fd h)) (\<lambda>h. Some (Inr (True, h, d)))))))))"

partial_function (option) Print_loop :: "dfile \<Rightarrow> u8 list \<Rightarrow> disk_dev \<Rightarrow> (u8 list \<times> disk_dev) run" where
  "Print_loop openFile out d =
     bindR (disk_Read openFile (int TransferSize) d) (\<lambda>(buffer, openFile, d).
     if length buffer > 0 then Print_loop openFile (out @ buffer) d else Some (Inr (out, d)))"

text \<open>What \<^verbatim>\<open>Print\<close> prints; \<open>None\<close> when it cannot open the file.\<close>

definition Print :: "disk_fs \<Rightarrow> u8 list \<Rightarrow> disk_dev \<Rightarrow> (u8 list option \<times> disk_dev) run" where
  "Print fs name d =
     bindR (disk_Open fs name d) (\<lambda>(openFile, d).
     case openFile of
       None \<Rightarrow> Some (Inr (None, d))
     | Some f \<Rightarrow> bindR (Print_loop f [] d) (\<lambda>(out, d). Some (Inr (Some out, d))))"

text \<open>
  The file commands of \<^verbatim>\<open>main\<close>, in the order in which it obeys them, and what they print: the dump, the names
  in the directory, the contents of a file.
\<close>

record main_output =
  mo_dump :: "fs_dump option"
  mo_list :: "u8 list list option"
  mo_print :: "u8 list option"

definition file_name :: "string \<Rightarrow> u8 list" where
  "file_name s = map of_char s"

definition if_given :: "'a option \<Rightarrow> 's \<Rightarrow> ('a \<Rightarrow> ('b \<times> 's) run) \<Rightarrow> ('b option \<times> 's) run" where
  "if_given arg s f = (case arg of None \<Rightarrow> Some (Inr (None, s)) | Some a \<Rightarrow> bindR (f a) (\<lambda>(r, s). Some (Inr (Some r, s))))"

definition flag :: "bool \<Rightarrow> unit option" where
  "flag b = (if b then Some () else None)"

definition main_files :: "disk_fs \<Rightarrow> main_opts \<Rightarrow> host \<Rightarrow> disk_dev \<Rightarrow> (main_output \<times> host \<times> disk_dev) run" where
  "main_files fs m h d =
     bindR (if_given (removeFileName m) d (\<lambda>name. disk_Remove fs (file_name name) d)) (\<lambda>(_, d).
     bindR (if_given (copyFileNames m) (h, d) (\<lambda>(from, to). Copy fs from (file_name to) h d)) (\<lambda>(_, h, d).
     bindR (if_given (flag (dumpFlag m)) d (\<lambda>_. disk_Print fs d)) (\<lambda>(dump, d).
     bindR (if_given (flag (dirListFlag m)) d (\<lambda>_. disk_List fs d)) (\<lambda>(names, d).
     bindR (if_given (printFileName m) d (\<lambda>name. Print fs (file_name name) d)) (\<lambda>(out, d).
     Some (Inr (\<lparr>mo_dump = dump, mo_list = names, mo_print = (case out of Some (Some bytes) \<Rightarrow> Some bytes | _ \<Rightarrow> None)\<rparr>, h, d)))))))"

section \<open>Tests of the devices\<close>

text \<open>\<^verbatim>\<open>Kernel::ConsoleTest\<close>: characters are echoed until end of file.\<close>

partial_function (option) ConsoleTest :: "console_in \<Rightarrow> console_out \<Rightarrow> (console_in \<times> console_out) run" where
  "ConsoleTest i out =
     bindR (GetChar i) (\<lambda>(ch, i).
     if ch \<noteq> EOF then bindR (PutChar ch out) (\<lambda>out. ConsoleTest i out)
     else Some (Inr (i, out)))"

text \<open>
  \<^verbatim>\<open>Kernel::NetworkTest\<close> on a machine 0 or 1, cut where it waits: the first message, its arrival from the other machine, the
  acknowledgement to the sender's reply box, its arrival.  \<open>luck\<close> is what the host contributes to a send: the random number,
  when it accepts the datagram, the uninitialised bytes.
\<close>

type_synonym luck = "u32 \<times> (nat \<Rightarrow> bool) \<times> u8 list"

definition chars :: "string \<Rightarrow> u8 list" where
  "chars s = map of_char s @ [0]"

definition NetworkTest_send :: "luck \<Rightarrow> node \<Rightarrow> wire \<Rightarrow> (node \<times> wire) run" where
  "NetworkTest_send l n w =
     (let (random, up, junk) = l; farHost = (if hostName n = 0 then 1 else 0); data = chars ''Hello there!''
      in PostOffice_Send random up junk \<lparr>pkt_to = farHost, pkt_from = 0, pkt_length = 0\<rparr>
           \<lparr>mail_to = 0, mail_from = 1, mail_length = of_nat (length data)\<rparr> data n w)"

definition NetworkTest_receive :: "node \<Rightarrow> (mail \<times> node) run" where
  "NetworkTest_receive n = PostOffice_Receive 0 n"

definition NetworkTest_ack :: "luck \<Rightarrow> mail \<Rightarrow> node \<Rightarrow> wire \<Rightarrow> (node \<times> wire) run" where
  "NetworkTest_ack l m n w =
     (let (random, up, junk) = l; ack = chars ''Got it!''
      in PostOffice_Send random up junk \<lparr>pkt_to = pkt_from (m_pktHdr m), pkt_from = 0, pkt_length = 0\<rparr>
           \<lparr>mail_to = mail_from (m_mailHdr m), mail_from = 1, mail_length = of_nat (length ack)\<rparr> ack n w)"

definition NetworkTest_acked :: "node \<Rightarrow> (mail \<times> node) run" where
  "NetworkTest_acked n = PostOffice_Receive 1 n"

section \<open>Command lines made of options\<close>

datatype opt =
    O_rs string | O_s | O_ci string | O_co string | O_f | O_n string | O_m string
  | O_d string | O_x string | O_K | O_C | O_N | O_cp string string | O_p string | O_r string | O_l | O_D

fun opt_args :: "opt \<Rightarrow> string list" where
  "opt_args (O_rs v) = [''-rs'', v]"
| "opt_args O_s = [''-s'']"
| "opt_args (O_ci v) = [''-ci'', v]"
| "opt_args (O_co v) = [''-co'', v]"
| "opt_args O_f = [''-f'']"
| "opt_args (O_n v) = [''-n'', v]"
| "opt_args (O_m v) = [''-m'', v]"
| "opt_args (O_d v) = [''-d'', v]"
| "opt_args (O_x v) = [''-x'', v]"
| "opt_args O_K = [''-K'']"
| "opt_args O_C = [''-C'']"
| "opt_args O_N = [''-N'']"
| "opt_args (O_cp u v) = [''-cp'', u, v]"
| "opt_args (O_p v) = [''-p'', v]"
| "opt_args (O_r v) = [''-r'', v]"
| "opt_args O_l = [''-l'']"
| "opt_args O_D = [''-D'']"

text \<open>The effect an option is documented to have.\<close>

fun kernel_set :: "(string \<Rightarrow> rat) \<Rightarrow> opt \<Rightarrow> kernel_opts \<Rightarrow> kernel_opts" where
  "kernel_set atof (O_rs v) k = k\<lparr>k_seed := Some (atoi v), k_randomSlice := True\<rparr>"
| "kernel_set atof O_s k = k\<lparr>k_debugUserProg := True\<rparr>"
| "kernel_set atof (O_ci v) k = k\<lparr>k_consoleIn := Some v\<rparr>"
| "kernel_set atof (O_co v) k = k\<lparr>k_consoleOut := Some v\<rparr>"
| "kernel_set atof O_f k = k\<lparr>k_formatFlag := True\<rparr>"
| "kernel_set atof (O_n v) k = k\<lparr>k_reliability := atof v\<rparr>"
| "kernel_set atof (O_m v) k = k\<lparr>k_hostName := atoi v\<rparr>"
| "kernel_set atof _ k = k"

fun main_set :: "opt \<Rightarrow> main_opts \<Rightarrow> main_opts" where
  "main_set (O_d v) m = m\<lparr>debugArg := v\<rparr>"
| "main_set (O_x v) m = m\<lparr>userProgName := Some v\<rparr>"
| "main_set O_K m = m\<lparr>threadTestFlag := True\<rparr>"
| "main_set O_C m = m\<lparr>consoleTestFlag := True\<rparr>"
| "main_set O_N m = m\<lparr>networkTestFlag := True\<rparr>"
| "main_set (O_cp u v) m = m\<lparr>copyFileNames := Some (u, v)\<rparr>"
| "main_set (O_p v) m = m\<lparr>printFileName := Some v\<rparr>"
| "main_set (O_r v) m = m\<lparr>removeFileName := Some v\<rparr>"
| "main_set O_l m = m\<lparr>dirListFlag := True\<rparr>"
| "main_set O_D m = m\<lparr>dumpFlag := True\<rparr>"
| "main_set _ m = m"

definition plain :: "string \<Rightarrow> bool" where
  "plain s \<longleftrightarrow> take 1 s \<noteq> ''-''"

lemma plain_skipped:
  assumes "plain v"
  shows "Kernel_args atof stub (v # rest) k = Kernel_args atof stub rest k" "main_args stub (v # rest) m = main_args stub rest m"
  using assms by (cases v; simp add: plain_def)+

lemma Kernel_args_opt:
  "\<forall>v\<in>set (tl (opt_args o')). plain v \<Longrightarrow>
    Kernel_args atof False (opt_args o' @ rest) k = Kernel_args atof False rest (kernel_set atof o' k)"
  by (cases o') (auto simp: plain_skipped simp del: Kernel_args.simps(2) simp: Kernel_args.simps(2) [of _ _ "CHR ''-'' # _"])

lemma main_args_opt:
  "\<forall>v\<in>set (tl (opt_args o')). plain v \<Longrightarrow>
    main_args False (opt_args o' @ rest) m = main_args False rest (main_set o' m)"
  by (cases o') (auto simp: plain_skipped simp del: main_args.simps(2) simp: main_args.simps(2) [of _ "CHR ''-'' # _"])

text \<open>
  Property C31.  The command line, which \<^verbatim>\<open>main\<close> and the constructor of the kernel read one after the other, in a build with the disk's file
  system: when it is made of documented options whose values do not begin with a minus sign, neither of them stops at
  an assertion, and each sets exactly what the options say, the last one winning.
\<close>

theorem command_line_read:
  assumes "\<forall>o' \<in> set opts. \<forall>v \<in> set (tl (opt_args o')). plain v"
  shows "Kernel_args atof False (concat (map opt_args opts)) k = Inr (fold (kernel_set atof) opts k) \<and>
    main_args False (concat (map opt_args opts)) m = Inr (fold main_set opts m)"
  using assms
proof (induction opts arbitrary: k m)
  case (Cons o' opts)
  then show ?case using Kernel_args_opt [of o'] main_args_opt [of o'] by simp
qed simp

theorem command_line_read_witness:
  "main_args False [''-f'', ''-x'', ''sort'', ''-m'', ''12''] main_defaults = Inr (main_defaults\<lparr>userProgName := Some ''sort''\<rparr>) \<and>
   Kernel_args (\<lambda>_. 0) False [''-f'', ''-x'', ''sort'', ''-m'', ''12''] kernel_defaults =
     Inr (kernel_defaults\<lparr>k_formatFlag := True, k_hostName := 12\<rparr>)"
proof -
  have "atoi ''12'' = 12" by code_simp
  then show ?thesis
    using command_line_read [of "[O_f, O_x ''sort'', O_m ''12'']" "\<lambda>_. 0" kernel_defaults main_defaults] by (simp add: plain_def)
qed

text \<open>A value that is an option of the other reader is read twice.\<close>

lemma option_read_twice:
  "main_args False [''-x'', ''-s''] main_defaults = Inr (main_defaults\<lparr>userProgName := Some ''-s''\<rparr>)"
  "Kernel_args atof False [''-x'', ''-s''] kernel_defaults = Inr (kernel_defaults\<lparr>k_debugUserProg := True\<rparr>)"
  by simp_all

section \<open>Copying and printing\<close>

lemma chunk_split: "take n (drop p c) @ drop (p + length (take n (drop p c))) c = drop p c"
proof (cases "n \<le> length c - p")
  case True
  then show ?thesis using append_take_drop_id [of n "drop p c"] by (simp add: add.commute min_absorb2)
qed simp

lemma ReadPartial_next:
  assumes "fd_of fd h = Some e"
  shows "\<exists>h'. ReadPartial fd n h = (int (length (take n (drop (fd_pos e) (h_data h (fd_inode e))))),
      take n (drop (fd_pos e) (h_data h (fd_inode e))), h') \<and>
    fd_of fd h' = Some (e\<lparr>fd_pos := fd_pos e + length (take n (drop (fd_pos e) (h_data h (fd_inode e))))\<rparr>) \<and> h_data h' = h_data h"
  using assms by (auto simp: ReadPartial_def put_fd_def fd_of_def Let_def split: if_splits)

lemma Copy_loop_ok:
  assumes "fd_of fd h = Some e" "fd_pos e = p" "seekPosition f = int p" "hdr_ok (df_hdr f)" "disk_ok d"
    and "numBytes (df_hdr f) = int (length (h_data h (fd_inode e)))" "p \<le> length (h_data h (fd_inode e))"
  shows "\<exists>h' d' e'. Copy_loop fd f h d = Some (Inr (h', d')) \<and> disk_ok d' \<and>
    (\<forall>s. s \<notin> set (blocks (df_hdr f)) \<longrightarrow> sector d' s = sector d s) \<and>
    content d' (df_hdr f) = take p (content d (df_hdr f)) @ drop p (h_data h (fd_inode e)) \<and>
    fd_of fd h' = Some e' \<and> h_data h' = h_data h"
  using assms
proof (induction "length (h_data h (fd_inode e)) - p" arbitrary: h e p f d rule: less_induct)
  case less
  let ?c = "h_data h (fd_inode e)" and ?hdr = "df_hdr f"
  define buf where "buf = take 128 (drop p ?c)"
  have chunk: "buf @ drop (p + length buf) ?c = drop p ?c" "p + length buf \<le> length ?c" "p < length ?c \<Longrightarrow> 0 < length buf"
    using chunk_split [of 128 p ?c] less.prems(7) by (auto simp: buf_def)
  obtain h1 where r: "ReadPartial fd 128 h = (int (length buf), buf, h1)"
    "fd_of fd h1 = Some (e\<lparr>fd_pos := p + length buf\<rparr>)" "h_data h1 = h_data h"
    using ReadPartial_next [OF less.prems(1), of 128] less.prems(2) by (auto simp: buf_def)
  show ?case
  proof (cases "p = length ?c")
    case True
    then have "buf = []" by (simp add: buf_def)
    then have "Copy_loop fd f h d = Some (Inr (h1, d))" using r(1) by (simp add: Copy_loop.simps)
    moreover have "take p (content d ?hdr) = content d ?hdr" using True less.prems(6) by simp
    ultimately show ?thesis using r(2,3) True less.prems(5) by simp
  next
    case False
    then have p: "p < length ?c" and n: "0 < length buf" using less.prems(7) chunk(3) by auto
    have "p + length buf < 2 ^ 31" using chunk(2) hdr_ok_bounds(4) [OF less.prems(4)] less.prems(6) by simp
    moreover have "min (length buf) (nat (numBytes ?hdr) - p) = length buf" using chunk(2) less.prems(6) by simp
    ultimately obtain d1 where w: "disk_WriteAt f buf (int (length buf)) (int p) d = Some (Inr (int (length buf), d1))" "disk_ok d1"
      "\<forall>s. s \<notin> set (blocks ?hdr) \<longrightarrow> sector d1 s = sector d s" "content d1 ?hdr = patch (content d ?hdr) p buf"
      using disk_WriteAt_ok [OF less.prems(4,5), of p "length buf" buf] less.prems(6) p n by auto
    let ?f = "f\<lparr>seekPosition := int (p + length buf)\<rparr>" and ?e = "e\<lparr>fd_pos := p + length buf\<rparr>"
    have "disk_Write f buf (int (length buf)) d = Some (Inr (int (length buf), ?f, d1))"
      using w(1) less.prems(3) by (simp add: disk_Write_def)
    then have run: "Copy_loop fd f h d = Copy_loop fd ?f h1 d1"
      using r(1) n by (subst Copy_loop.simps) simp
    have dec: "length ?c - (p + length buf) < length ?c - p" using p n by linarith
    have "\<exists>h' d' e'. Copy_loop fd ?f h1 d1 = Some (Inr (h', d')) \<and> disk_ok d' \<and>
      (\<forall>s. s \<notin> set (blocks (df_hdr ?f)) \<longrightarrow> sector d' s = sector d1 s) \<and>
      content d' (df_hdr ?f) = take (p + length buf) (content d1 (df_hdr ?f)) @ drop (p + length buf) (h_data h1 (fd_inode ?e)) \<and>
      fd_of fd h' = Some e' \<and> h_data h' = h_data h1"
      by (rule less.hyps) (use r dec chunk(2) less.prems w(2) in \<open>simp_all\<close>)
    then obtain h' d' e' where i: "Copy_loop fd ?f h1 d1 = Some (Inr (h', d'))" "disk_ok d'"
      "\<forall>s. s \<notin> set (blocks ?hdr) \<longrightarrow> sector d' s = sector d1 s"
      "content d' ?hdr = take (p + length buf) (content d1 ?hdr) @ drop (p + length buf) ?c" "fd_of fd h' = Some e'" "h_data h' = h_data h"
      using r(3) by auto
    have "take (p + length buf) (content d1 ?hdr) = take p (content d ?hdr) @ buf"
      unfolding w(4) patch_def using p less.prems(6) by simp
    then have "content d' ?hdr = take p (content d ?hdr) @ drop p ?c" using i(4) chunk(1) by simp
    then show ?thesis using run i w(3) by auto
  qed
qed

lemma Print_loop_ok:
  assumes "hdr_ok (df_hdr f)" "disk_ok d" "seekPosition f = int p" "p \<le> nat (numBytes (df_hdr f))"
  shows "\<exists>d'. Print_loop f out d = Some (Inr (out @ drop p (content d (df_hdr f)), d')) \<and> disk_ok d' \<and> sector d' = sector d"
  using assms
proof (induction "nat (numBytes (df_hdr f)) - p" arbitrary: p f d out rule: less_induct)
  case less
  let ?hdr = "df_hdr f"
  show ?case
  proof (cases "p = nat (numBytes ?hdr)")
    case True
    then have "numBytes ?hdr \<le> int p" by simp
    then have "disk_Read f 128 d = Some (Inr ([], f, d))" using less.prems(3) by (simp add: disk_Read_def disk_ReadAt_def FileLength_def)
    then show ?thesis using True less.prems(2) by (subst Print_loop.simps) simp
  next
    case False
    let ?c = "content d ?hdr"
    define buf where "buf = take 128 (drop p ?c)"
    have p: "p < nat (numBytes ?hdr)" using False less.prems(4) by simp
    have chunk: "buf @ drop (p + length buf) ?c = drop p ?c" "p + length buf \<le> nat (numBytes ?hdr)" "0 < length buf"
      using chunk_split [of 128 p ?c] p by (auto simp: buf_def)
    have "p + 128 < 2 ^ 31" using p hdr_ok_bounds(4) [OF less.prems(1)] by simp
    then obtain d1 where r: "disk_ReadAt f 128 (int p) d = Some (Inr (buf, d1))" "disk_ok d1" "sector d1 = sector d"
      using disk_ReadAt_ok [OF less.prems(1,2) p, of 128] by (auto simp: buf_def)
    let ?f = "f\<lparr>seekPosition := int (p + length buf)\<rparr>"
    have run: "Print_loop f out d = Print_loop ?f (out @ buf) d1"
      using r(1) chunk(3) less.prems(3) by (subst Print_loop.simps) (simp add: disk_Read_def)
    have dec: "nat (numBytes ?hdr) - (p + length buf) < nat (numBytes ?hdr) - p" using p chunk(3) by linarith
    have "\<exists>d'. Print_loop ?f (out @ buf) d1 = Some (Inr ((out @ buf) @ drop (p + length buf) (content d1 (df_hdr ?f)), d')) \<and>
        disk_ok d' \<and> sector d' = sector d1"
      by (rule less.hyps) (use chunk(2) dec less.prems r(2) in simp_all)
    moreover have "content d1 = content d" by (rule same_views(1) [OF r(3)])
    ultimately show ?thesis using run r(3) chunk(1) by auto
  qed
qed

lemma Print_ok:
  assumes inv: "fs_inv fs d fm dir" and c: "file_map d dir (name_key name) = Some c"
  shows "\<exists>d'. Print fs name d = Some (Inr (Some c, d'))"
proof -
  from c obtain e where e: "entry_of dir (name_key name) = Some e" "content d (entry_hdr d e) = c" by (auto simp: file_map_def)
  let ?f = "\<lparr>df_hdr = entry_hdr d e, seekPosition = 0, df_type = None\<rparr>"
  obtain d1 where op: "disk_Open fs name d = Some (Inr (Some ?f, d1))" "disk_ok d1" "sector d1 = sector d" "entry_ok d e"
    using disk_Open_ok [OF inv, of name] e(1) by auto
  obtain d2 where "Print_loop ?f [] d1 = Some (Inr (content d1 (entry_hdr d e), d2))"
    using Print_loop_ok [of ?f d1 0 "[]"] op(2,4) by (auto simp: entry_ok_def)
  then show ?thesis using op(1) same_views(1) [OF op(3)] e(2) by (auto simp: Print_def)
qed

text \<open>\<^verbatim>\<open>Copy\<close> up to the creation of the Nachos file.\<close>

lemma Copy_start:
  assumes h: "h_names h from = Some ino"
  shows "\<exists>fd h'. fd_of fd h' = Some \<lparr>fd_inode = ino, fd_pos = 0, fd_writable = True\<rparr> \<and> h_data h' = h_data h \<and>
    Copy fs from to h d = bindR (disk_Create fs to (int (length (h_data h ino))) d) (\<lambda>(ok, d).
      if \<not> ok then bindR (Some (Close fd h')) (\<lambda>h. Some (Inr (False, h, d)))
      else bindR (disk_Open fs to d) (\<lambda>(openFile, d).
        case openFile of None \<Rightarrow> Some (Inl Assertion_failed)
        | Some f \<Rightarrow> bindR (Copy_loop fd f h' d) (\<lambda>(h, d). bindR (Some (Close fd h)) (\<lambda>h. Some (Inr (True, h, d))))))"
proof -
  let ?c = "h_data h ino" and ?fd = "int (h_next_fd h)"
  define h1 where "h1 = snd (new_fd ino True h)"
  define h2 where "h2 = put_fd ?fd \<lparr>fd_inode = ino, fd_pos = length ?c, fd_writable = True\<rparr> h1"
  define h3 where "h3 = put_fd ?fd \<lparr>fd_inode = ino, fd_pos = 0, fd_writable = True\<rparr> h2"
  have "OpenForReadWrite from False h = Inr (?fd, h1)"
    using h by (simp add: OpenForReadWrite_def open_existing_def new_fd_def h1_def)
  moreover have "Lseek ?fd 0 2 h1 = Inr h2" "Tell ?fd h2 = int (length ?c)" "Lseek ?fd 0 0 h2 = Inr h3"
    by (simp_all add: Lseek_def Tell_def h1_def h2_def h3_def new_fd_def put_fd_def fd_of_def)
  moreover have "fd_of ?fd h3 = Some \<lparr>fd_inode = ino, fd_pos = 0, fd_writable = True\<rparr>" "h_data h3 = h_data h"
    by (simp_all add: h1_def h2_def h3_def new_fd_def put_fd_def fd_of_def)
  ultimately show ?thesis by (intro exI [of _ ?fd] exI [of _ h3]) (simp add: Copy_def)
qed

lemma Close_ok: "fd_of fd h = Some e \<Longrightarrow> \<exists>h'. Close fd h = Inr h' \<and> h_data h' = h_data h"
  by (simp add: Close_def)

lemma Copy_created:
  assumes inv: "fs_inv fs d fm dir" and c: "file_map d dir (name_key to) = Some c" "length c = length (h_data h ino)"
    and fd: "fd_of fd h = Some \<lparr>fd_inode = ino, fd_pos = 0, fd_writable = True\<rparr>"
  shows "\<exists>f d1 h' d' e'. disk_Open fs to d = Some (Inr (Some f, d1)) \<and> Copy_loop fd f h d1 = Some (Inr (h', d')) \<and>
    fd_of fd h' = Some e' \<and> h_data h' = h_data h \<and> fs_inv fs d' fm dir \<and>
    file_map d' dir = (file_map d dir)(name_key to \<mapsto> h_data h ino)"
proof -
  from c(1) obtain e where e: "entry_of dir (name_key to) = Some e" "content d (entry_hdr d e) = c" by (auto simp: file_map_def)
  let ?hdr = "entry_hdr d e"
  let ?f = "\<lparr>df_hdr = ?hdr, seekPosition = 0, df_type = None\<rparr>"
  obtain d1 where op: "disk_Open fs to d = Some (Inr (Some ?f, d1))" "disk_ok d1" "sector d1 = sector d" "entry_ok d e"
    using disk_Open_ok [OF inv, of to] e(1) by auto
  then have hdr: "hdr_ok ?hdr" "numBytes ?hdr = int (length (h_data h ino))"
    using c(2) length_content [of d ?hdr] e(2) by (auto simp: entry_ok_def hdr_ok_def)
  obtain h' d2 e' where cp: "Copy_loop fd ?f h d1 = Some (Inr (h', d2))" "disk_ok d2"
    "\<forall>s. s \<notin> set (blocks ?hdr) \<longrightarrow> sector d2 s = sector d1 s" "content d2 ?hdr = h_data h ino" "fd_of fd h' = Some e'" "h_data h' = h_data h"
    using Copy_loop_ok [OF fd, of 0 ?f d1] hdr op(2) by auto
  have e': "e \<in> set dir" "inUse e" "name_key (de_name e) = name_key to" using entry_ofD [OF e(1)] by auto
  have "\<forall>t. t \<notin> set (blocks ?hdr) \<longrightarrow> sector d2 t = sector d t" using cp(3) op(3) by simp
  from fs_inv_write [OF inv e'(1,2) cp(2) this] op(1) cp e'(3) show ?thesis by auto
qed

lemma Copy_ok:
  assumes inv: "fs_inv fs d fm dir" and h: "h_names h from = Some ino" and len: "length (h_data h ino) \<le> 3840"
  shows "can_create fm dir to (int (length (h_data h ino))) \<Longrightarrow>
      \<exists>h' d' fm' dir'. Copy fs from to h d = Some (Inr (True, h', d')) \<and> h_data h' = h_data h \<and> fs_inv fs d' fm' dir' \<and>
        file_map d' dir' = (file_map d dir)(name_key to \<mapsto> h_data h ino)"
    and "\<not> can_create fm dir to (int (length (h_data h ino))) \<Longrightarrow>
      \<exists>h' d'. Copy fs from to h d = Some (Inr (False, h', d')) \<and> h_data h' = h_data h \<and> disk_ok d' \<and> sector d' = sector d"
proof -
  let ?c = "h_data h ino"
  obtain fd h1 where h1: "fd_of fd h1 = Some \<lparr>fd_inode = ino, fd_pos = 0, fd_writable = True\<rparr>" "h_data h1 = h_data h"
    and run: "Copy fs from to h d = bindR (disk_Create fs to (int (length ?c)) d) (\<lambda>(ok, d).
      if \<not> ok then bindR (Some (Close fd h1)) (\<lambda>h. Some (Inr (False, h, d)))
      else bindR (disk_Open fs to d) (\<lambda>(openFile, d).
        case openFile of None \<Rightarrow> Some (Inl Assertion_failed)
        | Some f \<Rightarrow> bindR (Copy_loop fd f h1 d) (\<lambda>(h, d). bindR (Some (Close fd h)) (\<lambda>h. Some (Inr (True, h, d))))))"
    using Copy_start [OF h, of fs to d] by blast
  have "divRoundUp (int (length ?c)) 128 \<le> 30" using fits [of "int (length ?c)"] len by simp
  note create = disk_Create_ok [OF inv, of "int (length ?c)" to, simplified, OF this]
  { assume "\<not> can_create fm dir to (int (length ?c))"
    then obtain d' where "disk_Create fs to (int (length ?c)) d = Some (Inr (False, d'))" "disk_ok d'" "sector d' = sector d"
      using create(1) by blast
    then show "\<exists>h' d'. Copy fs from to h d = Some (Inr (False, h', d')) \<and> h_data h' = h_data h \<and> disk_ok d' \<and> sector d' = sector d"
      using run Close_ok [OF h1(1)] h1(2) by auto
  next
    assume "can_create fm dir to (int (length ?c))"
    then obtain d1 fm' dir' c where c: "disk_Create fs to (int (length ?c)) d = Some (Inr (True, d1))" "fs_inv fs d1 fm' dir'"
      "file_map d1 dir' = (file_map d dir)(name_key to \<mapsto> c)" "length c = length ?c" using create(2) by auto
    have "file_map d1 dir' (name_key to) = Some c" "length c = length (h_data h1 ino)" using c(3,4) h1(2) by simp_all
    from Copy_created [OF c(2) this h1(1)] obtain f d2 h' d3 e' where cp: "disk_Open fs to d1 = Some (Inr (Some f, d2))" "Copy_loop fd f h1 d2 = Some (Inr (h', d3))"
      "fd_of fd h' = Some e'" "h_data h' = h_data h" "fs_inv fs d3 fm' dir'" "file_map d3 dir' = (file_map d dir)(name_key to \<mapsto> ?c)"
      using c(3) h1(2) by auto
    obtain h4 where "Close fd h' = Inr h4" "h_data h4 = h_data h" using Close_ok [OF cp(3)] cp(4) by auto
    then show "\<exists>h' d' fm' dir'. Copy fs from to h d = Some (Inr (True, h', d')) \<and> h_data h' = h_data h \<and> fs_inv fs d' fm' dir' \<and>
        file_map d' dir' = (file_map d dir)(name_key to \<mapsto> ?c)" using run c(1) cp by auto }
qed

text \<open>
  Property C22.  \<^verbatim>\<open>nachos -cp\<close> and \<^verbatim>\<open>nachos -p\<close>: copying a UNIX file of at most 3840 bytes to the simulated disk succeeds
  exactly when the name is free and there is room for it, and otherwise leaves the disk as it was; after a copy,
  printing the new file prints the bytes of the UNIX file, the other files are as before, and the host's files are not changed.
\<close>

theorem copy_then_print:
  assumes inv: "fs_inv fs d fm dir" and h: "h_names h from = Some ino" and len: "length (h_data h ino) \<le> 3840"
  shows "if can_create fm dir to (int (length (h_data h ino)))
    then \<exists>h' d' fm' dir' d''. Copy fs from to h d = Some (Inr (True, h', d')) \<and> h_data h' = h_data h \<and> fs_inv fs d' fm' dir' \<and>
      file_map d' dir' = (file_map d dir)(name_key to \<mapsto> h_data h ino) \<and> Print fs to d' = Some (Inr (Some (h_data h ino), d''))
    else \<exists>h' d'. Copy fs from to h d = Some (Inr (False, h', d')) \<and> h_data h' = h_data h \<and> sector d' = sector d"
proof (cases "can_create fm dir to (int (length (h_data h ino)))")
  case True
  then obtain h' d' fm' dir' where c: "Copy fs from to h d = Some (Inr (True, h', d'))" "h_data h' = h_data h" "fs_inv fs d' fm' dir'"
    "file_map d' dir' = (file_map d dir)(name_key to \<mapsto> h_data h ino)" using Copy_ok(1) [OF assms] by blast
  then have "file_map d' dir' (name_key to) = Some (h_data h ino)" by simp
  from Print_ok [OF c(3) this] c True show ?thesis by auto
next
  case False
  with Copy_ok(2) [OF assms False] show ?thesis by auto
qed

theorem copy_then_print_witness:
  "\<exists>fs d h' d' d''. new_disk_fs True sample_disk = Some (Inr (fs, d)) \<and>
     Copy fs ''f'' [65] (sample_host\<lparr>h_names := [''f'' \<mapsto> 0], h_data := (\<lambda>_. [1, 2, 3])\<rparr>) d = Some (Inr (True, h', d')) \<and>
     Print fs [65] d' = Some (Inr (Some [1, 2, 3], d''))"
proof -
  obtain fs d fm where f: "new_disk_fs True sample_disk = Some (Inr (fs, d))" "fs_inv fs d fm (new_Directory 10)"
    "marked fm = system_sectors fs" using format_ok [OF sample_disk_ok] by blast
  have "can_create fm (new_Directory 10) [65] 3" using fresh_can_create [OF _ f(3)] f(2) by (simp add: fs_inv_def)
  with copy_then_print [OF f(2), of "sample_host\<lparr>h_names := [''f'' \<mapsto> 0], h_data := (\<lambda>_. [1, 2, 3])\<rparr>" "''f''" 0 "[65]"] f(1)
  show ?thesis by auto
qed

text \<open>The file commands return, whatever the command line asks for, and keep the file system in order.\<close>

lemma disk_Open_missing: "fs_inv fs d fm dir \<Longrightarrow> file_map d dir (name_key name) = None \<Longrightarrow>
    \<exists>d'. Print fs name d = Some (Inr (None, d')) \<and> disk_ok d' \<and> sector d' = sector d"
  using disk_Open_ok [of fs d fm dir name] by (auto simp: Print_def file_map_def)

lemma fs_rep_same: "fs_rep fs d m \<Longrightarrow> disk_ok d' \<Longrightarrow> sector d' = sector d \<Longrightarrow> fs_rep fs d' m"
  unfolding fs_rep_def using fs_inv_sector file_map_sector by metis

lemma Copy_keeps:
  assumes "fs_rep fs d m" "\<And>ino. h_names h from = Some ino \<Longrightarrow> length (h_data h ino) \<le> 3840"
  shows "\<exists>ok h' d' m'. Copy fs from to h d = Some (Inr (ok, h', d')) \<and> fs_rep fs d' m' \<and> (\<forall>k. k \<noteq> name_key to \<longrightarrow> m' k = m k)"
proof (cases "h_names h from")
  case None
  then show ?thesis using assms(1) by (auto simp: Copy_def OpenForReadWrite_def open_existing_def)
next
  case (Some ino)
  from assms(1) obtain fm dir where inv: "fs_inv fs d fm dir" "m = file_map d dir" by (auto simp: fs_rep_def)
  show ?thesis
  proof (cases "can_create fm dir to (int (length (h_data h ino)))")
    case True
    then obtain h' d' fm' dir' where "Copy fs from to h d = Some (Inr (True, h', d'))" "fs_inv fs d' fm' dir'"
      "file_map d' dir' = (file_map d dir)(name_key to \<mapsto> h_data h ino)" using Copy_ok(1) [OF inv(1) Some assms(2) [OF Some]] by blast
    then have "fs_rep fs d' ((file_map d dir)(name_key to \<mapsto> h_data h ino))" unfolding fs_rep_def by metis
    then show ?thesis using \<open>Copy fs from to h d = _\<close> inv(2) by fastforce
  next
    case False
    then obtain h' d' where "Copy fs from to h d = Some (Inr (False, h', d'))" "disk_ok d'" "sector d' = sector d"
      using Copy_ok(2) [OF inv(1) Some assms(2) [OF Some]] by blast
    then show ?thesis using fs_rep_same [OF assms(1)] by blast
  qed
qed

lemma Remove_keeps:
  assumes "fs_rep fs d m"
  shows "\<exists>ok d' m'. disk_Remove fs name d = Some (Inr (ok, d')) \<and> fs_rep fs d' m'"
proof -
  obtain d' m' where "fs_step fs (FS_Remove name) d = Some (Inr d')" "fs_rep fs d' m'"
    using volume.step_rep [OF assms, of "FS_Remove name"] by auto
  then show ?thesis by (cases "disk_Remove fs name d") (auto simp: bindR_def split: sum.splits)
qed

lemma printing_keeps:
  assumes "fs_rep fs d m"
  shows "\<exists>p d'. disk_Print fs d = Some (Inr (p, d')) \<and> fs_rep fs d' m"
    and "\<exists>ns d'. disk_List fs d = Some (Inr (ns, d')) \<and> fs_rep fs d' m"
    and "\<exists>out d'. Print fs name d = Some (Inr (out, d'))"
proof -
  from assms obtain fm dir where inv: "fs_inv fs d fm dir" "m = file_map d dir" by (auto simp: fs_rep_def)
  show "\<exists>p d'. disk_Print fs d = Some (Inr (p, d')) \<and> fs_rep fs d' m"
    using disk_Print_ok [OF inv(1)] fs_rep_same [OF assms] by blast
  show "\<exists>ns d'. disk_List fs d = Some (Inr (ns, d')) \<and> fs_rep fs d' m"
    using fetch_dir [OF inv(1)] fs_rep_same [OF assms] by (auto simp: disk_List_def)
  show "\<exists>out d'. Print fs name d = Some (Inr (out, d'))"
    using Print_ok [OF inv(1)] disk_Open_missing [OF inv(1)] by (cases "file_map d dir (name_key name)") blast+
qed

lemma if_given_run:
  assumes "\<And>a. arg = Some a \<Longrightarrow> \<exists>r s'. f a = Some (Inr (r, s')) \<and> Q s'" "Q s"
  shows "\<exists>r s'. if_given arg s f = Some (Inr (r, s')) \<and> Q s'"
proof (cases arg)
  case (Some a)
  with assms(1) [OF Some] show ?thesis by (auto simp: if_given_def)
qed (use assms(2) in \<open>auto simp: if_given_def\<close>)

lemma main_files_return:
  assumes rep: "fs_rep fs d m"
    and small: "\<And>from to ino. copyFileNames opts = Some (from, to) \<Longrightarrow> h_names h from = Some ino \<Longrightarrow> length (h_data h ino) \<le> 3840"
  shows "\<exists>out h' d'. main_files fs opts h d = Some (Inr (out, h', d'))"
proof -
  let ?ok = "\<lambda>d. \<exists>m. fs_rep fs d m"
  obtain r1 d1 where 1: "if_given (removeFileName opts) d (\<lambda>name. disk_Remove fs (file_name name) d) = Some (Inr (r1, d1))" "?ok d1"
    using if_given_run [of "removeFileName opts" "\<lambda>name. disk_Remove fs (file_name name) d" ?ok d] rep Remove_keeps [OF rep] by blast
  then obtain m1 where m1: "fs_rep fs d1 m1" by blast
  have copy: "\<exists>r s'. (case a of (from, to) \<Rightarrow> Copy fs from (file_name to) h d1) = Some (Inr (r, s')) \<and> ?ok (snd s')"
    if a: "copyFileNames opts = Some a" for a
  proof -
    obtain "from" to where ft: "a = (from, to)" by (cases a)
    from Copy_keeps [OF m1, of h "from" "file_name to"] small [of "from" to] a ft obtain ok h' d' m' where
      "Copy fs from (file_name to) h d1 = Some (Inr (ok, h', d'))" "fs_rep fs d' m'" by blast
    then show ?thesis by (auto simp: ft)
  qed
  have "\<exists>r s'. if_given (copyFileNames opts) (h, d1) (\<lambda>(from, to). Copy fs from (file_name to) h d1) = Some (Inr (r, s')) \<and> ?ok (snd s')"
    by (rule if_given_run) (use copy 1(2) in simp_all)
  then obtain r2 s2 where 2: "if_given (copyFileNames opts) (h, d1) (\<lambda>(from, to). Copy fs from (file_name to) h d1) = Some (Inr (r2, s2))"
    "?ok (snd s2)" by blast
  obtain h2 d2 m2 where s2: "s2 = (h2, d2)" "fs_rep fs d2 m2" using 2(2) by (cases s2) auto
  obtain r3 d3 where 3: "if_given (flag (dumpFlag opts)) d2 (\<lambda>_. disk_Print fs d2) = Some (Inr (r3, d3))" "fs_rep fs d3 m2"
    using if_given_run [of "flag (dumpFlag opts)" "\<lambda>_. disk_Print fs d2" "\<lambda>d. fs_rep fs d m2" d2] printing_keeps(1) [OF s2(2)] s2(2) by blast
  obtain r4 d4 where 4: "if_given (flag (dirListFlag opts)) d3 (\<lambda>_. disk_List fs d3) = Some (Inr (r4, d4))" "fs_rep fs d4 m2"
    using if_given_run [of "flag (dirListFlag opts)" "\<lambda>_. disk_List fs d3" "\<lambda>d. fs_rep fs d m2" d3] printing_keeps(2) [OF 3(2)] 3(2) by blast
  obtain r5 d5 where "if_given (printFileName opts) d4 (\<lambda>name. Print fs (file_name name) d4) = Some (Inr (r5, d5))"
    using if_given_run [of "printFileName opts" "\<lambda>name. Print fs (file_name name) d4" "\<lambda>_. True" d4] printing_keeps(3) [OF 4(2)] by blast
  then show ?thesis using 1(1) 2(1) s2(1) 3(1) 4(1) by (simp add: main_files_def)
qed

section \<open>The tests succeed\<close>

text \<open>The console test echoes what is typed up to the end of the input.\<close>

lemma ConsoleTest_echoes:
  assumes "idle_in i" "idle_out out" "keyboard i = typed @ rest" "EOF \<notin> set typed" "rest = [] \<or> (\<exists>kb. rest = EOF # kb)"
  shows "\<exists>i'. ConsoleTest i out = Some (Inr (i', after_writing typed out))"
  using assms
proof (induction typed arbitrary: i out)
  case Nil
  then have "\<exists>i'. GetChar i = Some (Inr (EOF, i'))"
    using GetChar_end(1) [of i] GetChar_typed [of i EOF] by auto
  then show ?case by (subst ConsoleTest.simps) auto
next
  case (Cons ch typed)
  note g = GetChar_next [OF Cons.prems(1), of ch "typed @ rest"]
  note p = PutChar_idle [OF Cons.prems(2), of ch]
  let ?i = "after_reading [ch] (typed @ rest) i" and ?o = "after_writing [ch] out"
  have "\<exists>i'. ConsoleTest ?i ?o = Some (Inr (i', after_writing typed ?o))"
    by (rule Cons.IH) (use Cons.prems p in auto)
  then show ?case using g(1) p(1) Cons.prems(3,4) by (subst ConsoleTest.simps) auto
qed

text \<open>Sending leaves the receiving side of a machine alone, and the other way round.\<close>

lemma wait_sent_frame:
  "wait_sent n = Some (Inr n') \<Longrightarrow> idle n' = idle n \<and> boxes n' = boxes n \<and> numBoxes n' = numBoxes n"
  by (auto simp: wait_sent_def idle_def NetworkOutput_CallBack_def PostOfficeOutput_CallBack_def split: nat.splits option.splits)

lemma NetworkOutput_Send_frame:
  "NetworkOutput_Send random up junk hdr data n w = Inr (n', w') \<Longrightarrow> n' = schedule_send n"
  by (auto simp: NetworkOutput_Send_def ASSERT_def Let_def split: if_splits)

lemma PostOffice_Send_frame:
  assumes "PostOffice_Send random up junk ph mh data n w = Some (Inr (n', w'))"
  shows "idle n' = idle n \<and> boxes n' = boxes n \<and> numBoxes n' = numBoxes n"
proof -
  from assms obtain n1 where "wait_sent (schedule_send n1) = Some (Inr n')" "n1 = n"
    by (auto simp: PostOffice_Send_def assertR_def bindR_def Let_def dest!: NetworkOutput_Send_frame split: if_splits option.splits sum.splits)
  moreover have "idle (schedule_send n) = idle n" "boxes (schedule_send n) = boxes n" "numBoxes (schedule_send n) = numBoxes n"
    by (simp_all add: schedule_send_def idle_def)
  ultimately show ?thesis using wait_sent_frame [of "schedule_send n" n'] by simp
qed

lemma NetworkInput_CallBack_frame: "NetworkInput_CallBack n w = Inr (n', w') \<Longrightarrow> can_send n' = can_send n"
  by (auto simp: NetworkInput_CallBack_def PostOfficeInput_CallBack_def schedule_poll_def can_send_def andThen_def ASSERT_def Let_def
      split: if_splits option.splits sum.splits list.splits)

lemma PostalDelivery_frame: "PostalDelivery n = Some (Inr n') \<Longrightarrow> can_send n' = can_send n"
  by (auto simp: PostalDelivery_def NetworkInput_Receive_def can_send_def bindR_def assertR_def Let_def
      split: if_splits nat.splits sum.splits)

lemma receive_round_frame:
  assumes "receive_round n w = Some (Inr (n', w'))"
  shows "can_send n' = can_send n"
proof (cases "NetworkInput_CallBack n w")
  case (Inr r)
  obtain n1 w1 where r: "r = (n1, w1)" by (cases r)
  have "PostalDelivery n1 = Some (Inr n')" using assms Inr r
    by (cases "PostalDelivery n1") (auto simp: receive_round_def bindR_def split: sum.splits)
  then show ?thesis using PostalDelivery_frame NetworkInput_CallBack_frame Inr r by metis
qed (use assms in \<open>simp add: receive_round_def\<close>)

text \<open>A machine of the network test between two operations.\<close>

definition ready :: "int \<Rightarrow> node \<Rightarrow> bool" where
  "ready x n \<longleftrightarrow> can_send n \<and> idle n \<and> hostName n = x \<and> numBoxes n = 10"

definition lucky :: "luck \<Rightarrow> bool" where
  "lucky l \<longleftrightarrow> (\<exists>k < 10. fst (snd l) k) \<and> MaxWireSize \<le> length (snd (snd l))"

lemma ready_send:
  assumes "ready x n" "mail_ok mh data" "lucky (random, up, junk)" "w to = Some q"
  shows "\<exists>n'. PostOffice_Send random up junk \<lparr>pkt_to = to, pkt_from = 0, pkt_length = 0\<rparr> mh data n w =
      Some (Inr (n', w(to := Some (q @ [datagram junk x to mh data])))) \<and> ready x n' \<and> boxes n' = boxes n"
proof -
  from assms obtain n' where s: "PostOffice_Send random up junk \<lparr>pkt_to = to, pkt_from = 0, pkt_length = 0\<rparr> mh data n w =
      Some (Inr (n', w(to := Some (q @ [datagram junk (hostName n) to mh data]))))" "can_send n'" "hostName n' = hostName n"
    using PostOffice_Send_ok [of n mh data junk "\<lparr>pkt_to = to, pkt_from = 0, pkt_length = 0\<rparr>" to w q up random]
    unfolding ready_def lucky_def by fastforce
  then show ?thesis using PostOffice_Send_frame [OF s(1)] assms(1) by (auto simp: ready_def)
qed

lemma ready_round:
  assumes "ready x n" "w x = Some (datagram junk from x mh data # ps)" "mail_ok mh data" "MaxWireSize \<le> length junk" "addr_ok from"
    "mail_to mh < 10"
  shows "\<exists>n'. receive_round n w = Some (Inr (n', w(x := Some ps))) \<and> ready x n' \<and>
     boxes n' = (boxes n)[nat (mail_to mh) := boxes n ! nat (mail_to mh) @ [delivered from x mh data]]"
proof -
  have x: "hostName n = x" "idle n" "numBoxes n = 10" using assms(1) by (simp_all add: ready_def)
  from receive_round_ok [of n w junk "from" mh data ps] assms x obtain n' where
    r: "receive_round n w = Some (Inr (n', w(x := Some ps)))" "idle n'" "hostName n' = x" "numBoxes n' = 10"
      "boxes n' = (boxes n)[nat (mail_to mh) := boxes n ! nat (mail_to mh) @ [delivered from x mh data]]" by auto
  then show ?thesis using receive_round_frame [OF r(1)] assms(1) by (auto simp: ready_def)
qed

lemma ready_Receive:
  assumes "ready x n" "0 \<le> b" "b < 10" "boxes n ! nat b = m # ms" "unat (mail_length (m_mailHdr m)) \<le> MaxMailSize"
  shows "\<exists>n'. PostOffice_Receive b n = Some (Inr (m, n')) \<and> ready x n' \<and> boxes n' = (boxes n)[nat b := ms]"
  using assms by (auto simp: PostOffice_Receive_def MailBox_Get_def ready_def idle_def can_send_def)

text \<open>Both machines run the test; each sees an interrupt of its network device after the other has sent.\<close>

definition both_test :: "luck \<Rightarrow> luck \<Rightarrow> luck \<Rightarrow> luck \<Rightarrow> node \<Rightarrow> node \<Rightarrow> wire \<Rightarrow> (mail \<times> mail \<times> mail \<times> mail) run" where
  "both_test l1 l2 l3 l4 a b w =
     bindR (NetworkTest_send l1 a w) (\<lambda>(a, w). bindR (NetworkTest_send l2 b w) (\<lambda>(b, w).
     bindR (receive_round a w) (\<lambda>(a, w). bindR (receive_round b w) (\<lambda>(b, w).
     bindR (NetworkTest_receive a) (\<lambda>(ma, a). bindR (NetworkTest_receive b) (\<lambda>(mb, b).
     bindR (NetworkTest_ack l3 ma a w) (\<lambda>(a, w). bindR (NetworkTest_ack l4 mb b w) (\<lambda>(b, w).
     bindR (receive_round a w) (\<lambda>(a, w). bindR (receive_round b w) (\<lambda>(b, w).
     bindR (NetworkTest_acked a) (\<lambda>(na, a). bindR (NetworkTest_acked b) (\<lambda>(nb, b).
     Some (Inr (ma, na, mb, nb))))))))))))))"

definition hello_hdr :: MailHeader where
  "hello_hdr = \<lparr>mail_to = 0, mail_from = 1, mail_length = 13\<rparr>"

definition ack_hdr :: MailHeader where
  "ack_hdr = \<lparr>mail_to = 1, mail_from = 1, mail_length = 8\<rparr>"

lemma test_mails:
  "mail_ok hello_hdr (chars ''Hello there!'')" "mail_ok ack_hdr (chars ''Got it!'')"
  "length (chars ''Hello there!'') = 13" "length (chars ''Got it!'') = 8"
  by (simp_all add: mail_ok_def hello_hdr_def ack_hdr_def chars_def addr_ok_def)

lemma NetworkTest_send_ok:
  assumes "ready x n" "x = 0 \<or> x = 1" "lucky l" "w (1 - x) = Some []"
  shows "\<exists>n'. NetworkTest_send l n w =
      Some (Inr (n', w(1 - x := Some [datagram (snd (snd l)) x (1 - x) hello_hdr (chars ''Hello there!'')]))) \<and> ready x n' \<and> boxes n' = boxes n"
proof -
  obtain random up junk where l: "l = (random, up, junk)" by (cases l)
  have "(if hostName n = 0 then 1 else 0) = 1 - x" using assms(1,2) by (auto simp: ready_def)
  then show ?thesis
    using ready_send [of x n, OF assms(1) test_mails(1) assms(3) [unfolded l], of w "1 - x", OF assms(4)]
    by (simp add: NetworkTest_send_def l test_mails(3) flip: hello_hdr_def)
qed

lemma NetworkTest_ack_ok:
  assumes "ready x n" "lucky l" "w (1 - x) = Some []" "m = delivered (1 - x) x hello_hdr (chars ''Hello there!'')"
  shows "\<exists>n'. NetworkTest_ack l m n w =
      Some (Inr (n', w(1 - x := Some [datagram (snd (snd l)) x (1 - x) ack_hdr (chars ''Got it!'')]))) \<and> ready x n' \<and> boxes n' = boxes n"
proof -
  obtain random up junk where l: "l = (random, up, junk)" by (cases l)
  have "pkt_from (m_pktHdr m) = 1 - x" "mail_from (m_mailHdr m) = 1" by (simp_all add: assms(4) delivered_def pkt_header_def hello_hdr_def)
  then show ?thesis
    using ready_send [of x n, OF assms(1) test_mails(2) assms(2) [unfolded l], of w "1 - x", OF assms(3)]
    by (simp add: NetworkTest_ack_def l test_mails(4) flip: ack_hdr_def)
qed

lemma delivered_length: "mail_ok mh data \<Longrightarrow> unat (mail_length (m_mailHdr (delivered from to mh data))) \<le> 40"
  by (simp add: delivered_def mail_ok_def)

text \<open>A datagram arrives at an empty mailbox and is taken from it.\<close>

lemma arrival:
  assumes "ready x n" "w x = Some [datagram junk from x mh data]" "mail_ok mh data" "MaxWireSize \<le> length junk" "addr_ok from"
    "mail_to mh < 10" "boxes n ! nat (mail_to mh) = []"
  shows "\<exists>n' n''. receive_round n w = Some (Inr (n', w(x := Some []))) \<and>
    PostOffice_Receive (mail_to mh) n' = Some (Inr (delivered from x mh data, n'')) \<and> ready x n'' \<and> boxes n'' = boxes n"
proof -
  let ?b = "nat (mail_to mh)" and ?m = "delivered from x mh data"
  have box: "0 \<le> mail_to mh" "?b < length (boxes n)" using assms(1,3,6) by (auto simp: mail_ok_def ready_def idle_def)
  obtain n' where r: "receive_round n w = Some (Inr (n', w(x := Some [])))" "ready x n'" "boxes n' = (boxes n)[?b := [?m]]"
    using ready_round [of x n w junk "from" mh data "[]"] assms by auto
  obtain n'' where "PostOffice_Receive (mail_to mh) n' = Some (Inr (?m, n''))" "ready x n''" "boxes n'' = (boxes n')[?b := []]"
    using ready_Receive [OF r(2) box(1) assms(6), of ?m "[]"] r(3) box(2) delivered_length [OF assms(3)] by auto
  moreover have "(boxes n)[?b := []] = boxes n" using assms(7) by (metis list_update_id)
  ultimately show ?thesis using r(1,3) by auto
qed



end
