(* ===== verification/UserPrograms.thy ===== *)
theory UserPrograms
  imports Nachos_Prelude "HOL-Library.Multiset"
begin

text \<open>
  User programs of \<^verbatim>\<open>code/test\<close> that compute: \<^verbatim>\<open>sort.c\<close>, \<^verbatim>\<open>my_sort.c\<close> and \<^verbatim>\<open>matmult.c\<close>.

  An array is a list, and an access outside of it is a fault.  A program that talks to the console
  is a function from the numbers that \<^verbatim>\<open>ReadNum\<close> returns to what it prints; \<open>None\<close> when it waits
  for more input.  The locale \<open>exchange_order\<close> is what a sort by exchanging neighbours needs of its
  test for a pair that is out of order.
\<close>

section \<open>Exchanging neighbours\<close>

text \<open>The body of the inner loop: exchange \<open>A[j]\<close> and \<open>A[j + 1]\<close> when they are out of order.\<close>

definition exchange :: "(int \<Rightarrow> int \<Rightarrow> bool) \<Rightarrow> nat \<Rightarrow> int list \<Rightarrow> int list res" where
  "exchange out_of_order j A =
     (if Suc j < length A
      then Inr (if out_of_order (A ! j) (A ! Suc j) then A[Suc j := A ! j, j := A ! Suc j] else A)
      else Inl Out_of_bounds)"

lemma same_above:
  assumes "drop n B = drop n A" "length B = length A" "n \<le> i" "i < length A"
  shows "B ! i = A ! i"
proof -
  have "drop n B ! (i - n) = drop n A ! (i - n)" using assms(1) by simp
  then show ?thesis using assms(2-4) by simp
qed

locale exchange_order =
  fixes wrong :: "int \<Rightarrow> int \<Rightarrow> bool"
  assumes asym: "wrong x y \<Longrightarrow> \<not> wrong y x"
    and trans: "\<not> wrong x y \<Longrightarrow> \<not> wrong y z \<Longrightarrow> \<not> wrong x z"
begin

text \<open>A pass over the first \<open>m\<close> pairs carries an extreme element to position \<open>m\<close>.\<close>

definition carried :: "int list \<Rightarrow> nat \<Rightarrow> int list \<Rightarrow> bool" where
  "carried A m B \<longleftrightarrow> length B = length A \<and> mset (take (Suc m) B) = mset (take (Suc m) A) \<and> drop (Suc m) B = drop (Suc m) A \<and>
     (\<forall>k < m. \<not> wrong (B ! k) (B ! m))"

lemma carried_step:
  assumes c: "carried A m B" and len: "Suc m < length A"
  shows "\<exists>C. exchange wrong m B = Inr C \<and> carried A (Suc m) C"
proof -
  define C where "C = (if wrong (B ! m) (B ! Suc m) then B[Suc m := B ! m, m := B ! Suc m] else B)"
  have lB: "length B = length A" and far: "\<forall>k < m. \<not> wrong (B ! k) (B ! m)" using c by (simp_all add: carried_def)
  have lC: "length C = length A" using lB by (simp add: C_def)
  have tB: "take (Suc (Suc m)) B = take m B @ [B ! m, B ! Suc m]" using len lB by (simp add: take_Suc_conv_app_nth)
  have tC: "take (Suc (Suc m)) C = take m B @ (if wrong (B ! m) (B ! Suc m) then [B ! Suc m, B ! m] else [B ! m, B ! Suc m])"
    using len lB by (simp add: C_def take_Suc_conv_app_nth)
  have "mset (take (Suc (Suc m)) C) = mset (take (Suc (Suc m)) B)" by (simp add: tC tB)
  also have "\<dots> = add_mset (B ! Suc m) (mset (take (Suc m) B))" using len lB by (simp add: take_Suc_conv_app_nth)
  also have "\<dots> = mset (take (Suc (Suc m)) A)"
  proof -
    have "B ! Suc m = A ! Suc m"
      using c len by (intro same_above [of "Suc m"]) (simp_all add: carried_def)
    then show ?thesis using c len by (simp add: carried_def take_Suc_conv_app_nth [of "Suc m"])
  qed
  finally have ms: "mset (take (Suc (Suc m)) C) = mset (take (Suc (Suc m)) A)" .
  have dr: "drop (Suc (Suc m)) C = drop (Suc (Suc m)) A"
    using c by (simp add: C_def carried_def) (metis drop_Suc tl_drop)
  have "\<not> wrong (C ! k) (C ! Suc m)" if "k < Suc m" for k
  proof (cases "wrong (B ! m) (B ! Suc m)")
    case True
    then show ?thesis using that far asym [OF True] len lB by (cases "k = m") (simp_all add: C_def)
  next
    case False
    then show ?thesis using that far trans [of "B ! k" "B ! m" "B ! Suc m"] by (cases "k = m") (simp_all add: C_def)
  qed
  with lC ms dr have "carried A (Suc m) C" by (simp add: carried_def)
  moreover have "exchange wrong m B = Inr C" using len lB by (simp add: exchange_def C_def)
  ultimately show ?thesis by blast
qed

lemma pass_ok: "m < length A \<Longrightarrow> \<exists>B. forRes (exchange wrong) [0..<m] A = Inr B \<and> carried A m B"
proof (induction m)
  case 0
  then show ?case by (simp add: carried_def)
next
  case (Suc m)
  then obtain B where "forRes (exchange wrong) [0..<m] A = Inr B" "carried A m B" by auto
  moreover obtain C where "exchange wrong m B = Inr C" "carried A (Suc m) C"
    using carried_step [OF calculation(2)] Suc.prems by blast
  ultimately show ?case by (simp add: forRes_append)
qed

text \<open>The last \<open>k\<close> of the first \<open>n\<close> elements are in place.\<close>

definition settled :: "nat \<Rightarrow> nat \<Rightarrow> int list \<Rightarrow> bool" where
  "settled n k A \<longleftrightarrow> n \<le> length A \<and> (\<forall>i j. i < j \<longrightarrow> j < n \<longrightarrow> n - k \<le> j \<longrightarrow> \<not> wrong (A ! i) (A ! j))"

lemma carried_settled:
  assumes s: "settled n k A" and c: "carried A m B" and m: "m = n - Suc k" "k < n"
  shows "settled n (Suc k) B"
proof -
  have lB: "length B = length A" and far: "\<And>i. i < m \<Longrightarrow> \<not> wrong (B ! i) (B ! m)"
    and dr: "drop (Suc m) B = drop (Suc m) A"
    using c by (simp_all add: carried_def)
  have above: "B ! i = A ! i" if "m < i" "i < length A" for i
    using same_above [OF dr lB] that by simp
  have low: "B ! i \<in> (!) A ` {..m}" if "i \<le> m" for i
  proof -
    have lm: "m < length A" using s m by (auto simp: settled_def)
    have "B ! i \<in> set (take (Suc m) B)" using that lm lB by (auto simp: in_set_conv_nth intro!: exI [of _ i])
    also have "\<dots> = set (take (Suc m) A)" using c by (metis carried_def mset_eq_setD)
    finally obtain l where "l \<le> m" "B ! i = A ! l" using lm by (auto simp: in_set_conv_nth less_Suc_eq_le)
    then show ?thesis by blast
  qed
  have "\<not> wrong (B ! i) (B ! j)" if ij: "i < j" "j < n" "n - Suc k \<le> j" for i j
  proof -
    have jl: "j < length A" using ij s by (simp add: settled_def)
    consider "j = m" | "m < j" using ij(3) m(1) by linarith
    then show ?thesis
    proof cases
      case 1
      then show ?thesis using far ij by simp
    next
      case 2
      then have "n - k \<le> j" using m by linarith
      then have A: "\<not> wrong (A ! l) (A ! j)" if "l < j" for l using s that ij by (simp add: settled_def)
      show ?thesis
      proof (cases "i \<le> m")
        case True
        then show ?thesis using low [of i] A 2 above [OF 2 jl] by auto
      next
        case False
        then show ?thesis using A above [of i] above [OF 2 jl] ij jl by simp
      qed
    qed
  qed
  then show ?thesis using s lB by (simp add: settled_def)
qed

lemma settled_pass:
  assumes s: "settled n k A" and k: "k < n" and m: "n - Suc k \<le> m" "m < n"
  shows "\<exists>B. forRes (exchange wrong) [0..<m] A = Inr B \<and> settled n (Suc k) B \<and> length B = length A \<and>
    mset (take n B) = mset (take n A) \<and> drop n B = drop n A"
proof -
  let ?m = "n - Suc k"
  have "?m < length A" using s k by (auto simp: settled_def)
  then obtain B where B: "forRes (exchange wrong) [0..<?m] A = Inr B" "carried A ?m B" using pass_ok by blast
  have sB: "settled n (Suc k) B" using carried_settled [OF s B(2) refl k] .
  have "exchange wrong j B = Inr B" if "?m \<le> j" "j < m" for j
    using sB that m by (auto simp: exchange_def settled_def)
  then have "forRes (exchange wrong) [?m..<i] B = Inr B" if "?m \<le> i" "i \<le> m" for i
    using that
  proof (induction i)
    case (Suc i)
    then show ?case by (cases "?m \<le> i") (auto simp: forRes_append le_Suc_eq)
  qed simp
  from this [of m] have "forRes (exchange wrong) ([0..<?m] @ [?m..<m]) A = Inr B" unfolding forRes_append using B(1) m(1) by simp
  then have run: "forRes (exchange wrong) [0..<m] A = Inr B" using upt_add_eq_append [of 0 ?m "m - ?m"] m(1) by simp
  have "take n X = take (Suc ?m) X @ take (n - Suc ?m) (drop (Suc ?m) X)" "drop n X = drop (n - Suc ?m) (drop (Suc ?m) X)" for X :: "int list"
    using k by (metis Suc_diff_Suc Suc_leI diff_le_self le_add_diff_inverse take_add, simp)
  then have "mset (take n B) = mset (take n A)" "drop n B = drop n A" using B(2) unfolding carried_def by (metis mset_append, metis)
  then show ?thesis using run sB B(2) by (auto simp: carried_def)
qed

text \<open>\<open>n - 1\<close> or more passes, each over at least the pairs that are not yet in place, sort the first \<open>n\<close> elements.\<close>

lemma passes_ok:
  assumes n: "n \<le> length A" and f: "\<And>i. i < p \<Longrightarrow> i < n \<Longrightarrow> n - Suc i \<le> f i \<and> f i < n" and p: "p \<le> n"
  shows "\<exists>B. forRes (\<lambda>i. forRes (exchange wrong) [0..<f i]) [0..<p] A = Inr B \<and> settled n p B \<and> length B = length A \<and>
    mset (take n B) = mset (take n A) \<and> drop n B = drop n A"
  using p f
proof (induction p)
  case 0
  then show ?case using n by (auto simp: settled_def)
next
  case (Suc p)
  then obtain B where B: "forRes (\<lambda>i. forRes (exchange wrong) [0..<f i]) [0..<p] A = Inr B" "settled n p B" "length B = length A"
    "mset (take n B) = mset (take n A)" "drop n B = drop n A" by auto
  moreover obtain C where "forRes (exchange wrong) [0..<f p] B = Inr C" "settled n (Suc p) C" "length C = length B"
    "mset (take n C) = mset (take n B)" "drop n C = drop n B"
    using settled_pass [OF B(2), of "f p"] Suc.prems(1) Suc.prems(2) [of p] by auto
  ultimately show ?case by (intro exI [of _ C]) (simp add: forRes_append)
qed

lemma settled_sorted: "settled n p A \<Longrightarrow> n \<le> Suc p \<Longrightarrow> sorted_wrt (\<lambda>x y. \<not> wrong x y) (take n A)"
  by (auto simp: settled_def sorted_wrt_iff_nth_less)

end

text \<open>The two tests of the sources.\<close>

interpretation ascending: exchange_order "\<lambda>x y. x > y"
  by unfold_locales auto

interpretation descending: exchange_order "\<lambda>x y. x < y"
  by unfold_locales auto

section \<open>sort.c\<close>

abbreviation (input) SIZE :: nat where "SIZE \<equiv> 1024"

text \<open>\<^verbatim>\<open>main\<close>, up to the argument of \<^verbatim>\<open>Exit\<close>.\<close>

definition sort_main :: "int res" where
  "sort_main =
     andThen (forRes (\<lambda>i A. if i < length A then Inr (A[i := int (SIZE - 1) - int i]) else Inl Out_of_bounds)
                [0..<SIZE] (replicate SIZE 0)) (\<lambda>A.
     andThen (forRes (\<lambda>i. forRes (exchange (\<lambda>x y. x > y)) [0..<SIZE - 1]) [0..<SIZE] A) (\<lambda>A.
     Inr (if list_all (\<lambda>i. A ! i = int i) [0..<SIZE] then 0 else 1)))"

section \<open>my_sort.c\<close>

definition bubbleSort :: "int list \<Rightarrow> int \<Rightarrow> int \<Rightarrow> int list res" where
  "bubbleSort arr n isIncrease =
     andThen (if isIncrease = 1
              then forRes (\<lambda>i. forRes (exchange (\<lambda>x y. x > y)) [0..<nat (n - int i - 1)]) [0..<nat (n - 1)] arr
              else Inr arr) (\<lambda>arr.
     if isIncrease = 2
     then forRes (\<lambda>i. forRes (exchange (\<lambda>x y. x < y)) [0..<nat (n - int i - 1)]) [0..<nat (n - 1)] arr
     else Inr arr)"

text \<open>The calls of \<^verbatim>\<open>PrintString\<close>, \<^verbatim>\<open>PrintNum\<close> and \<^verbatim>\<open>PrintChar\<close>.\<close>

datatype printed = PString string | PNum int | PChar char

definition newline :: char where
  "newline = CHR 0x0A"

fun showArr_loop :: "int list \<Rightarrow> nat list \<Rightarrow> printed list res" where
  "showArr_loop arr [] = Inr []"
| "showArr_loop arr (i # is) =
     (if i < length arr
      then andThen (showArr_loop arr is) (\<lambda>out.
           Inr ([PNum (arr ! i), PChar CHR '' ''] @ (if i mod 10 = 9 then [PChar newline] else []) @ out))
      else Inl Out_of_bounds)"

definition showArr :: "int list \<Rightarrow> int \<Rightarrow> printed list res" where
  "showArr arr n =
     andThen (showArr_loop arr [0..<nat n]) (\<lambda>out. Inr (PString (''Array: '' @ [newline]) # out @ [PChar newline]))"

text \<open>The loops of \<^verbatim>\<open>main\<close> that ask again: what they print, the number they accept, the rest of the input.\<close>

fun ask_amount :: "int list \<Rightarrow> (printed list \<times> int \<times> int list) option" where
  "ask_amount [] = None"
| "ask_amount (n # ns) =
     (if n > 100 \<or> n \<le> 0
      then map_option (\<lambda>(out, r). (PString ''Range of the amount [1,100]. Please input again: '' # out, r)) (ask_amount ns)
      else Some ([], n, ns))"

text \<open>\<open>Arr\<close> has \<^verbatim>\<open>MAX_SIZE_ARR\<close> elements, uninitialised at first.\<close>

fun read_array :: "int list \<Rightarrow> nat \<Rightarrow> nat \<Rightarrow> int list \<Rightarrow> (printed list \<times> int list \<times> int list) res option" where
  "read_array Arr i 0 ns = Some (Inr ([], Arr, ns))"
| "read_array Arr i (Suc k) [] = None"
| "read_array Arr i (Suc k) (v # ns) =
     (if i < length Arr
      then map_option (\<lambda>r. andThen r (\<lambda>(out, r). Inr ([PString ''A['', PNum (int i), PString ''] :''] @ out, r)))
             (read_array (Arr[i := v]) (Suc i) k ns)
      else Some (Inl Out_of_bounds))"

definition choice_prompt :: printed where
  "choice_prompt = PString (''Input 1 to sort this array in ascending, or 2 to sort it in descending: '' @ [newline])"

fun ask_choice :: "int list \<Rightarrow> (printed list \<times> int) option" where
  "ask_choice [] = None"
| "ask_choice (c # ns) =
     (if c \<noteq> 1 \<and> c \<noteq> 2 then map_option (\<lambda>(out, r). (choice_prompt # out, r)) (ask_choice ns)
      else Some ([choice_prompt], c))"

text \<open>\<^verbatim>\<open>main\<close>: what it prints before \<^verbatim>\<open>Halt\<close>, for the numbers that are typed.\<close>

definition my_sort_main :: "int list \<Rightarrow> int list \<Rightarrow> printed list res option" where
  "my_sort_main junk ns =
     (case ask_amount ns of
        None \<Rightarrow> None
      | Some (out1, n, ns) \<Rightarrow>
          case read_array (take 100 junk) 0 (nat n) ns of
            None \<Rightarrow> None
          | Some (Inl e) \<Rightarrow> Some (Inl e)
          | Some (Inr (out2, Arr, ns)) \<Rightarrow>
              case ask_choice ns of
                None \<Rightarrow> None
              | Some (out4, isIncrease) \<Rightarrow> Some (
                  andThen (showArr Arr n) (\<lambda>out3.
                  andThen (bubbleSort Arr n isIncrease) (\<lambda>Arr.
                  andThen (showArr Arr n) (\<lambda>out5.
                  Inr ([PString ''Input the amount of array: ''] @ out1 @ [PString (''Input array: '' @ [newline])] @ out2 @
                       [PString (''Array before Sorting: '' @ [newline])] @ out3 @ out4 @
                       [PString (''Array after Sorting: '' @ [newline])] @ out5))))))"

section \<open>matmult.c\<close>

abbreviation (input) Dim :: nat where "Dim \<equiv> 20"

type_synonym matrix = "nat \<Rightarrow> nat \<Rightarrow> u32"

definition put :: "matrix \<Rightarrow> nat \<Rightarrow> nat \<Rightarrow> u32 \<Rightarrow> matrix" where
  "put M i j v = M(i := (M i)(j := v))"

definition init_matrices :: "matrix \<times> matrix \<times> matrix" where
  "init_matrices =
     fold (\<lambda>i. fold (\<lambda>j (A, B, C). (put A i j (of_nat i), put B i j (of_nat j), put C i j 0)) [0..<Dim]) [0..<Dim]
       (\<lambda>_ _. 0, \<lambda>_ _. 0, \<lambda>_ _. 0)"

definition multiply :: "matrix \<Rightarrow> matrix \<Rightarrow> matrix \<Rightarrow> matrix" where
  "multiply A B C =
     fold (\<lambda>i. fold (\<lambda>j. fold (\<lambda>k C. put C i j (C i j + A i k * B k j)) [0..<Dim]) [0..<Dim]) [0..<Dim] C"

definition matmult_main :: u32 where
  "matmult_main = (let (A, B, C) = init_matrices in multiply A B C (Dim - 1) (Dim - 1))"

section \<open>The sorts are correct\<close>

lemma ascending_is_sort: "sorted_wrt (\<lambda>x y. \<not> x > y) ys \<Longrightarrow> mset ys = mset xs \<Longrightarrow> ys = sort xs" for xs ys :: "int list"
  by (rule properties_for_sort [symmetric]) (simp_all add: not_less)

lemma descending_is_sort: "sorted_wrt (\<lambda>x y. \<not> x < y) ys \<Longrightarrow> mset ys = mset xs \<Longrightarrow> ys = rev (sort xs)" for xs ys :: "int list"
  using properties_for_sort [of "rev ys" xs] by (simp add: not_less sorted_wrt_rev flip: rev_swap)

lemma bubbleSort_ok:
  assumes n: "0 \<le> n" "nat n \<le> length arr" and c: "c = 1 \<or> c = 2"
  shows "bubbleSort arr n c =
    Inr ((if c = 1 then sort (take (nat n) arr) else rev (sort (take (nat n) arr))) @ drop (nat n) arr)"
proof -
  have f: "nat n - Suc i \<le> nat (n - int i - 1) \<and> nat (n - int i - 1) < nat n" if "i < nat (n - 1)" "i < nat n" for i
    using that by linarith
  have p: "nat (n - 1) \<le> nat n" "nat n \<le> Suc (nat (n - 1))" by simp_all
  show ?thesis
  proof (cases "c = 1")
    case True
    obtain B where "forRes (\<lambda>i. forRes (exchange (\<lambda>x y. x > y)) [0..<nat (n - int i - 1)]) [0..<nat (n - 1)] arr = Inr B"
      and s: "ascending.settled (nat n) (nat (n - 1)) B" "mset (take (nat n) B) = mset (take (nat n) arr)" "drop (nat n) B = drop (nat n) arr"
      using ascending.passes_ok [OF n(2) _ p(1), of "\<lambda>i. nat (n - int i - 1)"] f by auto
    moreover have "take (nat n) B = sort (take (nat n) arr)"
      using ascending_is_sort [OF ascending.settled_sorted [OF s(1) p(2)] s(2)] .
    ultimately show ?thesis using True by (simp add: bubbleSort_def) (metis append_take_drop_id)
  next
    case False
    obtain B where "forRes (\<lambda>i. forRes (exchange (\<lambda>x y. x < y)) [0..<nat (n - int i - 1)]) [0..<nat (n - 1)] arr = Inr B"
      and s: "descending.settled (nat n) (nat (n - 1)) B" "mset (take (nat n) B) = mset (take (nat n) arr)" "drop (nat n) B = drop (nat n) arr"
      using descending.passes_ok [OF n(2) _ p(1), of "\<lambda>i. nat (n - int i - 1)"] f by auto
    moreover have "take (nat n) B = rev (sort (take (nat n) arr))"
      using descending_is_sort [OF descending.settled_sorted [OF s(1) p(2)] s(2)] .
    ultimately show ?thesis using False c by (simp add: bubbleSort_def) (metis append_take_drop_id)
  qed
qed

lemma ask_amount_ok:
  "\<forall>x\<in>set bad. x > 100 \<or> x \<le> 0 \<Longrightarrow> 0 < n \<Longrightarrow> n \<le> 100 \<Longrightarrow> \<exists>out. ask_amount (bad @ n # ns) = Some (out, n, ns)"
  by (induction bad) auto

lemma ask_choice_ok:
  "\<forall>x\<in>set bad. x \<noteq> 1 \<and> x \<noteq> 2 \<Longrightarrow> c = 1 \<or> c = 2 \<Longrightarrow> \<exists>out. ask_choice (bad @ c # ns) = Some (out, c)"
  by (induction bad) auto

lemma read_array_ok:
  "i + length xs \<le> length Arr \<Longrightarrow>
   \<exists>out. read_array Arr i (length xs) (xs @ ns) = Some (Inr (out, take i Arr @ xs @ drop (i + length xs) Arr, ns))"
proof (induction xs arbitrary: Arr i)
  case (Cons x xs)
  have "Suc i + length xs \<le> length (Arr[i := x])" using Cons.prems by simp
  from Cons.IH [OF this] Cons.prems show ?case by (auto simp: take_Suc_conv_app_nth)
qed simp

lemma showArr_loop_ok: "\<forall>i\<in>set is. i < length arr \<Longrightarrow> \<exists>out. showArr_loop arr is = Inr out"
  by (induction "is") auto

lemma showArr_loop_prefix: "\<forall>i\<in>set is. i < length arr \<Longrightarrow> showArr_loop (arr @ rest) is = showArr_loop arr is"
  by (induction "is") (auto simp: nth_append)

lemma showArr_prefix: "length arr = nat n \<Longrightarrow> showArr (arr @ rest) n = showArr arr n" "length arr = nat n \<Longrightarrow> \<exists>out. showArr arr n = Inr out"
  using showArr_loop_prefix [of "[0..<nat n]" arr rest] showArr_loop_ok [of "[0..<nat n]" arr] by (auto simp: showArr_def)

section \<open>Properties\<close>

text \<open>
  Property C23.  The interactive sorting program, whatever is typed: it asks again for amounts outside of [1, 100] and
  for choices other than 1 and 2, never leaves its array of 100 numbers, and the last thing
  it prints before it halts is the array of the numbers typed in, in ascending order for choice 1 and in
  descending order for choice 2.
\<close>

theorem my_sort_sorts:
  assumes "\<forall>x\<in>set bad. x > 100 \<or> x \<le> 0" "0 < n" "n \<le> 100" "length xs = nat n" "\<forall>x\<in>set bad'. x \<noteq> 1 \<and> x \<noteq> 2" "c = 1 \<or> c = 2"
    and "100 \<le> length junk"
  shows "\<exists>before after. my_sort_main junk (bad @ n # xs @ bad' @ c # ns) =
      Some (Inr (before @ [PString (''Array after Sorting: '' @ [newline])] @ after)) \<and>
    showArr (if c = 1 then sort xs else rev (sort xs)) n = Inr after"
proof -
  let ?Arr = "xs @ drop (nat n) (take 100 junk)" and ?s = "if c = 1 then sort xs else rev (sort xs)"
  obtain out1 where 1: "ask_amount (bad @ n # xs @ bad' @ c # ns) = Some (out1, n, xs @ bad' @ c # ns)"
    using ask_amount_ok [OF assms(1-3)] by blast
  have "0 + length xs \<le> length (take 100 junk)" using assms(3,4,7) by simp
  from read_array_ok [OF this, of "bad' @ c # ns"] assms(4) obtain out2 where
    2: "read_array (take 100 junk) 0 (nat n) (xs @ bad' @ c # ns) = Some (Inr (out2, ?Arr, bad' @ c # ns))" by auto
  obtain out4 where 4: "ask_choice (bad' @ c # ns) = Some (out4, c)" using ask_choice_ok [OF assms(5,6)] by blast
  obtain out3 where 3: "showArr ?Arr n = Inr out3" using showArr_prefix [of xs n] assms(4) by auto
  have b: "bubbleSort ?Arr n c = Inr (?s @ drop (nat n) (take 100 junk))"
    using bubbleSort_ok [of n ?Arr c] assms(2,4,6) by simp
  have ls: "length ?s = nat n" using assms(4) by simp
  obtain after where a: "showArr ?s n = Inr after" "showArr (?s @ drop (nat n) (take 100 junk)) n = Inr after"
    using showArr_prefix [OF ls] by metis
  show ?thesis
    unfolding my_sort_main_def using 1 2 3 4 b a by simp
qed

theorem my_sort_sorts_witness:
  "\<exists>before. my_sort_main (replicate 100 0) [0, 3, 7, -2, 5, 9, 2] =
     Some (Inr (before @ [PString (''Array after Sorting: '' @ [newline])] @
       [PString (''Array: '' @ [newline]), PNum 7, PChar CHR '' '', PNum 5, PChar CHR '' '', PNum (-2), PChar CHR '' '', PChar newline]))"
proof -
  have "showArr (if (2 :: int) = 1 then sort [7, -2, 5] else rev (sort [7, -2, 5])) 3 =
      Inr [PString (''Array: '' @ [newline]), PNum 7, PChar CHR '' '', PNum 5, PChar CHR '' '', PNum (-2), PChar CHR '' '', PChar newline]"
    by code_simp
  with my_sort_sorts [of "[0]" 3 "[7, -2, 5]" "[9]" 2 "replicate 100 0" "[]"] show ?thesis by simp
qed

lemma fill_loop: "m \<le> length A \<Longrightarrow>
    forRes (\<lambda>i A. if i < length A then Inr (A[i := f i]) else Inl Out_of_bounds) [0..<m] A = Inr (map f [0..<m] @ drop m A)"
proof (induction m)
  case (Suc m)
  then show ?case by (simp add: forRes_append list_update_append flip: Cons_nth_drop_Suc)
qed simp

lemma sorted_ints: "sorted (map int [0..<n])"
  by (simp add: sorted_map)

lemma sort_reversed:
  assumes n: "0 < n"
  shows "andThen (forRes (\<lambda>i A. if i < length A then Inr (A[i := int (n - 1) - int i]) else Inl Out_of_bounds) [0..<n] (replicate n 0)) (\<lambda>A.
     andThen (forRes (\<lambda>i. forRes (exchange (\<lambda>x y. x > y)) [0..<n - 1]) [0..<n] A) (\<lambda>A.
     Inr (if list_all (\<lambda>i. A ! i = int i) [0..<n] then 0 else 1))) = (Inr 0 :: int res)"
proof -
  let ?A = "map (\<lambda>i. int (n - 1) - int i) [0..<n]"
  have f: "forRes (\<lambda>i A. if i < length A then Inr (A[i := int (n - 1) - int i]) else Inl Out_of_bounds) [0..<n] (replicate n 0) = Inr ?A"
    using fill_loop [of n "replicate n 0" "\<lambda>i. int (n - 1) - int i"] by simp
  have "\<exists>B. forRes (\<lambda>i. forRes (exchange (\<lambda>x y. x > y)) [0..<n - 1]) [0..<n] ?A = Inr B \<and>
      ascending.settled n n B \<and> length B = length ?A \<and> mset (take n B) = mset (take n ?A) \<and> drop n B = drop n ?A"
    by (rule ascending.passes_ok) (use n in auto)
  then obtain B where B: "forRes (\<lambda>i. forRes (exchange (\<lambda>x y. x > y)) [0..<n - 1]) [0..<n] ?A = Inr B"
    "ascending.settled n n B" "length B = length ?A" "mset (take n B) = mset (take n ?A)" by blast
  have "B = sort ?A"
    using ascending_is_sort [OF ascending.settled_sorted [OF B(2)]] B(3,4) by simp
  moreover have "sort ?A = map int [0..<n]"
  proof (rule properties_for_sort)
    have "?A = map int (rev [0..<n])" by (rule nth_equalityI) (auto simp: rev_nth)
    then show "mset (map int [0..<n]) = mset ?A" by simp
  qed (rule sorted_ints)
  ultimately have "list_all (\<lambda>i. B ! i = int i) [0..<n]" by (simp add: list_all_iff)
  with f B(1) show ?thesis by simp
qed

lemma put_apply: "put M i j v a b = (if a = i \<and> b = j then v else M a b)"
  by (simp add: put_def)

lemma fold_products: "fold (\<lambda>k C. put C i j (C i j + f k)) ks C = put C i j (C i j + sum_list (map f ks))"
  by (induction ks arbitrary: C) (simp_all add: put_def fun_eq_iff add.assoc)

lemma fold_row: "fold (\<lambda>j C. put C i j (C i j + g j)) [0..<n] C = (\<lambda>a b. if a = i \<and> b < n then C a b + g b else C a b)"
  by (induction n) (auto simp: put_apply fun_eq_iff less_Suc_eq)

lemma fold_rows:
  "fold (\<lambda>i C a b. if a = i \<and> b < m then C a b + g i b else C a b) [0..<n] C =
    (\<lambda>a b. if a < n \<and> b < m then C a b + g a b else C a b)"
  by (induction n) (auto simp: fun_eq_iff less_Suc_eq)

lemma multiply_is_product:
  "multiply A B C i j = (if i < Dim \<and> j < Dim then C i j + (\<Sum>k<Dim. A i k * B k j) else C i j)"
proof -
  have "multiply A B C = (\<lambda>a b. if a < 20 \<and> b < 20 then C a b + sum_list (map (\<lambda>k. A a k * B k b) [0..<20]) else C a b)"
    unfolding multiply_def fold_products fold_row fold_rows ..
  then show ?thesis by (simp add: interv_sum_list_conv_sum_set_nat lessThan_atLeast0)
qed

lemma fold_init_row:
  "fold (\<lambda>j (A, B, C). (put A i j (f j), put B i j (g j), put C i j (h j))) [0..<n] (A, B, C) =
    (\<lambda>a b. if a = i \<and> b < n then f b else A a b, \<lambda>a b. if a = i \<and> b < n then g b else B a b,
     \<lambda>a b. if a = i \<and> b < n then h b else C a b)"
  by (induction n) (auto simp: put_apply fun_eq_iff less_Suc_eq)

lemma init_rows:
  "fold (\<lambda>i. fold (\<lambda>j (A, B, C). (put A i j (of_nat i), put B i j (of_nat j), put C i j 0)) [0..<m]) [0..<n] (A, B, C) =
    (\<lambda>a b. if a < n \<and> b < m then of_nat a else A a b, \<lambda>a b. if a < n \<and> b < m then of_nat b else B a b,
     \<lambda>a b. if a < n \<and> b < m then 0 else C a b)"
  by (induction n) (auto simp: fold_init_row fun_eq_iff less_Suc_eq)

lemma matmult_exits: "matmult_main = 7220"
proof -
  have "matmult_main = (\<Sum>k<20::nat. 19 * (19 :: u32))"
    unfolding matmult_main_def init_matrices_def init_rows by (simp add: multiply_is_product)
  then show ?thesis by simp
qed

text \<open>
  The programs \<^verbatim>\<open>sort.c\<close> and \<^verbatim>\<open>matmult.c\<close>: the first stays inside its array and exits with 0, which means
  that it finds its array sorted; the second exits with the last element of the product of its matrices, 7220.
\<close>

theorem test_programs_exit: "sort_main = Inr 0 \<and> matmult_main = 7220"
proof
  show "sort_main = Inr 0" unfolding sort_main_def by (rule sort_reversed) simp
  show "matmult_main = 7220" by (rule matmult_exits)
qed

end
