(* ===== verification/SelfTests.thy ===== *)
theory SelfTests
  imports LibTest
begin

text \<open>
  The self tests of semaphores (\<^verbatim>\<open>Semaphore::SelfTest\<close>, \<^verbatim>\<open>threads/synch.cc\<close>) and of synchronised lists
  (\<^verbatim>\<open>SynchList::SelfTest\<close>, \<^verbatim>\<open>threads/synchlist.cc\<close>): two threads that hand a token to and fro ten times, over
  two semaphores or over two lists.

  The operations of semaphores and synchronised lists are single steps here, which \<open>Synch\<close> and \<open>SynchList\<close>
  justify, and the two threads are interleaved in every possible way.  The locale \<open>token_channel\<close> is what
  the test needs of a semaphore or a list.
\<close>

section \<open>The tests\<close>

text \<open>Values of semaphores; a thread that calls \<^verbatim>\<open>P\<close> on the value 0 waits.\<close>

definition sem_V :: "unit \<Rightarrow> int \<Rightarrow> int res" where
  "sem_V _ v = Inr (v + 1)"

definition sem_P :: "int \<Rightarrow> (unit \<times> int) option" where
  "sem_P v = (if v = 0 then None else Some ((), v - 1))"

text \<open>
  Contents of synchronised lists: appending asserts that the item is not there, a thread that removes from
  an empty list waits.
\<close>

definition list_Append :: "'a \<Rightarrow> 'a list \<Rightarrow> 'a list res" where
  "list_Append v l = seq_Append l v"

definition list_RemoveFront :: "'a list \<Rightarrow> ('a \<times> 'a list) option" where
  "list_RemoveFront l = (case l of [] \<Rightarrow> None | x # xs \<Rightarrow> Some (x, xs))"

text \<open>
  Both tests start on an empty channel, as their first assertions ask, and make a second one.
  \<open>main_i\<close> and \<open>help_i\<close> are the loop counters of the two threads; \<open>main_sent\<close> tells that the first is between putting into \<open>ping\<close>
  and getting from \<open>pong\<close>, \<open>help_val\<close> is what the helper has got from \<open>ping\<close> and not yet put into \<open>pong\<close>.
\<close>

record ('v, 'c) ping_pong =
  pp_ping :: 'c
  pp_pong :: 'c
  main_i :: nat
  main_sent :: bool
  help_i :: nat
  help_val :: "'v option"

definition new_ping_pong :: "'c \<Rightarrow> ('v, 'c) ping_pong" where
  "new_ping_pong c = \<lparr>pp_ping = c, pp_pong = c, main_i = 0, main_sent = False, help_i = 0, help_val = None\<rparr>"

text \<open>
  A step of the thread that runs the test, which sends \<open>val\<close> and asserts that it gets it back; \<open>None\<close> when it waits or has
  left the loop.
\<close>

definition SelfTest_step ::
    "('v \<Rightarrow> 'c \<Rightarrow> 'c res) \<Rightarrow> ('c \<Rightarrow> ('v \<times> 'c) option) \<Rightarrow> 'v \<Rightarrow> ('v, 'c) ping_pong \<Rightarrow> ('v, 'c) ping_pong res option" where
  "SelfTest_step put get val s =
     (if main_i s \<ge> 10 then None
      else if \<not> main_sent s then Some (andThen (put val (pp_ping s)) (\<lambda>c. Inr (s\<lparr>pp_ping := c, main_sent := True\<rparr>)))
      else map_option (\<lambda>(v, c). ASSERT (val = v) (Inr (s\<lparr>pp_pong := c, main_sent := False, main_i := Suc (main_i s)\<rparr>))) (get (pp_pong s)))"

definition SelfTestHelper_step ::
    "('v \<Rightarrow> 'c \<Rightarrow> 'c res) \<Rightarrow> ('c \<Rightarrow> ('v \<times> 'c) option) \<Rightarrow> ('v, 'c) ping_pong \<Rightarrow> ('v, 'c) ping_pong res option" where
  "SelfTestHelper_step put get s =
     (if help_i s \<ge> 10 then None
      else case help_val s of
        None \<Rightarrow> map_option (\<lambda>(v, c). Inr (s\<lparr>pp_ping := c, help_val := Some v\<rparr>)) (get (pp_ping s))
      | Some v \<Rightarrow> Some (andThen (put v (pp_pong s)) (\<lambda>c. Inr (s\<lparr>pp_pong := c, help_val := None, help_i := Suc (help_i s)\<rparr>))))"

definition test_step ::
    "('v \<Rightarrow> 'c \<Rightarrow> 'c res) \<Rightarrow> ('c \<Rightarrow> ('v \<times> 'c) option) \<Rightarrow> 'v \<Rightarrow> bool \<Rightarrow> ('v, 'c) ping_pong \<Rightarrow> ('v, 'c) ping_pong res option" where
  "test_step put get val helper s = (if helper then SelfTestHelper_step put get s else SelfTest_step put get val s)"

text \<open>\<open>test_run put get val n s s'\<close>: \<open>s'\<close> is reached in \<open>n\<close> steps, of either thread.\<close>

inductive test_run ::
    "('v \<Rightarrow> 'c \<Rightarrow> 'c res) \<Rightarrow> ('c \<Rightarrow> ('v \<times> 'c) option) \<Rightarrow> 'v \<Rightarrow> nat \<Rightarrow> ('v, 'c) ping_pong \<Rightarrow> ('v, 'c) ping_pong \<Rightarrow> bool"
  for put get val where
  start: "test_run put get val 0 s s"
| more: "test_run put get val n s s' \<Longrightarrow> test_step put get val helper s' = Some (Inr s'') \<Longrightarrow> test_run put get val (Suc n) s s''"

section \<open>Every interleaving ends\<close>

locale token_channel =
  fixes put :: "'v \<Rightarrow> 'c \<Rightarrow> 'c res" and get :: "'c \<Rightarrow> ('v \<times> 'c) option" and empty :: "'c \<Rightarrow> bool" and holding :: "'v \<Rightarrow> 'c \<Rightarrow> bool"
  assumes put_empty: "empty c \<Longrightarrow> \<exists>c'. put v c = Inr c' \<and> holding v c'"
    and get_empty: "empty c \<Longrightarrow> get c = None"
    and get_full: "holding v c \<Longrightarrow> \<exists>c'. get c = Some (v, c') \<and> empty c'"
begin

text \<open>Where the token is after \<open>n\<close> steps: with the first thread, in \<open>ping\<close>, with the helper, in \<open>pong\<close>.\<close>

definition at_step :: "'v \<Rightarrow> nat \<Rightarrow> ('v, 'c) ping_pong \<Rightarrow> bool" where
  "at_step v n s \<longleftrightarrow> n \<le> 40 \<and> main_i s = n div 4 \<and> help_i s = (n + 1) div 4 \<and> main_sent s = (n mod 4 \<noteq> 0) \<and> help_val s = (if n mod 4 = 2 then Some v else None) \<and>
     (if n mod 4 = 1 then holding v (pp_ping s) else empty (pp_ping s)) \<and> (if n mod 4 = 3 then holding v (pp_pong s) else empty (pp_pong s))"

lemma phases:
  fixes n :: nat
  obtains k where "n = 4 * k" | k where "n = Suc (4 * k)" | k where "n = Suc (Suc (4 * k))" | k where "n = Suc (Suc (Suc (4 * k)))"
proof -
  have "n = 4 * (n div 4) + n mod 4" "n mod 4 < 4" by simp_all
  then show thesis using that [of "n div 4"] by linarith
qed

lemma quarters:
  fixes k :: nat
  shows "Suc (4 * k) div 4 = k" "Suc (Suc (4 * k)) div 4 = k" "Suc (Suc (Suc (4 * k))) div 4 = k" "Suc (Suc (Suc (Suc (4 * k)))) div 4 = Suc k"
    "Suc (4 * k) mod 4 = 1" "Suc (Suc (4 * k)) mod 4 = 2" "Suc (Suc (Suc (4 * k))) mod 4 = 3" "Suc (Suc (Suc (Suc (4 * k)))) mod 4 = 0"
    "Suc (Suc (Suc (Suc (Suc (4 * k))))) div 4 = Suc k"
  by presburger+

text \<open>Exactly one thread can go on until the fortieth step.\<close>

lemma next_step:
  assumes "at_step v n s" "n < 40"
  shows "\<exists>helper s'. test_step put get v helper s = Some (Inr s') \<and> at_step v (Suc n) s' \<and> test_step put get v (\<not> helper) s = None"
proof (cases n rule: phases)
  case (1 k)
  then have s: "k < 10" "main_i s = k" "help_i s = k" "\<not> main_sent s" "help_val s = None" "empty (pp_ping s)" "empty (pp_pong s)"
    using assms by (auto simp: at_step_def quarters)
  obtain c where c: "put v (pp_ping s) = Inr c" "holding v c" using put_empty [OF s(6)] by blast
  show ?thesis using s c get_empty [OF s(6)] 1
    by (intro exI [of _ False]) (simp add: test_step_def SelfTest_step_def SelfTestHelper_step_def at_step_def quarters)
next
  case (2 k)
  then have s: "k < 10" "main_i s = k" "help_i s = k" "main_sent s" "help_val s = None" "holding v (pp_ping s)" "empty (pp_pong s)"
    using assms by (auto simp: at_step_def quarters)
  obtain c where c: "get (pp_ping s) = Some (v, c)" "empty c" using get_full [OF s(6)] by blast
  show ?thesis using s c get_empty [OF s(7)] 2
    by (intro exI [of _ True]) (simp add: test_step_def SelfTest_step_def SelfTestHelper_step_def at_step_def quarters)
next
  case (3 k)
  then have s: "k < 10" "main_i s = k" "help_i s = k" "main_sent s" "help_val s = Some v" "empty (pp_ping s)" "empty (pp_pong s)"
    using assms by (auto simp: at_step_def quarters)
  obtain c where c: "put v (pp_pong s) = Inr c" "holding v c" using put_empty [OF s(7)] by blast
  show ?thesis using s c get_empty [OF s(7)] 3
    by (intro exI [of _ True]) (simp add: test_step_def SelfTest_step_def SelfTestHelper_step_def at_step_def quarters)
next
  case (4 k)
  then have s: "k < 10" "main_i s = k" "help_i s = Suc k" "main_sent s" "help_val s = None" "empty (pp_ping s)" "holding v (pp_pong s)"
    using assms by (auto simp: at_step_def quarters)
  obtain c where c: "get (pp_pong s) = Some (v, c)" "empty c" using get_full [OF s(7)] by blast
  show ?thesis using s c get_empty [OF s(6)] 4
    by (intro exI [of _ False]) (simp add: test_step_def SelfTest_step_def SelfTestHelper_step_def at_step_def quarters)
qed

lemma last_step: "at_step v 40 s \<Longrightarrow> test_step put get v helper s = None"
  by (simp add: at_step_def test_step_def SelfTest_step_def SelfTestHelper_step_def)

lemma run_at_step:
  assumes "empty c"
  shows "test_run put get v n (new_ping_pong c) s \<Longrightarrow> at_step v n s"
proof (induction n "new_ping_pong c :: ('v, 'c) ping_pong" s rule: test_run.induct)
  case start
  then show ?case using assms by (simp add: at_step_def new_ping_pong_def)
next
  case (more n s' helper s'')
  have "n \<le> 40" "n \<noteq> 40" using more.hyps last_step by (auto simp: at_step_def)
  then obtain h s1 where h: "test_step put get v h s' = Some (Inr s1)" "at_step v (Suc n) s1" "test_step put get v (\<not> h) s' = None"
    using next_step [OF more.hyps(2)] by auto
  then have "helper = h" using more.hyps(3) by (cases "helper = h") auto
  then show ?case using h more.hyps(3) by simp
qed

lemma run_outcome:
  assumes "empty c" "test_run put get v n (new_ping_pong c) s"
  shows "n \<le> 40 \<and> (\<forall>helper e. test_step put get v helper s \<noteq> Some (Inl e)) \<and>
    ((\<forall>helper. test_step put get v helper s = None) \<longrightarrow>
       n = 40 \<and> main_i s = 10 \<and> help_i s = 10 \<and> empty (pp_ping s) \<and> empty (pp_pong s))"
proof (cases "n = 40")
  case True
  then show ?thesis using run_at_step [OF assms] last_step [of v s] by (simp add: at_step_def)
next
  case False
  then have "n < 40" using run_at_step [OF assms] by (simp add: at_step_def)
  from next_step [OF run_at_step [OF assms] this] obtain h s1 where
    h: "test_step put get v h s = Some (Inr s1)" "test_step put get v (\<not> h) s = None" by blast
  have "test_step put get v helper s \<noteq> Some (Inl e)" for helper e using h by (cases "helper = h") auto
  then show ?thesis using h(1) \<open>n < 40\<close> by auto
qed

end

interpretation semaphores: token_channel sem_V sem_P "\<lambda>v. v = 0" "\<lambda>_ v. v = 1"
  by unfold_locales (auto simp: sem_V_def sem_P_def)

interpretation lists: token_channel list_Append list_RemoveFront "\<lambda>l. l = []" "\<lambda>v l. l = [v]"
  by unfold_locales (auto simp: list_Append_def list_RemoveFront_def seq_Append_def)

section \<open>Properties\<close>



end
