(* ===== verification/WaterSystem.thy ===== *)
theory WaterSystem
  imports HostFiles
begin

text \<open>
  The water system, three cooperating user programs (\<^verbatim>\<open>code/test/watersystem_main.c\<close>, \<^verbatim>\<open>student.c\<close>,
  \<^verbatim>\<open>watertap.c\<close>).  The main program hands a line of \<^verbatim>\<open>input.txt\<close>, the volumes of the bottles of a queue of
  students, to the student program, which hands them one by one to the water tap program; that
  one sends every student to the tap that has been used less and records the tap in \<^verbatim>\<open>result.txt\<close>,
  which the main program copies to \<^verbatim>\<open>output.txt\<close>.  The programs talk through files and four semaphores.

  The state has the contents of the files, the semaphores and for each program the call of \<^verbatim>\<open>Wait\<close> it
  has reached; a step of a program is what it does from there up to its next \<^verbatim>\<open>Wait\<close>, and the steps of the programs
  are interleaved in every possible way.  \<open>None\<close> is a program that waits or has ended.  A timer interrupt inside of a step
  matters at one place: after \<^verbatim>\<open>Signal("main_watertap")\<close> the main program closes its descriptor of \<^verbatim>\<open>result.txt\<close> a second
  time, and the water tap program, had it been let in there, would have got the same number; that schedule is not one of the model.

  All files can be created and opened; \<^verbatim>\<open>result.txt\<close> is there from the start, as the water tap program may open it
  before the student program creates it.
\<close>

section \<open>State\<close>

datatype main_pc = M_run | M_wait | M_done

text \<open>\<open>S_serve rest\<close>: waiting after a volume was handed over, \<open>rest\<close> of \<^verbatim>\<open>student.txt\<close> not yet read.\<close>

datatype student_pc = S_start | S_wait | S_serve "u8 list"

datatype watertap_pc = W_wait | W_serve

record water =
  input_txt :: "u8 list"
  lines_left :: nat
  output_txt :: "u8 list"
  student_txt :: "u8 list"
  watertap_txt :: "u8 list"
  result_txt :: "u8 list"
  result_pos :: nat
  tap1 :: u32
  tap2 :: u32
  sem_main :: nat
  sem_student :: nat
  sem_watertap :: nat
  sem_main_watertap :: nat
  mpc :: main_pc
  spc :: student_pc
  wpc :: watertap_pc

section \<open>watersystem_main.c\<close>

text \<open>The number in the first line; \<open>None\<close> when there is no end of line, which the loop never stops to look for.\<close>

fun read_num :: "u32 \<Rightarrow> u8 list \<Rightarrow> (u32 \<times> u8 list) option" where
  "read_num n [] = None"
| "read_num n (c # cs) =
     (if c \<noteq> 10 then read_num (if 48 \<le> c \<and> c \<le> 57 then n * 10 + (ucast c - 48) else n) cs else Some (n, cs))"

text \<open>\<^verbatim>\<open>WriteToStudent\<close>: a line of the input, without its end; the rest of the input.\<close>

definition input_line :: "u8 list \<Rightarrow> u8 list \<times> u8 list" where
  "input_line cs = (takeWhile (\<lambda>c. c \<noteq> 10) cs, drop 1 (dropWhile (\<lambda>c. c \<noteq> 10) cs))"

text \<open>\<^verbatim>\<open>WriteToOutput\<close>: every character followed by a blank, then an end of line.\<close>

definition WriteToOutput :: "u8 list \<Rightarrow> u8 list" where
  "WriteToOutput result = concat (map (\<lambda>c. [c, 32]) result) @ [13, 10]"

definition main_step :: "water \<Rightarrow> water option" where
  "main_step s =
     (case mpc s of
        M_run \<Rightarrow>
          if lines_left s = 0 then Some (s\<lparr>mpc := M_done\<rparr>)
          else
            let (line, rest) = input_line (input_txt s)
            in Some (s\<lparr>lines_left := lines_left s - 1, student_txt := line, input_txt := rest, sem_student := sem_student s + 1, mpc := M_wait\<rparr>)
      | M_wait \<Rightarrow>
          if sem_main s = 0 then None
          else Some (s\<lparr>sem_main := sem_main s - 1, output_txt := output_txt s @ WriteToOutput (result_txt s),
                       sem_main_watertap := sem_main_watertap s + 1, mpc := M_run\<rparr>)
      | M_done \<Rightarrow> None)"

section \<open>student.c\<close>

text \<open>
  What the inner loop writes to \<^verbatim>\<open>watertap.txt\<close> before it signals the water tap, and what is left of
  the queue: up to a blank or the end, which is marked by a star.
\<close>

fun next_token :: "u8 list \<Rightarrow> u8 list \<times> u8 list" where
  "next_token [] = ([], [])"
| "next_token (c # cs) =
     (if c \<noteq> 32
      then if cs = [] then ([c, 42], []) else (let (t, r) = next_token cs in (c # t, r))
      else if cs = [] then ([42], []) else ([], cs))"

definition serve :: "u8 list \<Rightarrow> water \<Rightarrow> water" where
  "serve queue s =
     (if queue = [] then s\<lparr>sem_main := sem_main s + 1, spc := S_wait\<rparr>
      else let (t, r) = next_token queue
           in s\<lparr>watertap_txt := patch (watertap_txt s) 0 t, sem_watertap := sem_watertap s + 1, spc := S_serve r\<rparr>)"

definition student_step :: "water \<Rightarrow> water option" where
  "student_step s =
     (case spc s of
        S_start \<Rightarrow> Some (s\<lparr>sem_main_watertap := sem_main_watertap s + 1, watertap_txt := [], spc := S_wait\<rparr>)
      | S_wait \<Rightarrow>
          if sem_student s = 0 then None
          else Some (serve (student_txt s) (s\<lparr>sem_student := sem_student s - 1, result_txt := []\<rparr>))
      | S_serve queue \<Rightarrow>
          if sem_student s = 0 then None
          else Some (serve queue (s\<lparr>sem_student := sem_student s - 1, watertap_txt := []\<rparr>)))"

section \<open>watertap.c\<close>

text \<open>The volume, and whether the star was found.  A character is a signed \<^verbatim>\<open>char\<close>.\<close>

fun read_volume :: "u32 \<Rightarrow> u8 list \<Rightarrow> u32 \<times> bool" where
  "read_volume v [] = (v, False)"
| "read_volume v (c # cs) = (if c \<noteq> 42 then read_volume (v * 10 + (scast c - 48)) cs else (v, True))"

definition use_tap :: "u32 \<Rightarrow> water \<Rightarrow> water" where
  "use_tap volume s =
     (if volume = 0 then s
      else if sint (tap1 s) \<le> sint (tap2 s)
      then s\<lparr>tap1 := tap1 s + volume, result_txt := patch (result_txt s) (result_pos s) [49], result_pos := result_pos s + 1\<rparr>
      else s\<lparr>tap2 := tap2 s + volume, result_txt := patch (result_txt s) (result_pos s) [50], result_pos := result_pos s + 1\<rparr>)"

definition watertap_step :: "water \<Rightarrow> water option" where
  "watertap_step s =
     (case wpc s of
        W_wait \<Rightarrow>
          if sem_main_watertap s = 0 then None
          else Some (s\<lparr>sem_main_watertap := sem_main_watertap s - 1, result_pos := 0, wpc := W_serve\<rparr>)
      | W_serve \<Rightarrow>
          if sem_watertap s = 0 then None
          else
            let (volume, last) = read_volume 0 (watertap_txt s);
                s = use_tap volume (s\<lparr>sem_watertap := sem_watertap s - 1, sem_student := sem_student s + 1\<rparr>)
            in Some (if last then s\<lparr>tap1 := 0, tap2 := 0, wpc := W_wait\<rparr> else s))"

section \<open>Runs\<close>

text \<open>The state after the main program has read the number of lines and started the other programs; \<open>old\<close> is what \<^verbatim>\<open>result.txt\<close> holds from an earlier run.\<close>

definition start_state :: "u8 list \<Rightarrow> u8 list \<Rightarrow> water option" where
  "start_state input old =
     map_option (\<lambda>(n, rest).
       \<lparr>input_txt = rest, lines_left = unat n, output_txt = [], student_txt = [], watertap_txt = [], result_txt = old,
        result_pos = 0, tap1 = 0, tap2 = 0, sem_main = 0, sem_student = 0, sem_watertap = 0,
        sem_main_watertap = 0, mpc = M_run, spc = S_start, wpc = W_wait\<rparr>) (read_num 0 input)"

inductive water_step :: "water \<Rightarrow> water \<Rightarrow> bool" where
  main: "main_step s = Some s' \<Longrightarrow> water_step s s'"
| student: "student_step s = Some s' \<Longrightarrow> water_step s s'"
| watertap: "watertap_step s = Some s' \<Longrightarrow> water_step s s'"

inductive water_run :: "nat \<Rightarrow> water \<Rightarrow> water \<Rightarrow> bool" where
  none: "water_run 0 s s"
| one: "water_run n s s' \<Longrightarrow> water_step s' s'' \<Longrightarrow> water_run (Suc n) s s''"

section \<open>Specification\<close>

text \<open>The volumes of a queue: the numbers between the blanks.\<close>

definition volume_of :: "u8 list \<Rightarrow> u32" where
  "volume_of t = fold (\<lambda>c v. v * 10 + (scast c - 48)) t 0"

function volumes :: "u8 list \<Rightarrow> u32 list" where
  "volumes queue =
     (if queue = [] then []
      else volume_of (takeWhile (\<lambda>c. c \<noteq> 32) queue) # volumes (drop (Suc (length (takeWhile (\<lambda>c. c \<noteq> 32) queue))) queue))"
  by pat_completeness auto
termination
  by (relation "measure length") auto

declare volumes.simps [simp del]

text \<open>Every student who needs water goes to the tap that has been used less, the first one when they are equal.\<close>

fun assign :: "u32 \<Rightarrow> u32 \<Rightarrow> u32 list \<Rightarrow> u8 list" where
  "assign t1 t2 [] = []"
| "assign t1 t2 (v # vs) =
     (if v = 0 then assign t1 t2 vs
      else if sint t1 \<le> sint t2 then 49 # assign (t1 + v) t2 vs else 50 # assign t1 (t2 + v) vs)"

fun queues :: "nat \<Rightarrow> u8 list \<Rightarrow> u8 list list" where
  "queues 0 cs = []"
| "queues (Suc n) cs = fst (input_line cs) # queues n (snd (input_line cs))"

definition expected :: "u8 list list \<Rightarrow> u8 list" where
  "expected qs = concat (map (\<lambda>q. WriteToOutput (assign 0 0 (volumes q))) qs)"

lemma next_token_spec:
  assumes "q \<noteq> []"
  shows "next_token q = (let w = takeWhile (\<lambda>c. c \<noteq> 32) q; r = drop (Suc (length w)) q in if r = [] then (w @ [42], []) else (w, r))"
  using assms
proof (induction q)
  case (Cons c cs)
  then show ?case by (cases "cs = []") (auto simp: Let_def split: prod.splits)
qed simp

lemma read_volume_star: "42 \<notin> set t \<Longrightarrow> read_volume v (t @ [42]) = (fold (\<lambda>c v. v * 10 + (scast c - 48)) t v, True)"
  by (induction t arbitrary: v) auto

lemma read_volume_plain: "42 \<notin> set t \<Longrightarrow> read_volume v t = (fold (\<lambda>c v. v * 10 + (scast c - 48)) t v, False)"
  by (induction t arbitrary: v) auto

text \<open>One volume of the queue, as the student writes it and the water tap reads it.\<close>

lemma token_volume:
  assumes "q \<noteq> []" "42 \<notin> set q"
  shows "\<exists>t r v. next_token q = (t, r) \<and> read_volume 0 t = (v, r = []) \<and> volumes q = v # volumes r \<and> 42 \<notin> set r \<and> length r < length q"
proof -
  define w r where "w = takeWhile (\<lambda>c. c \<noteq> 32) q" and "r = drop (Suc (length w)) q"
  have w: "42 \<notin> set w" "42 \<notin> set r" using assms(2) by (auto simp: w_def r_def dest: set_takeWhileD in_set_dropD)
  have v: "volumes q = volume_of w # volumes r" using assms(1) by (subst volumes.simps) (simp add: w_def r_def)
  have l: "length r < length q" using assms(1) by (simp add: r_def)
  have "next_token q = (if r = [] then (w @ [42], []) else (w, r))" using next_token_spec [OF assms(1)] by (simp add: Let_def w_def r_def)
  moreover have "read_volume 0 (w @ [42]) = (volume_of w, True)" "read_volume 0 w = (volume_of w, False)"
    using w(1) by (simp_all add: volume_of_def read_volume_star read_volume_plain)
  ultimately show ?thesis using v w(2) l by (cases "r = []") auto
qed


section \<open>The invariant\<close>

text \<open>
  The water tap program between two queues: both taps unused, and if it has opened \<^verbatim>\<open>result.txt\<close> already, it is at the start of the file.
\<close>

definition tap_back :: "water \<Rightarrow> bool" where
  "tap_back s \<longleftrightarrow> tap1 s = 0 \<and> tap2 s = 0 \<and> (wpc s = W_serve \<longrightarrow> result_pos s = 0)"

text \<open>\dots and it will not wait for the main program any more.\<close>

definition tap_ready :: "water \<Rightarrow> bool" where
  "tap_ready s \<longleftrightarrow> tap_back s \<and> (wpc s = W_wait \<longrightarrow> spc s = S_start \<or> sem_main_watertap s > 0)"

definition student_idle :: "water \<Rightarrow> bool" where
  "student_idle s \<longleftrightarrow> (spc s = S_start \<or> spc s = S_wait \<and> watertap_txt s = []) \<and> sem_main s = 0 \<and> sem_watertap s = 0"

definition taps_for :: "u8 list \<Rightarrow> u8 list" where
  "taps_for q = assign 0 0 (volumes q)"

text \<open>\<open>before qs qs' s\<close>: the results of all queues of \<open>qs\<close> but the last ones, \<open>qs'\<close>, are in the output.\<close>

definition before :: "u8 list list \<Rightarrow> u8 list list \<Rightarrow> water \<Rightarrow> bool" where
  "before qs qs' s \<longleftrightarrow> (\<exists>dn. qs = dn @ qs' \<and> output_txt s = expected dn)"

definition queues_left :: "water \<Rightarrow> u8 list list" where
  "queues_left s = queues (lines_left s) (input_txt s)"

text \<open>
  The phases of a round: the main program is about to hand over a queue (or has ended); the queue is handed over; a
  volume is handed over; a volume is served; the results are complete.
\<close>

definition at_main :: "u8 list list \<Rightarrow> water \<Rightarrow> bool" where
  "at_main qs s \<longleftrightarrow> (mpc s = M_run \<or> mpc s = M_done \<and> lines_left s = 0) \<and> before qs (queues_left s) s \<and> student_idle s \<and> tap_ready s \<and> sem_student s = 0"

definition queue_handed :: "u8 list list \<Rightarrow> water \<Rightarrow> bool" where
  "queue_handed qs s \<longleftrightarrow> mpc s = M_wait \<and> before qs (student_txt s # queues_left s) s \<and> student_idle s \<and> tap_ready s \<and> sem_student s = 1"

definition volume_handed :: "u8 list list \<Rightarrow> water \<Rightarrow> bool" where
  "volume_handed qs s \<longleftrightarrow> mpc s = M_wait \<and> sem_main s = 0 \<and> sem_student s = 0 \<and> sem_watertap s = 1 \<and>
     (\<exists>q r v. before qs (q # queues_left s) s \<and> spc s = S_serve r \<and> 42 \<notin> set r \<and> read_volume 0 (watertap_txt s) = (v, r = []) \<and>
        result_txt s @ assign (tap1 s) (tap2 s) (v # volumes r) = taps_for q \<and>
        (if wpc s = W_wait then sem_main_watertap s > 0 \<and> result_txt s = [] else result_pos s = length (result_txt s)))"

definition volume_served :: "u8 list list \<Rightarrow> water \<Rightarrow> bool" where
  "volume_served qs s \<longleftrightarrow> mpc s = M_wait \<and> sem_main s = 0 \<and> sem_student s = 1 \<and> sem_watertap s = 0 \<and>
     (\<exists>q r. before qs (q # queues_left s) s \<and> spc s = S_serve r \<and> 42 \<notin> set r \<and>
        (if r = [] then result_txt s = taps_for q \<and> tap_back s
         else wpc s = W_serve \<and> result_pos s = length (result_txt s) \<and> result_txt s @ assign (tap1 s) (tap2 s) (volumes r) = taps_for q))"

definition results_ready :: "u8 list list \<Rightarrow> water \<Rightarrow> bool" where
  "results_ready qs s \<longleftrightarrow> mpc s = M_wait \<and> sem_main s = 1 \<and> sem_student s = 0 \<and> sem_watertap s = 0 \<and>
     spc s = S_wait \<and> watertap_txt s = [] \<and> tap_back s \<and> (\<exists>q. before qs (q # queues_left s) s \<and> result_txt s = taps_for q)"

definition water_inv :: "u8 list list \<Rightarrow> water \<Rightarrow> bool" where
  "water_inv qs s \<longleftrightarrow> at_main qs s \<or> queue_handed qs s \<or> volume_handed qs s \<or> volume_served qs s \<or> results_ready qs s"

text \<open>A bound for the number of steps that are left.\<close>

definition water_steps :: "water \<Rightarrow> nat" where
  "water_steps s = 4 * lines_left s + 2 * length (input_txt s) + sem_main_watertap s +
     (case mpc s of M_run \<Rightarrow> 1 | M_wait \<Rightarrow> 3 | M_done \<Rightarrow> 0) +
     (case spc s of S_start \<Rightarrow> 2 + sem_student s * (2 * length (student_txt s) + 1)
      | S_wait \<Rightarrow> sem_student s * (2 * length (student_txt s) + 1)
      | S_serve r \<Rightarrow> 2 * length r + 1 + sem_watertap s)"

lemma serve_queue:
  assumes q: "before qs (q # queues_left s) s" and r: "42 \<notin> set r"
    and s: "mpc s = M_wait" "sem_main s = 0" "sem_student s = 0" "sem_watertap s = 0" "watertap_txt s = []"
    and res: "result_txt s @ assign (tap1 s) (tap2 s) (volumes r) = taps_for q"
    and tap: "if r = [] then tap_back s else if wpc s = W_wait then sem_main_watertap s > 0 \<and> result_txt s = [] else result_pos s = length (result_txt s)"
  shows "water_inv qs (serve r s)"
proof (cases "r = []")
  case True
  have "before qs (q # queues_left (serve r s)) (serve r s)" using q True by (simp add: serve_def before_def queues_left_def)
  moreover have "result_txt (serve r s) = taps_for q" using res True by (simp add: serve_def volumes.simps)
  ultimately have "results_ready qs (serve r s)" using s tap True by (auto simp: results_ready_def serve_def tap_back_def)
  then show ?thesis by (simp add: water_inv_def)
next
  case False
  then obtain t r' v where t: "next_token r = (t, r')" "read_volume 0 t = (v, r' = [])" "volumes r = v # volumes r'" "42 \<notin> set r'"
    using token_volume [OF _ r] by blast
  have s': "serve r s = s\<lparr>watertap_txt := t, sem_watertap := 1, spc := S_serve r'\<rparr>"
    using False t(1) s by (simp add: serve_def patch_def)
  have "before qs (q # queues_left (serve r s)) (serve r s)" using q by (simp add: s' before_def queues_left_def)
  then have "volume_handed qs (serve r s)" unfolding volume_handed_def
    using t s res tap False by (intro conjI exI [of _ q] exI [of _ r'] exI [of _ v]) (simp_all add: s' del: assign.simps)
  then show ?thesis by (simp add: water_inv_def)
qed

lemma serve_steps: "water_steps (serve r s) + 1 \<le> water_steps (s\<lparr>spc := S_serve r, sem_watertap := 0\<rparr>)"
  if "sem_watertap s = 0" "sem_student s = 0" "42 \<notin> set r"
  using that token_volume [of r] by (cases "r = []") (auto simp: water_steps_def serve_def)

text \<open>Each program keeps the invariant and uses up a step.\<close>

lemmas phase_defs = water_inv_def at_main_def queue_handed_def volume_handed_def volume_served_def results_ready_def
lemmas tap_defs = tap_ready_def tap_back_def student_idle_def

lemma input_line_length: "length (fst (input_line cs)) + length (snd (input_line cs)) \<le> length cs"
  by (simp add: input_line_def) (metis append_eq_conv_conj length_append takeWhile_dropWhile_id diff_le_self add_le_cancel_left)

lemma expected_snoc: "expected (dn @ [q]) = expected dn @ WriteToOutput (taps_for q)"
  by (simp add: expected_def taps_for_def)

lemma main_step_inv:
  assumes "water_inv qs s" "main_step s = Some s'"
  shows "water_inv qs s' \<and> water_steps s' < water_steps s"
proof (cases "mpc s")
  case M_run
  then have a: "before qs (queues_left s) s" "student_idle s" "tap_ready s" "sem_student s = 0" using assms(1) by (auto simp: phase_defs)
  show ?thesis
  proof (cases "lines_left s")
    case 0
    then have "s' = s\<lparr>mpc := M_done\<rparr>" using assms(2) M_run by (simp add: main_step_def)
    then show ?thesis using a 0 M_run
      by (auto simp: water_inv_def at_main_def before_def queues_left_def tap_defs water_steps_def split: student_pc.split)
  next
    case (Suc n)
    obtain l r where l: "input_line (input_txt s) = (l, r)" by fastforce
    have s': "s' = s\<lparr>lines_left := n, student_txt := l, input_txt := r, sem_student := 1, mpc := M_wait\<rparr>"
      using assms(2) M_run Suc a(4) l by (simp add: main_step_def)
    have "queues_left s = l # queues_left s'" using Suc l by (simp add: queues_left_def s')
    then have "queue_handed qs s'" using a by (simp add: queue_handed_def s' before_def tap_defs)
    moreover have "length l + length r \<le> length (input_txt s)" using input_line_length [of "input_txt s"] Suc l by simp
    ultimately show ?thesis using Suc M_run a(2,4) by (auto simp: water_inv_def water_steps_def s' student_idle_def)
  qed
next
  case M_wait
  then have "sem_main s \<noteq> 0" using assms(2) by (auto simp: main_step_def split: if_splits)
  then have "results_ready qs s" using assms(1) by (auto simp: phase_defs student_idle_def)
  then obtain q dn where e: "qs = dn @ q # queues_left s" "output_txt s = expected dn" "result_txt s = taps_for q"
    "sem_main s = 1" "sem_student s = 0" "sem_watertap s = 0" "spc s = S_wait" "watertap_txt s = []" "tap_back s"
    by (auto simp: results_ready_def before_def)
  have s': "s' = s\<lparr>sem_main := 0, output_txt := expected (dn @ [q]), sem_main_watertap := sem_main_watertap s + 1, mpc := M_run\<rparr>"
    using assms(2) M_wait e by (simp add: main_step_def expected_snoc)
  have "before qs (queues_left s') s'" using e(1) by (auto simp: before_def s' queues_left_def intro: exI [of _ "dn @ [q]"])
  then show ?thesis using e M_wait by (simp add: water_inv_def at_main_def tap_defs s' water_steps_def)
next
  case M_done
  then show ?thesis using assms(2) by (simp add: main_step_def)
qed

lemma student_step_inv:
  assumes "water_inv qs s" "student_step s = Some s'" "\<forall>q\<in>set qs. 42 \<notin> set q"
  shows "water_inv qs s' \<and> water_steps s' < water_steps s"
proof (cases "spc s")
  case S_start
  then have "s' = s\<lparr>sem_main_watertap := sem_main_watertap s + 1, watertap_txt := [], spc := S_wait\<rparr>"
    using assms(2) by (simp add: student_step_def)
  then show ?thesis using assms(1) S_start
    by (auto simp: phase_defs tap_defs before_def queues_left_def water_steps_def)
next
  case S_wait
  then have "sem_student s \<noteq> 0" using assms(2) by (auto simp: student_step_def split: if_splits)
  then have b: "mpc s = M_wait" "before qs (student_txt s # queues_left s) s" "sem_main s = 0" "sem_watertap s = 0" "watertap_txt s = []"
    "tap_ready s" "sem_student s = 1" using assms(1) S_wait by (auto simp: phase_defs student_idle_def)
  let ?s = "s\<lparr>sem_student := 0, result_txt := []\<rparr>"
  have s': "s' = serve (student_txt s) ?s" using assms(2) S_wait b(7) by (simp add: student_step_def)
  have q: "42 \<notin> set (student_txt s)" using b(2) assms(3) by (auto simp: before_def)
  have "water_inv qs s'" unfolding s'
    by (rule serve_queue [where q = "student_txt s"]) (use b q S_wait in \<open>auto simp: before_def queues_left_def taps_for_def tap_defs volumes.simps [of "[]"]
      intro: watertap_pc.exhaust [of "wpc s"]\<close>)
  moreover have "water_steps s' < water_steps s"
    using serve_steps [of ?s "student_txt s"] q b S_wait by (simp add: s' water_steps_def)
  ultimately show ?thesis ..
next
  case (S_serve r)
  then have "sem_student s \<noteq> 0" using assms(2) by (auto simp: student_step_def split: if_splits)
  then obtain q where d: "mpc s = M_wait" "sem_main s = 0" "sem_student s = 1" "sem_watertap s = 0" "before qs (q # queues_left s) s" "42 \<notin> set r"
     "if r = [] then result_txt s = taps_for q \<and> tap_back s
      else wpc s = W_serve \<and> result_pos s = length (result_txt s) \<and> result_txt s @ assign (tap1 s) (tap2 s) (volumes r) = taps_for q"
    using assms(1) S_serve by (auto simp: phase_defs student_idle_def)
  let ?s = "s\<lparr>sem_student := 0, watertap_txt := []\<rparr>"
  have s': "s' = serve r ?s" using assms(2) S_serve d(3) by (simp add: student_step_def)
  have "water_inv qs s'" unfolding s'
    by (rule serve_queue [where q = q]) (use d in \<open>auto simp: before_def queues_left_def tap_defs volumes.simps [of "[]"] split: if_splits\<close>)
  moreover have "water_steps s' < water_steps s"
    using serve_steps [of ?s r] d S_serve by (simp add: s' water_steps_def)
  ultimately show ?thesis ..
qed

text \<open>What the water tap program records for a volume.\<close>

lemma use_tap_records:
  assumes "result_pos s = length (result_txt s)"
  shows "\<exists>a b res. use_tap v s = s\<lparr>tap1 := a, tap2 := b, result_txt := res, result_pos := length res\<rparr> \<and>
    result_txt s @ assign (tap1 s) (tap2 s) (v # vs) = res @ assign a b vs"
proof -
  consider "v = 0" | "v \<noteq> 0" "sint (tap1 s) \<le> sint (tap2 s)" | "v \<noteq> 0" "\<not> sint (tap1 s) \<le> sint (tap2 s)" by blast
  then show ?thesis
  proof cases
    case 1
    then show ?thesis using assms
      by (intro exI [of _ "tap1 s"] exI [of _ "tap2 s"] exI [of _ "result_txt s"]) (simp add: use_tap_def)
  next
    case 2
    then show ?thesis using assms
      by (intro exI [of _ "tap1 s + v"] exI [of _ "tap2 s"] exI [of _ "result_txt s @ [49]"]) (simp add: use_tap_def patch_def)
  next
    case 3
    then show ?thesis using assms
      by (intro exI [of _ "tap1 s"] exI [of _ "tap2 s + v"] exI [of _ "result_txt s @ [50]"]) (simp add: use_tap_def patch_def)
  qed
qed

lemma watertap_step_inv:
  assumes "water_inv qs s" "watertap_step s = Some s'"
  shows "water_inv qs s' \<and> water_steps s' < water_steps s"
proof (cases "wpc s")
  case W_wait
  then have "sem_main_watertap s \<noteq> 0" and s': "s' = s\<lparr>sem_main_watertap := sem_main_watertap s - 1, result_pos := 0, wpc := W_serve\<rparr>"
    using assms(2) by (auto simp: watertap_step_def split: if_splits)
  then have "water_steps s' < water_steps s" by (simp add: water_steps_def split: main_pc.split student_pc.split)
  moreover have "at_main qs s \<Longrightarrow> at_main qs s'" "queue_handed qs s \<Longrightarrow> queue_handed qs s'" "results_ready qs s \<Longrightarrow> results_ready qs s'"
    using W_wait by (simp_all add: at_main_def queue_handed_def results_ready_def tap_defs before_def queues_left_def s')
  moreover have "volume_handed qs s \<Longrightarrow> volume_handed qs s'" "volume_served qs s \<Longrightarrow> volume_served qs s'"
    using W_wait by (auto simp: volume_handed_def volume_served_def tap_defs before_def queues_left_def s' simp del: assign.simps split: if_splits)
  ultimately show ?thesis using assms(1) by (auto simp: water_inv_def)
next
  case W_serve
  then have "sem_watertap s \<noteq> 0" using assms(2) by (auto simp: watertap_step_def split: if_splits)
  then obtain q r v where c: "mpc s = M_wait" "sem_main s = 0" "sem_student s = 0" "sem_watertap s = 1" "before qs (q # queues_left s) s"
    "spc s = S_serve r" "42 \<notin> set r" "read_volume 0 (watertap_txt s) = (v, r = [])"
    "result_txt s @ assign (tap1 s) (tap2 s) (v # volumes r) = taps_for q" "result_pos s = length (result_txt s)"
    using assms(1) W_serve by (auto simp: phase_defs student_idle_def simp del: assign.simps)
  define s1 where "s1 = s\<lparr>sem_watertap := 0, sem_student := 1\<rparr>"
  obtain a b res where u: "use_tap v s1 = s1\<lparr>tap1 := a, tap2 := b, result_txt := res, result_pos := length res\<rparr>"
    "taps_for q = res @ assign a b (volumes r)"
    using use_tap_records [of s1 v "volumes r"] c(9,10) by (auto simp: s1_def simp del: assign.simps)
  have s': "s' = (if r = [] then (use_tap v s1)\<lparr>tap1 := 0, tap2 := 0, wpc := W_wait\<rparr> else use_tap v s1)"
    using assms(2) W_serve c(3,4,8) by (auto simp: watertap_step_def s1_def Let_def)
  have "volume_served qs s'" unfolding volume_served_def
    using c(1-7) u W_serve
    by (intro conjI exI [of _ q] exI [of _ r]) (simp_all add: s' s1_def before_def queues_left_def tap_back_def volumes.simps [of "[]"])
  then show ?thesis using c(1-7) u(1) by (simp add: water_inv_def water_steps_def s' s1_def)
qed

lemma water_run_inv:
  assumes "\<forall>q\<in>set qs. 42 \<notin> set q"
  shows "water_run n s s' \<Longrightarrow> water_inv qs s \<Longrightarrow> water_inv qs s' \<and> n + water_steps s' \<le> water_steps s"
proof (induction rule: water_run.induct)
  case (one n s s' s'')
  from one.hyps(2) have "water_inv qs s'' \<and> water_steps s'' < water_steps s'"
    using one.IH [OF one.prems] main_step_inv [of qs s' s''] student_step_inv [of qs s' s''] watertap_step_inv [of qs s' s''] assms
    by (cases rule: water_step.cases) blast+
  then show ?case using one.IH [OF one.prems] by linarith
qed simp

text \<open>Until the main program has ended, some program can go on.\<close>

lemma water_progress:
  assumes "water_inv qs s" "\<And>s'. \<not> water_step s s'"
  shows "mpc s = M_done \<and> output_txt s = expected qs"
proof -
  have stuck: "main_step s = None" "student_step s = None" "watertap_step s = None"
    using assms(2) water_step.intros by (metis not_Some_eq)+
  have "\<not> queue_handed qs s" "\<not> volume_served qs s" using stuck(2)
    by (auto simp: queue_handed_def volume_served_def student_idle_def student_step_def)
  moreover have "\<not> results_ready qs s" using stuck(1) by (auto simp: results_ready_def main_step_def)
  moreover have "\<not> volume_handed qs s" using stuck(3)
    by (cases "wpc s") (auto simp: volume_handed_def watertap_step_def Let_def simp del: assign.simps split: prod.splits)
  ultimately have "at_main qs s" using assms(1) by (simp add: water_inv_def)
  then show ?thesis using stuck(1)
    by (auto simp: at_main_def main_step_def before_def queues_left_def split: if_splits prod.splits)
qed

lemma water_inv_prefix: "water_inv qs s \<Longrightarrow> \<exists>rest. expected qs = output_txt s @ rest"
  by (auto simp: phase_defs before_def expected_def)

lemma start_state_inv:
  assumes "start_state input old = Some s"
  shows "water_inv (queues_left s) s \<and> water_steps s = 4 * lines_left s + 2 * length (input_txt s) + 3"
  using assms by (auto simp: start_state_def phase_defs tap_defs before_def expected_def water_steps_def queues_left_def)

text \<open>A run of the programs on the input and with the output that the repository has in \<^verbatim>\<open>build.linux\<close>.\<close>

fun go_on :: "nat \<Rightarrow> water \<Rightarrow> water" where
  "go_on 0 s = s"
| "go_on (Suc k) s =
     (case watertap_step s of Some s' \<Rightarrow> go_on k s' | None \<Rightarrow>
      case student_step s of Some s' \<Rightarrow> go_on k s' | None \<Rightarrow>
      case main_step s of Some s' \<Rightarrow> go_on k s' | None \<Rightarrow> s)"

definition sample_input :: "u8 list" where
  "sample_input = [53, 10, 52, 32, 50, 32, 49, 10, 53, 32, 51, 32, 52, 32, 49, 10, 56, 32, 53, 32, 50, 10,
     57, 32, 55, 32, 56, 32, 57, 10, 52, 32, 54, 32, 51, 32, 49, 10]"

definition sample_output :: "u8 list" where
  "sample_output = [49, 32, 50, 32, 50, 32, 13, 10, 49, 32, 50, 32, 50, 32, 49, 32, 13, 10, 49, 32, 50, 32, 50, 32, 13, 10,
     49, 32, 50, 32, 50, 32, 49, 32, 13, 10, 49, 32, 50, 32, 49, 32, 50, 32, 13, 10]"

lemma go_on_run: "water_run n s s' \<Longrightarrow> \<exists>m. water_run m s (go_on k s')"
proof (induction k arbitrary: n s')
  case (Suc k)
  then show ?case using water_run.one [OF Suc.prems] water_step.intros
    by (auto split: option.split) blast+
qed auto

lemma sample_queues:
  "case start_state sample_input [] of None \<Rightarrow> False
   | Some s \<Rightarrow> list_all (\<lambda>q. list_all (\<lambda>c. c \<noteq> 42) q) (queues (lines_left s) (input_txt s)) \<and> expected (queues (lines_left s) (input_txt s)) = sample_output"
  by code_simp

lemma sample_stuck:
  "case start_state sample_input [] of None \<Rightarrow> False
   | Some s \<Rightarrow> list_all (\<lambda>f. f (go_on 70 s) = None) [main_step, student_step, watertap_step]"
  by code_simp

section \<open>Properties\<close>



end
