(* ===== verification/Stacks.thy ===== *)
theory Stacks
  imports Nachos_Prelude
begin

text \<open>
  The C++ examples of the repository (\<^verbatim>\<open>src/NachOS-4.0/c++example\<close>): a stack in an array (\<^verbatim>\<open>stack.cc\<close>, with a type
  parameter in \<^verbatim>\<open>templatestack.cc\<close>, as a derived class in \<^verbatim>\<open>inheritstack.cc\<close>), a stack in a linked list
  (\<^verbatim>\<open>inheritstack.cc\<close>, \<^verbatim>\<open>list.cc\<close>), and their self tests.

  The abstract class \<^verbatim>\<open>Stack\<close> of \<^verbatim>\<open>inheritstack.h\<close> is the locale \<open>stack_class\<close>; what its client, the self test, prints is
  shown there once for both derived classes.
\<close>

section \<open>The array\<close>

record 'a array_stack =
  as_size :: int
  as_top :: int
  as_stack :: "'a list"

text \<open>\<open>junk\<close> is what the new array holds.\<close>

definition new_ArrayStack :: "(nat \<Rightarrow> 'a) \<Rightarrow> int \<Rightarrow> 'a array_stack res" where
  "new_ArrayStack junk sz = ASSERT (sz \<ge> 1) (Inr \<lparr>as_size = sz, as_top = 0, as_stack = map junk [0..<nat sz]\<rparr>)"

definition Array_Full :: "'a array_stack \<Rightarrow> bool" where
  "Array_Full s = (as_top s = as_size s)"

definition Array_Empty :: "'a array_stack \<Rightarrow> bool" where
  "Array_Empty s = (as_top s = 0)"

definition Array_Push :: "'a \<Rightarrow> 'a array_stack \<Rightarrow> 'a array_stack res" where
  "Array_Push value s =
     ASSERT (\<not> Array_Full s)
       (if 0 \<le> as_top s \<and> as_top s < int (length (as_stack s))
        then Inr (s\<lparr>as_stack := (as_stack s)[nat (as_top s) := value], as_top := as_top s + 1\<rparr>)
        else Inl Out_of_bounds)"

definition Array_Pop :: "'a array_stack \<Rightarrow> ('a \<times> 'a array_stack) res" where
  "Array_Pop s =
     ASSERT (\<not> Array_Empty s)
       (if 0 \<le> as_top s - 1 \<and> as_top s - 1 < int (length (as_stack s))
        then Inr (as_stack s ! nat (as_top s - 1), s\<lparr>as_top := as_top s - 1\<rparr>)
        else Inl Out_of_bounds)"

section \<open>The list\<close>

text \<open>\<open>il_heap\<close> holds the list elements in use, \<open>il_new\<close> is where the next one will be.\<close>

record 'a element =
  el_item :: 'a
  el_next :: "nat option"

record 'a int_list =
  il_first :: "nat option"
  il_last :: "nat option"
  il_heap :: "nat \<Rightarrow> 'a element option"
  il_new :: nat

definition new_ListStack :: "'a int_list" where
  "new_ListStack = \<lparr>il_first = None, il_last = None, il_heap = (\<lambda>_. None), il_new = 0\<rparr>"

definition IList_Empty :: "'a int_list \<Rightarrow> bool" where
  "IList_Empty l = (il_first l = None)"

definition IList_Prepend :: "'a \<Rightarrow> 'a int_list \<Rightarrow> 'a int_list" where
  "IList_Prepend value l =
     (let e = il_new l; l' = l\<lparr>il_heap := (il_heap l)(e \<mapsto> \<lparr>el_item = value, el_next = None\<rparr>), il_new := e + 1\<rparr>
      in if IList_Empty l then l'\<lparr>il_first := Some e, il_last := Some e\<rparr>
         else l'\<lparr>il_heap := (il_heap l')(e \<mapsto> \<lparr>el_item = value, el_next = il_first l\<rparr>), il_first := Some e\<rparr>)"

definition IList_Remove :: "'a int_list \<Rightarrow> ('a \<times> 'a int_list) res" where
  "IList_Remove l =
     ASSERT (\<not> IList_Empty l)
       (case il_first l of None \<Rightarrow> Inl Null_dereference | Some e \<Rightarrow>
        case il_heap l e of None \<Rightarrow> Inl Dangling_pointer | Some el \<Rightarrow>
          let l' = (if il_first l = il_last l then l\<lparr>il_first := None, il_last := None\<rparr> else l\<lparr>il_first := el_next el\<rparr>)
          in Inr (el_item el, l'\<lparr>il_heap := (il_heap l')(e := None)\<rparr>))"

definition ListStack_Push :: "'a \<Rightarrow> 'a int_list \<Rightarrow> 'a int_list res" where
  "ListStack_Push value l = Inr (IList_Prepend value l)"

definition ListStack_Pop :: "'a int_list \<Rightarrow> ('a \<times> 'a int_list) res" where
  "ListStack_Pop l = ASSERT (\<not> IList_Empty l) (IList_Remove l)"

definition ListStack_Full :: "'a int_list \<Rightarrow> bool" where
  "ListStack_Full l = False"

section \<open>The self tests\<close>

text \<open>What is printed: the numbers pushed and popped.  A loop that never ends has the result \<open>None\<close>.\<close>

datatype 'a line = Pushing 'a | Popping 'a

fun push_some :: "('a::{plus,one} \<Rightarrow> 's \<Rightarrow> 's res) \<Rightarrow> ('s \<Rightarrow> bool) \<Rightarrow> nat \<Rightarrow> 'a \<Rightarrow> 's \<Rightarrow> ('a line list \<times> 's) res" where
  "push_some push full 0 count s = Inr ([], s)"
| "push_some push full (Suc n) count s =
     ASSERT (\<not> full s) (andThen (push count s) (\<lambda>s. andThen (push_some push full n (count + 1) s) (\<lambda>(out, s). Inr (Pushing count # out, s))))"

partial_function (option) push_until_full ::
    "('a::{plus,one} \<Rightarrow> 's \<Rightarrow> 's res) \<Rightarrow> ('s \<Rightarrow> bool) \<Rightarrow> 'a \<Rightarrow> 's \<Rightarrow> 'a line list \<Rightarrow> ('a line list \<times> 's) res option" where
  "push_until_full push full count s out =
     (if full s then Some (Inr (out, s))
      else case push count s of Inl e \<Rightarrow> Some (Inl e) | Inr s' \<Rightarrow> push_until_full push full (count + 1) s' (out @ [Pushing count]))"

partial_function (option) pop_all ::
    "('s \<Rightarrow> ('a \<times> 's) res) \<Rightarrow> ('s \<Rightarrow> bool) \<Rightarrow> 's \<Rightarrow> 'a line list \<Rightarrow> ('a line list \<times> 's) res option" where
  "pop_all pop isempty s out =
     (if isempty s then Some (Inr (out, s))
      else case pop s of Inl e \<Rightarrow> Some (Inl e) | Inr (v, s') \<Rightarrow> pop_all pop isempty s' (out @ [Popping v]))"

text \<open>The test of \<^verbatim>\<open>inheritstack.cc\<close>.\<close>

definition Stack_SelfTest ::
    "('a::{plus,one} \<Rightarrow> 's \<Rightarrow> 's res) \<Rightarrow> ('s \<Rightarrow> ('a \<times> 's) res) \<Rightarrow> ('s \<Rightarrow> bool) \<Rightarrow> ('s \<Rightarrow> bool) \<Rightarrow> nat \<Rightarrow> 'a \<Rightarrow> 's \<Rightarrow> ('a line list \<times> 's) res option" where
  "Stack_SelfTest push pop full isempty numToPush count s =
     (case push_some push full numToPush count s of Inl e \<Rightarrow> Some (Inl e) | Inr (out, s) \<Rightarrow> pop_all pop isempty s out)"

text \<open>The test of \<^verbatim>\<open>stack.cc\<close> and \<^verbatim>\<open>templatestack.cc\<close>.\<close>

definition Array_SelfTest :: "'a::{plus,one} \<Rightarrow> 'a array_stack \<Rightarrow> ('a line list \<times> 'a array_stack) res option" where
  "Array_SelfTest start s =
     (case push_until_full Array_Push Array_Full start s [] of None \<Rightarrow> None | Some (Inl e) \<Rightarrow> Some (Inl e)
      | Some (Inr (out, s)) \<Rightarrow> pop_all Array_Pop Array_Empty s out)"

section \<open>Specification\<close>

text \<open>
  Calls of the operations and what they return; \<open>run_calls\<close> makes a sequence of calls.  The specification is a sequence and its capacity.
\<close>

datatype 'a call = C_Push 'a | C_Pop | C_Full | C_Empty
datatype 'a answer = Void | Item 'a | Flag bool

fun run_calls ::
    "('a \<Rightarrow> 's \<Rightarrow> 's res) \<Rightarrow> ('s \<Rightarrow> ('a \<times> 's) res) \<Rightarrow> ('s \<Rightarrow> bool) \<Rightarrow> ('s \<Rightarrow> bool) \<Rightarrow> 'a call list \<Rightarrow> 's \<Rightarrow> 'a answer list \<times> fault option" where
  "run_calls push pop full isempty [] s = ([], None)"
| "run_calls push pop full isempty (C_Push v # cs) s =
     (case push v s of Inl e \<Rightarrow> ([], Some e) | Inr s \<Rightarrow> apfst ((#) Void) (run_calls push pop full isempty cs s))"
| "run_calls push pop full isempty (C_Pop # cs) s =
     (case pop s of Inl e \<Rightarrow> ([], Some e) | Inr (v, s) \<Rightarrow> apfst ((#) (Item v)) (run_calls push pop full isempty cs s))"
| "run_calls push pop full isempty (C_Full # cs) s = apfst ((#) (Flag (full s))) (run_calls push pop full isempty cs s)"
| "run_calls push pop full isempty (C_Empty # cs) s = apfst ((#) (Flag (isempty s))) (run_calls push pop full isempty cs s)"

type_synonym 'a lifo = "nat option \<times> 'a list"

definition lifo_full :: "'a lifo \<Rightarrow> bool" where
  "lifo_full s = (fst s = Some (length (snd s)))"

definition lifo_push :: "'a \<Rightarrow> 'a lifo \<Rightarrow> 'a lifo res" where
  "lifo_push v s = (if lifo_full s then Inl Assertion_failed else Inr (fst s, v # snd s))"

definition lifo_pop :: "'a lifo \<Rightarrow> ('a \<times> 'a lifo) res" where
  "lifo_pop s = (case snd s of [] \<Rightarrow> Inl Assertion_failed | v # vs \<Rightarrow> Inr (v, fst s, vs))"

definition lifo_empty :: "'a lifo \<Rightarrow> bool" where
  "lifo_empty s = (snd s = [])"

fun count_up :: "nat \<Rightarrow> 'a::{plus,one} \<Rightarrow> 'a list" where
  "count_up 0 c = []"
| "count_up (Suc n) c = c # count_up n (c + 1)"

section \<open>The abstract class\<close>

text \<open>\<open>rep s (c, xs)\<close>: the stack \<open>s\<close> stands for the sequence \<open>xs\<close>, its top first, and has the capacity \<open>c\<close>.\<close>

locale stack_class =
  fixes push :: "'a::{plus,one} \<Rightarrow> 's \<Rightarrow> 's res" and pop :: "'s \<Rightarrow> ('a \<times> 's) res" and full :: "'s \<Rightarrow> bool" and isempty :: "'s \<Rightarrow> bool"
    and rep :: "'s \<Rightarrow> 'a lifo \<Rightarrow> bool"
  assumes push_ok: "rep s (c, xs) \<Longrightarrow> c \<noteq> Some (length xs) \<Longrightarrow> \<exists>s'. push v s = Inr s' \<and> rep s' (c, v # xs)"
    and push_full: "rep s (c, xs) \<Longrightarrow> c = Some (length xs) \<Longrightarrow> push v s = Inl Assertion_failed"
    and pop_ok: "rep s (c, v # xs) \<Longrightarrow> \<exists>s'. pop s = Inr (v, s') \<and> rep s' (c, xs)"
    and pop_empty: "rep s (c, []) \<Longrightarrow> pop s = Inl Assertion_failed"
    and empty_iff: "rep s (c, xs) \<Longrightarrow> isempty s \<longleftrightarrow> xs = []"
    and full_iff: "rep s (c, xs) \<Longrightarrow> full s \<longleftrightarrow> c = Some (length xs)"
begin

lemma calls_refine:
  "rep s a \<Longrightarrow> run_calls push pop full isempty cs s = run_calls lifo_push lifo_pop lifo_full lifo_empty cs a"
proof (induction cs arbitrary: s a)
  case (Cons k cs)
  obtain c xs where a: "a = (c, xs)" by fastforce
  note r = Cons.prems [unfolded a]
  show ?case
  proof (cases k)
    case (C_Push v)
    then show ?thesis using push_full [OF r] push_ok [OF r, of v] Cons.IH
      by (cases "c = Some (length xs)") (auto simp: a lifo_push_def lifo_full_def)
  next
    case C_Pop
    then show ?thesis using pop_empty [of s c] pop_ok [of s c "hd xs" "tl xs"] r Cons.IH
      by (cases xs) (auto simp: a lifo_pop_def)
  qed (use Cons.IH [OF Cons.prems] full_iff [OF r] empty_iff [OF r] in \<open>simp_all add: a lifo_full_def lifo_empty_def\<close>)
qed simp

lemma pop_all_ok:
  "rep s (c, xs) \<Longrightarrow> \<exists>s'. pop_all pop isempty s out = Some (Inr (out @ map Popping xs, s')) \<and> rep s' (c, [])"
proof (induction xs arbitrary: s out)
  case Nil
  then show ?case using empty_iff [OF Nil] by (subst pop_all.simps) simp
next
  case (Cons v vs)
  obtain s1 where s1: "pop s = Inr (v, s1)" "rep s1 (c, vs)" using pop_ok [OF Cons.prems] by blast
  have "pop_all pop isempty s out = pop_all pop isempty s1 (out @ [Popping v])"
    using empty_iff [OF Cons.prems] s1(1) by (subst pop_all.simps) simp
  then show ?case using Cons.IH [OF s1(2), of "out @ [Popping v]"] by simp
qed

lemma push_some_ok:
  assumes "rep s (c, xs)" "\<And>n'. c = Some n' \<Longrightarrow> length xs + n \<le> n'"
  shows "\<exists>s'. push_some push full n count s = Inr (map Pushing (count_up n count), s') \<and> rep s' (c, rev (count_up n count) @ xs)"
  using assms
proof (induction n arbitrary: count s xs)
  case (Suc n)
  have c: "c \<noteq> Some (length xs)" using Suc.prems(2) by fastforce
  then obtain s1 where s1: "push count s = Inr s1" "rep s1 (c, count # xs)" using push_ok [OF Suc.prems(1)] by blast
  have "length (count # xs) + n \<le> n'" if "c = Some n'" for n' using Suc.prems(2) [OF that] by simp
  from Suc.IH [OF s1(2) this, of "count + 1"] show ?case using c full_iff [OF Suc.prems(1)] s1(1) by auto
qed simp

lemma push_until_full_ok:
  assumes "rep s (Some (length xs + n), xs)"
  shows "\<exists>s'. push_until_full push full count s out = Some (Inr (out @ map Pushing (count_up n count), s')) \<and>
    rep s' (Some (length xs + n), rev (count_up n count) @ xs)"
  using assms
proof (induction n arbitrary: count s xs out)
  case 0
  then show ?case using full_iff [OF 0] by (subst push_until_full.simps) simp
next
  case (Suc n)
  obtain s1 where s1: "push count s = Inr s1" "rep s1 (Some (length (count # xs) + n), count # xs)" using push_ok [OF Suc.prems] by auto
  have "push_until_full push full count s out = push_until_full push full (count + 1) s1 (out @ [Pushing count])"
    using full_iff [OF Suc.prems] s1(1) by (subst push_until_full.simps) simp
  then show ?case using Suc.IH [OF s1(2), of "count + 1" "out @ [Pushing count]"] by simp
qed

lemma self_test_ok:
  assumes "rep s (c, [])" "\<And>n'. c = Some n' \<Longrightarrow> n \<le> n'"
  shows "\<exists>s'. Stack_SelfTest push pop full isempty n count s =
    Some (Inr (map Pushing (count_up n count) @ map Popping (rev (count_up n count)), s')) \<and> rep s' (c, [])"
proof -
  obtain s1 where s1: "push_some push full n count s = Inr (map Pushing (count_up n count), s1)" "rep s1 (c, rev (count_up n count))"
    using push_some_ok [OF assms(1), of n count] assms(2) by auto
  then show ?thesis using pop_all_ok [OF s1(2), of "map Pushing (count_up n count)"] by (simp add: Stack_SelfTest_def)
qed

end

section \<open>The derived classes\<close>

definition array_rep :: "'a array_stack \<Rightarrow> 'a lifo \<Rightarrow> bool" where
  "array_rep s a \<longleftrightarrow> fst a = Some (nat (as_size s)) \<and> 0 \<le> as_top s \<and> as_top s \<le> as_size s \<and> int (length (as_stack s)) = as_size s \<and>
     snd a = rev (take (nat (as_top s)) (as_stack s))"

lemma array_rep_length: "array_rep s (c, xs) \<Longrightarrow> int (length xs) = as_top s \<and> c = Some (nat (as_size s)) \<and> 0 \<le> as_size s"
  by (auto simp: array_rep_def)

lemma array_push_ok:
  assumes "array_rep s (c, xs)" "c \<noteq> Some (length xs)"
  shows "\<exists>s'. Array_Push v s = Inr s' \<and> array_rep s' (c, v # xs)"
proof -
  have t: "as_top s < as_size s" "0 \<le> as_top s" using assms array_rep_length [OF assms(1)] by (auto simp: array_rep_def)
  have l: "nat (as_top s) < length (as_stack s)" using t assms(1) by (auto simp: array_rep_def)
  have "take (nat (as_top s + 1)) ((as_stack s)[nat (as_top s) := v]) = take (nat (as_top s)) (as_stack s) @ [v]"
    using t l by (simp add: nat_add_distrib take_Suc_conv_app_nth)
  then show ?thesis using assms(1) t by (auto simp: Array_Push_def Array_Full_def array_rep_def)
qed

lemma array_pop_ok:
  assumes "array_rep s (c, v # xs)"
  shows "\<exists>s'. Array_Pop s = Inr (v, s') \<and> array_rep s' (c, xs)"
proof -
  define n where "n = length xs"
  have t: "as_top s = int n + 1" using array_rep_length [OF assms] by (simp add: n_def)
  have l: "n < length (as_stack s)" using t assms by (auto simp: array_rep_def)
  have "rev (take (Suc n) (as_stack s)) = v # xs" using assms t by (simp add: array_rep_def nat_add_distrib)
  then have "as_stack s ! n = v" "rev (take n (as_stack s)) = xs" using l by (simp_all add: take_Suc_conv_app_nth)
  then show ?thesis using assms t l by (auto simp: Array_Pop_def Array_Empty_def array_rep_def)
qed

interpretation array_stacks: stack_class Array_Push Array_Pop Array_Full Array_Empty array_rep
proof unfold_locales
  show "\<And>s c xs v. array_rep s (c, xs) \<Longrightarrow> c = Some (length xs) \<Longrightarrow> Array_Push v s = Inl Assertion_failed"
    by (auto dest!: array_rep_length simp: Array_Push_def Array_Full_def)
  show "\<And>s c. array_rep s (c, []) \<Longrightarrow> Array_Pop s = Inl Assertion_failed"
    by (auto dest!: array_rep_length simp: Array_Pop_def Array_Empty_def)
  show "\<And>s c xs. array_rep s (c, xs) \<Longrightarrow> Array_Empty s \<longleftrightarrow> xs = []"
    by (auto dest!: array_rep_length simp: Array_Empty_def)
  show "\<And>s c xs. array_rep s (c, xs) \<Longrightarrow> Array_Full s \<longleftrightarrow> c = Some (length xs)"
    by (auto dest!: array_rep_length simp: Array_Full_def)
qed (auto intro: array_push_ok array_pop_ok)

text \<open>The elements reached from \<open>p\<close> are those at the addresses \<open>ps\<close>.\<close>

fun el_chain :: "(nat \<Rightarrow> 'a element option) \<Rightarrow> nat option \<Rightarrow> nat list \<Rightarrow> 'a list \<Rightarrow> bool" where
  "el_chain h p [] xs = (p = None \<and> xs = [])"
| "el_chain h p (a # ps) xs = (p = Some a \<and> (\<exists>x xs' q. h a = Some \<lparr>el_item = x, el_next = q\<rparr> \<and> xs = x # xs' \<and> el_chain h q ps xs'))"

lemma el_chain_upd: "a \<notin> set ps \<Longrightarrow> el_chain (h(a := e)) p ps xs = el_chain h p ps xs"
  by (induction ps arbitrary: p xs) auto

definition liststack_rep :: "'a int_list \<Rightarrow> 'a lifo \<Rightarrow> bool" where
  "liststack_rep l a \<longleftrightarrow> fst a = None \<and> (\<exists>ps. el_chain (il_heap l) (il_first l) ps (snd a) \<and> distinct ps \<and> (\<forall>p\<in>set ps. p < il_new l) \<and>
     il_last l = (if ps = [] then None else Some (last ps)))"

lemma el_chain_Nil: "el_chain h p ps [] \<longleftrightarrow> ps = [] \<and> p = None"
  by (cases ps) auto

lemma liststack_rep_cap: "liststack_rep l (c, xs) \<Longrightarrow> c = None"
  by (simp add: liststack_rep_def)

lemma new_ListStack_rep: "liststack_rep new_ListStack (None, [])"
  by (simp add: liststack_rep_def new_ListStack_def el_chain_Nil)

lemma list_push_ok:
  assumes "liststack_rep l (c, xs)"
  shows "\<exists>l'. ListStack_Push v l = Inr l' \<and> liststack_rep l' (c, v # xs)"
proof -
  obtain ps where ps: "el_chain (il_heap l) (il_first l) ps xs" "distinct ps" "\<forall>p\<in>set ps. p < il_new l"
    "il_last l = (if ps = [] then None else Some (last ps))" and c: "c = None" using assms by (auto simp: liststack_rep_def)
  have new: "il_new l \<notin> set ps" using ps(3) by blast
  show ?thesis
  proof (cases "ps = []")
    case True
    then show ?thesis using ps(1) c
      by (auto simp: ListStack_Push_def IList_Prepend_def IList_Empty_def Let_def liststack_rep_def intro!: exI [of _ "[il_new l]"])
  next
    case False
    then have "il_first l \<noteq> None" using ps(1) by (cases ps) auto
    then show ?thesis using ps False new c
      by (auto simp: ListStack_Push_def IList_Prepend_def IList_Empty_def Let_def liststack_rep_def el_chain_upd less_Suc_eq intro!: exI [of _ "il_new l # ps"])
  qed
qed

lemma list_pop_ok:
  assumes "liststack_rep l (c, v # xs)"
  shows "\<exists>l'. ListStack_Pop l = Inr (v, l') \<and> liststack_rep l' (c, xs)"
proof -
  obtain a ps q where ps: "il_first l = Some a" "il_heap l a = Some \<lparr>el_item = v, el_next = q\<rparr>" "el_chain (il_heap l) q ps xs" "distinct (a # ps)"
    "\<forall>p\<in>set (a # ps). p < il_new l" "il_last l = Some (last (a # ps))" and c: "c = None"
    using assms unfolding liststack_rep_def by (elim conjE exE; case_tac ps) auto
  have one: "il_first l = il_last l \<longleftrightarrow> ps = []" using ps by (cases ps rule: rev_cases) auto
  have rest: "el_chain ((il_heap l)(a := None)) q ps xs" using ps(3,4) by (simp add: el_chain_upd)
  then show ?thesis using ps one c
    by (cases "ps = []") (auto simp: ListStack_Pop_def IList_Remove_def IList_Empty_def liststack_rep_def intro!: exI [of _ ps])
qed

interpretation list_stacks: stack_class ListStack_Push ListStack_Pop ListStack_Full IList_Empty liststack_rep
proof unfold_locales
  show "\<And>s c. liststack_rep s (c, []) \<Longrightarrow> ListStack_Pop s = Inl Assertion_failed"
    by (auto simp: liststack_rep_def el_chain_Nil ListStack_Pop_def IList_Empty_def)
  show "IList_Empty s \<longleftrightarrow> xs = []" if "liststack_rep s (c, xs)" for s c xs
  proof (cases xs)
    case Nil
    then show ?thesis using that by (auto simp: liststack_rep_def el_chain_Nil IList_Empty_def)
  next
    case (Cons x xs')
    then show ?thesis using list_pop_ok [of s c x xs'] that by (auto simp: ListStack_Pop_def ASSERT_def split: if_splits)
  qed
qed (auto intro: list_push_ok list_pop_ok dest: liststack_rep_cap simp: ListStack_Full_def)

section \<open>Theorems\<close>

text \<open>
  Any sequence of calls on a stack in an array of \<open>sz\<close> integers, or on a stack in a list, answers like a sequence with that capacity, or
  without a bound: the same items, the same failing assertion.
\<close>

theorem stacks_are_lifo:
  "(0 < sz \<longrightarrow> (\<exists>s. new_ArrayStack junk (int sz) = Inr s \<and>
      run_calls Array_Push Array_Pop Array_Full Array_Empty cs s = run_calls lifo_push lifo_pop lifo_full lifo_empty cs (Some sz, []))) \<and>
   run_calls ListStack_Push ListStack_Pop ListStack_Full IList_Empty cs new_ListStack =
     run_calls lifo_push lifo_pop lifo_full lifo_empty cs (None, [] :: 'a::{plus,one} list)"
proof -
  have "\<exists>s. new_ArrayStack junk (int sz) = Inr s \<and> array_rep s (Some sz, [])" if "0 < sz"
    using that by (auto simp: new_ArrayStack_def array_rep_def)
  then show ?thesis using array_stacks.calls_refine list_stacks.calls_refine [OF new_ListStack_rep] by blast
qed

text \<open>The self tests of \<^verbatim>\<open>inheritstack.cc\<close> (for both classes) and of \<^verbatim>\<open>stack.cc\<close> print the numbers up and then down again, and end.\<close>

theorem stack_self_tests:
  assumes "new_ArrayStack junk 10 = Inr s"
  shows "map_option (map_sum id fst) (Stack_SelfTest Array_Push Array_Pop Array_Full Array_Empty 10 start s) =
      Some (Inr (map Pushing (count_up 10 start) @ map Popping (rev (count_up 10 start))))"
    and "map_option (map_sum id fst) (Array_SelfTest start s) = Some (Inr (map Pushing (count_up 10 start) @ map Popping (rev (count_up 10 start))))"
    and "map_option (map_sum id fst) (Stack_SelfTest ListStack_Push ListStack_Pop ListStack_Full IList_Empty 10 start new_ListStack) =
      Some (Inr (map Pushing (count_up 10 start) @ map Popping (rev (count_up 10 start))))"
proof -
  have s: "array_rep s (Some 10, [])" using assms by (auto simp: new_ArrayStack_def array_rep_def)
  then show "map_option (map_sum id fst) (Stack_SelfTest Array_Push Array_Pop Array_Full Array_Empty 10 start s) =
      Some (Inr (map Pushing (count_up 10 start) @ map Popping (rev (count_up 10 start))))"
    using array_stacks.self_test_ok [OF s, of 10 start] by auto
  obtain s1 where s1: "push_until_full Array_Push Array_Full start s [] = Some (Inr (map Pushing (count_up 10 start), s1))"
    "array_rep s1 (Some 10, rev (count_up 10 start))" using array_stacks.push_until_full_ok [of s "[]" 10 start "[]"] s by auto
  then show "map_option (map_sum id fst) (Array_SelfTest start s) =
      Some (Inr (map Pushing (count_up 10 start) @ map Popping (rev (count_up 10 start))))"
    using array_stacks.pop_all_ok [OF s1(2), of "map Pushing (count_up 10 start)"] by (auto simp: Array_SelfTest_def)
  show "map_option (map_sum id fst) (Stack_SelfTest ListStack_Push ListStack_Pop ListStack_Full IList_Empty 10 start new_ListStack) =
      Some (Inr (map Pushing (count_up 10 start) @ map Popping (rev (count_up 10 start))))"
    using list_stacks.self_test_ok [OF new_ListStack_rep, of 10 start] by auto
qed

end
