(* ===== verification/Spec2Isabelle.thy ===== *)
theory Spec2Isabelle
  imports Mips Scheduling STable Process Syscall DiskFS LibTest Coff2Noff Network Boot Startup UserPrograms SelfTests WaterSystem Stacks
begin

text \<open>
  A verification development for the NachOS 4.0 kernel of this repository
  (\<^verbatim>\<open>src/NachOS-4.0/code\<close>): the simulated MIPS machine, the thread kernel that runs on it and the
  multiprogramming kernel with its system calls, as built with \<^verbatim>\<open>-DFILESYS_STUB -DRDATA -DSIM_FIX\<close>
  for a 32-bit x86 host.

  \<^bold>\<open>The parts and how they interact.\<close>  The machine (\<^verbatim>\<open>machine/\<close>) executes user instructions; every
  memory access goes through the page table of the running process.  A trap enters the kernel at
  \<^verbatim>\<open>ExceptionHandler\<close> (\<^verbatim>\<open>userprog/exception.cc\<close>), which serves system calls with the console, the
  process's open files, the process table and the table of named semaphores, and copies data
  between user and kernel memory.  Time advances one tick per instruction or per
  \<^verbatim>\<open>interrupt->Enable()\<close>; due interrupts call the timer and the devices; the timer makes the running
  thread yield.  Threads, the scheduler and the synchronisation primitives (\<^verbatim>\<open>threads/\<close>) are built
  on turning interrupts off; processes are threads with an address space whose page frames come
  from one bitmap.

  \<^bold>\<open>The theories.\<close>
  \<^item> \<open>Nachos_Prelude\<close>: faults as values (\<open>fault\<close>, \<open>res\<close>), sequencing, \<^verbatim>\<open>ASSERT\<close> of \<^verbatim>\<open>lib/debug.h\<close>, C
    division, single bits of words, counted loops.
  \<^item> \<open>Bitmap\<close> (\<^verbatim>\<open>lib/bitmap.cc\<close>): bits in an array of 32-bit words; \<open>marked\<close> is the set it stands for.
    \<open>FindAndSet\<close> takes the lowest clear bit.  The locale \<open>slot_map\<close> is what page frames and
    process numbers need of it.
  \<^item> \<open>NList\<close> (\<^verbatim>\<open>lib/list.cc\<close>): singly linked lists on an explicit heap; every operation terminates and
    implements the operation on sequences; sorted insertion is stable.
  \<^item> \<open>Machine\<close> (\<^verbatim>\<open>machine/machine.cc\<close>, \<^verbatim>\<open>translate.cc\<close>): registers, delayed loads, byte order,
    translation by page table or TLB, memory access; \<open>keeps\<close> says that an operation stays inside the
    frames its table lets it write.
  \<^item> \<open>Mips\<close> (\<^verbatim>\<open>machine/mipssim.cc\<close>): decoding, the 64-bit product, every instruction of
    \<^verbatim>\<open>OneInstruction\<close>; it is safe, host independent, and traps exactly on overflow.
  \<^item> \<open>Interrupt\<close> (\<^verbatim>\<open>machine/interrupt.cc\<close>, \<^verbatim>\<open>stats.h\<close>, \<^verbatim>\<open>timer.cc\<close>, \<^verbatim>\<open>threads/alarm.cc\<close>): the clock, the
    sorted list of pending interrupts, \<^verbatim>\<open>OneTick\<close>, \<^verbatim>\<open>CheckIfDue\<close>, \<^verbatim>\<open>Idle\<close>.
  \<^item> \<open>AddrSpace\<close> (\<^verbatim>\<open>userprog/addrspace.cc\<close>, \<^verbatim>\<open>noff.h\<close>): NOFF headers, creation and destruction of
    address spaces, loading, \<^verbatim>\<open>Execute\<close> up to \<^verbatim>\<open>machine->Run\<close>.
  \<^item> \<open>Threads\<close> (\<^verbatim>\<open>threads/thread.cc\<close>, \<^verbatim>\<open>scheduler.cc\<close>), \<open>Synch\<close> (\<^verbatim>\<open>threads/synch.cc\<close>): the kernel state,
    thread and scheduler operations with \<^verbatim>\<open>Run\<close> split at \<^verbatim>\<open>SWITCH\<close>, semaphores, locks and conditions;
    the invariant \<open>wf_kernel\<close>; the locale \<open>kernel_handlers\<close> for interrupt handlers and its
    interpretation.  \<open>Scheduling\<close>: runs of the kernel as a step relation, their invariant, round
    robin, context switches.
  \<^item> \<open>STable\<close> (\<^verbatim>\<open>threads/stable.cc\<close>): named semaphores, refining a finite map.
  \<^item> \<open>Process\<close> (\<^verbatim>\<open>threads/pcb.cc\<close>, \<^verbatim>\<open>ptable.cc\<close>): the process table; \<^verbatim>\<open>Exec\<close>, \<^verbatim>\<open>Join\<close> and \<^verbatim>\<open>Exit\<close> of
    several processes as interleaved steps between semaphore operations.
  \<^item> \<open>HostFiles\<close> (\<^verbatim>\<open>lib/sysdep.cc\<close>, \<^verbatim>\<open>filesys/openfile.h\<close>, \<^verbatim>\<open>filesys.h\<close>): the stub file system over the
    host's files.  \<open>Console\<close> (\<^verbatim>\<open>machine/console.cc\<close>, \<^verbatim>\<open>userprog/synchconsole.cc\<close>): keyboard and display.
  \<^item> \<open>Syscall\<close> (\<^verbatim>\<open>userprog/exception.cc\<close>, \<^verbatim>\<open>ksyscall.h\<close>): the handler, every system call and exception.
  \<^item> \<open>Disk\<close> (\<^verbatim>\<open>machine/disk.cc\<close>, \<^verbatim>\<open>filesys/synchdisk.cc\<close>): the disk over a host file, its latency and its
    interrupt; the synchronous disk is an array of sectors.  \<open>DiskFile\<close> (\<^verbatim>\<open>filesys/filehdr.cc\<close>,
    \<^verbatim>\<open>openfile.cc\<close>, \<^verbatim>\<open>pbitmap.cc\<close>): a file is a byte sequence of fixed length.  \<open>DiskFS\<close>
    (\<^verbatim>\<open>filesys/directory.cc\<close>, \<^verbatim>\<open>filesys.cc\<close>): the file system of builds without \<^verbatim>\<open>FILESYS_STUB\<close>; the
    invariant of a disk, refinement of a map from names to contents, formatting and reopening; the
    locale \<open>file_store\<close> carries sequences of operations.  \<open>FSPrint\<close>: dumping the disk; a dump shows every file
    with its whole content and changes nothing.
  \<^item> \<open>Hash\<close> (\<^verbatim>\<open>lib/hash.cc\<close>): the hash table over linked lists, its growth and its iterator; it implements a
    set of keyed items.  \<open>LibTest\<close> (\<^verbatim>\<open>lib/libtest.cc\<close>): the self tests of the library run to their end.
  \<^item> \<open>SynchList\<close> (\<^verbatim>\<open>threads/synchlist.cc\<close>): the list as a monitor, with the threads that use it interleaved at
    every operation on its lock and condition; an invariant by induction on reachable states shows that
    items come out in order, that no wake-up is lost and that there is no deadlock.  \<open>SelfTests\<close>: the
    self tests of semaphores and synchronised lists end under every interleaving (locale \<open>token_channel\<close>).
  \<^item> \<open>Network\<close> (\<^verbatim>\<open>machine/network.cc\<close>, \<^verbatim>\<open>network/post.cc\<close>, the sockets of \<^verbatim>\<open>lib/sysdep.cc\<close>): packets and mail with
    their headers as bytes, loss and retries, interrupts, the postal worker and the mailboxes;
    letters between two machines arrive in order and intact.
  \<^item> \<open>Coff2Noff\<close> (\<^verbatim>\<open>src/NachOS-4.0/coff2noff/coff2noff.c\<close>): the converter of object files; what it
    outputs is what \<open>AddrSpace\<close> loads.
  \<^item> \<open>Boot\<close> and \<open>Startup\<close> (\<^verbatim>\<open>threads/main.cc\<close>, \<^verbatim>\<open>kernel.cc\<close>): the first program on a fresh machine; the
    command line, copying files to and printing files of the simulated disk, the console test and the
    network test between two machines.
  \<^item> \<open>UserPrograms\<close> (\<^verbatim>\<open>code/test\<close>): the sorting programs and the matrix product; the locale
    \<open>exchange_order\<close> proves a bubble sort once for both orders.  \<open>WaterSystem\<close>: the three programs of the water
    system, interleaved at their semaphore operations, end with the right output.
  \<^item> \<open>Stacks\<close> (\<^verbatim>\<open>src/NachOS-4.0/c++example\<close>): the stacks of the C++ examples; the abstract class is the locale
    \<open>stack_class\<close>, interpreted by the array and by the list.

  \<^bold>\<open>Conventions.\<close>  A failing \<^verbatim>\<open>ASSERT\<close>, a use of memory the program does not own, an uninitialised
  read and a trap of the host are \<open>Inl\<close> of a \<open>fault\<close>, so that a theorem that an operation returns
  also says that none of them happens.  Loops over memory structures that the code does not bound
  are \<open>partial_function (option)\<close>; \<open>None\<close> is a loop that never ends or a thread that waits for ever, and
  theorems show \<open>Some\<close>.  No other fuel or bound is used.  32-bit registers and counters are words;
  sizes that the code keeps in \<^verbatim>\<open>int\<close> and that cannot overflow on the sizes of the machine are
  \<open>int\<close> or \<open>nat\<close>.

  \<^bold>\<open>Environment.\<close>  Host operations are modelled by their POSIX contract (files, in \<open>HostFiles\<close>) or
  are inputs: the random numbers, the characters that will be typed, which names the host lets
  the kernel create, whether the host accepts a datagram, and the contents of uninitialised buffers.

  \<^bold>\<open>Not modelled.\<close>  Debug output and statistics printing, the messages of start-up, the interactive debugger, the assembly of \<^verbatim>\<open>SWITCH\<close> (its effect is the split
  of \<^verbatim>\<open>Run\<close>), destructors whose only effect is to free memory, the user programs
  under \<^verbatim>\<open>test/\<close> that only call the kernel, and the headers of the cross compiler under \<^verbatim>\<open>src/usr\<close>.
\<close>

end
